(* ===== verification/Rust_Prelude.thy ===== *)
theory Rust_Prelude
  imports Main "HOL-Library.Word" "HOL-Library.Code_Target_Nat"
begin

text \<open>
  What the components share: the machine types, panics as values, the checked operations
  of Rust's standard library that the sources use (indexing, subtraction, \<open>VecDeque\<close>), and
  the facts about 16 bit words behind every sequence number comparison.

  The build that is modelled is the one the repository's tests run (profile \<open>dev\<close>): integer
  overflow and failed \<open>debug_assert!\<close>s panic. A panic is a value of type \<open>panic\<close>, carried by
  the left side of a sum; the state a panicking call leaves behind is not modelled, since no
  code of the crate catches a panic.
\<close>

section \<open>Machine types and panics\<close>

type_synonym u8 = "8 word"
type_synonym u16 = "16 word"
type_synonym u32 = "32 word"
type_synonym u64 = "64 word"

text \<open>\<open>usize\<close> is \<open>nat\<close>: sizes are bounded by memory, so additions never wrap; every
  subtraction goes through \<open>checked_sub\<close>, every narrowing is written out.\<close>

type_synonym usize = nat

datatype panic =
    AssertionFailed
  | ArithmeticOverflow
  | DivisionByZero
  | IndexOutOfBounds
  | UnwrapOnNone
  | UnwrapOnErr
  | DesyncTooNew      \<comment> \<open>reliable.rs: "return a desync error (1)"\<close>
  | DesyncTooOld      \<comment> \<open>reliable.rs: "return a desync error (2)"\<close>
  | ExceededIterations  \<comment> \<open>the tests: "exceeded maximum iterations allowed"\<close>

text \<open>Sequencing of fallible steps: the first failure is the result.\<close>

fun rbind :: "'e + 'a \<Rightarrow> ('a \<Rightarrow> 'e + 'b) \<Rightarrow> 'e + 'b" where
  "rbind (Inl e) f = Inl e"
| "rbind (Inr x) f = f x"

lemma rbind_cong [fundef_cong]:
  "m = m' \<Longrightarrow> (\<And>x. m' = Inr x \<Longrightarrow> f x = f' x) \<Longrightarrow> rbind m f = rbind m' f'"
  by (cases m') auto

lemma rbind_eq_Inr: "rbind m f = Inr y \<longleftrightarrow> (\<exists>x. m = Inr x \<and> f x = Inr y)"
  by (cases m) auto

lemma rbind_eq_Inl: "rbind m f = Inl e \<longleftrightarrow> m = Inl e \<or> (\<exists>x. m = Inr x \<and> f x = Inl e)"
  by (cases m) auto

lemma rbind_assoc: "rbind (rbind m f) g = rbind m (\<lambda>x. rbind (f x) g)"
  by (cases m) auto

lemma rbind_Inr [simp]: "rbind m Inr = m"
  by (cases m) auto

text \<open>A \<open>for\<close> loop over a list whose body may fail.\<close>

fun rfold :: "('s \<Rightarrow> 'a \<Rightarrow> 'e + 's) \<Rightarrow> 's \<Rightarrow> 'a list \<Rightarrow> 'e + 's" where
  "rfold f s [] = Inr s"
| "rfold f s (x # xs) = rbind (f s x) (\<lambda>s'. rfold f s' xs)"

lemma rfold_cong [fundef_cong]:
  "s = s' \<Longrightarrow> xs = xs' \<Longrightarrow> (\<And>t x. x \<in> set xs' \<Longrightarrow> f t x = g t x) \<Longrightarrow> rfold f s xs = rfold g s' xs'"
  by (induction xs' arbitrary: s s' xs) (auto intro!: rbind_cong)

lemma rfold_append: "rfold f s (xs @ ys) = rbind (rfold f s xs) (\<lambda>s'. rfold f s' ys)"
  by (induction xs arbitrary: s) (auto simp: rbind_assoc)

lemma rfold_invariant:
  assumes "rfold f s xs = Inr t" and "P s"
    and "\<And>s x s'. x \<in> set xs \<Longrightarrow> P s \<Longrightarrow> f s x = Inr s' \<Longrightarrow> P s'"
  shows "P t"
  using assms by (induction xs arbitrary: s) (auto simp: rbind_eq_Inr)

text \<open>A \<open>for\<close> loop over a range, by a loop invariant indexed by the counter.\<close>

lemma rfold_upt:
  assumes "I m s" "m \<le> n" and "\<And>i s. m \<le> i \<Longrightarrow> i < n \<Longrightarrow> I i s \<Longrightarrow> \<exists>s'. f s i = Inr s' \<and> I (Suc i) s'"
  shows "\<exists>s'. rfold f s [m..<n] = Inr s' \<and> I n s'"
  using assms(2) assms(3)
proof (induction n rule: dec_induct)
  case base
  then show ?case using assms(1) by simp
next
  case (step n)
  then obtain t where t: "rfold f s [m..<n] = Inr t" "I n t" by fastforce
  obtain t' where "f t n = Inr t'" "I (Suc n) t'" using step.prems[OF step.hyps(1) _ t(2)] by auto
  then show ?case using t(1) step.hyps(1) by (simp add: rfold_append)
qed

lemma rfold_Inr_const: "(\<And>x. x \<in> set xs \<Longrightarrow> f s x = Inr s) \<Longrightarrow> rfold f s xs = Inr s"
  by (induction xs) auto

text \<open>\<open>assert!\<close> and \<open>assert_eq!\<close>.\<close>

definition rassert :: "bool \<Rightarrow> panic + unit" where
  "rassert b = (if b then Inr () else Inl AssertionFailed)"

lemma rassert_Inr [simp]: "b \<Longrightarrow> rassert b = Inr ()"
  by (simp add: rassert_def)

section \<open>Checked operations of the standard library\<close>

definition checked_sub :: "usize \<Rightarrow> usize \<Rightarrow> panic + usize" where
  "checked_sub a b = (if b \<le> a then Inr (a - b) else Inl ArithmeticOverflow)"

definition vec_index :: "'a list \<Rightarrow> usize \<Rightarrow> panic + 'a" where
  "vec_index xs i = (if i < length xs then Inr (xs ! i) else Inl IndexOutOfBounds)"

definition vec_update :: "'a list \<Rightarrow> usize \<Rightarrow> 'a \<Rightarrow> panic + 'a list" where
  "vec_update xs i v = (if i < length xs then Inr (xs[i := v]) else Inl IndexOutOfBounds)"

lemma checked_sub_Inr [simp]: "b \<le> a \<Longrightarrow> checked_sub a b = Inr (a - b)"
  and checked_sub_Inl [simp]: "a < b \<Longrightarrow> checked_sub a b = Inl ArithmeticOverflow"
  by (simp_all add: checked_sub_def)

lemma checked_sub_eq_Inr: "checked_sub a b = Inr c \<longleftrightarrow> b \<le> a \<and> c = a - b"
  by (auto simp: checked_sub_def)

lemma vec_index_Inr [simp]: "i < length xs \<Longrightarrow> vec_index xs i = Inr (xs ! i)"
  and vec_update_Inr [simp]: "i < length xs \<Longrightarrow> vec_update xs i v = Inr (xs[i := v])"
  by (simp_all add: vec_index_def vec_update_def)

lemma vec_index_eq_Inr: "vec_index xs i = Inr x \<longleftrightarrow> i < length xs \<and> x = xs ! i"
  and vec_update_eq_Inr: "vec_update xs i v = Inr ys \<longleftrightarrow> i < length xs \<and> ys = xs[i := v]"
  by (auto simp: vec_index_def vec_update_def)

text \<open>
  \<open>std::collections::VecDeque\<close> with its capacity. \<open>with_capacity n\<close> reserves \<open>n\<close> slots
  (exact for element types that are not zero sized, which the server asserts of its message
  type); pushing onto a full deque doubles the buffer.
\<close>

record 'a vec_deque =
  vd_items :: "'a list"
  vd_capacity :: usize

definition vd_with_capacity :: "usize \<Rightarrow> 'a vec_deque" where
  "vd_with_capacity n = \<lparr>vd_items = [], vd_capacity = n\<rparr>"

definition vd_push_back :: "'a vec_deque \<Rightarrow> 'a \<Rightarrow> 'a vec_deque" where
  "vd_push_back d x =
     (if length (vd_items d) < vd_capacity d
      then d\<lparr>vd_items := vd_items d @ [x]\<rparr>
      else d\<lparr>vd_items := vd_items d @ [x], vd_capacity := max 4 (2 * vd_capacity d)\<rparr>)"

fun vd_pop_front :: "'a vec_deque \<Rightarrow> 'a option \<times> 'a vec_deque" where
  "vd_pop_front d =
     (case vd_items d of [] \<Rightarrow> (None, d) | x # xs \<Rightarrow> (Some x, d\<lparr>vd_items := xs\<rparr>))"

definition vd_clear :: "'a vec_deque \<Rightarrow> 'a vec_deque" where
  "vd_clear d = d\<lparr>vd_items := []\<rparr>"

lemma vd_items_push_back [simp]: "vd_items (vd_push_back d x) = vd_items d @ [x]"
  by (simp add: vd_push_back_def)

lemma vd_capacity_push_back [simp]:
  "length (vd_items d) < vd_capacity d \<Longrightarrow> vd_capacity (vd_push_back d x) = vd_capacity d"
  by (simp add: vd_push_back_def)

lemma vd_clear_simps [simp]:
  "vd_items (vd_clear d) = []" "vd_capacity (vd_clear d) = vd_capacity d"
  by (simp_all add: vd_clear_def)

lemma vd_with_capacity_simps [simp]:
  "vd_items (vd_with_capacity n) = []" "vd_capacity (vd_with_capacity n) = n"
  by (simp_all add: vd_with_capacity_def)

section \<open>Sixteen bit arithmetic\<close>

lemma unat_u16_less: "unat (x :: u16) < 65536"
  using unsigned_less [of x, where ?'a = nat] by simp

lemma unat_u16_le: "unat (x :: u16) \<le> 65535"
  using unat_u16_less [of x] by linarith

lemma unat_u16_add: "unat (a + b :: u16) = (unat a + unat b) mod 65536"
  by (simp add: unat_word_ariths)

lemma unat_u16_Suc: "unat (a + 1 :: u16) = (unat a + 1) mod 65536"
  by (simp add: unat_word_ariths)

lemma unat_u16_diff:
  "unat (a - b :: u16) = (if unat b \<le> unat a then unat a - unat b else 65536 + unat a - unat b)"
proof (cases "unat b \<le> unat a")
  case True
  then have "b \<le> a" by (simp add: word_le_nat_alt)
  with True show ?thesis by (simp add: unat_sub)
next
  case False
  have "unat (a - b) = unat a + 65536 - unat b"
    using False by (simp add: unat_sub_if' word_le_nat_alt)
  with False show ?thesis by simp
qed

lemma unat_u16_of_nat: "unat (of_nat n :: u16) = n mod 65536"
  by (simp add: unat_of_nat)

lemma u16_eq_iff: "(a :: u16) = b \<longleftrightarrow> unat a = unat b"
  by (rule word_unat_eq_iff)

lemma u16_less_iff: "(a :: u16) < b \<longleftrightarrow> unat a < unat b"
  by (simp add: word_less_nat_alt)

text \<open>The collections the component theories extend: what unfolds an operation, and the
  facts that hold of a well formed state.\<close>

named_theorems step_defs \<open>definitions of the operations of a component\<close>
named_theorems wf_intros \<open>every operation keeps the invariant of its component\<close>

end
