(* ===== verification/Sequence_Buffer.thy ===== *)
theory Sequence_Buffer
  imports Rust_Prelude
begin

text \<open>
  \<open>src/channel/sequence_buffer.rs\<close>: the ring buffer indexed by 16 bit sequence numbers that
  holds the reliable channel's send queue, receive queue and sent packets, and the wrapping
  order on sequence numbers.

  The first section is the code. The second gives the order in terms of the distance
  \<open>unat (s1 - s2)\<close>. The third reads a buffer as a partial map from sequence numbers to
  entries (\<open>sb_lookup\<close>) and proves what every operation does to that map; the last
  shows that a buffer whose size divides \<open>65536\<close> is a sliding window over the sequence
  numbers, states this as the locale \<open>window_map\<close> and interprets it on the code.
\<close>

section \<open>The code\<close>

record 'a sequence_buffer =
  sb_sequence :: u16
  sb_entry_sequence :: "u16 option list"
  sb_entries :: "'a option list"

definition sb_new :: "usize \<Rightarrow> panic + 'a sequence_buffer" where
  "sb_new n =
     (if n \<le> 65535
      then Inr \<lparr>sb_sequence = 0, sb_entry_sequence = replicate n None,
                sb_entries = replicate n None\<rparr>
      else Inl AssertionFailed)"

text \<open>\<open>reset\<close> leaves the entries themselves in place.\<close>

definition sb_reset :: "'a sequence_buffer \<Rightarrow> 'a sequence_buffer" where
  "sb_reset sb =
     sb\<lparr>sb_sequence := 0, sb_entry_sequence := map (\<lambda>_. None) (sb_entry_sequence sb)\<rparr>"

definition sb_sequence_pointer :: "'a sequence_buffer \<Rightarrow> u16" where
  "sb_sequence_pointer sb = sb_sequence sb"

text \<open>The two \<open>debug_assert_eq!\<close>s of \<open>capacity\<close> compare lengths that no operation changes;
  that they agree is part of \<open>sb_wf\<close>.\<close>

definition sb_capacity :: "'a sequence_buffer \<Rightarrow> usize" where
  "sb_capacity sb = length (sb_entries sb)"

definition sequence_greater_than :: "u16 \<Rightarrow> u16 \<Rightarrow> bool" where
  "sequence_greater_than s1 s2 \<longleftrightarrow>
     (s1 > s2 \<and> s1 - s2 \<le> 32768) \<or> (s1 < s2 \<and> s2 - s1 > 32768)"

definition sequence_less_than :: "u16 \<Rightarrow> u16 \<Rightarrow> bool" where
  "sequence_less_than s1 s2 \<longleftrightarrow> sequence_greater_than s2 s1"

definition sb_sequence_index :: "'a sequence_buffer \<Rightarrow> u16 \<Rightarrow> panic + usize" where
  "sb_sequence_index sb sequence =
     (if sb_capacity sb = 0 then Inl DivisionByZero
      else Inr (unat sequence mod sb_capacity sb))"

definition sb_available :: "'a sequence_buffer \<Rightarrow> u16 \<Rightarrow> panic + bool" where
  "sb_available sb sequence =
     rbind (sb_sequence_index sb sequence) (\<lambda>index.
     rbind (vec_index (sb_entry_sequence sb) index) (\<lambda>e. Inr (e = None)))"

definition sb_exists :: "'a sequence_buffer \<Rightarrow> u16 \<Rightarrow> panic + bool" where
  "sb_exists sb sequence =
     rbind (sb_sequence_index sb sequence) (\<lambda>index.
     rbind (vec_index (sb_entry_sequence sb) index) (\<lambda>e. Inr (e = Some sequence)))"

definition sb_take ::
  "'a sequence_buffer \<Rightarrow> u16 \<Rightarrow> panic + ('a option \<times> 'a sequence_buffer)" where
  "sb_take sb sequence =
     rbind (sb_exists sb sequence) (\<lambda>ex.
     if ex then
       rbind (sb_sequence_index sb sequence) (\<lambda>index.
       rbind (vec_update (sb_entry_sequence sb) index None) (\<lambda>es.
       rbind (vec_index (sb_entries sb) index) (\<lambda>v.
       rbind (vec_update (sb_entries sb) index None) (\<lambda>en.
       Inr (v, sb\<lparr>sb_entry_sequence := es, sb_entries := en\<rparr>)))))
     else Inr (None, sb))"

definition sb_get :: "'a sequence_buffer \<Rightarrow> u16 \<Rightarrow> panic + 'a option" where
  "sb_get sb sequence =
     rbind (sb_exists sb sequence) (\<lambda>ex.
     if ex then rbind (sb_sequence_index sb sequence) (vec_index (sb_entries sb))
     else Inr None)"

text \<open>\<open>get_mut\<close> returns a mutable reference: the entry together with the buffer that
  results from writing through the reference.\<close>

definition sb_get_mut ::
  "'a sequence_buffer \<Rightarrow> u16 \<Rightarrow> panic + ('a \<times> ('a \<Rightarrow> 'a sequence_buffer)) option" where
  "sb_get_mut sb sequence =
     rbind (sb_exists sb sequence) (\<lambda>ex.
     if ex then
       rbind (sb_sequence_index sb sequence) (\<lambda>index.
       rbind (vec_index (sb_entries sb) index) (\<lambda>e.
       Inr (map_option (\<lambda>v. (v, \<lambda>v'. sb\<lparr>sb_entries := (sb_entries sb)[index := Some v']\<rparr>)) e)))
     else Inr None)"

text \<open>The loop index is below the capacity, and both vectors have that length, so the
  indexed writes of the loop stay in range.\<close>

definition sb_remove_entries :: "'a sequence_buffer \<Rightarrow> u16 \<Rightarrow> u16 \<Rightarrow> 'a sequence_buffer" where
  "sb_remove_entries sb start_sequence end_sequence =
     (let start = unat start_sequence;
          end0 = unat end_sequence;
          end1 = (if end0 < start then end0 + 65535 else end0)
      in if end1 - start < sb_capacity sb
         then sb\<lparr>sb_entry_sequence :=
                foldl (\<lambda>es sequence. es[sequence mod sb_capacity sb := None])
                  (sb_entry_sequence sb) [start..<Suc end1]\<rparr>
         else sb\<lparr>sb_entry_sequence := map (\<lambda>_. None) (sb_entry_sequence sb)\<rparr>)"

text \<open>The tail of \<open>insert_with\<close>: claim the slot, run the constructor, store its value. The
  constructor is an \<open>FnOnce\<close> that may panic and may write to what it captures: it takes the
  captured state and returns it.\<close>

definition sb_store ::
  "'a sequence_buffer \<Rightarrow> u16 \<Rightarrow> ('s \<Rightarrow> panic + ('a \<times> 's)) \<Rightarrow> 's
     \<Rightarrow> panic + (bool \<times> 'a sequence_buffer \<times> 's)" where
  "sb_store sb sequence f env =
     rbind (sb_sequence_index sb sequence) (\<lambda>index.
     rbind (vec_update (sb_entry_sequence sb) index (Some sequence)) (\<lambda>es.
     rbind (f env) (\<lambda>(v, env').
     rbind (vec_update (sb_entries sb) index (Some v)) (\<lambda>en.
     Inr (True, sb\<lparr>sb_entry_sequence := es, sb_entries := en\<rparr>, env')))))"

definition sb_insert_with ::
  "'a sequence_buffer \<Rightarrow> u16 \<Rightarrow> ('s \<Rightarrow> panic + ('a \<times> 's)) \<Rightarrow> 's
     \<Rightarrow> panic + (bool \<times> 'a sequence_buffer \<times> 's)" where
  "sb_insert_with sb sequence f env =
     (let next_sequence = sequence + 1 in
      if sequence_greater_than next_sequence (sb_sequence sb)
      then sb_store ((sb_remove_entries sb (sb_sequence sb) sequence)\<lparr>sb_sequence := next_sequence\<rparr>)
             sequence f env
      else if sequence_less_than sequence (sb_sequence sb - of_nat (sb_capacity sb))
      then Inr (False, sb, env)
      else sb_store sb sequence f env)"

section \<open>The order on sequence numbers\<close>

lemma sequence_greater_than_dist:
  "sequence_greater_than a b \<longleftrightarrow>
     (0 < unat (a - b) \<and> unat (a - b) < 32768) \<or> (unat (a - b) = 32768 \<and> unat b < unat a)"
  using unat_u16_less [of a] unat_u16_less [of b]
  by (auto simp: sequence_greater_than_def u16_less_iff word_le_nat_alt unat_u16_diff
      split: if_splits)

lemma sequence_greater_than_irrefl [simp]: "\<not> sequence_greater_than a a"
  by (simp add: sequence_greater_than_def)

lemma sequence_greater_than_near:
  "0 < unat (a - b) \<Longrightarrow> unat (a - b) < 32768 \<Longrightarrow> sequence_greater_than a b"
  by (simp add: sequence_greater_than_dist)

lemma sequence_greater_than_next [simp]: "sequence_greater_than (a + 1) a"
  by (rule sequence_greater_than_near) simp_all

lemma unat_neg_diff: "a \<noteq> b \<Longrightarrow> unat (b - a :: u16) = 65536 - unat (a - b)"
  using unat_u16_less [of a] unat_u16_less [of b]
  by (auto simp: unat_u16_diff u16_eq_iff)

lemma sequence_greater_than_far:
  "32768 < unat (a - b) \<Longrightarrow> \<not> sequence_greater_than a b"
  by (simp add: sequence_greater_than_dist)

text \<open>Distances to a common origin.\<close>

lemma u16_dist_split:
  "unat (a - r :: u16) \<le> unat (b - r) \<Longrightarrow> unat (b - a) = unat (b - r) - unat (a - r)"
proof -
  assume "unat (a - r) \<le> unat (b - r)"
  moreover have "b - a = (b - r) - (a - r)" by simp
  ultimately show ?thesis by (simp only: unat_u16_diff[of "b - r" "a - r"]) simp
qed

lemma u16_dist_split':
  "unat (b - r :: u16) < unat (a - r) \<Longrightarrow> unat (b - a) = 65536 - (unat (a - r) - unat (b - r))"
proof -
  assume less: "unat (b - r) < unat (a - r)"
  have "b - a = (b - r) - (a - r)" by simp
  then have "unat (b - a) = 65536 + unat (b - r) - unat (a - r)"
    using less by (simp only: unat_u16_diff[of "b - r" "a - r"]) simp
  then show ?thesis using less unat_u16_less[of "a - r"] by simp
qed

lemma u16_dist_next: "unat (a - r) < 65535 \<Longrightarrow> unat (a + 1 - r :: u16) = unat (a - r) + 1"
proof -
  assume "unat (a - r) < 65535"
  moreover have "a + 1 - r = (a - r) + 1" by simp
  ultimately show ?thesis by (simp only: unat_u16_Suc) simp
qed

lemma u16_dist_of_nat: "n < 65536 \<Longrightarrow> unat (r + of_nat n - r :: u16) = n"
  by (simp add: unat_u16_of_nat)

lemma u16_dist_pred: "s \<noteq> r \<Longrightarrow> unat (s - (r + 1) :: u16) = unat (s - r) - 1"
proof -
  assume "s \<noteq> r"
  then have "unat (s - r) \<noteq> 0" by (simp add: unat_eq_0)
  moreover have "s - (r + 1) = (s - r) - 1" by simp
  ultimately show ?thesis by (simp only: unat_u16_diff[of "s - r" 1]) simp
qed

section \<open>A buffer as a partial map\<close>

definition sb_index :: "'a sequence_buffer \<Rightarrow> u16 \<Rightarrow> nat" where
  "sb_index sb s = unat s mod sb_capacity sb"

definition sb_lookup :: "'a sequence_buffer \<Rightarrow> u16 \<Rightarrow> 'a option" where
  "sb_lookup sb s =
     (if sb_entry_sequence sb ! sb_index sb s = Some s then sb_entries sb ! sb_index sb s else None)"

definition sb_slot_free :: "'a sequence_buffer \<Rightarrow> u16 \<Rightarrow> bool" where
  "sb_slot_free sb s \<longleftrightarrow> (\<forall>q. sb_index sb q = sb_index sb s \<longrightarrow> sb_lookup sb q = None)"

text \<open>Well formed: both vectors have the capacity's length, and a claimed slot is the slot of
  its sequence number and holds an entry.\<close>

definition sb_wf :: "'a sequence_buffer \<Rightarrow> bool" where
  "sb_wf sb \<longleftrightarrow>
     0 < sb_capacity sb \<and> sb_capacity sb \<le> 65535 \<and>
     length (sb_entry_sequence sb) = sb_capacity sb \<and>
     (\<forall>i s. i < sb_capacity sb \<longrightarrow> sb_entry_sequence sb ! i = Some s \<longrightarrow>
        sb_index sb s = i \<and> sb_entries sb ! i \<noteq> None)"

lemma sb_wfD:
  assumes "sb_wf sb"
  shows "0 < sb_capacity sb" "sb_capacity sb \<le> 65535"
    "length (sb_entry_sequence sb) = sb_capacity sb" "length (sb_entries sb) = sb_capacity sb"
  using assms by (auto simp: sb_wf_def sb_capacity_def)

lemma sb_index_less: "sb_wf sb \<Longrightarrow> sb_index sb s < sb_capacity sb"
  by (simp add: sb_wf_def sb_index_def)

lemma sb_wf_slot:
  assumes "sb_wf sb" "i < sb_capacity sb" "sb_entry_sequence sb ! i = Some s"
  shows "sb_index sb s = i" "sb_entries sb ! i \<noteq> None" "sb_lookup sb s = sb_entries sb ! i"
  using assms by (auto simp: sb_wf_def sb_lookup_def)

lemma sb_lookup_claimed:
  "sb_wf sb \<Longrightarrow> sb_lookup sb s \<noteq> None \<longleftrightarrow> sb_entry_sequence sb ! sb_index sb s = Some s"
  using sb_wf_slot(2)[OF _ sb_index_less] by (auto simp: sb_lookup_def)

lemma sb_lookup_Some_claimed:
  "sb_wf sb \<Longrightarrow> (\<exists>v. sb_lookup sb s = Some v) \<longleftrightarrow> sb_entry_sequence sb ! sb_index sb s = Some s"
  using sb_lookup_claimed[of sb s] by simp

text \<open>Two live sequence numbers never share a slot.\<close>

lemma sb_lookup_unique:
  assumes "sb_wf sb" "sb_lookup sb p \<noteq> None" "sb_lookup sb q \<noteq> None" "sb_index sb p = sb_index sb q"
  shows "p = q"
  using assms by (simp add: sb_lookup_claimed[OF assms(1)] del: not_None_eq)

lemma sb_sequence_index_wf: "sb_wf sb \<Longrightarrow> sb_sequence_index sb s = Inr (sb_index sb s)"
  by (simp add: sb_sequence_index_def sb_index_def sb_wf_def)

lemma sb_exists_wf: "sb_wf sb \<Longrightarrow> sb_exists sb s = Inr (sb_lookup sb s \<noteq> None)"
  using sb_wfD[of sb] sb_index_less[of sb s] by (simp add: sb_exists_def sb_sequence_index_wf sb_lookup_Some_claimed)

lemma sb_get_wf: "sb_wf sb \<Longrightarrow> sb_get sb s = Inr (sb_lookup sb s)"
  using sb_wfD[of sb] sb_index_less[of sb s]
  by (auto simp: sb_get_def sb_exists_wf sb_sequence_index_wf sb_lookup_def)

lemma sb_slot_free_iff:
  assumes "sb_wf sb"
  shows "sb_slot_free sb s \<longleftrightarrow> sb_entry_sequence sb ! sb_index sb s = None"
proof (cases "sb_entry_sequence sb ! sb_index sb s")
  case None
  then show ?thesis by (auto simp: sb_slot_free_def sb_lookup_def)
next
  case (Some q)
  with sb_wf_slot[OF assms sb_index_less[OF assms] Some] show ?thesis
    by (auto simp: sb_slot_free_def)
qed

lemma sb_available_wf: "sb_wf sb \<Longrightarrow> sb_available sb s = Inr (sb_slot_free sb s)"
  using sb_wfD[of sb] sb_index_less[of sb s] by (simp add: sb_available_def sb_sequence_index_wf sb_slot_free_iff)

lemmas sb_reads = sb_sequence_index_wf sb_exists_wf sb_get_wf sb_available_wf

lemma sb_slot_freeD: "sb_slot_free sb s \<Longrightarrow> sb_lookup sb s = None"
  by (simp add: sb_slot_free_def)

subsection \<open>Creation and reset\<close>

lemma sb_new_wf:
  assumes "sb_new n = Inr sb" "0 < n"
  shows "sb_wf sb" "sb_capacity sb = n" "sb_lookup sb s = None" "sb_sequence sb = 0"
proof -
  have "n \<le> 65535" and sb: "sb = \<lparr>sb_sequence = 0, sb_entry_sequence = replicate n None,
      sb_entries = replicate n None\<rparr>"
    using assms(1) by (auto simp: sb_new_def split: if_splits)
  then show "sb_wf sb" "sb_capacity sb = n" "sb_sequence sb = 0"
    using assms(2) by (auto simp: sb_wf_def sb_capacity_def)
  show "sb_lookup sb s = None"
    using assms(2) by (simp add: sb sb_lookup_def sb_index_def sb_capacity_def)
qed

lemma sb_reset_simps [simp]:
  "sb_capacity (sb_reset sb) = sb_capacity sb" "sb_sequence (sb_reset sb) = 0"
  "sb_index (sb_reset sb) s = sb_index sb s"
  by (simp_all add: sb_reset_def sb_capacity_def sb_index_def)

lemma sb_reset_lookup: "sb_wf sb \<Longrightarrow> sb_lookup (sb_reset sb) s = None"
  using sb_wfD[of sb] sb_index_less[of sb s] by (simp add: sb_lookup_def, simp add: sb_reset_def)

lemma sb_reset_wf: "sb_wf sb \<Longrightarrow> sb_wf (sb_reset sb)"
  using sb_wfD[of sb] unfolding sb_wf_def by simp (simp add: sb_reset_def)

subsection \<open>Taking and writing entries\<close>

lemma sb_take_wf:
  assumes wf: "sb_wf sb"
  obtains sb' where "sb_take sb s = Inr (sb_lookup sb s, sb')" "sb_wf sb'"
    "sb_lookup sb' = (sb_lookup sb)(s := None)"
    "sb_capacity sb' = sb_capacity sb" "sb_sequence sb' = sb_sequence sb"
proof (cases "sb_lookup sb s = None")
  case True
  with wf have "sb_take sb s = Inr (sb_lookup sb s, sb)"
    by (simp add: sb_take_def sb_reads)
  moreover have "sb_lookup sb = (sb_lookup sb)(s := None)"
    using True by (simp add: fun_eq_iff)
  ultimately show ?thesis using wf by (intro that[of sb]) auto
next
  case False
  let ?i = "sb_index sb s"
  let ?sb' = "sb\<lparr>sb_entry_sequence := (sb_entry_sequence sb)[?i := None],
      sb_entries := (sb_entries sb)[?i := None]\<rparr>"
  note D = sb_wfD[OF wf] sb_index_less[OF wf, of s]
  from False have claimed: "sb_entry_sequence sb ! ?i = Some s"
    by (simp add: sb_lookup_Some_claimed[OF wf])
  have cap: "sb_capacity ?sb' = sb_capacity sb" and idx: "sb_index ?sb' q = sb_index sb q" for q
    by (simp_all add: sb_capacity_def sb_index_def)
  show ?thesis
  proof (rule that[of ?sb'])
    show "sb_take sb s = Inr (sb_lookup sb s, ?sb')"
      using False D claimed by (simp add: sb_take_def sb_reads wf sb_lookup_def)
    show "sb_wf ?sb'"
      unfolding sb_wf_def cap idx using wf D
      by (auto simp: nth_list_update sb_wf_def split: if_splits)
    show "sb_lookup ?sb' = (sb_lookup sb)(s := None)"
      unfolding fun_eq_iff
    proof
      fix q
      show "sb_lookup ?sb' q = ((sb_lookup sb)(s := None)) q"
        using claimed D sb_index_less[OF wf, of q]
        by (auto simp: sb_lookup_def idx nth_list_update)
    qed
  qed (simp_all add: cap)
qed

lemma sb_get_mut_wf:
  assumes wf: "sb_wf sb"
  shows "sb_lookup sb s = None \<Longrightarrow> sb_get_mut sb s = Inr None"
    and "sb_lookup sb s = Some v \<Longrightarrow>
      \<exists>wr. sb_get_mut sb s = Inr (Some (v, wr)) \<and>
        (\<forall>v'. sb_wf (wr v') \<and> sb_lookup (wr v') = (sb_lookup sb)(s \<mapsto> v') \<and>
           sb_capacity (wr v') = sb_capacity sb \<and> sb_sequence (wr v') = sb_sequence sb)"
proof -
  assume "sb_lookup sb s = None"
  then show "sb_get_mut sb s = Inr None" by (simp add: sb_get_mut_def sb_reads wf)
next
  let ?i = "sb_index sb s"
  let ?wr = "\<lambda>v'. sb\<lparr>sb_entries := (sb_entries sb)[?i := Some v']\<rparr>"
  note D = sb_wfD[OF wf] sb_index_less[OF wf, of s]
  assume v: "sb_lookup sb s = Some v"
  then have claimed: "sb_entry_sequence sb ! ?i = Some s"
    using sb_lookup_claimed[OF wf, of s] by simp
  have cap: "sb_capacity (?wr v') = sb_capacity sb" and idx: "sb_index (?wr v') q = sb_index sb q" for q v'
    by (simp_all add: sb_capacity_def sb_index_def)
  have "sb_get_mut sb s = Inr (Some (v, ?wr))"
    using v claimed D by (simp add: sb_get_mut_def sb_reads wf sb_lookup_def)
  moreover have "sb_wf (?wr v')" for v'
    unfolding sb_wf_def cap idx using wf D
    by (auto simp: nth_list_update sb_wf_def split: if_splits)
  moreover have "sb_lookup (?wr v') q = ((sb_lookup sb)(s \<mapsto> v')) q" for q v'
    using claimed D sb_index_less[OF wf, of q]
    by (auto simp: sb_lookup_def idx nth_list_update)
  ultimately show "\<exists>wr. sb_get_mut sb s = Inr (Some (v, wr)) \<and>
        (\<forall>v'. sb_wf (wr v') \<and> sb_lookup (wr v') = (sb_lookup sb)(s \<mapsto> v') \<and>
           sb_capacity (wr v') = sb_capacity sb \<and> sb_sequence (wr v') = sb_sequence sb)"
    using cap by (intro exI[of _ ?wr]) (auto simp: fun_eq_iff)
qed

subsection \<open>Removing a range and inserting\<close>

lemma sb_clear_fold_length [simp]:
  "length (foldl (\<lambda>es k. es[k mod c := None]) es ks) = length es"
  by (induction ks arbitrary: es) auto

lemma sb_clear_fold_nth:
  assumes "0 < c" "length es = c" "i < c"
  shows "foldl (\<lambda>es k. es[k mod c := None]) es ks ! i =
    (if \<exists>k\<in>set ks. k mod c = i then None else es ! i)"
  using assms by (induction ks arbitrary: es) (auto simp: nth_list_update)

text \<open>The slots that \<open>remove_entries\<close> clears.\<close>

definition sb_cleared :: "'a sequence_buffer \<Rightarrow> u16 \<Rightarrow> u16 \<Rightarrow> nat \<Rightarrow> bool" where
  "sb_cleared sb st en i \<longleftrightarrow>
     (let en1 = (if unat en < unat st then unat en + 65535 else unat en)
      in sb_capacity sb \<le> en1 - unat st \<or>
         (\<exists>k. unat st \<le> k \<and> k \<le> en1 \<and> k mod sb_capacity sb = i))"

lemma sb_remove_entries_simps [simp]:
  "sb_entries (sb_remove_entries sb st en) = sb_entries sb"
  "sb_sequence (sb_remove_entries sb st en) = sb_sequence sb"
  "sb_capacity (sb_remove_entries sb st en) = sb_capacity sb"
  "sb_index (sb_remove_entries sb st en) s = sb_index sb s"
  "length (sb_entry_sequence (sb_remove_entries sb st en)) = length (sb_entry_sequence sb)"
  by (simp_all add: sb_remove_entries_def sb_capacity_def sb_index_def Let_def)

lemma sb_remove_entries_nth:
  assumes "sb_wf sb" "i < sb_capacity sb"
  shows "sb_entry_sequence (sb_remove_entries sb st en) ! i =
    (if sb_cleared sb st en i then None else sb_entry_sequence sb ! i)"
proof -
  let ?en1 = "if unat en < unat st then unat en + 65535 else unat en"
  have r: "k \<in> set [unat st..<Suc ?en1] \<longleftrightarrow> unat st \<le> k \<and> k \<le> ?en1" for k by auto
  show ?thesis
  proof (cases "?en1 - unat st < sb_capacity sb")
    case True
    then have "sb_entry_sequence (sb_remove_entries sb st en) =
      foldl (\<lambda>es k. es[k mod sb_capacity sb := None]) (sb_entry_sequence sb) [unat st..<Suc ?en1]"
      by (simp add: sb_remove_entries_def Let_def del: upt_Suc split del: if_split)
    then have "sb_entry_sequence (sb_remove_entries sb st en) ! i =
      (if \<exists>k\<in>set [unat st..<Suc ?en1]. k mod sb_capacity sb = i then None
       else sb_entry_sequence sb ! i)"
      using sb_clear_fold_nth[of "sb_capacity sb" "sb_entry_sequence sb" i "[unat st..<Suc ?en1]"]
        sb_wfD[OF assms(1)] assms(2) by simp
    moreover have "sb_cleared sb st en i \<longleftrightarrow>
      (\<exists>k\<in>set [unat st..<Suc ?en1]. k mod sb_capacity sb = i)"
      unfolding sb_cleared_def Let_def Bex_def r using True by (simp only: not_le[symmetric]) blast
    ultimately show ?thesis by (simp only:)
  next
    case False
    then have "sb_entry_sequence (sb_remove_entries sb st en) = map (\<lambda>_. None) (sb_entry_sequence sb)"
      by (simp add: sb_remove_entries_def Let_def del: upt_Suc split del: if_split)
    with False assms sb_wfD[OF assms(1)] show ?thesis
      by (simp add: sb_cleared_def Let_def)
  qed
qed

lemma sb_remove_entries_wf:
  assumes "sb_wf sb"
  shows "sb_wf (sb_remove_entries sb st en)"
  using assms sb_wfD[OF assms]
  by (auto simp: sb_wf_def sb_remove_entries_nth[OF assms] split: if_splits)

lemma sb_remove_entries_lookup:
  assumes "sb_wf sb"
  shows "sb_lookup (sb_remove_entries sb st en) q =
    (if sb_cleared sb st en (sb_index sb q) then None else sb_lookup sb q)"
  using sb_index_less[OF assms, of q]
  by (simp add: sb_lookup_def sb_remove_entries_nth[OF assms])

lemma sb_set_sequence_simps [simp]:
  "sb_capacity (sb\<lparr>sb_sequence := s\<rparr>) = sb_capacity sb"
  "sb_index (sb\<lparr>sb_sequence := s\<rparr>) q = sb_index sb q"
  "sb_lookup (sb\<lparr>sb_sequence := s\<rparr>) q = sb_lookup sb q"
  "sb_wf (sb\<lparr>sb_sequence := s\<rparr>) = sb_wf sb"
  "sb_slot_free (sb\<lparr>sb_sequence := s\<rparr>) q = sb_slot_free sb q"
  by (simp_all add: sb_capacity_def sb_index_def sb_lookup_def sb_wf_def sb_slot_free_def)

text \<open>Storing claims one slot: the entry stored is found again, whatever else was in that
  slot is gone, and nothing else changes.\<close>

definition sb_put :: "'a sequence_buffer \<Rightarrow> u16 \<Rightarrow> 'a \<Rightarrow> 'a sequence_buffer" where
  "sb_put sb s v = sb\<lparr>sb_entry_sequence := (sb_entry_sequence sb)[sb_index sb s := Some s],
     sb_entries := (sb_entries sb)[sb_index sb s := Some v]\<rparr>"

lemma sb_put_simps [simp]:
  "sb_sequence (sb_put sb s v) = sb_sequence sb"
  "sb_capacity (sb_put sb s v) = sb_capacity sb"
  "sb_index (sb_put sb s v) q = sb_index sb q"
  by (simp_all add: sb_put_def sb_capacity_def sb_index_def)

lemma sb_put_wf: "sb_wf sb \<Longrightarrow> sb_wf (sb_put sb s v)"
  unfolding sb_wf_def sb_put_simps by (auto simp: sb_put_def sb_capacity_def sb_index_def nth_list_update)

lemma sb_put_lookup:
  assumes "sb_wf sb"
  shows "sb_lookup (sb_put sb s v) q =
    (if q = s then Some v else if sb_index sb q = sb_index sb s then None else sb_lookup sb q)"
  using sb_wfD[OF assms] sb_index_less[OF assms, of s] sb_index_less[OF assms, of q]
  by (auto simp: sb_lookup_def, auto simp: sb_put_def nth_list_update)

lemma sb_store_wf:
  assumes "sb_wf sb"
  shows "sb_store sb s f env = rbind (f env) (\<lambda>(v, env'). Inr (True, sb_put sb s v, env'))"
  using sb_wfD[OF assms] sb_index_less[OF assms, of s]
  by (cases "f env") (auto simp: sb_store_def sb_reads assms sb_put_def)

definition sb_advance :: "'a sequence_buffer \<Rightarrow> u16 \<Rightarrow> 'a sequence_buffer" where
  "sb_advance sb s = (sb_remove_entries sb (sb_sequence sb) s)\<lparr>sb_sequence := s + 1\<rparr>"

lemma sb_advance_simps [simp]:
  "sb_sequence (sb_advance sb s) = s + 1"
  "sb_capacity (sb_advance sb s) = sb_capacity sb"
  "sb_index (sb_advance sb s) q = sb_index sb q"
  by (simp_all add: sb_advance_def)

lemma sb_advance_wf: "sb_wf sb \<Longrightarrow> sb_wf (sb_advance sb s)"
  by (simp add: sb_advance_def sb_remove_entries_wf)

lemma sb_advance_lookup:
  "sb_wf sb \<Longrightarrow> sb_lookup (sb_advance sb s) q =
    (if sb_cleared sb (sb_sequence sb) s (sb_index sb q) then None else sb_lookup sb q)"
  by (simp add: sb_advance_def sb_remove_entries_lookup)

lemma sb_insert_with_wf:
  assumes "sb_wf sb"
  shows "sb_insert_with sb s f env =
    (if sequence_greater_than (s + 1) (sb_sequence sb)
     then rbind (f env) (\<lambda>(v, env'). Inr (True, sb_put (sb_advance sb s) s v, env'))
     else if sequence_less_than s (sb_sequence sb - of_nat (sb_capacity sb))
     then Inr (False, sb, env)
     else rbind (f env) (\<lambda>(v, env'). Inr (True, sb_put sb s v, env')))"
  using assms sb_advance_wf[OF assms, of s]
  by (simp add: sb_insert_with_def Let_def sb_store_wf sb_advance_def)

section \<open>The sliding window\<close>

text \<open>
  When the size divides \<open>65536\<close> the slot of a sequence number does not depend on how often
  the numbers have wrapped, and a buffer holds only entries among the last \<open>capacity\<close>
  sequence numbers before its pointer. (For other sizes the slots of the numbers around
  \<open>65535\<close> collide, see the last theorem of this theory.)
\<close>

definition sb_window :: "'a sequence_buffer \<Rightarrow> bool" where
  "sb_window sb \<longleftrightarrow> sb_wf sb \<and> sb_capacity sb dvd 65536 \<and> 2 \<le> sb_capacity sb \<and>
     (\<forall>q. sb_lookup sb q \<noteq> None \<longrightarrow> unat (sb_sequence sb - 1 - q) < sb_capacity sb)"

lemma sb_windowD:
  assumes "sb_window sb"
  shows "sb_wf sb" "sb_capacity sb dvd 65536" "2 \<le> sb_capacity sb"
    "sb_lookup sb q = Some v \<Longrightarrow> unat (sb_sequence sb - 1 - q) < sb_capacity sb"
  using assms by (auto simp: sb_window_def)

lemma dvd_65536_le:
  assumes "(c :: nat) dvd 65536" "c \<le> 65535"
  shows "c \<le> 32768"
proof -
  obtain k where k: "65536 = c * k" using assms(1) by (rule dvdE)
  with assms(2) have "2 \<le> k" by (cases k; cases "k - 1") auto
  then have "c * 2 \<le> c * k" by simp
  with k show ?thesis by simp
qed

lemma sb_window_cap: "sb_window sb \<Longrightarrow> sb_capacity sb \<le> 32768"
  using dvd_65536_le sb_wfD(2) sb_windowD(1,2) by blast

text \<open>Slots in terms of distances.\<close>

lemma sb_index_offset:
  assumes c: "sb_capacity sb dvd 65536"
  shows "(unat p + j) mod sb_capacity sb = sb_index sb q \<longleftrightarrow> sb_capacity sb dvd (unat (p - q) + j)"
proof -
  have "(unat q + unat (p - q)) mod 65536 = unat p mod 65536"
    using unat_u16_less[of p] unat_u16_less[of q] by (auto simp: unat_u16_diff)
  then have "(unat q + unat (p - q)) mod 65536 mod sb_capacity sb = unat p mod 65536 mod sb_capacity sb"
    by simp
  then have "(unat q + unat (p - q)) mod sb_capacity sb = unat p mod sb_capacity sb"
    using c by (simp add: mod_mod_cancel)
  then have "(unat p + j) mod sb_capacity sb = (unat q + (unat (p - q) + j)) mod sb_capacity sb"
    by (metis add.assoc mod_add_left_eq)
  then show ?thesis
    using mod_eq_dvd_iff_nat[of "unat q" "unat q + (unat (p - q) + j)" "sb_capacity sb"]
    by (simp add: sb_index_def)
qed

lemma sb_index_eq_iff:
  "sb_capacity sb dvd 65536 \<Longrightarrow> sb_index sb p = sb_index sb q \<longleftrightarrow> sb_capacity sb dvd unat (p - q)"
  using sb_index_offset[of sb p 0 q] by (simp add: sb_index_def)

text \<open>How far an insertion moves the pointer: \<open>D\<close> skipped numbers, at most half the range.\<close>

lemma newer_dist:
  assumes "sequence_greater_than (s + 1) p"
  shows "unat (s - p) \<le> 32767"
proof -
  have "unat (s + 1 - p) \<noteq> 0" "unat (s + 1 - p) \<le> 32768"
    using assms by (auto simp: sequence_greater_than_dist)
  moreover have "unat (s - p) = unat (s + 1 - p) - 1" if "unat (s + 1 - p) \<noteq> 0"
  proof -
    have "s - p = (s + 1 - p) - 1" by simp
    with that show ?thesis by (simp only: unat_u16_diff[of "s + 1 - p" 1]) simp
  qed
  ultimately show ?thesis by simp
qed

lemma sb_cleared_dist:
  assumes "sb_capacity sb dvd 65536"
  shows "sb_cleared sb p s i \<longleftrightarrow>
    (let E = (if unat s < unat p then unat (s - p) - 1 else unat (s - p))
     in sb_capacity sb \<le> E \<or> (\<exists>j\<le>E. (unat p + j) mod sb_capacity sb = i))"
proof -
  let ?E = "if unat s < unat p then unat (s - p) - 1 else unat (s - p)"
  have e: "(if unat s < unat p then unat s + 65535 else unat s) = unat p + ?E"
    using unat_u16_less[of s] unat_u16_less[of p] by (simp add: unat_u16_diff)
  have "(\<exists>k. unat p \<le> k \<and> k \<le> unat p + ?E \<and> k mod sb_capacity sb = i) \<longleftrightarrow>
      (\<exists>j\<le>?E. (unat p + j) mod sb_capacity sb = i)"
    (is "?L \<longleftrightarrow> ?R")
  proof
    assume ?L
    then obtain k where "unat p \<le> k" "k \<le> unat p + ?E" "k mod sb_capacity sb = i" by blast
    then show ?R by (intro exI[of _ "k - unat p"]) simp
  next
    assume ?R
    then obtain j where "j \<le> ?E" "(unat p + j) mod sb_capacity sb = i" by blast
    then show ?L by (intro exI[of _ "unat p + j"]) simp
  qed
  then show ?thesis
    unfolding sb_cleared_def Let_def e by simp
qed

lemma sb_advance_put_lookup:
  assumes w: "sb_window sb" and newer: "sequence_greater_than (s + 1) (sb_sequence sb)"
  shows "sb_lookup (sb_put (sb_advance sb s) s v) q =
    (if q = s then Some v else if unat (s - q) < sb_capacity sb then sb_lookup sb q else None)"
proof (cases "q = s \<or> sb_lookup sb q = None")
  case True
  then show ?thesis
    using sb_windowD(1)[OF w]
    by (auto simp: sb_put_lookup sb_advance_wf sb_advance_lookup)
next
  case False
  let ?c = "sb_capacity sb" and ?p = "sb_sequence sb"
  define k where "k = unat (?p - 1 - q)"
  define D where "D = unat (s - ?p)"
  define E where "E = (if unat s < unat ?p then D - 1 else D)"
  note wf = sb_windowD(1)[OF w] and c = sb_windowD(2)[OF w]
  have k: "k < ?c" using False sb_windowD(4)[OF w, of q] by (auto simp: k_def)
  have D: "D \<le> 32767" using newer_dist[OF newer] by (simp add: D_def)
  have cap: "?c \<le> 32768" by (rule sb_window_cap[OF w])
  have n: "unat (s - q) = D + 1 + k"
  proof -
    have "s - q = (s - ?p) + 1 + (?p - 1 - q)" by simp
    then have "unat (s - q) = (D + 1 + k) mod 65536"
      unfolding D_def k_def by (metis unat_u16_add unat_u16_Suc mod_add_left_eq)
    then show ?thesis using k D cap by simp
  qed
  have slot: "(unat ?p + j) mod ?c = sb_index sb q \<longleftrightarrow> ?c dvd (k + 1 + j)" for j
  proof -
    have "?p - q = (?p - 1 - q) + 1" by simp
    then have "unat (?p - q) = (k + 1) mod 65536"
      unfolding k_def by (metis unat_u16_Suc)
    then show ?thesis using sb_index_offset[OF c, of ?p j q] k cap by simp
  qed
  have s_slot: "sb_index sb q = sb_index sb s \<longleftrightarrow> ?c dvd D + 1 + k"
    using sb_index_eq_iff[OF c, of s q] n by auto
  have cleared: "sb_cleared sb ?p s (sb_index sb q) \<longleftrightarrow> ?c \<le> E \<or> (\<exists>j\<le>E. ?c dvd (k + 1 + j))"
    unfolding sb_cleared_dist[OF c] Let_def slot E_def D_def by simp
  have "sb_index sb q = sb_index sb s \<or> sb_cleared sb ?p s (sb_index sb q) \<longleftrightarrow> ?c \<le> D + 1 + k"
  proof
    assume "sb_index sb q = sb_index sb s \<or> sb_cleared sb ?p s (sb_index sb q)"
    then show "?c \<le> D + 1 + k"
      unfolding s_slot cleared using dvd_imp_le[of ?c] by (force simp: E_def split: if_splits)
  next
    assume le: "?c \<le> D + 1 + k"
    define j where "j = ?c - 1 - k"
    have j: "k + 1 + j = ?c" "j \<le> D" using le k by (auto simp: j_def)
    show "sb_index sb q = sb_index sb s \<or> sb_cleared sb ?p s (sb_index sb q)"
    proof (cases "j = D")
      case True
      with j show ?thesis by (simp add: s_slot add_ac)
    next
      case False
      then have "j \<le> E" using j(2) unfolding E_def by (cases "unat s < unat ?p") simp_all
      then show ?thesis unfolding cleared using j(1) by auto
    qed
  qed
  then show ?thesis
    using False wf n
    by (auto simp: sb_put_lookup sb_advance_wf sb_advance_lookup)
qed

text \<open>Inside the window, distinct sequence numbers have distinct slots.\<close>

lemma sb_window_slot_inj:
  assumes c: "sb_capacity sb dvd 65536"
    and "unat (e - p) < sb_capacity sb" "unat (e - q) < sb_capacity sb"
    and "sb_index sb p = sb_index sb q"
  shows "p = q"
proof -
  have *: "a = b" if "unat (e - a) \<le> unat (e - b)" "unat (e - b) < sb_capacity sb"
    "sb_index sb a = sb_index sb b" for a b
  proof -
    have "a - b = (e - b) - (e - a)" by simp
    then have "unat (a - b) = unat (e - b) - unat (e - a)"
      using that(1) by (simp only: unat_u16_diff[of "e - b" "e - a"]) simp
    moreover have "sb_capacity sb dvd unat (a - b)"
      using that(3) sb_index_eq_iff[OF c] by blast
    ultimately have "unat (a - b) = 0"
      using that(2) by (metis dvd_imp_le less_imp_diff_less linorder_not_less neq0_conv)
    then show "a = b" by (simp add: unat_eq_0)
  qed
  show ?thesis
    using assms *[of p q] *[of q p] by (cases "unat (e - p) \<le> unat (e - q)") auto
qed

lemma sb_window_put_lookup:
  assumes w: "sb_window sb" and s: "unat (sb_sequence sb - 1 - s) < sb_capacity sb"
  shows "sb_lookup (sb_put sb s v) = (sb_lookup sb)(s \<mapsto> v)"
proof
  fix q
  have "sb_lookup sb q = None" if "sb_index sb q = sb_index sb s" "q \<noteq> s"
    using that s sb_windowD[OF w] sb_window_slot_inj[of sb "sb_sequence sb - 1" q s]
    by (cases "sb_lookup sb q") auto
  then show "sb_lookup (sb_put sb s v) q = ((sb_lookup sb)(s \<mapsto> v)) q"
    using sb_windowD(1)[OF w] by (simp add: sb_put_lookup)
qed

lemma not_newer_dist:
  assumes "\<not> sequence_greater_than (s + 1) p"
  shows "unat (p - 1 - s) \<le> 32768"
proof (cases "p - 1 - s = 0")
  case False
  have "s + 1 - p = 0 - (p - 1 - s)" by simp
  then have "unat (s + 1 - p) = 65536 - unat (p - 1 - s)"
    using False by (simp only: unat_u16_diff[of 0 "p - 1 - s"]) (simp add: unat_eq_0)
  moreover have "0 < unat (s + 1 - p)"
    using calculation unat_u16_less[of "p - 1 - s"] by simp
  ultimately show ?thesis using assms by (auto simp add: sequence_greater_than_dist)
qed simp

lemma sb_window_old:
  assumes w: "sb_window sb" and old: "\<not> sequence_greater_than (s + 1) (sb_sequence sb)"
  shows "sequence_less_than s (sb_sequence sb - of_nat (sb_capacity sb)) \<longleftrightarrow>
    sb_capacity sb \<le> unat (sb_sequence sb - 1 - s)"
proof -
  let ?c = "sb_capacity sb"
  define k where "k = unat (sb_sequence sb - 1 - s)"
  have k: "k \<le> 32768" using not_newer_dist[OF old] by (simp add: k_def)
  have c: "2 \<le> ?c" "?c \<le> 32768" using sb_windowD(3)[OF w] sb_window_cap[OF w] by auto
  have kc: "unat ((sb_sequence sb - 1 - s) + 1) = k + 1"
    using k by (simp only: unat_u16_Suc k_def) simp
  have "sb_sequence sb - of_nat ?c - s = ((sb_sequence sb - 1 - s) + 1) - of_nat ?c" by simp
  then have "unat (sb_sequence sb - of_nat ?c - s) =
      (if ?c \<le> k + 1 then k + 1 - ?c else 65536 + (k + 1) - ?c)"
    using c by (simp only: unat_u16_diff[of "(sb_sequence sb - 1 - s) + 1" "of_nat ?c"] kc)
      (simp add: unat_u16_of_nat)
  then show ?thesis
    unfolding sequence_less_than_def sequence_greater_than_dist k_def[symmetric]
    using c k by auto
qed

text \<open>The three outcomes of inserting into a window.\<close>

definition sb_insert :: "'a sequence_buffer \<Rightarrow> u16 \<Rightarrow> 'a \<Rightarrow> panic + (bool \<times> 'a sequence_buffer)" where
  "sb_insert sb s v =
     rbind (sb_insert_with sb s (\<lambda>u. Inr (v, u)) ()) (\<lambda>(ok, sb', _). Inr (ok, sb'))"

definition sb_in_window :: "'a sequence_buffer \<Rightarrow> u16 \<Rightarrow> bool" where
  "sb_in_window sb s \<longleftrightarrow> unat (sb_sequence sb - 1 - s) < sb_capacity sb"

definition sb_inserted :: "'a sequence_buffer \<Rightarrow> u16 \<Rightarrow> 'a \<Rightarrow> 'a sequence_buffer" where
  "sb_inserted sb s v =
     (if sequence_greater_than (s + 1) (sb_sequence sb) then sb_put (sb_advance sb s) s v
      else sb_put sb s v)"

lemma sb_insert_with_window:
  assumes "sb_window sb"
  shows "sb_insert_with sb s f env =
    (if sequence_greater_than (s + 1) (sb_sequence sb) \<or> sb_in_window sb s
     then rbind (f env) (\<lambda>(v, env'). Inr (True, sb_inserted sb s v, env'))
     else Inr (False, sb, env))"
  using sb_window_old[OF assms, of s]
  by (auto simp: sb_insert_with_wf[OF sb_windowD(1)[OF assms]] sb_inserted_def sb_in_window_def)

lemma sb_inserted_window:
  assumes w: "sb_window sb"
    and s: "sequence_greater_than (s + 1) (sb_sequence sb) \<or> sb_in_window sb s"
  shows "sb_window (sb_inserted sb s v)"
    "sb_capacity (sb_inserted sb s v) = sb_capacity sb"
    "sb_sequence (sb_inserted sb s v) =
      (if sequence_greater_than (s + 1) (sb_sequence sb) then s + 1 else sb_sequence sb)"
    "sb_lookup (sb_inserted sb s v) =
      (\<lambda>q. if q = s then Some v
           else if sequence_greater_than (s + 1) (sb_sequence sb) \<and> \<not> unat (s - q) < sb_capacity sb
           then None else sb_lookup sb q)"
proof -
  show cap: "sb_capacity (sb_inserted sb s v) = sb_capacity sb"
    and seq: "sb_sequence (sb_inserted sb s v) =
      (if sequence_greater_than (s + 1) (sb_sequence sb) then s + 1 else sb_sequence sb)"
    by (simp_all add: sb_inserted_def)
  show lookup: "sb_lookup (sb_inserted sb s v) =
      (\<lambda>q. if q = s then Some v
           else if sequence_greater_than (s + 1) (sb_sequence sb) \<and> \<not> unat (s - q) < sb_capacity sb
           then None else sb_lookup sb q)"
    using s sb_advance_put_lookup[OF w, of s] sb_window_put_lookup[OF w, of s]
    by (auto simp: sb_inserted_def sb_in_window_def fun_eq_iff)
  have "sb_wf (sb_inserted sb s v)"
    using sb_windowD(1)[OF w] by (simp add: sb_inserted_def sb_put_wf sb_advance_wf)
  then show "sb_window (sb_inserted sb s v)"
    using w s unfolding sb_window_def cap seq lookup
    by (auto simp: sb_in_window_def split: if_splits)
qed

section \<open>The interface the reliable channel relies on\<close>

text \<open>
  A sliding window of entries before a pointer, as the reliable channel sees it: inserting a
  newer number moves the window and drops what falls out of it, inserting inside the window
  overwrites, inserting something older is refused.
\<close>

locale window_map =
  fixes invar :: "'b \<Rightarrow> bool"
    and lookup :: "'b \<Rightarrow> u16 \<Rightarrow> 'v option"
    and pointer :: "'b \<Rightarrow> u16"
    and cap :: "'b \<Rightarrow> nat"
    and insert :: "'b \<Rightarrow> u16 \<Rightarrow> 'v \<Rightarrow> panic + (bool \<times> 'b)"
    and take :: "'b \<Rightarrow> u16 \<Rightarrow> panic + ('v option \<times> 'b)"
    and clear :: "'b \<Rightarrow> 'b"
  assumes cap_bounds: "invar b \<Longrightarrow> 2 \<le> cap b \<and> cap b \<le> 32768"
    and lookup_window: "invar b \<Longrightarrow> lookup b q = Some v \<Longrightarrow> unat (pointer b - 1 - q) < cap b"
    and insert_newer: "invar b \<Longrightarrow> sequence_greater_than (s + 1) (pointer b) \<Longrightarrow>
      \<exists>b'. insert b s v = Inr (True, b') \<and> invar b' \<and> cap b' = cap b \<and> pointer b' = s + 1 \<and>
        lookup b' = (\<lambda>q. if q = s then Some v
                         else if unat (s - q) < cap b then lookup b q else None)"
    and insert_inside: "invar b \<Longrightarrow> \<not> sequence_greater_than (s + 1) (pointer b) \<Longrightarrow>
      unat (pointer b - 1 - s) < cap b \<Longrightarrow>
      \<exists>b'. insert b s v = Inr (True, b') \<and> invar b' \<and> cap b' = cap b \<and> pointer b' = pointer b \<and>
        lookup b' = (lookup b)(s \<mapsto> v)"
    and insert_old: "invar b \<Longrightarrow> \<not> sequence_greater_than (s + 1) (pointer b) \<Longrightarrow>
      cap b \<le> unat (pointer b - 1 - s) \<Longrightarrow> insert b s v = Inr (False, b)"
    and take_entry: "invar b \<Longrightarrow>
      \<exists>b'. take b s = Inr (lookup b s, b') \<and> invar b' \<and> cap b' = cap b \<and>
        pointer b' = pointer b \<and> lookup b' = (lookup b)(s := None)"
    and clear_all: "invar b \<Longrightarrow> invar (clear b) \<and> cap (clear b) = cap b \<and>
        pointer (clear b) = 0 \<and> lookup (clear b) = (\<lambda>_. None)"
begin

text \<open>Inserting at the pointer, again and again.\<close>

definition push :: "'b \<Rightarrow> 'v \<Rightarrow> panic + 'b" where
  "push b v = rbind (insert b (pointer b) v) (\<lambda>(_, b'). Inr b')"

lemma push_next:
  assumes "invar b"
  obtains b' where "push b v = Inr b'" "invar b'" "cap b' = cap b" "pointer b' = pointer b + 1"
    "lookup b' = (\<lambda>q. if q = pointer b then Some v
                      else if unat (pointer b - q) < cap b then lookup b q else None)"
proof -
  obtain b' where "insert b (pointer b) v = Inr (True, b')" and b': "invar b'" "cap b' = cap b"
    "pointer b' = pointer b + 1" "lookup b' = (\<lambda>q. if q = pointer b then Some v
       else if unat (pointer b - q) < cap b then lookup b q else None)"
    using insert_newer[OF assms, of "pointer b" v] by auto
  then show ?thesis by (intro that[of b']) (auto simp: push_def)
qed

text \<open>After any number of pushes the window holds exactly the last \<open>cap\<close> values, and before
  them what was there.\<close>

lemma push_run:
  assumes "invar b"
  shows "\<exists>b'. rfold push b vs = Inr b' \<and> invar b' \<and> cap b' = cap b \<and>
    pointer b' = pointer b + of_nat (length vs) \<and>
    (\<forall>q. lookup b' q =
      (let d = unat (pointer b' - 1 - q)
       in if cap b \<le> d then None
          else if d < length vs then Some (vs ! (length vs - 1 - d))
          else lookup b q))"
proof (induction vs rule: rev_induct)
  case Nil
  show ?case
    using assms lookup_window[OF assms] by (force simp: Let_def not_less[symmetric])
next
  case (snoc v vs)
  then obtain b1 where b1: "rfold push b vs = Inr b1" "invar b1" "cap b1 = cap b"
    "pointer b1 = pointer b + of_nat (length vs)"
    and l1: "\<And>q. lookup b1 q = (let d = unat (pointer b1 - 1 - q)
       in if cap b \<le> d then None
          else if d < length vs then Some (vs ! (length vs - 1 - d)) else lookup b q)"
    by blast
  obtain b2 where b2: "push b1 v = Inr b2" "invar b2" "cap b2 = cap b1" "pointer b2 = pointer b1 + 1"
    and l2: "lookup b2 = (\<lambda>q. if q = pointer b1 then Some v
                      else if unat (pointer b1 - q) < cap b1 then lookup b1 q else None)"
    using push_next[OF b1(2)] by blast
  have "lookup b2 q = (let d = unat (pointer b2 - 1 - q)
       in if cap b \<le> d then None
          else if d < length (vs @ [v]) then Some ((vs @ [v]) ! (length (vs @ [v]) - 1 - d))
          else lookup b q)" for q
  proof (cases "q = pointer b1")
    case True
    then show ?thesis using cap_bounds[OF assms] by (simp add: l2 b2(4) Let_def)
  next
    case False
    then have "unat (pointer b1 - q) \<noteq> 0" by (simp add: unat_eq_0)
    moreover have "pointer b1 - 1 - q = (pointer b1 - q) - 1" by simp
    ultimately have "unat (pointer b1 - 1 - q) = unat (pointer b1 - q) - 1"
      by (simp only: unat_u16_diff[of "pointer b1 - q" 1]) simp
    moreover have "pointer b2 - 1 - q = pointer b1 - q" by (simp add: b2(4))
    ultimately show ?thesis
      using False \<open>unat (pointer b1 - q) \<noteq> 0\<close> b1(3)
      by (auto simp: l2 l1 Let_def nth_append less_diff_conv)
  qed
  moreover have "rfold push b (vs @ [v]) = Inr b2"
    using b1(1) b2(1) by (simp add: rfold_append)
  ultimately show ?case using b1 b2 by auto
qed

end

interpretation sbw: window_map sb_window sb_lookup sb_sequence_pointer sb_capacity sb_insert sb_take sb_reset
proof (unfold_locales, goal_cases)
  case (1 b)
  then show ?case using sb_windowD(3) sb_window_cap by blast
next
  case (2 b q v)
  then show ?case by (simp add: sb_sequence_pointer_def sb_windowD)
next
  case (3 b s v)
  then show ?case
    using sb_inserted_window[OF 3(1), of s v]
    by (simp add: sb_insert_def sb_insert_with_window sb_sequence_pointer_def fun_eq_iff)
next
  case (4 b s v)
  then show ?case
    using sb_inserted_window[OF 4(1), of s v]
    by (auto simp: sb_insert_def sb_insert_with_window sb_sequence_pointer_def sb_in_window_def fun_eq_iff)
next
  case (5 b s v)
  then show ?case
    by (simp add: sb_insert_def sb_insert_with_window sb_sequence_pointer_def sb_in_window_def)
next
  case (6 b s)
  obtain b' where b': "sb_take b s = Inr (sb_lookup b s, b')" "sb_wf b'"
    "sb_lookup b' = (sb_lookup b)(s := None)"
    "sb_capacity b' = sb_capacity b" "sb_sequence b' = sb_sequence b"
    by (rule sb_take_wf[OF sb_windowD(1)[OF 6], of s]) blast
  with 6 show ?case by (auto simp: sb_window_def sb_sequence_pointer_def)
next
  case (7 b)
  then show ?case
    using sb_windowD[OF 7] sb_reset_wf[of b]
    by (auto simp: sb_window_def sb_reset_lookup sb_sequence_pointer_def)
qed

section \<open>The abstract window and the properties of the buffer\<close>

text \<open>What the buffer promises, without slots: a size, the next number, and a map.\<close>

record 'v window =
  win_size :: nat
  win_next :: u16
  win_map :: "u16 \<Rightarrow> 'v option"

definition sb_abs :: "'a sequence_buffer \<Rightarrow> 'a window" where
  "sb_abs sb = \<lparr>win_size = sb_capacity sb, win_next = sb_sequence sb, win_map = sb_lookup sb\<rparr>"

definition win_insert :: "'v window \<Rightarrow> u16 \<Rightarrow> 'v \<Rightarrow> bool \<times> 'v window" where
  "win_insert w s v =
     (if sequence_greater_than (s + 1) (win_next w)
      then (True, w\<lparr>win_next := s + 1,
                    win_map := (\<lambda>q. if unat (s - q) < win_size w then win_map w q else None)(s \<mapsto> v)\<rparr>)
      else if unat (win_next w - 1 - s) < win_size w
      then (True, w\<lparr>win_map := (win_map w)(s \<mapsto> v)\<rparr>)
      else (False, w))"

definition sb_push :: "'a sequence_buffer \<Rightarrow> 'a \<Rightarrow> panic + 'a sequence_buffer" where
  "sb_push sb v = rbind (sb_insert sb (sb_sequence_pointer sb) v) (\<lambda>(_, sb'). Inr sb')"

lemma sb_push_eq: "sb_push = sbw.push"
  by (simp add: fun_eq_iff sb_push_def sbw.push_def)

lemma sb_new_window:
  "sb_new n = Inr sb \<Longrightarrow> 2 \<le> n \<Longrightarrow> n dvd 65536 \<Longrightarrow> sb_window sb"
  using sb_new_wf[of n sb] by (auto simp: sb_window_def)

text \<open>C33: The order on sequence numbers is the order of the unbounded counters behind them:
  for counters less than half the 16 bit range apart, the first number is greater than the
  second exactly when its counter is, across any number of wrap-arounds.\<close>

theorem sequence_order_counters:
  assumes "i < j + 32768" "j < i + 32768"
  shows "sequence_greater_than (of_nat i) (of_nat j) \<longleftrightarrow> j < i"
proof (cases "j \<le> i")
  case True
  have "(of_nat i - of_nat j :: u16) = of_nat (i - j)" by (rule of_nat_diff[OF True, symmetric])
  then have "unat (of_nat i - of_nat j :: u16) = i - j"
    using assms by (simp only: unat_u16_of_nat) simp
  then show ?thesis using assms True by (auto simp: sequence_greater_than_dist)
next
  case False
  then have ji: "i \<le> j" by simp
  have "(of_nat j - of_nat i :: u16) = of_nat (j - i)" by (rule of_nat_diff[OF ji, symmetric])
  then have d: "unat (of_nat j - of_nat i :: u16) = j - i"
    using assms by (simp only: unat_u16_of_nat) simp
  have ne: "(of_nat j :: u16) \<noteq> of_nat i" using d False by auto
  have "unat (of_nat i - of_nat j :: u16) = 65536 - (j - i)"
    using unat_neg_diff[OF ne] d by (simp only:)
  then show ?thesis using assms False by (auto simp: sequence_greater_than_dist)
qed

theorem sequence_order_counters_witness:
  "sequence_greater_than (of_nat 65536) (of_nat 65535) \<longleftrightarrow> (65535 :: nat) < 65536"
  by (rule sequence_order_counters) simp_all

text \<open>Of two different sequence numbers exactly one is greater, also at the distance of
  exactly half the range, and no number is greater than itself.\<close>

theorem sequence_order_total:
  "sequence_greater_than a b = (a \<noteq> b \<and> sequence_less_than a b = False)"
proof (cases "a = b")
  case False
  then have "unat (a - b) \<noteq> 0" "unat a \<noteq> unat b"
    by (simp_all add: unat_eq_0 u16_eq_iff[symmetric])
  with False unat_neg_diff[OF False] unat_u16_less[of "a - b"] show ?thesis
    by (auto simp: sequence_less_than_def sequence_greater_than_dist)
qed (simp add: sequence_less_than_def)

text \<open>C16: \<open>insert_with\<close> refines insertion into the abstract window for every size that
  divides 65536: it never panics, its result says whether the number was accepted, a newer
  number evicts exactly what falls out of the last \<open>capacity\<close> numbers, an older one inside
  the window overwrites its entry only, and anything older changes nothing.\<close>

theorem sb_insert_refines:
  assumes "sb_window sb"
  shows "\<exists>ok sb'. sb_insert sb s v = Inr (ok, sb') \<and> sb_window sb' \<and>
    win_insert (sb_abs sb) s v = (ok, sb_abs sb')"
proof -
  let ?newer = "sequence_greater_than (s + 1) (sb_sequence_pointer sb)"
  let ?inside = "unat (sb_sequence_pointer sb - 1 - s) < sb_capacity sb"
  consider ?newer | "\<not> ?newer" ?inside | "\<not> ?newer" "sb_capacity sb \<le> unat (sb_sequence_pointer sb - 1 - s)"
    by linarith
  then show ?thesis
  proof cases
    case 1
    with sbw.insert_newer[OF assms 1, of v] show ?thesis
      by (auto simp: win_insert_def sb_abs_def sb_sequence_pointer_def fun_eq_iff)
  next
    case 2
    with sbw.insert_inside[OF assms 2, of v] show ?thesis
      by (auto simp: win_insert_def sb_abs_def sb_sequence_pointer_def)
  next
    case 3
    with sbw.insert_old[OF assms 3, of v] assms show ?thesis
      by (auto simp: win_insert_def sb_abs_def sb_sequence_pointer_def)
  qed
qed

text \<open>A new buffer of a size that divides 65536 remembers, after any number of entries
  has been added at its pointer, exactly the last \<open>size\<close> of them, and its pointer has
  advanced by their number modulo 65536.\<close>

theorem sb_remembers_last:
  assumes "sb_new n = Inr sb" "2 \<le> n" "n dvd 65536"
  shows "\<exists>sb'. rfold sb_push sb vs = Inr sb' \<and> sb_sequence_pointer sb' = of_nat (length vs) \<and>
    (\<forall>q. sb_get sb' q =
      (let d = unat (sb_sequence_pointer sb' - 1 - q)
       in Inr (if d < n \<and> d < length vs then Some (vs ! (length vs - 1 - d)) else None)))"
proof -
  have w: "sb_window sb" by (rule sb_new_window[OF assms])
  have n: "sb_capacity sb = n" "sb_sequence_pointer sb = 0" "\<And>q. sb_lookup sb q = None"
    using sb_new_wf[OF assms(1)] assms(2) by (auto simp: sb_sequence_pointer_def)
  obtain sb' where "rfold sb_push sb vs = Inr sb'"
    and "sb_window sb'" "sb_sequence_pointer sb' = 0 + of_nat (length vs)"
    and "\<forall>q. sb_lookup sb' q = (let d = unat (sb_sequence_pointer sb' - 1 - q)
       in if n \<le> d then None else if d < length vs then Some (vs ! (length vs - 1 - d)) else None)"
    using sbw.push_run[OF w, of vs] unfolding sb_push_eq[symmetric] n by blast
  then show ?thesis
    by (intro exI[of _ sb']) (auto simp: sb_get_wf[OF sb_windowD(1)] Let_def)
qed

text \<open>\<open>take\<close> returns what \<open>get\<close> sees at that number, removes it, and leaves every other
  number as it was; it never panics on a well formed buffer of any size.\<close>

theorem sb_take_get:
  assumes "sb_wf sb"
  shows "\<exists>x sb'. sb_take sb s = Inr (x, sb') \<and> sb_wf sb' \<and> sb_get sb s = Inr x \<and>
    (\<forall>q. sb_get sb' q = (if q = s then Inr None else sb_get sb q))"
proof -
  obtain sb' where "sb_take sb s = Inr (sb_lookup sb s, sb')" "sb_wf sb'"
    "sb_lookup sb' = (sb_lookup sb)(s := None)"
    by (rule sb_take_wf[OF assms, of s]) blast
  then show ?thesis using assms by (auto simp: sb_get_wf)
qed

subsection \<open>Concrete buffers\<close>

definition sb_example :: "nat sequence_buffer" where
  "sb_example = \<lparr>sb_sequence = 0, sb_entry_sequence = replicate 4 None,
                 sb_entries = replicate 4 None\<rparr>"

lemma sb_example_new: "sb_new 4 = Inr sb_example"
  by (simp add: sb_new_def sb_example_def)

lemma sb_example_window: "sb_window sb_example"
  by (rule sb_new_window[OF sb_example_new]) simp_all

theorem sb_insert_refines_witness:
  "\<exists>ok sb'. sb_insert sb_example 0 7 = Inr (ok, sb') \<and> sb_window sb' \<and>
     win_insert (sb_abs sb_example) 0 7 = (ok, sb_abs sb')"
  by (rule sb_insert_refines[OF sb_example_window])

theorem sb_remembers_last_witness:
  "\<exists>sb'. rfold sb_push sb_example [10, 20, 30, 40, 50, 60] = Inr sb' \<and>
     sb_get sb' 5 = Inr (Some 60) \<and> sb_get sb' 2 = Inr (Some 30) \<and> sb_get sb' 1 = Inr None"
proof -
  let ?vs = "[10, 20, 30, 40, 50, 60] :: nat list"
  obtain sb' where "rfold sb_push sb_example ?vs = Inr sb'"
    and p: "sb_sequence_pointer sb' = of_nat (length ?vs)"
    and g: "\<forall>q. sb_get sb' q =
      (let d = unat (sb_sequence_pointer sb' - 1 - q)
       in Inr (if d < 4 \<and> d < length ?vs then Some (?vs ! (length ?vs - 1 - d)) else None))"
    using sb_remembers_last[OF sb_example_new, of ?vs] by (simp only:) force
  moreover have "sb_get sb' 5 = Inr (Some 60)" "sb_get sb' 2 = Inr (Some 30)" "sb_get sb' 1 = Inr None"
    unfolding g[rule_format] p Let_def by code_simp+
  ultimately show ?thesis by blast
qed

theorem sb_take_get_witness:
  "\<exists>x sb'. sb_take sb_example 3 = Inr (x, sb') \<and> sb_wf sb' \<and> sb_get sb_example 3 = Inr x \<and>
     (\<forall>q. sb_get sb' q = (if q = 3 then Inr None else sb_get sb_example q))"
  by (rule sb_take_get[OF sb_windowD(1)[OF sb_example_window]])

text \<open>Without the divisibility the window breaks at the wrap-around: in a buffer of size 3 the
  numbers 65535 and 0 are neighbours but share slot 0, so adding 0 loses the entry of
  65535, the newest one before it.\<close>

theorem sb_wrap_loses_recent_entry:
  "rbind (sb_new 3) (\<lambda>sb.
   rbind (rfold (\<lambda>sb s. rbind (sb_insert sb s ()) (\<lambda>(_, sb'). Inr sb')) sb
     [32767, 65533, 65534, 65535, 0]) (\<lambda>sb.
   Inr (sb_get sb 0, sb_get sb 65535, sb_get sb 65534))) =
   Inr (Inr (Some ()), Inr None, Inr (Some ()))"
  by code_simp

end
