(* ===== verification/Sequence_Tests.thy ===== *)
theory Sequence_Tests
  imports Sequence_Buffer
begin

text \<open>
  \<open>src/channel/sequence_buffer.rs\<close>, \<open>mod test\<close>: the repository's own tests of the wrapping
  order and of the buffer. A test is a computation that returns unit or the panic of its
  first failed assertion, with the counts it has in the source; that each one passes is
  proved from the lemmas on the buffer, with loop invariants for the loops over 100,000
  entries.
\<close>

section \<open>The tests\<close>

definition test_sequence_greater_than :: "panic + unit" where
  "test_sequence_greater_than =
     rbind (rassert (\<not> sequence_greater_than 0 1)) (\<lambda>_.
     rbind (rassert (sequence_greater_than 1 0)) (\<lambda>_.
     rbind (rassert (sequence_greater_than 0 65535)) (\<lambda>_.
     rbind (rassert (\<not> sequence_greater_than 0 (65535 div 2 + 1))) (\<lambda>_.
     rassert (sequence_greater_than 0 (65535 div 2 + 2))))))"

definition test_sequence_less_than :: "panic + unit" where
  "test_sequence_less_than =
     rbind (rassert (\<not> sequence_less_than 1 0)) (\<lambda>_.
     rbind (rassert (sequence_less_than 0 1)) (\<lambda>_.
     rbind (rassert (\<not> sequence_less_than 0 65535)) (\<lambda>_.
     rbind (rassert (sequence_less_than 0 (65535 div 2 + 1))) (\<lambda>_.
     rassert (\<not> sequence_less_than 0 (65535 div 2 + 2))))))"

definition test_sequence_comparisons :: "panic + unit" where
  "test_sequence_comparisons =
     rfold (\<lambda>_ n. let x = of_nat n; left = x - 15000; right = x + 15000 in
       rbind (rassert (\<not> sequence_greater_than x (x + 25))) (\<lambda>_.
       rbind (rassert (sequence_greater_than x (x - 25))) (\<lambda>_.
       rbind (rassert (sequence_less_than x (x + 25))) (\<lambda>_.
       rbind (rassert (\<not> sequence_less_than x (x - 25))) (\<lambda>_.
       rbind (rassert (sequence_less_than left x)) (\<lambda>_.
       rbind (rassert (sequence_less_than x right)) (\<lambda>_.
       rbind (rassert (sequence_less_than left right)) (\<lambda>_.
       rbind (rassert (sequence_greater_than right x)) (\<lambda>_.
       rbind (rassert (sequence_greater_than x left)) (\<lambda>_.
       rassert (sequence_greater_than right left))))))))))) () [0..<65536]"

record seq_data =
  sd_seq :: u16
  sd_value :: usize

text \<open>The loop that finds the buffer empty.\<close>

definition assert_buffer_empty :: "'a sequence_buffer \<Rightarrow> usize \<Rightarrow> panic + unit" where
  "assert_buffer_empty buffer count =
     rfold (\<lambda>_ i.
       rbind (sb_available buffer (of_nat i)) (\<lambda>free.
       rbind (rassert free) (\<lambda>_.
       rbind (sb_get buffer (of_nat i)) (\<lambda>e.
       rassert (e = None))))) () [0..<unat (of_nat count :: u16)]"

text \<open>The body of the loop that enters values.\<close>

definition enter_value ::
  "usize \<Rightarrow> seq_data sequence_buffer \<times> u16 \<Rightarrow> usize \<Rightarrow> panic + (seq_data sequence_buffer \<times> u16)" where
  "enter_value n = (\<lambda>(buffer, seq) value.
     let entry = \<lparr>sd_seq = seq, sd_value = value\<rparr> in
     rbind (sb_insert buffer seq entry) (\<lambda>(inserted, buffer).
     rbind (rassert inserted) (\<lambda>_.
     rbind (sb_insert buffer (seq - of_nat n) entry) (\<lambda>(inserted, buffer).
     rbind (rassert (\<not> inserted)) (\<lambda>_.
     rbind (if value = 0
            then rbind (sb_available buffer (seq - 1)) rassert
            else rbind (sb_exists buffer (seq - 1)) rassert) (\<lambda>_.
     rbind (rassert (sb_sequence_pointer buffer = seq + 1)) (\<lambda>_.
     rbind (sb_get buffer seq) (\<lambda>e.
     rbind (rassert (e = Some entry)) (\<lambda>_.
     Inr (buffer, seq + 1))))))))))"

definition test_sequence_buffer :: "panic + unit" where
  "test_sequence_buffer =
     (let n = 256; total_entries = 100000 in
     rbind (sb_new n) (\<lambda>buffer.
     rbind (assert_buffer_empty buffer (5 * n)) (\<lambda>_.
     rbind (rfold (enter_value n) (buffer, 0) [0..<total_entries]) (\<lambda>(buffer, seq).
     rbind (rassert (total_entries > n)) (\<lambda>_.
     rbind (rfold (\<lambda>_ i. rbind (sb_exists buffer (seq - of_nat i)) rassert) () [1..<n]) (\<lambda>_.
     let forgotten_seq = seq - of_nat (n + 1) in
     rbind (sb_exists buffer forgotten_seq) (\<lambda>ex.
     rbind (rassert (\<not> ex)) (\<lambda>_.
     rbind (sb_get buffer forgotten_seq) (\<lambda>e.
     rbind (rassert (e = None)) (\<lambda>_.
     rbind (rassert (sb_capacity buffer = n)) (\<lambda>_.
     let buffer = sb_reset buffer in
     rbind (rassert (sb_sequence_pointer buffer = 0)) (\<lambda>_.
     assert_buffer_empty buffer (5 * n)))))))))))))"

text \<open>The body of the loop that takes the entries out again; the subtraction of sequence
  numbers is the checked one.\<close>

definition take_value ::
  "usize \<Rightarrow> u16 \<Rightarrow> seq_data sequence_buffer \<Rightarrow> usize \<Rightarrow> panic + seq_data sequence_buffer" where
  "take_value total_entries seq buffer i =
     rbind (if of_nat i \<le> seq then Inr (seq - of_nat i) else Inl ArithmeticOverflow) (\<lambda>expect_seq.
     rbind (checked_sub total_entries i) (\<lambda>expect_value.
     rbind (sb_exists buffer expect_seq) (\<lambda>ex.
     rbind (rassert ex) (\<lambda>_.
     rbind (sb_available buffer expect_seq) (\<lambda>free.
     rbind (rassert (\<not> free)) (\<lambda>_.
     rbind (sb_take buffer expect_seq) (\<lambda>(taken, buffer).
     rbind (rassert (taken = Some \<lparr>sd_seq = expect_seq, sd_value = expect_value\<rparr>)) (\<lambda>_.
     rbind (sb_available buffer expect_seq) (\<lambda>free.
     rbind (rassert free) (\<lambda>_.
     Inr buffer))))))))))"

definition test_sequence_buffer_take :: "panic + unit" where
  "test_sequence_buffer_take =
     (let n = 256; total_entries = 100000 in
     rbind (sb_new n) (\<lambda>buffer.
     rbind (rfold (\<lambda>(buffer, seq) value.
         rbind (sb_insert buffer seq \<lparr>sd_seq = seq, sd_value = value\<rparr>) (\<lambda>(inserted, buffer).
         rbind (rassert inserted) (\<lambda>_.
         Inr (buffer, seq + 1)))) (buffer, 0) [0..<total_entries]) (\<lambda>(buffer, seq).
     rbind (rfold (take_value total_entries seq) buffer [1..<Suc n]) (\<lambda>_.
     Inr ()))))"

section \<open>They pass\<close>

lemma test_sequence_comparisons_ok: "test_sequence_comparisons = Inr ()"
proof -
  have near: "sequence_greater_than (y + of_nat d) y \<and> \<not> sequence_greater_than y (y + of_nat d)"
    if "0 < d" "d < 32768" for d and y :: u16
  proof -
    have "y + of_nat d - y = (of_nat d :: u16)" by simp
    then have "unat (y + of_nat d - y) = d" using that by (simp only: unat_u16_of_nat) simp
    then have "sequence_greater_than (y + of_nat d) y" using that by (simp add: sequence_greater_than_near)
    moreover from this have "\<not> sequence_greater_than y (y + of_nat d)"
      using sequence_order_total[of "y + of_nat d" y] by (simp add: sequence_less_than_def)
    ultimately show ?thesis ..
  qed
  have "sequence_greater_than (x + 25) x \<and> \<not> sequence_greater_than x (x + 25)"
    "sequence_greater_than x (x - 25) \<and> \<not> sequence_greater_than (x - 25) x"
    "sequence_greater_than x (x - 15000)" "sequence_greater_than (x + 15000) x"
    "sequence_greater_than (x + 15000) (x - 15000)" for x :: u16
    using near[of 25 x] near[of 25 "x - 25"] near[of 15000 x] near[of 15000 "x - 15000"]
      near[of 30000 "x - 15000"] by (simp_all add: algebra_simps)
  then show ?thesis
    by (auto simp: test_sequence_comparisons_def sequence_less_than_def Let_def intro!: rfold_Inr_const)
qed

text \<open>The buffer while the values are entered: it holds the last 256 of them.\<close>

definition entering :: "usize \<Rightarrow> seq_data sequence_buffer \<times> u16 \<Rightarrow> bool" where
  "entering value = (\<lambda>(b, seq).
     sb_window b \<and> sb_capacity b = 256 \<and> sb_sequence b = seq \<and> seq = of_nat value \<and>
     (\<forall>q. sb_lookup b q =
       (let d = unat (seq - 1 - q) in
        if d < 256 \<and> d < value then Some \<lparr>sd_seq = q, sd_value = value - 1 - d\<rparr> else None)))"

lemma entering_new:
  assumes "sb_new 256 = Inr b"
  shows "entering 0 (b, 0)"
  using sb_new_wf[OF assms] sb_new_window[OF assms] by (simp add: entering_def Let_def)

lemma entering_insert:
  assumes e: "entering value (b, seq)"
  obtains b' where "sb_insert b seq \<lparr>sd_seq = seq, sd_value = value\<rparr> = Inr (True, b')"
    "entering (Suc value) (b', seq + 1)"
proof -
  let ?v = "\<lparr>sd_seq = seq, sd_value = value\<rparr>"
  have b: "sb_window b" "sb_capacity b = 256" "sb_sequence b = seq" "seq = of_nat value"
    and l: "\<And>q. sb_lookup b q = (let d = unat (seq - 1 - q) in
        if d < 256 \<and> d < value then Some \<lparr>sd_seq = q, sd_value = value - 1 - d\<rparr> else None)"
    using e by (auto simp: entering_def)
  obtain b' where b': "sb_insert b seq ?v = Inr (True, b')" "sb_window b'" "sb_capacity b' = 256"
    "sb_sequence b' = seq + 1"
    "sb_lookup b' = (\<lambda>q. if q = seq then Some ?v
       else if unat (seq - q) < 256 then sb_lookup b q else None)"
    using sbw.insert_newer[OF b(1), of seq ?v] unfolding sb_sequence_pointer_def b(2,3) by auto
  have "sb_lookup b' q = (let d = unat (seq - q) in
      if d < 256 \<and> d < Suc value then Some \<lparr>sd_seq = q, sd_value = value - d\<rparr> else None)" for q
  proof (cases "q = seq")
    case False
    then have n: "unat (seq - q) \<noteq> 0" by (simp add: unat_eq_0)
    have "seq - 1 - q = (seq - q) - 1" by simp
    then have "unat (seq - 1 - q) = unat (seq - q) - 1"
      using n by (simp only: unat_u16_diff[of "seq - q" 1]) simp
    with False n show ?thesis by (auto simp: b'(5) l Let_def)
  qed (simp add: b'(5) Let_def)
  then show ?thesis using b' b(4) by (intro that[OF b'(1)]) (auto simp: entering_def Let_def add.commute)
qed

lemma entering_read:
  assumes "entering value (b, seq)"
  shows "sb_wf b" "sb_sequence_pointer b = seq" "sb_capacity b = 256"
    "0 < d \<Longrightarrow> d < 65536 \<Longrightarrow> sb_lookup b (seq - of_nat d) =
      (if d \<le> 256 \<and> d \<le> value then Some \<lparr>sd_seq = seq - of_nat d, sd_value = value - d\<rparr> else None)"
proof -
  show "sb_wf b" "sb_sequence_pointer b = seq" "sb_capacity b = 256"
    using assms by (auto simp: entering_def sb_windowD sb_sequence_pointer_def)
  assume d: "0 < d" "d < 65536"
  then have "of_nat d = (of_nat (d - 1) + 1 :: u16)"
    by (metis Suc_diff_1 add.commute of_nat_Suc)
  then have "seq - 1 - (seq - of_nat d) = (of_nat (d - 1) :: u16)" by simp
  then have "unat (seq - 1 - (seq - of_nat d)) = d - 1"
    using d by (simp only: unat_u16_of_nat) simp
  then show "sb_lookup b (seq - of_nat d) =
      (if d \<le> 256 \<and> d \<le> value then Some \<lparr>sd_seq = seq - of_nat d, sd_value = value - d\<rparr> else None)"
    using assms d by (auto simp: entering_def Let_def)
qed

lemma assert_buffer_empty_ok:
  "sb_wf b \<Longrightarrow> (\<And>q. sb_lookup b q = None) \<Longrightarrow> assert_buffer_empty b n = Inr ()"
  by (auto simp: assert_buffer_empty_def sb_reads sb_slot_free_def intro!: rfold_Inr_const)

text \<open>An entry that is too old is refused, whatever it is.\<close>

lemma entering_refuse:
  assumes "entering value (b, seq)"
  shows "sb_insert b (seq - 1 - 256) v = Inr (False, b)"
proof -
  have w: "sb_window b" and c: "sb_capacity b = 256" and s: "sb_sequence_pointer b = seq"
    using assms by (auto simp: entering_def sb_sequence_pointer_def)
  have "seq - 1 - (seq - 1 - 256) = (256 :: u16)" "seq - 1 - 256 + 1 - seq = (- 256 :: u16)" by simp_all
  moreover have "unat (- 256 :: u16) = 65280" by code_simp
  ultimately have "\<not> sequence_greater_than (seq - 1 - 256 + 1) seq"
    by (simp add: sequence_greater_than_far)
  then show ?thesis
    using sbw.insert_old[OF w, of "seq - 1 - 256" v] by (simp add: c s)
qed

lemma entering_free:
  assumes "entering 1 (b, seq)"
  shows "sb_slot_free b (seq - 2)"
proof -
  have seq: "seq = 1" using assms by (simp add: entering_def)
  have "unat (seq - 2) = 65535" unfolding seq by (simp only: unat_u16_diff) simp
  then have "sb_index b (seq - 2) = 255" by (simp add: sb_index_def entering_read(3)[OF assms])
  moreover have "sb_lookup b q = None" if "sb_index b q = 255" for q
  proof -
    have "q \<noteq> 0" using that by (auto simp: sb_index_def)
    then have "unat (seq - 1 - q) \<noteq> 0" by (simp add: seq unat_eq_0)
    then show ?thesis using assms by (simp add: entering_def Let_def)
  qed
  ultimately show ?thesis by (auto simp: sb_slot_free_def)
qed

lemma enter_value_ok:
  assumes "entering value st"
  shows "\<exists>st'. enter_value 256 st value = Inr st' \<and> entering (Suc value) st'"
proof -
  obtain b seq where st: "st = (b, seq)" by (cases st)
  obtain b' where i: "sb_insert b seq \<lparr>sd_seq = seq, sd_value = value\<rparr> = Inr (True, b')"
    and e: "entering (Suc value) (b', seq + 1)"
    using entering_insert assms unfolding st by blast
  note r = entering_read[OF e]
  have "sb_lookup b' seq = Some \<lparr>sd_seq = seq, sd_value = value\<rparr>" using r(4)[of 1] by simp
  moreover have "value \<noteq> 0 \<Longrightarrow> sb_lookup b' (seq - 1) \<noteq> None" using r(4)[of 2] by (simp add: algebra_simps)
  moreover have "value = 0 \<Longrightarrow> sb_slot_free b' (seq - 1)" using entering_free[of b' "seq + 1"] e by (auto simp: algebra_simps)
  moreover have "sb_insert b' (seq - 256) v = Inr (False, b')" for v
    using entering_refuse[OF e, of v] by simp
  ultimately show ?thesis
    using e i
    by (cases "value = 0") (simp_all add: st enter_value_def Let_def sb_reads[OF r(1)] r(2) del: One_nat_def)
qed

lemma test_sequence_buffer_ok: "test_sequence_buffer = Inr ()"
proof -
  obtain b :: "seq_data sequence_buffer" where b: "sb_new 256 = Inr b" by (simp add: sb_new_def)
  note n = sb_new_wf[OF b, simplified]
  obtain st where st: "rfold (enter_value 256) (b, 0) [0..<100000] = Inr st \<and> entering 100000 st"
    using rfold_upt[where I = entering and f = "enter_value 256", OF entering_new[OF b] _ enter_value_ok]
    by blast
  obtain b1 s1 where "st = (b1, s1)" by (cases st)
  with st have r: "rfold (enter_value 256) (b, 0) [0..<100000] = Inr (b1, s1)"
    and e: "entering 100000 (b1, s1)"
    by (simp_all only:)
  note w = entering_read[OF e]
  have "rfold (\<lambda>_ i. rbind (sb_exists b1 (s1 - of_nat i)) rassert) () [1..<256] = Inr ()"
    by (rule rfold_Inr_const) (simp add: sb_reads[OF w(1)] w(4))
  moreover have "sb_lookup b1 (s1 - of_nat (256 + 1)) = None"
    unfolding w(4)[of "256 + 1", simplified] using w(4)[of 257] by simp
  moreover have "assert_buffer_empty b (5 * 256) = Inr ()"
    "assert_buffer_empty (sb_reset b1) (5 * 256) = Inr ()"
    using n w(1) by (simp_all add: assert_buffer_empty_ok sb_reset_wf sb_reset_lookup)
  ultimately show ?thesis
    by (simp add: test_sequence_buffer_def Let_def b r sb_reads[OF w(1)] w(3) sb_sequence_pointer_def
        del: of_nat_add upt_conv_Cons upt_rec_numeral)
qed

text \<open>The buffer while the entries are taken out, newest first.\<close>

definition taking :: "usize \<Rightarrow> u16 \<Rightarrow> usize \<Rightarrow> seq_data sequence_buffer \<Rightarrow> bool" where
  "taking tot seq i b \<longleftrightarrow> sb_wf b \<and> sb_capacity b = 256 \<and>
     (\<forall>q. sb_lookup b q =
       (let d = unat (seq - 1 - q) in
        if d < 256 \<and> i \<le> d + 1 then Some \<lparr>sd_seq = q, sd_value = tot - 1 - d\<rparr> else None))"

lemma take_value_ok:
  assumes t: "taking tot seq i b" and i: "1 \<le> i" "i \<le> 256" "i \<le> unat seq" "i \<le> tot"
  shows "\<exists>b'. take_value tot seq b i = Inr b' \<and> taking tot seq (Suc i) b'"
proof -
  let ?q = "seq - of_nat i"
  have wf: "sb_wf b" and c: "sb_capacity b = 256"
    and l: "\<And>q. sb_lookup b q = (let d = unat (seq - 1 - q) in
        if d < 256 \<and> i \<le> d + 1 then Some \<lparr>sd_seq = q, sd_value = tot - 1 - d\<rparr> else None)"
    using t by (auto simp: taking_def)
  have "of_nat i = (of_nat (i - 1) + 1 :: u16)"
    using i(1) by (metis Suc_diff_1 add.commute less_eq_Suc_le One_nat_def of_nat_Suc)
  then have "seq - 1 - ?q = (of_nat (i - 1) :: u16)" by simp
  then have d: "unat (seq - 1 - ?q) = i - 1" using i by (simp only: unat_u16_of_nat) simp
  have here: "sb_lookup b ?q = Some \<lparr>sd_seq = ?q, sd_value = tot - i\<rparr>"
    using i unfolding l d Let_def by simp
  have le: "of_nat i \<le> seq" using i by (simp add: word_le_nat_alt unat_u16_of_nat)
  obtain b' where b': "sb_take b ?q = Inr (sb_lookup b ?q, b')" "sb_wf b'"
    "sb_lookup b' = (sb_lookup b)(?q := None)" "sb_capacity b' = 256"
    using sb_take_wf[OF wf, of ?q] c by metis
  have only: "unat (seq - 1 - q) = i - 1 \<longleftrightarrow> q = ?q" for q
    using d by (metis (no_types) diff_left_imp_eq unsigned_word_eqI)
  have "sb_lookup b' q = (let d = unat (seq - 1 - q) in
        if d < 256 \<and> Suc i \<le> d + 1 then Some \<lparr>sd_seq = q, sd_value = tot - 1 - d\<rparr> else None)" for q
    using only[of q] i(1) by (auto simp: b'(3) l Let_def)
  then have t': "taking tot seq (Suc i) b'" using b' by (simp add: taking_def)
  have "\<not> sb_slot_free b ?q" using here by (auto dest: sb_slot_freeD)
  moreover have "sb_slot_free b' ?q"
    unfolding sb_slot_free_def
  proof (intro allI impI)
    fix q assume "sb_index b' q = sb_index b' ?q"
    then have "sb_index b q = sb_index b ?q" by (simp add: sb_index_def b'(4) c)
    then show "sb_lookup b' q = None"
      using sb_lookup_unique[OF wf, of q ?q] here by (cases "sb_lookup b q") (auto simp: b'(3))
  qed
  ultimately show ?thesis
    using t' i(4) le here by (simp add: take_value_def sb_reads[OF wf] sb_reads[OF b'(2)] b'(1))
qed

lemma test_sequence_buffer_take_ok: "test_sequence_buffer_take = Inr ()"
proof -
  let ?enter = "\<lambda>(buffer, seq) value.
         rbind (sb_insert buffer seq \<lparr>sd_seq = seq, sd_value = value\<rparr>) (\<lambda>(inserted, buffer).
         rbind (rassert inserted) (\<lambda>_.
         Inr (buffer, seq + 1)))"
  obtain b :: "seq_data sequence_buffer" where b: "sb_new 256 = Inr b" by (simp add: sb_new_def)
  have step: "\<exists>st'. ?enter st n = Inr st' \<and> entering (Suc n) st'" if "entering n st" for n st
  proof -
    obtain b seq where st: "st = (b, seq)" by (cases st)
    show ?thesis by (rule entering_insert[OF that[unfolded st]]) (simp add: st)
  qed
  obtain st where st: "rfold ?enter (b, 0) [0..<100000] = Inr st \<and> entering 100000 st"
    using rfold_upt[where I = entering and f = ?enter, OF entering_new[OF b] _ step] by blast
  obtain b1 s1 where "st = (b1, s1)" by (cases st)
  with st have r: "rfold ?enter (b, 0) [0..<100000] = Inr (b1, s1)" and e: "entering 100000 (b1, s1)"
    by (simp_all only:)
  have "sb_wf b1" "sb_capacity b1 = 256" "s1 = of_nat 100000"
    and t: "taking 100000 s1 1 b1"
    using e entering_read[OF e] by (auto simp: taking_def entering_def Let_def)
  moreover have "unat (of_nat 100000 :: u16) = 34464" by (simp only: unat_u16_of_nat) simp
  ultimately have s1: "unat s1 = 34464" by (simp only:)
  have "\<exists>b2. rfold (take_value 100000 s1) b1 [1..<Suc 256] = Inr b2 \<and> taking 100000 s1 (Suc 256) b2"
    by (rule rfold_upt[where I = "taking 100000 s1"], rule t, simp, rule take_value_ok) (simp_all add: s1)
  then obtain b2 where "rfold (take_value 100000 s1) b1 [1..<Suc 256] = Inr b2" by blast
  then show ?thesis
    by (simp add: test_sequence_buffer_take_def Let_def b r del: upt_conv_Cons upt_Suc upt_rec_numeral)
qed

text \<open>C34: Every test of the sequence buffer passes: the wrapping order of the tested pairs and
  of all 65536 numbers with their neighbours 25 and 15000 away, the buffer of 256 entries
  through 100,000 insertions (more than a wrap-around of the sequence numbers) with its
  refusals, its memory and its reset, and taking the last 256 entries out again.\<close>

theorem sequence_buffer_tests_pass:
  "test_sequence_greater_than = Inr () \<and> test_sequence_less_than = Inr () \<and>
   test_sequence_comparisons = Inr () \<and> test_sequence_buffer = Inr () \<and>
   test_sequence_buffer_take = Inr ()"
proof -
  have "test_sequence_greater_than = Inr ()" "test_sequence_less_than = Inr ()" by code_simp+
  then show ?thesis
    using test_sequence_comparisons_ok test_sequence_buffer_ok test_sequence_buffer_take_ok by blast
qed

end
