(* ===== verification/Float64.thy ===== *)
theory Float64
  imports Rust_Prelude "HOL-Library.Log_Nat"
begin

text \<open>
  The times of the crate are \<open>f64\<close> values. This theory is the part of IEEE 754 binary64 the
  sources use: addition and division rounded to nearest, ties to even, the comparisons, and
  the constants. A finite value is \<open>Fin m e\<close>, that is \<open>m * 2 ^ e\<close>; the two zeros are one
  value (nothing in the sources can tell them apart). \<open>f32\<close> values are only compared, never
  computed with, and every \<open>f32\<close> is an \<open>f64\<close>.
\<close>

datatype f64 = NaN | PosInf | NegInf | Fin int int

type_synonym f32 = f64

definition round_half_even :: "int \<Rightarrow> int \<Rightarrow> int" where
  "round_half_even n d =
     (let k = n div d; r = n mod d
      in if 2 * r < d \<or> (2 * r = d \<and> even k) then k else k + 1)"

text \<open>The binary64 value nearest to \<open>(n / d) * 2 ^ e\<close>, for \<open>0 < d\<close>: \<open>x\<close> is the exponent of
  the last place, at least \<open>-1074\<close>, such that the significand has 53 bits.\<close>

definition f64_round :: "int \<Rightarrow> int \<Rightarrow> int \<Rightarrow> f64" where
  "f64_round n d e =
     (if n = 0 then Fin 0 0 else
      let a = \<bar>n\<bar>;
          x0 = max (bitlen a - bitlen d + e - 53) (-1074);
          x = (if 2 ^ 53 * (d * 2 ^ nat (x0 - e)) \<le> a * 2 ^ nat (e - x0) then x0 + 1 else x0);
          q = round_half_even (a * 2 ^ nat (e - x)) (d * 2 ^ nat (x - e))
      in if 1024 < bitlen q + x then (if n < 0 then NegInf else PosInf)
         else Fin (sgn n * q) x)"

definition f64_of_int :: "int \<Rightarrow> f64" where
  "f64_of_int n = f64_round n 1 0"

fun f64_add :: "f64 \<Rightarrow> f64 \<Rightarrow> f64" where
  "f64_add (Fin m1 e1) (Fin m2 e2) =
     (let e = min e1 e2 in f64_round (m1 * 2 ^ nat (e1 - e) + m2 * 2 ^ nat (e2 - e)) 1 e)"
| "f64_add NaN _ = NaN"
| "f64_add _ NaN = NaN"
| "f64_add PosInf NegInf = NaN"
| "f64_add NegInf PosInf = NaN"
| "f64_add PosInf _ = PosInf"
| "f64_add NegInf _ = NegInf"
| "f64_add _ PosInf = PosInf"
| "f64_add _ NegInf = NegInf"

text \<open>The quotient is rounded once.\<close>

fun f64_div :: "f64 \<Rightarrow> f64 \<Rightarrow> f64" where
  "f64_div (Fin m1 e1) (Fin m2 e2) =
     (if m2 = 0 then (if m1 = 0 then NaN else if m1 < 0 then NegInf else PosInf)
      else f64_round (m1 * sgn m2) \<bar>m2\<bar> (e1 - e2))"
| "f64_div PosInf (Fin m2 e2) = (if m2 < 0 then NegInf else PosInf)"
| "f64_div NegInf (Fin m2 e2) = (if m2 < 0 then PosInf else NegInf)"
| "f64_div (Fin m1 e1) PosInf = Fin 0 0"
| "f64_div (Fin m1 e1) NegInf = Fin 0 0"
| "f64_div _ _ = NaN"

fun f64_neg :: "f64 \<Rightarrow> f64" where
  "f64_neg (Fin m e) = Fin (- m) e"
| "f64_neg PosInf = NegInf"
| "f64_neg NegInf = PosInf"
| "f64_neg NaN = NaN"

fun f64_le :: "f64 \<Rightarrow> f64 \<Rightarrow> bool" where
  "f64_le (Fin m1 e1) (Fin m2 e2) \<longleftrightarrow>
     (let e = min e1 e2 in m1 * 2 ^ nat (e1 - e) \<le> m2 * 2 ^ nat (e2 - e))"
| "f64_le NaN _ \<longleftrightarrow> False"
| "f64_le _ NaN \<longleftrightarrow> False"
| "f64_le NegInf _ \<longleftrightarrow> True"
| "f64_le _ PosInf \<longleftrightarrow> True"
| "f64_le _ _ \<longleftrightarrow> False"

instantiation f64 :: "{plus, inverse, uminus, ord}"
begin
definition "plus_f64 = f64_add"
definition "divide_f64 = f64_div"
definition "inverse_f64 = f64_div (Fin 1 0)"
definition "uminus_f64 = f64_neg"
definition "less_eq_f64 = f64_le"
definition "less_f64 x y \<longleftrightarrow> f64_le x y \<and> \<not> f64_le y x"
instance ..
end

text \<open>The comparison \<open>==\<close>.\<close>

definition f64_eq :: "f64 \<Rightarrow> f64 \<Rightarrow> bool" where
  "f64_eq x y \<longleftrightarrow> x \<le> y \<and> y \<le> x"

text \<open>\<open>x.ceil() as usize\<close>, which saturates at both ends.\<close>

fun f64_ceil_usize :: "f64 \<Rightarrow> usize" where
  "f64_ceil_usize (Fin m e) =
     min (2 ^ 64 - 1) (nat (if 0 \<le> e then m * 2 ^ nat e else - ((- m) div 2 ^ nat (- e))))"
| "f64_ceil_usize PosInf = 2 ^ 64 - 1"
| "f64_ceil_usize _ = 0"

section \<open>The order\<close>

definition f64_number :: "f64 \<Rightarrow> bool" where
  "f64_number x \<longleftrightarrow> x \<noteq> NaN"

lemma fin_le_scale:
  assumes "c \<le> e1" "c \<le> e2"
  shows "Fin m1 e1 \<le> Fin m2 e2 \<longleftrightarrow> m1 * 2 ^ nat (e1 - c) \<le> m2 * 2 ^ nat (e2 - c)"
proof -
  define e where "e = min e1 e2"
  define k where "k = (2 :: int) ^ nat (e - c)"
  have e: "e \<le> e1" "e \<le> e2" "c \<le> e" using assms by (auto simp: e_def)
  have split: "m * 2 ^ nat (f - c) = (m * 2 ^ nat (f - e)) * k" if "e \<le> f" for m f
    using that e(3) by (simp add: k_def mult.assoc power_add[symmetric] nat_add_distrib[symmetric])
  have "m1 * 2 ^ nat (e1 - c) \<le> m2 * 2 ^ nat (e2 - c) \<longleftrightarrow>
      m1 * 2 ^ nat (e1 - e) \<le> m2 * 2 ^ nat (e2 - e)"
    by (simp only: split[OF e(1)] split[OF e(2)]) (simp add: k_def)
  then show ?thesis by (simp add: less_eq_f64_def Let_def e_def)
qed

lemma f64_le_refl: "f64_number x \<Longrightarrow> x \<le> x"
  by (cases x) (auto simp: f64_number_def less_eq_f64_def)

lemma f64_le_numbers: "x \<le> y \<Longrightarrow> f64_number x \<and> f64_number y"
  by (cases x; cases y) (auto simp: f64_number_def less_eq_f64_def)

lemma f64_le_total: "f64_number x \<Longrightarrow> f64_number y \<Longrightarrow> x \<le> y \<or> y \<le> x"
  by (cases x; cases y) (auto simp: f64_number_def less_eq_f64_def Let_def min_def)

lemma f64_le_trans:
  fixes x y z :: f64
  assumes "x \<le> y" "y \<le> z"
  shows "x \<le> z"
proof (cases "\<exists>m1 e1 m2 e2 m3 e3. x = Fin m1 e1 \<and> y = Fin m2 e2 \<and> z = Fin m3 e3")
  case True
  then obtain m1 e1 m2 e2 m3 e3 where [simp]: "x = Fin m1 e1" "y = Fin m2 e2" "z = Fin m3 e3" by blast
  define c where "c = min e1 (min e2 e3)"
  have "c \<le> e1" "c \<le> e2" "c \<le> e3" by (auto simp: c_def)
  with assms show ?thesis by (simp add: fin_le_scale[where c = c])
next
  case False
  with assms show ?thesis by (cases x; cases y; cases z) (auto simp: less_eq_f64_def)
qed

lemma f64_less_le: "(x :: f64) < y \<longleftrightarrow> x \<le> y \<and> \<not> y \<le> x"
  by (simp add: less_f64_def less_eq_f64_def)

text \<open>The model computes what the hardware does on well known values.\<close>

lemma f64_tenth: "f64_round 1 10 0 = Fin 7205759403792794 (- 56)"
  by code_simp

lemma f64_tenth_sum:
  "f64_round 1 10 0 + f64_round 2 10 0 = Fin 5404319552844596 (- 54)"
  "\<not> f64_eq (f64_round 1 10 0 + f64_round 2 10 0) (f64_round 3 10 0)"
  by code_simp+

end
