(* ===== verification/Config.thy ===== *)
theory Config
  imports Float64
begin

text \<open>
  \<open>src/config.rs\<close>: the configuration records and their defaults, the cargo features of the
  crate, and the error levels of channels (\<open>src/channel.rs\<close>) and connections
  (\<open>src/connection.rs\<close>). \<open>new_reliable_config\<close>, which fills a C struct, is not modelled here.
\<close>

text \<open>The cargo features that change what the modelled code does.\<close>

record features =
  feat_serialize_check :: bool
  feat_soak_debugging_asserts :: bool

datatype channel_type = ReliableOrdered | UnreliableUnordered

record channel_config =
  cc_kind :: channel_type
  cc_sent_packet_buffer_size :: usize
  cc_message_send_queue_size :: usize
  cc_message_receive_queue_size :: usize
  cc_max_messages_per_packet :: usize
  cc_packet_budget :: "usize option"
  cc_message_resend_time :: f64
  cc_block_fragment_resend_time :: f64

definition channel_config_new :: "channel_type \<Rightarrow> channel_config" where
  "channel_config_new kind =
     \<lparr>cc_kind = kind, cc_sent_packet_buffer_size = 1024, cc_message_send_queue_size = 1024,
      cc_message_receive_queue_size = 1024, cc_max_messages_per_packet = 256,
      cc_packet_budget = None, cc_message_resend_time = f64_round 1 10 0,
      cc_block_fragment_resend_time = f64_round 1 4 0\<rparr>"

record connection_config =
  nc_max_packet_size :: usize
  nc_channels :: "channel_config list"

definition connection_config_new :: "usize \<Rightarrow> connection_config" where
  "connection_config_new channels =
     \<lparr>nc_max_packet_size = 8 * 1024,
      nc_channels = replicate channels (channel_config_new ReliableOrdered)\<rparr>"

record network_simulator_config =
  sc_max_simulator_packets :: usize

definition network_simulator_config_default :: network_simulator_config where
  "network_simulator_config_default = \<lparr>sc_max_simulator_packets = 4 * 1024\<rparr>"

record client_server_config =
  cs_connection :: connection_config
  cs_protocol_id :: u64
  cs_timeout :: int
  cs_client_memory :: usize
  cs_server_global_memory :: usize
  cs_server_per_client_memory :: usize
  cs_network_simulator :: "network_simulator_config option"
  cs_fragment_packets_above :: usize
  cs_packet_fragment_size :: usize
  cs_max_packet_fragments :: usize
  cs_packet_reassembly_buffer_size :: usize
  cs_acked_packets_buffer_size :: usize
  cs_received_packets_buffer_size :: usize
  cs_rtt_smoothing_factor :: f32

text \<open>\<open>0.0025\<close> is stored as an \<open>f32\<close>: the nearest value with a 24 bit significand.\<close>

definition client_server_config_new :: "usize \<Rightarrow> client_server_config" where
  "client_server_config_new channels =
     (let connection = connection_config_new channels;
          packet_fragment_size = 1024;
          max_packet_fragments =
            f64_ceil_usize (f64_of_int (int (nc_max_packet_size connection)) /
                            f64_of_int packet_fragment_size)
      in \<lparr>cs_connection = connection, cs_protocol_id = 0, cs_timeout = 5,
          cs_client_memory = 10 * 1024 * 1024, cs_server_global_memory = 10 * 1024 * 1024,
          cs_server_per_client_memory = 10 * 1024 * 1024, cs_network_simulator = None,
          cs_fragment_packets_above = 1024, cs_packet_fragment_size = 1024,
          cs_max_packet_fragments = max_packet_fragments,
          cs_packet_reassembly_buffer_size = 64, cs_acked_packets_buffer_size = 256,
          cs_received_packets_buffer_size = 256,
          cs_rtt_smoothing_factor = Fin 10737418 (- 32)\<rparr>)"

lemma default_max_packet_fragments:
  "cs_max_packet_fragments (client_server_config_new n) = 8"
  by (simp add: client_server_config_new_def Let_def connection_config_new_def) code_simp

text \<open>The bits a channel may use of those its packet has left: its own budget in bytes, if it has
  one, bounds them.\<close>

definition channel_budget :: "channel_config \<Rightarrow> usize \<Rightarrow> usize" where
  "channel_budget config available_bits =
     (case cc_packet_budget config of None \<Rightarrow> available_bits | Some bytes \<Rightarrow> min (bytes * 8) available_bits)"

text \<open>The sizes for which a reliable channel keeps its promises: ring buffers whose length divides
  65536, at most a quarter of the range for the queues. The defaults are among them.\<close>

definition reliable_config_ok :: "channel_config \<Rightarrow> bool" where
  "reliable_config_ok config \<longleftrightarrow>
     cc_kind config = ReliableOrdered \<and> 1 \<le> cc_max_messages_per_packet config \<and>
     2 \<le> cc_message_send_queue_size config \<and> cc_message_send_queue_size config \<le> 16384 \<and>
     cc_message_send_queue_size config dvd 65536 \<and>
     2 \<le> cc_message_receive_queue_size config \<and> cc_message_receive_queue_size config \<le> 16384 \<and>
     cc_message_receive_queue_size config dvd 65536 \<and>
     2 \<le> cc_sent_packet_buffer_size config \<and> cc_sent_packet_buffer_size config \<le> 32768 \<and>
     cc_sent_packet_buffer_size config dvd 65536"

lemma default_config_ok: "reliable_config_ok (channel_config_new ReliableOrdered)"
proof -
  have "(1024 :: nat) dvd 65536" by (rule dvdI[of _ _ 64]) simp
  then show ?thesis by (simp add: reliable_config_ok_def channel_config_new_def)
qed

section \<open>Error levels\<close>

datatype channel_error_level =
    ChannelNone | Desync | SendQueueFull | BlocksDisabled | FailedToSerialize | OutOfMemory

datatype connection_error_level = ConnectionNone | ConnectionChannel | ReadPacketFailed

section \<open>Header sizes, src/channel.rs\<close>

definition CONSERVATIVE_MESSAGE_HEADER_BITS :: usize where
  "CONSERVATIVE_MESSAGE_HEADER_BITS = 32"

definition CONSERVATIVE_CHANNEL_HEADER_BITS :: usize where
  "CONSERVATIVE_CHANNEL_HEADER_BITS = 32"

definition CONSERVATIVE_PACKET_HEADER_BITS :: usize where
  "CONSERVATIVE_PACKET_HEADER_BITS = 16"

definition SERIALIZE_CHECK_VALUE :: u32 where
  "SERIALIZE_CHECK_VALUE = 0x12345678"

lemmas header_bits =
  CONSERVATIVE_MESSAGE_HEADER_BITS_def CONSERVATIVE_CHANNEL_HEADER_BITS_def
  CONSERVATIVE_PACKET_HEADER_BITS_def

end
