(* ===== verification/Network_Simulator.thy ===== *)
theory Network_Simulator
  imports Config
begin

text \<open>
  \<open>src/network_simulator.rs\<close>: a queue of packets held back for a while, which may lose and
  duplicate them. The random numbers come from the crate \<open>rand\<close>: the draws of one call are an
  argument, in the ranges \<open>rand\<close> documents. The code, its invariant over every sequence of
  calls, and what it does to a packet.
\<close>

section \<open>The code\<close>

record packet_entry =
  pe_destination_client_index :: usize
  pe_delivery_time :: f64
  pe_packet_data :: "u8 list"
  pe_consumed :: bool

record network_simulator =
  ns_latency :: f64
  ns_jitter :: f64
  ns_packet_loss :: f32
  ns_duplicates :: f32
  ns_active :: bool
  ns_time :: f64
  ns_entries :: "packet_entry vec_deque"

abbreviation f64_zero :: f64 where "f64_zero \<equiv> f64_of_int 0"
abbreviation f64_one :: f64 where "f64_one \<equiv> f64_of_int 1"

definition sim_new :: "usize \<Rightarrow> f64 \<Rightarrow> network_simulator" where
  "sim_new max_packets time =
     \<lparr>ns_latency = f64_zero, ns_jitter = f64_zero, ns_packet_loss = f64_zero, ns_duplicates = f64_zero,
      ns_active = False, ns_time = time, ns_entries = vd_with_capacity max_packets\<rparr>"

definition sim_update_active :: "network_simulator \<Rightarrow> network_simulator" where
  "sim_update_active ns =
     (let previous = ns_active ns;
          active = (\<not> f64_eq (ns_latency ns) f64_zero \<or> \<not> f64_eq (ns_jitter ns) f64_zero \<or>
                    \<not> f64_eq (ns_packet_loss ns) f64_zero \<or> \<not> f64_eq (ns_duplicates ns) f64_zero);
          ns' = ns\<lparr>ns_active := active\<rparr>
      in if previous \<and> \<not> active then ns'\<lparr>ns_entries := vd_clear (ns_entries ns')\<rparr> else ns')"

definition sim_set_latency :: "network_simulator \<Rightarrow> f64 \<Rightarrow> network_simulator" where
  "sim_set_latency ns milliseconds = sim_update_active (ns\<lparr>ns_latency := milliseconds\<rparr>)"

definition sim_set_jitter :: "network_simulator \<Rightarrow> f64 \<Rightarrow> network_simulator" where
  "sim_set_jitter ns milliseconds = sim_update_active (ns\<lparr>ns_jitter := milliseconds\<rparr>)"

definition sim_set_packet_loss :: "network_simulator \<Rightarrow> f32 \<Rightarrow> panic + network_simulator" where
  "sim_set_packet_loss ns percent =
     (if \<not> (f64_zero \<le> percent \<and> percent \<le> f64_one) then Inl AssertionFailed
      else Inr (sim_update_active (ns\<lparr>ns_packet_loss := percent\<rparr>)))"

definition sim_set_duplicates :: "network_simulator \<Rightarrow> f32 \<Rightarrow> panic + network_simulator" where
  "sim_set_duplicates ns percent =
     (if \<not> (f64_zero \<le> percent \<and> percent \<le> f64_one) then Inl AssertionFailed
      else Inr (sim_update_active (ns\<lparr>ns_duplicates := percent\<rparr>)))"

definition sim_discard_packets :: "network_simulator \<Rightarrow> network_simulator" where
  "sim_discard_packets ns = ns\<lparr>ns_entries := vd_clear (ns_entries ns)\<rparr>"

text \<open>\<open>VecDeque::retain\<close> keeps the capacity.\<close>

definition vd_retain :: "('a \<Rightarrow> bool) \<Rightarrow> 'a vec_deque \<Rightarrow> 'a vec_deque" where
  "vd_retain keep d = d\<lparr>vd_items := filter keep (vd_items d)\<rparr>"

definition sim_discard_client_packets :: "network_simulator \<Rightarrow> usize \<Rightarrow> network_simulator" where
  "sim_discard_client_packets ns client_index =
     ns\<lparr>ns_entries := vd_retain (\<lambda>entry. pe_destination_client_index entry \<noteq> client_index) (ns_entries ns)\<rparr>"

definition sim_advance_time :: "network_simulator \<Rightarrow> f64 \<Rightarrow> network_simulator" where
  "sim_advance_time ns time =
     ns\<lparr>ns_time := time, ns_entries := vd_retain (\<lambda>entry. \<not> pe_consumed entry) (ns_entries ns)\<rparr>"

definition sim_push_packet :: "network_simulator \<Rightarrow> packet_entry \<Rightarrow> network_simulator" where
  "sim_push_packet ns entry =
     (let entries = (if length (vd_items (ns_entries ns)) = vd_capacity (ns_entries ns)
                     then snd (vd_pop_front (ns_entries ns)) else ns_entries ns)
      in ns\<lparr>ns_entries := vd_push_back entries entry\<rparr>)"

text \<open>The draws of one \<open>send_packet\<close>, in order: two \<open>gen::<f32>()\<close>, a \<open>gen_range\<close> (only used with
  jitter) and a \<open>gen::<f64>()\<close> (only used for a duplicate).\<close>

record draws =
  dr_loss :: f32
  dr_jitter :: f64
  dr_duplicate :: f32
  dr_extra_delay :: f64

definition sim_send_packet ::
  "draws \<Rightarrow> network_simulator \<Rightarrow> usize \<Rightarrow> u8 list \<Rightarrow> panic + network_simulator" where
  "sim_send_packet rng ns client_index packet_data =
     (if dr_loss rng < ns_packet_loss ns then Inr ns else
      let delay0 = ns_latency ns / f64_of_int 1000;
          delay = (if ns_jitter ns > f64_zero then delay0 + dr_jitter rng / f64_of_int 1000 else delay0);
          entry = \<lparr>pe_destination_client_index = client_index, pe_delivery_time = ns_time ns + delay,
                   pe_packet_data = packet_data, pe_consumed = False\<rparr>;
          ns = sim_push_packet ns entry
      in if dr_duplicate rng < ns_duplicates ns then
           (case rev (vd_items (ns_entries ns)) of
              [] \<Rightarrow> Inl UnwrapOnNone
            | entry # _ \<Rightarrow>
                Inr (sim_push_packet ns (entry\<lparr>pe_delivery_time := ns_time ns + delay + dr_extra_delay rng\<rparr>)))
         else Inr ns)"

text \<open>The iterator of \<open>receive_packets\<close>, run to its end, as both callers do.\<close>

fun sim_take_due ::
  "f64 \<Rightarrow> packet_entry list \<Rightarrow> panic + ((usize \<times> u8 list) list \<times> packet_entry list)" where
  "sim_take_due time [] = Inr ([], [])"
| "sim_take_due time (entry # entries) =
     (if pe_consumed entry then Inl AssertionFailed else
      rbind (sim_take_due time entries) (\<lambda>(received, entries').
      if pe_delivery_time entry < time
      then Inr ((pe_destination_client_index entry, pe_packet_data entry) # received,
                entry\<lparr>pe_consumed := True\<rparr> # entries')
      else Inr (received, entry # entries')))"

definition sim_receive_packets ::
  "network_simulator \<Rightarrow> panic + ((usize \<times> u8 list) list \<times> network_simulator)" where
  "sim_receive_packets ns =
     (if \<not> ns_active ns then Inl AssertionFailed else
      rbind (sim_take_due (ns_time ns) (vd_items (ns_entries ns))) (\<lambda>(received, entries).
      Inr (received, ns\<lparr>ns_entries := (ns_entries ns)\<lparr>vd_items := entries\<rparr>\<rparr>)))"

section \<open>Every sequence of calls\<close>

text \<open>What \<open>rand\<close> documents: \<open>gen\<close> gives a number from 0 up to but not including 1.\<close>

definition draws_ok :: "draws \<Rightarrow> bool" where
  "draws_ok rng \<longleftrightarrow> f64_zero \<le> dr_loss rng \<and> dr_loss rng < f64_one \<and> f64_zero \<le> dr_duplicate rng \<and>
     dr_duplicate rng < f64_one \<and> f64_zero \<le> dr_extra_delay rng \<and> dr_extra_delay rng < f64_one"

inductive sim_step :: "network_simulator \<Rightarrow> network_simulator \<Rightarrow> bool" where
  Latency: "sim_step ns (sim_set_latency ns ms)"
| Jitter: "sim_step ns (sim_set_jitter ns ms)"
| Loss: "sim_set_packet_loss ns p = Inr ns' \<Longrightarrow> sim_step ns ns'"
| Duplicates: "sim_set_duplicates ns p = Inr ns' \<Longrightarrow> sim_step ns ns'"
| Discard: "sim_step ns (sim_discard_packets ns)"
| DiscardClient: "sim_step ns (sim_discard_client_packets ns i)"
| Advance: "sim_step ns (sim_advance_time ns t)"
| SendPacket: "draws_ok rng \<Longrightarrow> sim_send_packet rng ns i data = Inr ns' \<Longrightarrow> sim_step ns ns'"
| ReceivePackets: "sim_receive_packets ns = Inr (received, ns') \<Longrightarrow> sim_step ns ns'"

inductive sim_reachable :: "usize \<Rightarrow> network_simulator \<Rightarrow> bool" for max_packets where
  New: "sim_reachable max_packets (sim_new max_packets time)"
| Step: "sim_reachable max_packets ns \<Longrightarrow> sim_step ns ns' \<Longrightarrow> sim_reachable max_packets ns'"

definition sim_configured :: "network_simulator \<Rightarrow> bool" where
  "sim_configured ns \<longleftrightarrow>
     \<not> (f64_eq (ns_latency ns) f64_zero \<and> f64_eq (ns_jitter ns) f64_zero \<and>
        f64_eq (ns_packet_loss ns) f64_zero \<and> f64_eq (ns_duplicates ns) f64_zero)"

definition fraction :: "f32 \<Rightarrow> bool" where
  "fraction p \<longleftrightarrow> f64_zero \<le> p \<and> p \<le> f64_one"

definition sim_ok :: "usize \<Rightarrow> network_simulator \<Rightarrow> bool" where
  "sim_ok max_packets ns \<longleftrightarrow> vd_capacity (ns_entries ns) = max_packets \<and>
     length (vd_items (ns_entries ns)) \<le> max_packets \<and> ns_active ns = sim_configured ns \<and>
     fraction (ns_packet_loss ns) \<and> fraction (ns_duplicates ns)"

lemma sim_update_active_simps [simp]:
  "ns_latency (sim_update_active ns) = ns_latency ns" "ns_jitter (sim_update_active ns) = ns_jitter ns"
  "ns_packet_loss (sim_update_active ns) = ns_packet_loss ns"
  "ns_duplicates (sim_update_active ns) = ns_duplicates ns" "ns_time (sim_update_active ns) = ns_time ns"
  "ns_active (sim_update_active ns) = sim_configured ns"
  "vd_capacity (ns_entries (sim_update_active ns)) = vd_capacity (ns_entries ns)"
  "vd_items (ns_entries (sim_update_active ns)) =
     (if ns_active ns \<and> \<not> sim_configured ns then [] else vd_items (ns_entries ns))"
  by (auto simp: sim_update_active_def sim_configured_def Let_def)

lemma sim_update_active_configured [simp]: "sim_configured (sim_update_active ns) = sim_configured ns"
  by (simp add: sim_configured_def)

lemma sim_update_ok:
  "vd_capacity (ns_entries ns) = n \<Longrightarrow> length (vd_items (ns_entries ns)) \<le> n \<Longrightarrow>
    fraction (ns_packet_loss ns) \<Longrightarrow> fraction (ns_duplicates ns) \<Longrightarrow> sim_ok n (sim_update_active ns)"
  by (simp add: sim_ok_def)

text \<open>A push onto a full queue drops the oldest packet.\<close>

lemma sim_push_items:
  assumes "0 < vd_capacity (ns_entries ns)" "length (vd_items (ns_entries ns)) \<le> vd_capacity (ns_entries ns)"
  shows "vd_items (ns_entries (sim_push_packet ns e)) =
      drop (length (vd_items (ns_entries ns)) + 1 - vd_capacity (ns_entries ns)) (vd_items (ns_entries ns) @ [e])"
    "vd_capacity (ns_entries (sim_push_packet ns e)) = vd_capacity (ns_entries ns)"
    "sim_push_packet ns e = ns\<lparr>ns_entries := ns_entries (sim_push_packet ns e)\<rparr>"
proof -
  show "sim_push_packet ns e = ns\<lparr>ns_entries := ns_entries (sim_push_packet ns e)\<rparr>"
    by (simp add: sim_push_packet_def Let_def)
  show "vd_items (ns_entries (sim_push_packet ns e)) =
      drop (length (vd_items (ns_entries ns)) + 1 - vd_capacity (ns_entries ns)) (vd_items (ns_entries ns) @ [e])"
    "vd_capacity (ns_entries (sim_push_packet ns e)) = vd_capacity (ns_entries ns)"
    using assms by (cases "vd_items (ns_entries ns)"; fastforce simp: sim_push_packet_def Let_def vd_push_back_def)+
qed

lemma sim_push_ok:
  assumes "sim_ok n ns" "0 < n"
  shows "sim_ok n (sim_push_packet ns e)" "ns_time (sim_push_packet ns e) = ns_time ns"
    "ns_duplicates (sim_push_packet ns e) = ns_duplicates ns" "ns_active (sim_push_packet ns e) = ns_active ns"
proof -
  have *: "vd_capacity (ns_entries ns) = n" "length (vd_items (ns_entries ns)) \<le> n"
    using assms(1) by (simp_all add: sim_ok_def)
  note P = sim_push_items[of ns e, unfolded *(1), OF assms(2) *(2)]
  have fields: "ns_active (sim_push_packet ns e) = ns_active ns"
    "ns_packet_loss (sim_push_packet ns e) = ns_packet_loss ns"
    "ns_duplicates (sim_push_packet ns e) = ns_duplicates ns"
    "sim_configured (sim_push_packet ns e) = sim_configured ns" "ns_time (sim_push_packet ns e) = ns_time ns"
    by (simp_all add: sim_push_packet_def Let_def sim_configured_def)
  have "length (vd_items (ns_entries (sim_push_packet ns e))) \<le> n" unfolding P(1) using assms(2) *(2) by simp
  with assms(1) P(2) fields show "sim_ok n (sim_push_packet ns e)" by (simp add: sim_ok_def)
  show "ns_time (sim_push_packet ns e) = ns_time ns" "ns_duplicates (sim_push_packet ns e) = ns_duplicates ns"
    "ns_active (sim_push_packet ns e) = ns_active ns" by (fact fields)+
qed

text \<open>The copies of a packet that one \<open>send_packet\<close> queues.\<close>

definition sim_copies :: "draws \<Rightarrow> network_simulator \<Rightarrow> usize \<Rightarrow> u8 list \<Rightarrow> packet_entry list" where
  "sim_copies rng ns client_index packet_data =
     (if dr_loss rng < ns_packet_loss ns then [] else
      let delay0 = ns_latency ns / f64_of_int 1000;
          delay = (if ns_jitter ns > f64_zero then delay0 + dr_jitter rng / f64_of_int 1000 else delay0);
          entry = \<lparr>pe_destination_client_index = client_index, pe_delivery_time = ns_time ns + delay,
                   pe_packet_data = packet_data, pe_consumed = False\<rparr>
      in if dr_duplicate rng < ns_duplicates ns
         then [entry, entry\<lparr>pe_delivery_time := ns_time ns + delay + dr_extra_delay rng\<rparr>] else [entry])"

lemma sim_send_result:
  assumes ok: "sim_ok n ns" and n: "0 < n"
  obtains ns' where "sim_send_packet rng ns i data = Inr ns'" "sim_ok n ns'"
    "ns_time ns' = ns_time ns" "ns_active ns' = ns_active ns"
    "vd_items (ns_entries ns') =
       drop (length (vd_items (ns_entries ns)) + length (sim_copies rng ns i data) - n)
         (vd_items (ns_entries ns) @ sim_copies rng ns i data)"
proof (cases "dr_loss rng < ns_packet_loss ns")
  case True
  with ok show ?thesis
    by (intro that[of ns]) (simp_all add: sim_send_packet_def sim_copies_def sim_ok_def)
next
  case kept: False
  define delay where "delay = (if ns_jitter ns > f64_zero
      then ns_latency ns / f64_of_int 1000 + dr_jitter rng / f64_of_int 1000 else ns_latency ns / f64_of_int 1000)"
  define e where "e = \<lparr>pe_destination_client_index = i, pe_delivery_time = ns_time ns + delay,
                   pe_packet_data = data, pe_consumed = False\<rparr>"
  define ns1 where "ns1 = sim_push_packet ns e"
  note P1 = sim_push_ok[OF ok n, of e, folded ns1_def]
  have fit: "vd_capacity (ns_entries ns) = n" "length (vd_items (ns_entries ns)) \<le> n"
    "vd_capacity (ns_entries ns1) = n" "length (vd_items (ns_entries ns1)) \<le> n"
    using ok P1(1) by (simp_all add: sim_ok_def)
  have run: "sim_send_packet rng ns i data =
        (if dr_duplicate rng < ns_duplicates ns1 then
           (case rev (vd_items (ns_entries ns1)) of [] \<Rightarrow> Inl UnwrapOnNone
            | entry # _ \<Rightarrow> Inr (sim_push_packet ns1 (entry\<lparr>pe_delivery_time := ns_time ns1 + delay + dr_extra_delay rng\<rparr>)))
         else Inr ns1)"
    unfolding sim_send_packet_def ns1_def e_def delay_def Let_def by (simp only: kept if_False)
  have items1: "vd_items (ns_entries ns1) = drop (length (vd_items (ns_entries ns)) + 1 - n) (vd_items (ns_entries ns) @ [e])"
    using sim_push_items(1)[of ns e] fit n by (simp add: ns1_def)
  then obtain before where last: "rev (vd_items (ns_entries ns1)) = e # before" using n fit(2) by simp
  show ?thesis
  proof (cases "dr_duplicate rng < ns_duplicates ns")
    case False
    have "sim_send_packet rng ns i data = Inr ns1"
      using run False P1(3) by simp
    moreover have "sim_copies rng ns i data = [e]"
      using kept False by (simp add: sim_copies_def Let_def e_def delay_def)
    ultimately show ?thesis using that P1 items1 by simp
  next
    case True
    define e' where "e' = e\<lparr>pe_delivery_time := ns_time ns + delay + dr_extra_delay rng\<rparr>"
    define ns2 where "ns2 = sim_push_packet ns1 e'"
    note P2 = sim_push_ok[OF P1(1) n, of e', folded ns2_def]
    have dup: "dr_duplicate rng < ns_duplicates ns1" using True P1(3) by simp
    from run have "sim_send_packet rng ns i data = Inr ns2"
      using dup last P1(2) by (simp add: ns2_def e'_def)
    moreover have "sim_copies rng ns i data = [e, e']"
      using kept True by (simp add: sim_copies_def Let_def e_def e'_def delay_def)
    moreover have "vd_items (ns_entries ns2) =
        drop (length (vd_items (ns_entries ns)) + 2 - n) (vd_items (ns_entries ns) @ [e, e'])"
    proof -
      have "vd_items (ns_entries ns2) = drop (length (vd_items (ns_entries ns1)) + 1 - n) (vd_items (ns_entries ns1) @ [e'])"
        using sim_push_items(1)[of ns1 e'] fit n by (simp add: ns2_def)
      moreover have "length (vd_items (ns_entries ns1)) = min n (length (vd_items (ns_entries ns)) + 1)"
        unfolding items1 using n fit(2) by simp
      ultimately show ?thesis unfolding items1
        using n fit(2) by (cases "length (vd_items (ns_entries ns)) = n") (simp_all add: drop_Cons' numeral_2_eq_2)
    qed
    ultimately show ?thesis using that[of ns2] P1 P2 by simp
  qed
qed

lemma sim_take_due_result:
  "sim_take_due t es =
    (if \<exists>e \<in> set es. pe_consumed e then Inl AssertionFailed
     else Inr (map (\<lambda>e. (pe_destination_client_index e, pe_packet_data e)) (filter (\<lambda>e. pe_delivery_time e < t) es),
               map (\<lambda>e. if pe_delivery_time e < t then e\<lparr>pe_consumed := True\<rparr> else e) es))"
  by (induction es) auto

lemma sim_step_ok:
  assumes "sim_step ns ns'" "sim_ok n ns" "0 < n"
  shows "sim_ok n ns'"
  using assms(1,2)
proof (cases rule: sim_step.cases)
  case (Loss p)
  with assms(2) show ?thesis
    by (auto simp: sim_set_packet_loss_def sim_ok_def fraction_def split: if_splits)
next
  case (Duplicates p)
  with assms(2) show ?thesis
    by (auto simp: sim_set_duplicates_def sim_ok_def fraction_def split: if_splits)
next
  case (SendPacket rng i data)
  with sim_send_result[OF assms(2,3), of rng i data] show ?thesis by auto
next
  case (ReceivePackets received)
  with assms(2) show ?thesis
    by (auto simp: sim_receive_packets_def sim_take_due_result sim_ok_def sim_configured_def split: if_splits)
qed (auto simp: sim_set_latency_def sim_set_jitter_def sim_discard_packets_def sim_discard_client_packets_def
      sim_advance_time_def vd_retain_def sim_ok_def sim_configured_def intro: le_trans[OF length_filter_le])

lemma filter_marked:
  "\<forall>e \<in> set es. \<not> pe_consumed e \<Longrightarrow>
    filter (\<lambda>e. \<not> pe_consumed e) (map (\<lambda>e. if due e then e\<lparr>pe_consumed := True\<rparr> else e) es) =
    filter (\<lambda>e. \<not> due e) es"
  by (induction es) auto

lemma sim_reachable_ok: "sim_reachable n ns \<Longrightarrow> 0 < n \<Longrightarrow> sim_ok n ns"
proof (induction rule: sim_reachable.induct)
  case (New time)
  have "\<not> sim_configured (sim_new n time)" "fraction f64_zero"
    by (simp_all add: sim_configured_def sim_new_def fraction_def f64_eq_def) code_simp+
  then show ?case by (simp add: sim_ok_def sim_new_def)
next
  case (Step ns ns')
  then show ?case using sim_step_ok by blast
qed

section \<open>The properties\<close>

text \<open>C26: whatever is called in whatever order, a simulator made for at least one packet never
  holds more than that many, never reallocates its buffer, and is active exactly when one of
  its four settings is not zero.\<close>

theorem sim_bounded:
  assumes "sim_reachable max_packets ns" "0 < max_packets"
  shows "length (vd_items (ns_entries ns)) \<le> max_packets \<and> vd_capacity (ns_entries ns) = max_packets \<and>
    (ns_active ns \<longleftrightarrow> sim_configured ns) \<and> fraction (ns_packet_loss ns) \<and> fraction (ns_duplicates ns)"
  using sim_reachable_ok[OF assms] by (simp add: sim_ok_def)


text \<open>C28: a packet is received once. \<open>receive_packets\<close> returns the packets that are due, in the order
  of the queue; after the next \<open>advance_time\<close> exactly the others are left. To receive again
  before that panics as soon as anything was due.\<close>

theorem sim_receives_once:
  assumes "ns_active ns" "\<forall>e \<in> set (vd_items (ns_entries ns)). \<not> pe_consumed e"
  shows "let due = (\<lambda>e. pe_delivery_time e < ns_time ns); queue = vd_items (ns_entries ns) in
    \<exists>ns'. sim_receive_packets ns =
        Inr (map (\<lambda>e. (pe_destination_client_index e, pe_packet_data e)) (filter due queue), ns') \<and>
      vd_items (ns_entries (sim_advance_time ns' t)) = filter (\<lambda>e. \<not> due e) queue \<and>
      (\<forall>e \<in> set (vd_items (ns_entries (sim_advance_time ns' t))). \<not> pe_consumed e) \<and>
      sim_receive_packets ns' = (if filter due queue = [] then Inr ([], ns') else Inl AssertionFailed)"
proof -
  let ?due = "\<lambda>e. pe_delivery_time e < ns_time ns" and ?queue = "vd_items (ns_entries ns)"
  let ?marked = "map (\<lambda>e. if ?due e then e\<lparr>pe_consumed := True\<rparr> else e) ?queue"
  let ?ns = "ns\<lparr>ns_entries := (ns_entries ns)\<lparr>vd_items := ?marked\<rparr>\<rparr>"
  have fresh: "\<not> (\<exists>e \<in> set ?queue. pe_consumed e)" using assms(2) by blast
  have "filter (\<lambda>e. \<not> pe_consumed e) ?marked = filter (\<lambda>e. \<not> ?due e) ?queue"
    by (rule filter_marked[OF assms(2)])
  moreover have "sim_receive_packets ns =
      Inr (map (\<lambda>e. (pe_destination_client_index e, pe_packet_data e)) (filter ?due ?queue), ?ns)"
    using assms(1) fresh by (simp add: sim_receive_packets_def sim_take_due_result)
  moreover have "sim_receive_packets ?ns = (if filter ?due ?queue = [] then Inr ([], ?ns) else Inl AssertionFailed)"
  proof (cases "filter ?due ?queue = []")
    case True
    then have "?marked = ?queue" by (auto simp: filter_empty_conv intro!: map_idI)
    with True assms(1) fresh show ?thesis
      by (auto simp: sim_receive_packets_def sim_take_due_result filter_empty_conv)
  next
    case False
    then obtain e where "e \<in> set ?queue" "?due e" by (auto simp: filter_empty_conv)
    then have "\<exists>e \<in> set ?marked. pe_consumed e" by (intro bexI[of _ "e\<lparr>pe_consumed := True\<rparr>"]) auto
    with False assms(1) show ?thesis by (simp add: sim_receive_packets_def sim_take_due_result)
  qed
  ultimately show ?thesis
    using assms(2) by (simp add: Let_def sim_advance_time_def vd_retain_def)
qed

text \<open>Without jitter, loss and duplicates a packet sent into an empty simulator comes out
  unaltered, for the client it was sent to, at the first \<open>receive_packets\<close> whose time is later than
  the time of sending plus the latency, and not before.\<close>

theorem sim_delays:
  assumes "sim_reachable n ns" "0 < n" "draws_ok rng" "ns_active ns" "vd_items (ns_entries ns) = []"
    and "f64_eq (ns_packet_loss ns) f64_zero" "f64_eq (ns_duplicates ns) f64_zero" "\<not> ns_jitter ns > f64_zero"
  shows "\<exists>ns1. sim_send_packet rng ns i data = Inr ns1 \<and>
    (\<forall>t. \<exists>ns2. sim_receive_packets (sim_advance_time ns1 t) =
       Inr (if ns_time ns + ns_latency ns / f64_of_int 1000 < t then [(i, data)] else [], ns2))"
proof -
  let ?e = "\<lparr>pe_destination_client_index = i, pe_delivery_time = ns_time ns + ns_latency ns / f64_of_int 1000,
             pe_packet_data = data, pe_consumed = False\<rparr>"
  have above: "\<not> x < p" if "f64_zero \<le> x" "f64_eq p f64_zero" for x p
    using that f64_le_trans[of p f64_zero x] by (auto simp: f64_less_le f64_eq_def)
  have copies: "sim_copies rng ns i data = [?e]"
    using assms(3,6-8) above by (simp add: sim_copies_def draws_ok_def)
  have ok: "sim_ok n ns" by (rule sim_reachable_ok[OF assms(1,2)])
  obtain ns1 where ns1: "sim_send_packet rng ns i data = Inr ns1" "ns_active ns1"
    "vd_items (ns_entries ns1) = [?e]"
    by (rule sim_send_result[OF ok assms(2), of rng i data]) (use assms(2,4,5) copies in auto)
  then have "\<exists>ns2. sim_receive_packets (sim_advance_time ns1 t) =
       Inr (if ns_time ns + ns_latency ns / f64_of_int 1000 < t then [(i, data)] else [], ns2)" for t
    by (simp add: sim_receive_packets_def sim_advance_time_def vd_retain_def)
  with ns1(1) show ?thesis by blast
qed

text \<open>The bound needs room for at least one packet. A simulator configured for none
  (\<open>max_simulator_packets = 0\<close>) does not drop what it is sent: the full check compares with a
  capacity that the push then enlarges, to four and on from there.\<close>

theorem sim_capacity_zero_grows:
  assumes "\<not> dr_loss rng < ns_packet_loss ns" "\<not> dr_duplicate rng < ns_duplicates ns"
    and "ns_entries ns = ns_entries (sim_new 0 t)"
  shows "\<exists>ns' e. sim_send_packet rng ns i data = Inr ns' \<and> vd_items (ns_entries ns') = [e] \<and>
    pe_packet_data e = data \<and> vd_capacity (ns_entries ns') = 4"
  using assms(1,2)
  by (auto simp: sim_send_packet_def sim_push_packet_def Let_def assms(3) sim_new_def vd_push_back_def)

section \<open>Witnesses\<close>

text \<open>A simulator for two packets with 16 milliseconds of latency, and draws of 1/2.\<close>

definition demo_simulator :: network_simulator where
  "demo_simulator = sim_set_latency (sim_new 2 (f64_of_int 100)) (f64_of_int 16)"

definition demo_draws :: draws where
  "demo_draws = \<lparr>dr_loss = f64_round 1 2 0, dr_jitter = f64_zero, dr_duplicate = f64_round 1 2 0,
     dr_extra_delay = f64_round 1 2 0\<rparr>"

lemma demo_simulator_reachable: "sim_reachable 2 demo_simulator"
  unfolding demo_simulator_def by (rule sim_reachable.Step[OF sim_reachable.New sim_step.Latency])

lemma demo_draws_ok: "draws_ok demo_draws"
  by code_simp

lemma demo_simulator_facts:
  "ns_active demo_simulator" "vd_items (ns_entries demo_simulator) = []" "\<not> ns_jitter demo_simulator > f64_zero"
  "f64_eq (ns_packet_loss demo_simulator) f64_zero" "f64_eq (ns_duplicates demo_simulator) f64_zero"
  by code_simp+

theorem sim_bounded_witness:
  "length (vd_items (ns_entries demo_simulator)) \<le> 2 \<and> ns_active demo_simulator = sim_configured demo_simulator"
  using sim_bounded[OF demo_simulator_reachable] by simp


theorem sim_receives_once_witness:
  "\<exists>ns'. sim_receive_packets demo_simulator = Inr ([], ns')"
  using sim_receives_once[of demo_simulator f64_zero] demo_simulator_facts by (auto simp: Let_def)

theorem sim_delays_witness:
  "\<exists>ns1. sim_send_packet demo_draws demo_simulator 3 [1, 2] = Inr ns1 \<and>
    (\<forall>t. \<exists>ns2. sim_receive_packets (sim_advance_time ns1 t) =
       Inr (if ns_time demo_simulator + ns_latency demo_simulator / f64_of_int 1000 < t then [(3, [1, 2])] else [], ns2))"
  by (rule sim_delays[OF demo_simulator_reachable _ demo_draws_ok demo_simulator_facts(1,2,4,5,3)]) simp

theorem sim_capacity_zero_grows_witness:
  "\<exists>ns' e. sim_send_packet demo_draws (sim_new 0 f64_zero) 0 [7] = Inr ns' \<and>
     vd_items (ns_entries ns') = [e] \<and> pe_packet_data e = [7] \<and> vd_capacity (ns_entries ns') = 4"
proof -
  have "\<not> dr_loss demo_draws < ns_packet_loss (sim_new 0 f64_zero)"
    "\<not> dr_duplicate demo_draws < ns_duplicates (sim_new 0 f64_zero)" by code_simp+
  then show ?thesis by (rule sim_capacity_zero_grows) simp
qed

end
