(* ===== verification/Simulator_Tests.thy ===== *)
theory Simulator_Tests
  imports Network_Simulator
begin

text \<open>
  \<open>src/network_simulator.rs\<close>, \<open>mod test\<close>: the repository's own tests of the network simulator.
  A test is a computation that returns unit or the panic of its first failed assertion; the
  random numbers of the \<open>i\<close>th packet are an argument, and the tests pass for all numbers in
  the ranges \<open>rand\<close> documents. The first section bounds the rounding of an addition, for the
  delivery times of duplicates.
\<close>

section \<open>A bound on rounding\<close>

lemma round_half_even_le:
  assumes "0 < d" "a \<le> c * d"
  shows "round_half_even a d \<le> c"
proof (cases "a = c * d")
  case True
  then show ?thesis using assms(1) by (simp add: round_half_even_def)
next
  case False
  then have "a < c * d" using assms(2) by simp
  then have "a div d * d < c * d"
    using assms(1) div_mult_mod_eq[of a d] pos_mod_sign[of d a] by linarith
  then have "a div d < c" using assms(1) by (simp add: mult_less_cancel_right)
  then show ?thesis by (simp add: round_half_even_def Let_def)
qed

lemma bitlen_le_mono:
  assumes "0 < a" "a \<le> b"
  shows "bitlen a \<le> bitlen b"
  using assms bitlen_bounds[of b] bitlen_nonneg[of b] by (auto simp: bitlen_le_iff_power)

text \<open>A number that is at most an integer below \<open>2 ^ 53\<close> is not rounded above it.\<close>

lemma f64_round_le:
  assumes n: "0 < n" and c: "0 < c" "c < 2 ^ 53" and le: "Fin n e \<le> Fin c 0"
  shows "f64_round n 1 e \<le> Fin c 0"
proof -
  define x0 where "x0 = max (bitlen n - bitlen 1 + e - 53) (-1074)"
  define x where "x = (if 2 ^ 53 * (1 * 2 ^ nat (x0 - e)) \<le> n * 2 ^ nat (e - x0) then x0 + 1 else x0)"
  define q where "q = round_half_even (n * 2 ^ nat (e - x)) (1 * 2 ^ nat (x - e))"
  have one: "bitlen 1 = (1 :: int)" by (simp add: bitlen_alt_def)
  have c53: "bitlen c \<le> 53" using c by (simp add: bitlen_le_iff_power)
  have "n * 2 ^ nat (e - min e 0) \<le> c * 2 ^ nat (0 - min e 0)"
    using le by (simp only: fin_le_scale[of "min e 0"])
  then have "bitlen (n * 2 ^ nat (e - min e 0)) \<le> bitlen (c * 2 ^ nat (0 - min e 0))"
    using n by (intro bitlen_le_mono) auto
  then have "bitlen n + e \<le> bitlen c" using n c(1) by (cases "e \<le> 0") auto
  then have x: "x \<le> 0" using c53 by (auto simp: x_def x0_def one)
  have "n * 2 ^ nat (e - x) \<le> c * 2 ^ nat (0 - x) * (1 * 2 ^ nat (x - e))"
  proof (cases "x \<le> e")
    case True
    then show ?thesis using le x by (simp add: fin_le_scale[of x])
  next
    case False
    then have "2 ^ nat (0 - x) * 2 ^ nat (x - e) = (2 :: int) ^ nat (0 - e)"
      using x by (simp add: power_add[symmetric] nat_add_distrib[symmetric])
    then show ?thesis using False le x by (simp add: fin_le_scale[of e] mult.assoc)
  qed
  then have q: "q \<le> c * 2 ^ nat (0 - x)" by (auto simp: q_def intro: round_half_even_le)
  then have "bitlen q \<le> bitlen c + int (nat (0 - x))"
    using bitlen_le_mono[of q "c * 2 ^ nat (0 - x)"] bitlen_nonneg[of c] c(1)
    by (cases "0 < q") (auto simp: bitlen_eq_zero_iff[THEN iffD2])
  then have "bitlen q + x \<le> 53" using c53 x by simp
  moreover have "f64_round n 1 e =
      (if 1024 < bitlen q + x then (if n < 0 then NegInf else PosInf) else Fin (sgn n * q) x)"
    unfolding f64_round_def Let_def x0_def x_def q_def using n by (simp only: abs_of_pos) simp
  ultimately have "f64_round n 1 e = Fin q x" using n by simp
  then show ?thesis using q x by (simp add: fin_le_scale[of x])
qed

lemma f64_add_le:
  assumes x: "x \<le> Fin b 0" "Fin 0 0 \<le> x" and m: "0 < m" "Fin m e \<le> Fin a 0"
    and ab: "0 < a" "0 \<le> b" "a + b < 2 ^ 53"
  shows "Fin m e + x \<le> Fin (a + b) 0"
proof -
  obtain mx ex where f: "x = Fin mx ex" using x by (cases x) (auto simp: less_eq_f64_def)
  define z where "z = min (min e ex) 0"
  have z: "z \<le> e" "z \<le> ex" "z \<le> 0" "z \<le> min e ex" by (auto simp: z_def)
  define n where "n = m * 2 ^ nat (e - min e ex) + mx * 2 ^ nat (ex - min e ex)"
  have "0 \<le> mx" using x(2) z by (simp add: f fin_le_scale[of z] zero_le_mult_iff)
  then have "0 < n" using m(1) by (simp add: n_def add_pos_nonneg)
  moreover have "Fin n (min e ex) \<le> Fin (a + b) 0"
  proof -
    have "n * 2 ^ nat (min e ex - z) = m * 2 ^ nat (e - z) + mx * 2 ^ nat (ex - z)"
      by (simp add: n_def distrib_right mult.assoc power_add[symmetric] nat_add_distrib[symmetric] z)
    also have "\<dots> \<le> a * 2 ^ nat (0 - z) + b * 2 ^ nat (0 - z)"
      using m(2) x(1) z by (simp add: f fin_le_scale[of z])
    finally show ?thesis using z by (simp add: fin_le_scale[of z] distrib_right)
  qed
  ultimately show ?thesis
    using ab f64_round_le[of n "a + b" "min e ex"] by (simp add: plus_f64_def f Let_def n_def)
qed

section \<open>The tests\<close>

definition sets_active :: "panic + unit" where
  "sets_active =
     (let n = sim_new 100 (f64_of_int 100) in
     rbind (rassert (\<not> ns_active n)) (\<lambda>_.
     let n = sim_set_latency n f64_zero; n = sim_set_jitter n f64_zero in
     rbind (sim_set_packet_loss n f64_zero) (\<lambda>n.
     rbind (sim_set_duplicates n f64_zero) (\<lambda>n.
     rbind (rassert (\<not> ns_active n)) (\<lambda>_.
     let n = sim_new 100 (f64_of_int 100) in
     rbind (rassert (\<not> ns_active n)) (\<lambda>_.
     let n = sim_set_latency n (f64_of_int 32) in
     rbind (rassert (ns_active n)) (\<lambda>_.
     let n = sim_new 100 (f64_of_int 100) in
     rbind (rassert (\<not> ns_active n)) (\<lambda>_.
     let n = sim_set_jitter n (f64_of_int 7) in
     rbind (rassert (ns_active n)) (\<lambda>_.
     let n = sim_new 100 (f64_of_int 100) in
     rbind (rassert (\<not> ns_active n)) (\<lambda>_.
     rbind (sim_set_packet_loss n (f64_round 1 2 0)) (\<lambda>n.
     rbind (rassert (ns_active n)) (\<lambda>_.
     let n = sim_new 100 (f64_of_int 100) in
     rbind (rassert (\<not> ns_active n)) (\<lambda>_.
     rbind (sim_set_duplicates n (f64_round 1 2 0)) (\<lambda>n.
     rassert (ns_active n)))))))))))))))"

definition duplicates_on_range_0_1 :: "panic + unit" where
  "duplicates_on_range_0_1 =
     (let n = sim_new 100 (f64_of_int 100) in
     rbind (sim_set_duplicates n (f64_of_int 50)) (\<lambda>_. Inr ()))"

definition packet_loss_on_range_0_1 :: "panic + unit" where
  "packet_loss_on_range_0_1 =
     (let n = sim_new 100 (f64_of_int 100) in
     rbind (sim_set_packet_loss n (f64_of_int 50)) (\<lambda>_. Inr ()))"

text \<open>The loop that sends \<open>send\<close> packets of eight zero bytes; \<open>rng i\<close> are the draws of the
  \<open>i\<close>th.\<close>

definition send_packets ::
  "(nat \<Rightarrow> draws) \<Rightarrow> network_simulator \<Rightarrow> usize \<Rightarrow> panic + network_simulator" where
  "send_packets rng n send = rfold (\<lambda>n i. sim_send_packet (rng i) n 0 (replicate 8 0)) n [0..<send]"

definition does_not_exceed_capacity :: "(nat \<Rightarrow> draws) \<Rightarrow> panic + unit" where
  "does_not_exceed_capacity rng =
     (let capacity = 100; n = sim_new capacity (f64_of_int 100);
          n = sim_set_latency n (f64_of_int 16) in
     rbind (send_packets rng n (2 * capacity)) (\<lambda>n.
     let n = sim_advance_time n (ns_time n + f64_of_int 1) in
     rbind (sim_receive_packets n) (\<lambda>(received, n).
     rbind (rassert (length received = capacity)) (\<lambda>_.
     rassert (vd_capacity (ns_entries n) = capacity)))))"

definition discards_packets_on_inactive :: "(nat \<Rightarrow> draws) \<Rightarrow> panic + unit" where
  "discards_packets_on_inactive rng =
     (let n = sim_new 100 (f64_of_int 100); n = sim_set_latency n (f64_of_int 16); sent = 50 in
     rbind (send_packets rng n sent) (\<lambda>n.
     let n = sim_advance_time n (ns_time n + f64_of_int 1) in
     rbind (sim_receive_packets n) (\<lambda>(received, n).
     rbind (rassert (length received = sent)) (\<lambda>_.
     let n = sim_set_latency n f64_zero in
     rbind (rassert (\<not> ns_active n)) (\<lambda>_.
     rassert (length (vd_items (ns_entries n)) = 0))))))"

definition check_send_recieve ::
  "(nat \<Rightarrow> draws) \<Rightarrow> network_simulator \<Rightarrow> f64 \<Rightarrow> usize \<Rightarrow> usize \<Rightarrow> panic + network_simulator" where
  "check_send_recieve rng n dt send expect_received =
     rbind (send_packets rng n send) (\<lambda>n.
     let n = sim_advance_time n (ns_time n + dt) in
     rbind (sim_receive_packets n) (\<lambda>(received, n).
     rbind (rassert (length received = expect_received)) (\<lambda>_.
     Inr (sim_advance_time n (ns_time n)))))"

definition drops_packets :: "(nat \<Rightarrow> nat \<Rightarrow> draws) \<Rightarrow> panic + unit" where
  "drops_packets rng =
     (let n = sim_new 100 (f64_of_int 100); n = sim_set_latency n (f64_of_int 16) in
     rbind (check_send_recieve (rng 0) n (f64_of_int 1) 50 50) (\<lambda>n.
     rbind (sim_set_packet_loss n f64_one) (\<lambda>n.
     rbind (check_send_recieve (rng 1) n (f64_of_int 1) 50 0) (\<lambda>n.
     Inr ()))))"

definition duplicates_packets :: "(nat \<Rightarrow> nat \<Rightarrow> draws) \<Rightarrow> panic + unit" where
  "duplicates_packets rng =
     (let n = sim_new 100 (f64_of_int 100); n = sim_set_latency n (f64_of_int 16) in
     rbind (check_send_recieve (rng 0) n (f64_of_int 1) 50 50) (\<lambda>n.
     rbind (sim_set_duplicates n f64_one) (\<lambda>n.
     rbind (check_send_recieve (rng 1) n (f64_of_int 4) 50 100) (\<lambda>n.
     rbind (check_send_recieve (rng 2) n (f64_of_int 4) 75 100) (\<lambda>n.
     Inr ())))))"

definition adds_latency_to_packets :: "(nat \<Rightarrow> nat \<Rightarrow> draws) \<Rightarrow> panic + unit" where
  "adds_latency_to_packets rng =
     (let n = sim_new 100 (f64_of_int 100); n = sim_set_latency n (f64_of_int 16) in
     rbind (check_send_recieve (rng 0) n (f64_of_int 1) 50 50) (\<lambda>n.
     let n = sim_set_latency n (f64_of_int 1500) in
     rbind (check_send_recieve (rng 1) n (f64_of_int 1) 50 0) (\<lambda>n.
     rbind (check_send_recieve (rng 2) n (f64_of_int 1) 0 50) (\<lambda>n.
     Inr ()))))"

section \<open>They pass\<close>

text \<open>A simulator of the tests: room for 100 packets, no jitter, active.\<close>

definition simulator :: "int \<Rightarrow> int \<Rightarrow> int \<Rightarrow> f64 \<Rightarrow> packet_entry list \<Rightarrow> network_simulator" where
  "simulator latency loss duplicates time items =
     \<lparr>ns_latency = f64_of_int latency, ns_jitter = f64_zero, ns_packet_loss = f64_of_int loss,
      ns_duplicates = f64_of_int duplicates, ns_active = True, ns_time = time,
      ns_entries = \<lparr>vd_items = items, vd_capacity = 100\<rparr>\<rparr>"

definition entry_at :: "f64 \<Rightarrow> packet_entry" where
  "entry_at t = \<lparr>pe_destination_client_index = 0, pe_delivery_time = t, pe_packet_data = replicate 8 0,
     pe_consumed = False\<rparr>"

lemma sim_send_frame:
  "sim_send_packet rng ns i data = Inr ns' \<Longrightarrow> ns' = ns\<lparr>ns_entries := ns_entries ns'\<rparr>"
  by (auto simp: sim_send_packet_def sim_push_packet_def Let_def split: if_splits list.splits)

lemma sim_copies_frame: "sim_copies rng (ns\<lparr>ns_entries := x\<rparr>) i data = sim_copies rng ns i data"
  by (simp add: sim_copies_def Let_def)

lemma drop_keep_last:
  "drop (length (drop (length a - n) a) + length c - n) (drop (length a - n) a @ c) =
    drop (length (a @ c) - n) (a @ c)"
proof (cases "length a \<le> n")
  case False
  have "drop (length a - n) a @ c = drop (length a - n) (a @ c)" by simp
  then have "drop (length c) (drop (length a - n) a @ c) = drop (length c + (length a - n)) (a @ c)"
    by (simp only: drop_drop)
  with False show ?thesis by (simp add: add.commute)
qed simp

text \<open>Sending packet after packet: the queue is the end of everything that was sent.\<close>

lemma send_packets_result:
  assumes "sim_ok n ns" "0 < n"
  shows "\<exists>ns'. send_packets rng ns k = Inr ns' \<and> sim_ok n ns' \<and> ns' = ns\<lparr>ns_entries := ns_entries ns'\<rparr> \<and>
    (let all = vd_items (ns_entries ns) @ concat (map (\<lambda>i. sim_copies (rng i) ns 0 (replicate 8 0)) [0..<k])
     in vd_items (ns_entries ns') = drop (length all - n) all)"
proof (induction k)
  case 0
  then show ?case using assms by (simp add: send_packets_def sim_ok_def)
next
  case (Suc k)
  let ?all = "\<lambda>k. vd_items (ns_entries ns) @ concat (map (\<lambda>i. sim_copies (rng i) ns 0 (replicate 8 0)) [0..<k])"
  obtain ns1 where ns1: "send_packets rng ns k = Inr ns1" "sim_ok n ns1" "ns1 = ns\<lparr>ns_entries := ns_entries ns1\<rparr>"
    "vd_items (ns_entries ns1) = drop (length (?all k) - n) (?all k)"
    using Suc by (auto simp only: Let_def)
  let ?c = "sim_copies (rng k) ns 0 (replicate 8 0)"
  have "sim_copies (rng k) ns1 0 (replicate 8 0) = ?c" by (subst ns1(3)) (rule sim_copies_frame)
  then obtain ns2 where ns2: "sim_send_packet (rng k) ns1 0 (replicate 8 0) = Inr ns2" "sim_ok n ns2"
    "vd_items (ns_entries ns2) = drop (length (vd_items (ns_entries ns1)) + length ?c - n) (vd_items (ns_entries ns1) @ ?c)"
    using sim_send_result[OF ns1(2) assms(2), of "rng k" 0 "replicate 8 0"] by metis
  have "ns2 = ns\<lparr>ns_entries := ns_entries ns2\<rparr>"
    by (subst sim_send_frame[OF ns2(1)], subst ns1(3)) simp
  moreover have "send_packets rng ns (Suc k) = Inr ns2"
    using ns1(1) ns2(1) by (simp add: send_packets_def rfold_append)
  moreover have "vd_items (ns_entries ns2) = drop (length (?all (Suc k)) - n) (?all (Suc k))"
    unfolding ns2(3) ns1(4) drop_keep_last by simp
  ultimately show ?case using ns2(2) by (simp only: Let_def) blast
qed

text \<open>One round of a test, given the copies the packets of this round are queued as.\<close>

lemma check_send_recieve_ok:
  assumes ok: "sim_ok n ns" "0 < n" "ns_active ns"
    and fresh: "\<forall>e \<in> set (vd_items (ns_entries ns)). \<not> pe_consumed e"
    and all: "all = vd_items (ns_entries ns) @ concat (map (\<lambda>i. sim_copies (rng i) ns 0 (replicate 8 0)) [0..<k])"
    and queue: "queue = drop (length all - n) all"
    and due: "length (filter (\<lambda>e. pe_delivery_time e < ns_time ns + dt) queue) = m"
  shows "check_send_recieve rng ns dt k m =
    Inr (ns\<lparr>ns_time := ns_time ns + dt, ns_entries :=
      \<lparr>vd_items = filter (\<lambda>e. \<not> pe_delivery_time e < ns_time ns + dt) queue, vd_capacity = n\<rparr>\<rparr>)"
proof -
  obtain ns' where ns': "send_packets rng ns k = Inr ns'" "sim_ok n ns'" "ns' = ns\<lparr>ns_entries := ns_entries ns'\<rparr>"
    "vd_items (ns_entries ns') = queue"
    using send_packets_result[OF ok(1,2), of rng k] by (auto simp only: Let_def all queue)
  let ?due = "\<lambda>e. pe_delivery_time e < ns_time ns + dt"
  have "\<forall>e \<in> set queue. \<not> pe_consumed e"
  proof
    fix e assume "e \<in> set queue"
    then have "e \<in> set all" using queue in_set_dropD by fastforce
    then show "\<not> pe_consumed e" using fresh by (auto simp: all sim_copies_def Let_def split: if_splits)
  qed
  then have q: "filter (\<lambda>e. \<not> pe_consumed e) queue = queue" "\<not> (\<exists>e \<in> set queue. pe_consumed e)"
    "filter (\<lambda>e. \<not> pe_consumed e) (map (\<lambda>e. if ?due e then e\<lparr>pe_consumed := True\<rparr> else e) queue) =
      filter (\<lambda>e. \<not> ?due e) queue"
    by (auto simp: filter_marked filter_id_conv)
  have f: "ns_time ns' = ns_time ns" "ns_active ns'" "vd_capacity (ns_entries ns') = n"
    using ns'(2) ok(3) arg_cong[OF ns'(3), of ns_time] arg_cong[OF ns'(3), of ns_active]
    by (simp_all add: sim_ok_def)
  have "check_send_recieve rng ns dt k m =
    Inr (ns'\<lparr>ns_time := ns_time ns + dt, ns_entries :=
      \<lparr>vd_items = filter (\<lambda>e. \<not> ?due e) queue, vd_capacity = n\<rparr>\<rparr>)"
    using f q due
    by (simp add: check_send_recieve_def ns'(1,4) Let_def sim_advance_time_def vd_retain_def sim_receive_packets_def
        sim_take_due_result)
  then show ?thesis by (subst (asm) ns'(3)) simp
qed

text \<open>What the tests configure: the copies of one packet, with 16 milliseconds of latency and
  with 1500, for all draws.\<close>

lemma simulator_ok:
  assumes "loss \<in> {0, 1}" "duplicates \<in> {0, 1}" "latency \<in> {16, 1500}" "length items \<le> 100"
  shows "sim_ok 100 (simulator latency loss duplicates time items)"
proof -
  have f: "fraction f64_zero" "fraction f64_one" by code_simp+
  have "\<not> f64_eq (f64_of_int 16) f64_zero" "\<not> f64_eq (f64_of_int 1500) f64_zero" by code_simp+
  then have "sim_configured (simulator latency loss duplicates time items)"
    using assms(3) by (auto simp: sim_configured_def simulator_def)
  then show ?thesis using assms f by (auto simp: sim_ok_def simulator_def)
qed

lemma simulator_copies:
  assumes "draws_ok rng" "loss \<in> {0, 1}" "duplicates \<in> {0, 1}"
  shows "sim_copies rng (simulator latency loss duplicates time items) 0 (replicate 8 0) =
    (let t = time + f64_of_int latency / f64_of_int 1000 in
     if loss = 1 then [] else if duplicates = 1 then [entry_at t, entry_at (t + dr_extra_delay rng)]
     else [entry_at t])"
proof -
  have "\<not> f64_zero < f64_zero" by (simp add: less_f64_def)
  moreover have "\<not> x < f64_zero" if "f64_zero \<le> x" for x using that by (simp add: f64_less_le)
  ultimately show ?thesis
    using assms by (auto simp: sim_copies_def simulator_def draws_ok_def Let_def entry_at_def)
qed

text \<open>The times of the tests: the clock is 100, 101, 102 and 103 or 100, 101, 105 and 109, and what
  is queued at one of them with 16 milliseconds of latency is due at the next, and with 1500 at
  the one after it; a second of extra delay stays within four.\<close>

lemma test_clock:
  "f64_of_int 100 + f64_of_int 1 = f64_of_int 101" "f64_of_int 101 + f64_of_int 1 = f64_of_int 102"
  "f64_of_int 102 + f64_of_int 1 = f64_of_int 103" "f64_of_int 101 + f64_of_int 4 = f64_of_int 105"
  "f64_of_int 105 + f64_of_int 4 = f64_of_int 109"
  by code_simp+

lemma test_deliveries:
  "f64_of_int 100 + f64_of_int 16 / f64_of_int 1000 < f64_of_int 101"
  "f64_of_int 101 + f64_of_int 16 / f64_of_int 1000 < f64_of_int 102"
  "f64_of_int 101 + f64_of_int 16 / f64_of_int 1000 < f64_of_int 105"
  "f64_of_int 105 + f64_of_int 16 / f64_of_int 1000 < f64_of_int 109"
  "\<not> f64_of_int 101 + f64_of_int 1500 / f64_of_int 1000 < f64_of_int 102"
  "f64_of_int 101 + f64_of_int 1500 / f64_of_int 1000 < f64_of_int 103"
  by code_simp+

lemma extra_delay_below:
  assumes "draws_ok rng" "t = Fin m e" "0 < m" "Fin m e \<le> Fin c 0" "Fin (c + 1) 0 < u" "0 < c" "c + 1 < 2 ^ 53"
  shows "t + dr_extra_delay rng < u"
proof -
  have "dr_extra_delay rng \<le> Fin 1 0" "Fin 0 0 \<le> dr_extra_delay rng"
  proof -
    have "dr_extra_delay rng \<le> f64_one" "f64_zero \<le> dr_extra_delay rng"
      using assms(1) by (auto simp: draws_ok_def f64_less_le)
    moreover have "f64_one \<le> Fin 1 0" "Fin 0 0 \<le> f64_zero" by code_simp+
    ultimately show "dr_extra_delay rng \<le> Fin 1 0" "Fin 0 0 \<le> dr_extra_delay rng"
      using f64_le_trans by blast+
  qed
  then have "t + dr_extra_delay rng \<le> Fin (c + 1) 0"
    using f64_add_le[of "dr_extra_delay rng" 1 m e c] assms by simp
  then show ?thesis using assms(5) f64_le_trans by (metis f64_less_le)
qed

lemma test_extra_deliveries:
  assumes "draws_ok rng"
  shows "f64_of_int 101 + f64_of_int 16 / f64_of_int 1000 + dr_extra_delay rng < f64_of_int 105"
    "f64_of_int 105 + f64_of_int 16 / f64_of_int 1000 + dr_extra_delay rng < f64_of_int 109"
proof -
  have t: "f64_of_int 101 + f64_of_int 16 / f64_of_int 1000 = Fin 7108369061850907 (- 46)"
    "f64_of_int 105 + f64_of_int 16 / f64_of_int 1000 = Fin 7389844038561563 (- 46)"
    "Fin 7108369061850907 (- 46) \<le> Fin 102 0" "Fin 7389844038561563 (- 46) \<le> Fin 106 0"
    by code_simp+
  have "Fin (102 + 1) 0 < f64_of_int 105" "Fin (106 + 1) 0 < f64_of_int 109" by code_simp+
  then show "f64_of_int 101 + f64_of_int 16 / f64_of_int 1000 + dr_extra_delay rng < f64_of_int 105"
    "f64_of_int 105 + f64_of_int 16 / f64_of_int 1000 + dr_extra_delay rng < f64_of_int 109"
    by (auto intro: extra_delay_below[OF assms t(1) _ t(3)] extra_delay_below[OF assms t(2) _ t(4)])
qed

text \<open>Rounds of the tests: everything that was queued is due, or nothing.\<close>

lemma simulator_fields:
  "ns_time (simulator l p d t xs) = t" "ns_active (simulator l p d t xs)"
  "vd_items (ns_entries (simulator l p d t xs)) = xs" "vd_capacity (ns_entries (simulator l p d t xs)) = 100"
  "(simulator l p d t xs)\<lparr>ns_time := t', ns_entries := \<lparr>vd_items = ys, vd_capacity = 100\<rparr>\<rparr> = simulator l p d t' ys"
  by (simp_all add: simulator_def)

lemma round_all_due:
  assumes draws: "\<forall>i. draws_ok (rng i)" and s: "p \<in> {0, 1}" "d \<in> {0, 1}" "l \<in> {16, 1500}"
    and xs: "length xs \<le> 100" "\<forall>e \<in> set xs. \<not> pe_consumed e \<and> pe_delivery_time e < t + dt"
    and due: "p = 1 \<or> k = 0 \<or> t + f64_of_int l / f64_of_int 1000 < t + dt"
      "d = 0 \<or> (\<forall>i. t + f64_of_int l / f64_of_int 1000 + dr_extra_delay (rng i) < t + dt)"
    and m: "m = min 100 (length xs + (if p = 1 then 0 else if d = 1 then 2 * k else k))"
  shows "check_send_recieve rng (simulator l p d t xs) dt k m = Inr (simulator l p d (t + dt) [])"
proof -
  let ?ns = "simulator l p d t xs"
  define all where "all = xs @ concat (map (\<lambda>i. sim_copies (rng i) ?ns 0 (replicate 8 0)) [0..<k])"
  define queue where "queue = drop (length all - 100) all"
  have copies: "sim_copies (rng i) ?ns 0 (replicate 8 0) =
      (let u = t + f64_of_int l / f64_of_int 1000 in
       if p = 1 then [] else if d = 1 then [entry_at u, entry_at (u + dr_extra_delay (rng i))]
       else [entry_at u])" for i
    using draws s by (intro simulator_copies) auto
  have "length (concat (map (\<lambda>i. sim_copies (rng i) ?ns 0 (replicate 8 0)) [0..<k])) =
      (if p = 1 then 0 else if d = 1 then 2 * k else k)"
    unfolding copies Let_def by (induction k) auto
  then have len: "length queue = m" using m by (simp add: queue_def all_def)
  have "pe_delivery_time e < t + dt" if "e \<in> set all" for e
    using that xs(2) due s(2) by (auto simp: all_def copies Let_def entry_at_def split: if_splits)
  then have "\<forall>e \<in> set queue. pe_delivery_time e < t + dt" unfolding queue_def using in_set_dropD by metis
  then have "filter (\<lambda>e. pe_delivery_time e < t + dt) queue = queue"
    "filter (\<lambda>e. \<not> pe_delivery_time e < t + dt) queue = []"
    by (auto simp: filter_id_conv filter_empty_conv)
  moreover have "check_send_recieve rng ?ns dt k m =
    Inr (?ns\<lparr>ns_time := ns_time ?ns + dt, ns_entries :=
      \<lparr>vd_items = filter (\<lambda>e. \<not> pe_delivery_time e < ns_time ?ns + dt) queue, vd_capacity = 100\<rparr>\<rparr>)"
    by (rule check_send_recieve_ok[OF simulator_ok[OF s xs(1)], where all = all])
      (use xs len calculation in \<open>simp_all add: simulator_fields all_def queue_def\<close>)
  ultimately show ?thesis by (simp only: simulator_fields)
qed

text \<open>The round whose packets are not due yet.\<close>

lemma round_none_due:
  assumes draws: "\<forall>i. draws_ok (rng i)" and l: "l \<in> {16, 1500}" and k: "k \<le> 100"
    and due: "\<not> t + f64_of_int l / f64_of_int 1000 < t + dt"
  shows "check_send_recieve rng (simulator l 0 0 t []) dt k 0 =
    Inr (simulator l 0 0 (t + dt) (replicate k (entry_at (t + f64_of_int l / f64_of_int 1000))))"
proof -
  let ?ns = "simulator l 0 0 t []" and ?e = "entry_at (t + f64_of_int l / f64_of_int 1000)"
  have "sim_copies (rng i) ?ns 0 (replicate 8 0) = [?e]" for i
    using draws by (simp add: simulator_copies Let_def)
  then have all: "replicate k ?e = vd_items (ns_entries ?ns) @
      concat (map (\<lambda>i. sim_copies (rng i) ?ns 0 (replicate 8 0)) [0..<k])"
    by (simp add: simulator_fields map_replicate_const)
  have "check_send_recieve rng ?ns dt k 0 =
    Inr (?ns\<lparr>ns_time := ns_time ?ns + dt, ns_entries :=
      \<lparr>vd_items = filter (\<lambda>e. \<not> pe_delivery_time e < ns_time ?ns + dt) (replicate k ?e), vd_capacity = 100\<rparr>\<rparr>)"
    by (rule check_send_recieve_ok[OF simulator_ok, OF _ _ l _ _ _ _ all])
      (use k due in \<open>simp_all add: simulator_fields entry_at_def\<close>)
  then show ?thesis using due by (simp only: simulator_fields) (simp add: entry_at_def)
qed

lemma simulator_set:
  "sim_set_latency (sim_new 100 (f64_of_int 100)) (f64_of_int 16) = simulator 16 0 0 (f64_of_int 100) []"
  "sim_set_latency (simulator 16 0 0 t []) (f64_of_int 1500) = simulator 1500 0 0 t []"
  "sim_set_packet_loss (simulator 16 0 0 t []) f64_one = Inr (simulator 16 1 0 t [])"
  "sim_set_duplicates (simulator 16 0 0 t []) f64_one = Inr (simulator 16 0 1 t [])"
proof -
  have f: "\<not> f64_eq (f64_of_int 16) f64_zero" "\<not> f64_eq (f64_of_int 1500) f64_zero" "f64_eq f64_zero f64_zero"
    "\<not> f64_eq f64_one f64_zero" "f64_zero \<le> f64_one" "f64_one \<le> f64_one"
    by code_simp+
  show "sim_set_latency (sim_new 100 (f64_of_int 100)) (f64_of_int 16) = simulator 16 0 0 (f64_of_int 100) []"
    "sim_set_latency (simulator 16 0 0 t []) (f64_of_int 1500) = simulator 1500 0 0 t []"
    "sim_set_packet_loss (simulator 16 0 0 t []) f64_one = Inr (simulator 16 1 0 t [])"
    "sim_set_duplicates (simulator 16 0 0 t []) f64_one = Inr (simulator 16 0 1 t [])"
    using f by (simp_all add: sim_set_latency_def sim_set_packet_loss_def sim_set_duplicates_def sim_new_def
        sim_update_active_def simulator_def Let_def vd_with_capacity_def)
qed

lemma test_rounds:
  assumes "\<forall>i j. draws_ok (rng i j)"
  shows "check_send_recieve (rng 0) (simulator 16 0 0 (f64_of_int 100) []) (f64_of_int 1) 50 50 =
      Inr (simulator 16 0 0 (f64_of_int 101) [])"
    "check_send_recieve (rng 1) (simulator 16 1 0 (f64_of_int 101) []) (f64_of_int 1) 50 0 =
      Inr (simulator 16 1 0 (f64_of_int 102) [])"
    "check_send_recieve (rng 1) (simulator 16 0 1 (f64_of_int 101) []) (f64_of_int 4) 50 100 =
      Inr (simulator 16 0 1 (f64_of_int 105) [])"
    "check_send_recieve (rng 2) (simulator 16 0 1 (f64_of_int 105) []) (f64_of_int 4) 75 100 =
      Inr (simulator 16 0 1 (f64_of_int 109) [])"
  using assms test_extra_deliveries test_deliveries
  by (simp_all add: round_all_due test_clock)

lemma drops_packets_ok: "\<forall>i j. draws_ok (rng i j) \<Longrightarrow> drops_packets rng = Inr ()"
  by (simp add: drops_packets_def Let_def simulator_set test_rounds del: One_nat_def)

lemma duplicates_packets_ok: "\<forall>i j. draws_ok (rng i j) \<Longrightarrow> duplicates_packets rng = Inr ()"
  by (simp add: duplicates_packets_def Let_def simulator_set test_rounds del: One_nat_def)

lemma adds_latency_to_packets_ok:
  assumes "\<forall>i j. draws_ok (rng i j)"
  shows "adds_latency_to_packets rng = Inr ()"
proof -
  let ?late = "replicate 50 (entry_at (f64_of_int 101 + f64_of_int 1500 / f64_of_int 1000))"
  have "check_send_recieve (rng 1) (simulator 1500 0 0 (f64_of_int 101) []) (f64_of_int 1) 50 0 =
      Inr (simulator 1500 0 0 (f64_of_int 102) ?late)"
    using assms test_deliveries by (simp add: round_none_due test_clock)
  moreover have "check_send_recieve (rng 2) (simulator 1500 0 0 (f64_of_int 102) ?late) (f64_of_int 1) 0 50 =
      Inr (simulator 1500 0 0 (f64_of_int 103) [])"
    using assms test_deliveries by (subst round_all_due) (simp_all add: test_clock entry_at_def)
  ultimately show ?thesis
    using assms by (simp add: adds_latency_to_packets_def Let_def simulator_set test_rounds del: One_nat_def)
qed

text \<open>The same round, opened up.\<close>

lemma check_send_recieveE:
  assumes "check_send_recieve rng n dt send m = Inr ns"
  obtains ns1 received ns2 where "send_packets rng n send = Inr ns1"
    "sim_receive_packets (sim_advance_time ns1 (ns_time ns1 + dt)) = Inr (received, ns2)"
    "length received = m" "ns = sim_advance_time ns2 (ns_time ns2)"
  using assms by (auto simp: check_send_recieve_def Let_def rbind_eq_Inr rassert_def split: if_splits)

lemma does_not_exceed_capacity_ok:
  assumes "\<forall>i. draws_ok (rng i)"
  shows "does_not_exceed_capacity rng = Inr ()"
proof -
  have "check_send_recieve rng (simulator 16 0 0 (f64_of_int 100) []) (f64_of_int 1) (2 * 100) 100 =
      Inr (simulator 16 0 0 (f64_of_int 101) [])"
    using assms test_deliveries by (subst round_all_due) (simp_all add: test_clock)
  then obtain ns1 received ns2 where r: "send_packets rng (simulator 16 0 0 (f64_of_int 100) []) (2 * 100) = Inr ns1"
    "sim_receive_packets (sim_advance_time ns1 (ns_time ns1 + f64_of_int 1)) = Inr (received, ns2)"
    "length received = 100" and e: "simulator 16 0 0 (f64_of_int 101) [] = sim_advance_time ns2 (ns_time ns2)"
    by (rule check_send_recieveE)
  have "vd_capacity (ns_entries ns2) = 100"
    using arg_cong[OF e, of "\<lambda>ns. vd_capacity (ns_entries ns)"]
    by (simp add: simulator_fields sim_advance_time_def vd_retain_def)
  then show ?thesis using r by (simp add: does_not_exceed_capacity_def Let_def simulator_set)
qed

lemma discards_packets_on_inactive_ok:
  assumes "\<forall>i. draws_ok (rng i)"
  shows "discards_packets_on_inactive rng = Inr ()"
proof -
  have "check_send_recieve rng (simulator 16 0 0 (f64_of_int 100) []) (f64_of_int 1) 50 50 =
      Inr (simulator 16 0 0 (f64_of_int 101) [])"
    using assms test_deliveries by (subst round_all_due) (simp_all add: test_clock)
  then obtain ns1 received ns2 where r: "send_packets rng (simulator 16 0 0 (f64_of_int 100) []) 50 = Inr ns1"
    "sim_receive_packets (sim_advance_time ns1 (ns_time ns1 + f64_of_int 1)) = Inr (received, ns2)"
    "length received = 50" and e: "simulator 16 0 0 (f64_of_int 101) [] = sim_advance_time ns2 (ns_time ns2)"
    by (rule check_send_recieveE)
  have "f64_eq f64_zero f64_zero" by code_simp
  then have "\<not> sim_configured (ns2\<lparr>ns_latency := f64_zero\<rparr>)" "ns_active ns2"
    using arg_cong[OF e, of ns_active] arg_cong[OF e, of ns_jitter] arg_cong[OF e, of ns_packet_loss]
      arg_cong[OF e, of ns_duplicates]
    by (simp_all add: sim_configured_def sim_advance_time_def) (simp_all add: simulator_def)
  then have "\<not> ns_active (sim_set_latency ns2 f64_zero)" "vd_items (ns_entries (sim_set_latency ns2 f64_zero)) = []"
    by (simp_all add: sim_set_latency_def)
  with r show ?thesis by (simp add: discards_packets_on_inactive_def Let_def simulator_set)
qed

text \<open>C29: Every test of the network simulator passes, whatever the random numbers: the ones that
  count packets and, with the panic they expect, the two that set a share above one.\<close>

theorem network_simulator_tests_pass:
  assumes "\<forall>i. draws_ok (rng i)" "\<forall>i j. draws_ok (rngs i j)"
  shows "sets_active = Inr () \<and> duplicates_on_range_0_1 = Inl AssertionFailed \<and>
    packet_loss_on_range_0_1 = Inl AssertionFailed \<and> does_not_exceed_capacity rng = Inr () \<and>
    discards_packets_on_inactive rng = Inr () \<and> drops_packets rngs = Inr () \<and>
    duplicates_packets rngs = Inr () \<and> adds_latency_to_packets rngs = Inr ()"
proof -
  have "sets_active = Inr ()" "duplicates_on_range_0_1 = Inl AssertionFailed"
    "packet_loss_on_range_0_1 = Inl AssertionFailed" by code_simp+
  then show ?thesis
    using assms by (simp add: does_not_exceed_capacity_ok discards_packets_on_inactive_ok drops_packets_ok
        duplicates_packets_ok adds_latency_to_packets_ok)
qed

theorem network_simulator_tests_pass_witness:
  "does_not_exceed_capacity (\<lambda>_. demo_draws) = Inr () \<and> duplicates_packets (\<lambda>_ _. demo_draws) = Inr ()"
  using network_simulator_tests_pass[of "\<lambda>_. demo_draws" "\<lambda>_ _. demo_draws"] demo_draws_ok by blast

end
