(* ===== verification/Byte_IO.thy ===== *)
theory Byte_IO
  imports Rust_Prelude
begin

text \<open>
  The byte level standard library the sources use: little endian integers as \<open>byteorder\<close>
  writes and reads them, the \<open>Cursor<&mut [u8]>\<close> a packet is written through, the
  \<open>Cursor<&[u8]>\<close> it is read through, and \<open>Result\<close>s next to panics.
\<close>

unbundle bit_operations_syntax

section \<open>Results and panics\<close>

text \<open>What a function with a \<open>Result\<close> type can end in besides \<open>Ok\<close>.\<close>

datatype 'e failure = Panicked panic | Failed 'e

fun or_panic :: "panic + 'a \<Rightarrow> 'e failure + 'a" where
  "or_panic (Inl p) = Inl (Panicked p)"
| "or_panic (Inr x) = Inr x"

text \<open>\<open>expect\<close> and \<open>unwrap\<close> on such a result.\<close>

fun expect :: "'e failure + 'a \<Rightarrow> panic + 'a" where
  "expect (Inl (Panicked p)) = Inl p"
| "expect (Inl (Failed e)) = Inl UnwrapOnErr"
| "expect (Inr x) = Inr x"

lemma or_panic_eq_Inr [simp]: "or_panic m = Inr x \<longleftrightarrow> m = Inr x"
  by (cases m) auto

lemma expect_eq_Inr [simp]: "expect m = Inr x \<longleftrightarrow> m = Inr x"
  by (cases m rule: expect.cases) auto

section \<open>Little endian integers\<close>

fun le_bytes :: "nat \<Rightarrow> 'a::len word \<Rightarrow> u8 list" where
  "le_bytes 0 w = []"
| "le_bytes (Suc n) w = ucast w # le_bytes n (drop_bit 8 w)"

definition le_u16 :: "u16 \<Rightarrow> u8 list" where "le_u16 w = le_bytes 2 w"
definition le_u32 :: "u32 \<Rightarrow> u8 list" where "le_u32 w = le_bytes 4 w"
definition le_u64 :: "u64 \<Rightarrow> u8 list" where "le_u64 w = le_bytes 8 w"

definition of_le :: "u8 list \<Rightarrow> 'a::len word" where
  "of_le bs = foldr (\<lambda>b w. ucast b OR push_bit 8 w) bs 0"

lemma length_le_bytes [simp]: "length (le_bytes n w) = n"
  by (induction n w rule: le_bytes.induct) auto

lemma length_le [simp]: "length (le_u16 w) = 2" "length (le_u32 v) = 4" "length (le_u64 u) = 8"
  by (simp_all add: le_u16_def le_u32_def le_u64_def)

lemma of_le_Cons: "of_le (b # bs) = ucast b OR push_bit 8 (of_le bs)"
  by (simp add: of_le_def)

lemma byte_split:
  "ucast (ucast w :: u8) OR push_bit 8 (take_bit k (drop_bit 8 w)) = take_bit (k + 8) (w :: 'a::len word)"
proof (rule bit_word_eqI)
  fix i
  assume "i < LENGTH('a)"
  then show "bit (ucast (ucast w :: u8) OR push_bit 8 (take_bit k (drop_bit 8 w))) i \<longleftrightarrow>
      bit (take_bit (k + 8) w) i"
    by (cases "i < 8") (auto simp: bit_simps)
qed

lemma of_le_bytes: "of_le (le_bytes n w) = take_bit (8 * n) w"
proof (induction n arbitrary: w)
  case 0
  then show ?case by (simp add: of_le_def)
next
  case (Suc n)
  then show ?case by (simp add: of_le_Cons byte_split add.commute)
qed

lemma of_le_ints [simp]: "of_le (le_u16 w) = w" "of_le (le_u32 v) = v" "of_le (le_u64 u) = u"
  by (simp_all add: le_u16_def le_u32_def le_u64_def of_le_bytes take_bit_word_eq_self)

section \<open>Writing\<close>

record cursor =
  cur_buf :: "u8 list"
  cur_pos :: usize

definition cur_room :: "cursor \<Rightarrow> usize" where
  "cur_room c = length (cur_buf c) - cur_pos c"

definition cur_put :: "cursor \<Rightarrow> u8 list \<Rightarrow> cursor" where
  "cur_put c bs = \<lparr>cur_buf = take (cur_pos c) (cur_buf c) @ bs @ drop (cur_pos c + length bs) (cur_buf c),
                   cur_pos = cur_pos c + length bs\<rparr>"

text \<open>\<open>write_u8(..).unwrap()\<close> and its kin: \<open>write_all\<close> fails when the slice is full.\<close>

definition cur_write :: "cursor \<Rightarrow> u8 list \<Rightarrow> panic + cursor" where
  "cur_write c bs = (if length bs \<le> cur_room c then Inr (cur_put c bs) else Inl UnwrapOnErr)"

definition cur_new :: "u8 list \<Rightarrow> cursor" where
  "cur_new buf = \<lparr>cur_buf = buf, cur_pos = 0\<rparr>"

definition cur_written :: "cursor \<Rightarrow> u8 list" where
  "cur_written c = take (cur_pos c) (cur_buf c)"

definition cur_ok :: "cursor \<Rightarrow> bool" where
  "cur_ok c \<longleftrightarrow> cur_pos c \<le> length (cur_buf c)"

lemma cur_new_simps [simp]:
  "cur_ok (cur_new buf)" "cur_written (cur_new buf) = []" "cur_pos (cur_new buf) = 0"
  "cur_room (cur_new buf) = length buf" "cur_buf (cur_new buf) = buf"
  by (simp_all add: cur_new_def cur_ok_def cur_written_def cur_room_def)

lemma cur_put_simps:
  assumes "cur_ok c" "length bs \<le> cur_room c"
  shows "cur_ok (cur_put c bs)" "cur_written (cur_put c bs) = cur_written c @ bs"
    "cur_pos (cur_put c bs) = cur_pos c + length bs"
    "cur_room (cur_put c bs) = cur_room c - length bs"
    "length (cur_buf (cur_put c bs)) = length (cur_buf c)"
  using assms by (auto simp: cur_ok_def cur_written_def cur_put_def cur_room_def)

lemma cur_pos_written: "cur_ok c \<Longrightarrow> cur_pos c = length (cur_written c)"
  by (simp add: cur_ok_def cur_written_def)

text \<open>A step of writing appends to what was written and never leaves the slice.\<close>

definition writes :: "cursor \<Rightarrow> cursor \<Rightarrow> u8 list \<Rightarrow> bool" where
  "writes c c' bs \<longleftrightarrow> length bs \<le> cur_room c \<and> c' = cur_put c bs"

lemma writesD:
  assumes "writes c c' bs" "cur_ok c"
  shows "cur_ok c'" "cur_written c' = cur_written c @ bs" "cur_room c' = cur_room c - length bs"
    "cur_pos c' = cur_pos c + length bs" "length (cur_buf c') = length (cur_buf c)"
    "length bs \<le> cur_room c"
  using assms cur_put_simps by (auto simp: writes_def)

lemma writes_trans:
  assumes "cur_ok c" "writes c c1 bs" "writes c1 c2 bs'"
  shows "writes c c2 (bs @ bs')"
  using assms by (auto simp: writes_def cur_put_def cur_room_def cur_ok_def add_ac)

lemma writes_Nil: "cur_ok c \<Longrightarrow> writes c c []"
  by (simp add: writes_def cur_put_def)

lemma writes_Nil_iff [simp]: "cur_ok c \<Longrightarrow> writes c c' [] \<longleftrightarrow> c' = c"
  by (auto simp: writes_def cur_put_def)

lemma writes_append:
  "cur_ok c \<Longrightarrow> writes c c' (as @ bs) \<longleftrightarrow> (\<exists>c1. writes c c1 as \<and> writes c1 c' bs)"
  by (auto simp: writes_def cur_put_def cur_room_def cur_ok_def add_ac)

text \<open>One step of writing in front of whatever the rest writes.\<close>

lemma writes_step:
  assumes "cur_ok c" "\<And>c1. cur_ok c1 \<Longrightarrow> Q c1 \<longleftrightarrow> (\<exists>x. E x \<and> writes c1 c' (P x))"
  shows "(\<exists>c1. writes c c1 as \<and> Q c1) \<longleftrightarrow> (\<exists>x. E x \<and> writes c c' (as @ P x))"
  using assms writes_append[OF assms(1)] writesD(1)[OF _ assms(1)] by blast

lemma cur_write_eq_Inr: "cur_write c bs = Inr c' \<longleftrightarrow> writes c c' bs"
  by (auto simp: cur_write_def writes_def)

section \<open>Reading\<close>

text \<open>A reader is the bytes not read yet; \<open>read_u16(..).unwrap()\<close> panics at the end of the
  stream.\<close>

definition read_bytes :: "nat \<Rightarrow> u8 list \<Rightarrow> panic + (u8 list \<times> u8 list)" where
  "read_bytes n bs = (if n \<le> length bs then Inr (take n bs, drop n bs) else Inl UnwrapOnErr)"

definition read_u8 :: "u8 list \<Rightarrow> panic + (u8 \<times> u8 list)" where
  "read_u8 bs = rbind (read_bytes 1 bs) (\<lambda>(b, rest). Inr (hd b, rest))"

definition read_u16 :: "u8 list \<Rightarrow> panic + (u16 \<times> u8 list)" where
  "read_u16 bs = rbind (read_bytes 2 bs) (\<lambda>(b, rest). Inr (of_le b, rest))"

definition read_u32 :: "u8 list \<Rightarrow> panic + (u32 \<times> u8 list)" where
  "read_u32 bs = rbind (read_bytes 4 bs) (\<lambda>(b, rest). Inr (of_le b, rest))"

lemma read_back [simp]:
  "read_u8 (b # rest) = Inr (b, rest)"
  "read_u16 (le_u16 w @ rest) = Inr (w, rest)"
  "read_u32 (le_u32 v @ rest) = Inr (v, rest)"
  by (simp_all add: read_u8_def read_u16_def read_u32_def read_bytes_def)

end
