(* ===== verification/Packet_Data.thy ===== *)
theory Packet_Data
  imports Byte_IO Config
begin

text \<open>
  \<open>src/message.rs\<close> and \<open>src/channel/channel_packet_data.rs\<close>: the messages of one channel in
  one packet, and how they are written to and read from the wire. The user's message type
  is a parameter: a record of the two methods of the trait \<open>NetworkMessage\<close>.

  After the code, the locale \<open>message_codec\<close> states what a sound implementation of the trait
  promises, and the round trip of a whole list of messages is proved in it; it is
  interpreted on the \<open>TestMessage\<close> of the repository's own tests.
\<close>

section \<open>The trait NetworkMessage\<close>

text \<open>\<open>msg_serialize m room\<close> is what \<open>serialize\<close> writes to a writer with \<open>room\<close> bytes left
  (\<open>None\<close>: a writer without a bound, the \<open>MeasureSink\<close>), or its error.
  \<open>msg_deserialize bs\<close> is the message read from the front of \<open>bs\<close> and the bytes left.\<close>

record ('m, 'e) network_message =
  msg_serialize :: "'m \<Rightarrow> usize option \<Rightarrow> 'e + u8 list"
  msg_deserialize :: "u8 list \<Rightarrow> 'e + ('m \<times> u8 list)"

text \<open>\<open>MeasureSink\<close> counts the bytes of every write; \<open>serialize(&mut sink).unwrap()\<close>.\<close>

definition measure_sink_bytes :: "('m, 'e) network_message \<Rightarrow> 'm \<Rightarrow> panic + usize" where
  "measure_sink_bytes nm message =
     (case msg_serialize nm message None of Inl e \<Rightarrow> Inl UnwrapOnErr | Inr bs \<Rightarrow> Inr (length bs))"

text \<open>Writing a message through a cursor: it cannot write past the end of the slice.\<close>

definition cur_write_message ::
  "('m, 'e) network_message \<Rightarrow> cursor \<Rightarrow> 'm \<Rightarrow> 'e failure + cursor" where
  "cur_write_message nm c message =
     (case msg_serialize nm message (Some (cur_room c)) of
        Inl e \<Rightarrow> Inl (Failed e)
      | Inr bs \<Rightarrow> Inr (cur_put c (take (cur_room c) bs)))"

definition read_message ::
  "('m, 'e) network_message \<Rightarrow> u8 list \<Rightarrow> 'e failure + ('m \<times> u8 list)" where
  "read_message nm bs =
     (case msg_deserialize nm bs of Inl e \<Rightarrow> Inl (Failed e) | Inr r \<Rightarrow> Inr r)"

section \<open>ChannelPacketData\<close>

record 'm channel_packet_data =
  pd_channel_index :: usize
  pd_messages :: "(u16 \<times> 'm) list"

definition cpd_empty :: "'m channel_packet_data" where
  "cpd_empty = \<lparr>pd_channel_index = 2 ^ 64 - 1, pd_messages = []\<rparr>"

definition cpd_serialize_check :: "features \<Rightarrow> cursor \<Rightarrow> panic + cursor" where
  "cpd_serialize_check feat c =
     (if feat_serialize_check feat then cur_write c (le_u32 SERIALIZE_CHECK_VALUE) else Inr c)"

definition cpd_deserialize_check :: "features \<Rightarrow> u8 list \<Rightarrow> panic + u8 list" where
  "cpd_deserialize_check feat bs =
     (if feat_serialize_check feat
      then rbind (read_u32 bs) (\<lambda>(v, rest).
           if v = SERIALIZE_CHECK_VALUE then Inr rest else Inl AssertionFailed)
      else Inr bs)"

fun cpd_serialize_messages ::
  "features \<Rightarrow> ('m, 'e) network_message \<Rightarrow> (u16 \<times> 'm) list \<Rightarrow> cursor \<Rightarrow> 'e failure + cursor" where
  "cpd_serialize_messages feat nm [] c = Inr c"
| "cpd_serialize_messages feat nm ((_, message) # ms) c =
     rbind (cur_write_message nm c message) (\<lambda>c.
     rbind (or_panic (cpd_serialize_check feat c)) (cpd_serialize_messages feat nm ms))"

definition cpd_serialize_unordered ::
  "features \<Rightarrow> ('m, 'e) network_message \<Rightarrow> 'm channel_packet_data \<Rightarrow> cursor \<Rightarrow> 'e failure + cursor" where
  "cpd_serialize_unordered feat nm pd c = cpd_serialize_messages feat nm (pd_messages pd) c"

definition cpd_serialize_ordered ::
  "features \<Rightarrow> ('m, 'e) network_message \<Rightarrow> 'm channel_packet_data \<Rightarrow> cursor \<Rightarrow> 'e failure + cursor" where
  "cpd_serialize_ordered feat nm pd c =
     rbind (or_panic (rfold (\<lambda>c (mid, _). cur_write c (le_u16 mid)) c (pd_messages pd))) (\<lambda>c.
     rbind (or_panic (cpd_serialize_check feat c)) (\<lambda>c.
     cpd_serialize_messages feat nm (pd_messages pd) c))"

definition cpd_serialize ::
  "features \<Rightarrow> ('m, 'e) network_message \<Rightarrow> connection_config \<Rightarrow> 'm channel_packet_data \<Rightarrow> cursor
     \<Rightarrow> 'e failure + cursor" where
  "cpd_serialize feat nm nconfig pd dest =
     (if 65535 < pd_channel_index pd then Inl (Panicked UnwrapOnErr) else
      rbind (or_panic (cur_write dest (le_u16 (of_nat (pd_channel_index pd))))) (\<lambda>dest.
      rbind (or_panic (vec_index (nc_channels nconfig) (pd_channel_index pd))) (\<lambda>config.
      let has_messages = (pd_messages pd \<noteq> []) in
      rbind (or_panic (cur_write dest [if has_messages then 1 else 0])) (\<lambda>dest.
      if \<not> has_messages then Inr dest else
      rbind (or_panic (checked_sub (cc_max_messages_per_packet config) 1)) (\<lambda>max1.
      if \<not> max1 \<le> 255 then Inl (Panicked AssertionFailed) else
      if \<not> length (pd_messages pd) \<le> cc_max_messages_per_packet config
      then Inl (Panicked AssertionFailed) else
      if 255 < length (pd_messages pd) - 1 then Inl (Panicked UnwrapOnErr) else
      rbind (or_panic (cur_write dest [of_nat (length (pd_messages pd) - 1)])) (\<lambda>dest.
      case cc_kind config of
        UnreliableUnordered \<Rightarrow> cpd_serialize_unordered feat nm pd dest
      | ReliableOrdered \<Rightarrow> cpd_serialize_ordered feat nm pd dest))))))"

fun cpd_deserialize_unordered ::
  "features \<Rightarrow> ('m, 'e) network_message \<Rightarrow> nat \<Rightarrow> u8 list
     \<Rightarrow> 'e failure + ((u16 \<times> 'm) list \<times> u8 list)" where
  "cpd_deserialize_unordered feat nm 0 bs = Inr ([], bs)"
| "cpd_deserialize_unordered feat nm (Suc n) bs =
     rbind (read_message nm bs) (\<lambda>(message, bs).
     rbind (or_panic (cpd_deserialize_check feat bs)) (\<lambda>bs.
     rbind (cpd_deserialize_unordered feat nm n bs) (\<lambda>(messages, bs).
     Inr ((0, message) # messages, bs))))"

fun cpd_read_ids :: "nat \<Rightarrow> u8 list \<Rightarrow> panic + (u16 list \<times> u8 list)" where
  "cpd_read_ids 0 bs = Inr ([], bs)"
| "cpd_read_ids (Suc n) bs =
     rbind (read_u16 bs) (\<lambda>(mid, bs).
     rbind (cpd_read_ids n bs) (\<lambda>(ids, bs). Inr (mid # ids, bs)))"

fun cpd_read_messages ::
  "features \<Rightarrow> ('m, 'e) network_message \<Rightarrow> u16 list \<Rightarrow> u8 list
     \<Rightarrow> 'e failure + ((u16 \<times> 'm) list \<times> u8 list)" where
  "cpd_read_messages feat nm [] bs = Inr ([], bs)"
| "cpd_read_messages feat nm (mid # ids) bs =
     rbind (read_message nm bs) (\<lambda>(message, bs).
     rbind (or_panic (cpd_deserialize_check feat bs)) (\<lambda>bs.
     rbind (cpd_read_messages feat nm ids bs) (\<lambda>(messages, bs).
     Inr ((mid, message) # messages, bs))))"

text \<open>The closing \<open>assert_eq!\<close> compares the lengths of \<open>messages\<close> and \<open>message_ids\<close>, which
  \<open>cpd_read_messages\<close> makes equal.\<close>

definition cpd_deserialize_ordered ::
  "features \<Rightarrow> ('m, 'e) network_message \<Rightarrow> nat \<Rightarrow> u8 list
     \<Rightarrow> 'e failure + ((u16 \<times> 'm) list \<times> u8 list)" where
  "cpd_deserialize_ordered feat nm message_count bs =
     rbind (or_panic (cpd_read_ids message_count bs)) (\<lambda>(ids, bs).
     rbind (or_panic (cpd_deserialize_check feat bs)) (\<lambda>bs.
     rbind (cpd_read_messages feat nm ids bs) (\<lambda>(messages, bs).
     if length messages = length ids then Inr (messages, bs) else Inl (Panicked AssertionFailed))))"

definition cpd_deserialize ::
  "features \<Rightarrow> ('m, 'e) network_message \<Rightarrow> connection_config \<Rightarrow> u8 list
     \<Rightarrow> 'e failure + ('m channel_packet_data \<times> u8 list)" where
  "cpd_deserialize feat nm nconfig bs =
     rbind (or_panic (read_u16 bs)) (\<lambda>(index, bs).
     let channel_index = unat index in
     rbind (or_panic (vec_index (nc_channels nconfig) channel_index)) (\<lambda>config.
     rbind (or_panic (read_u8 bs)) (\<lambda>(flag, bs).
     if flag \<noteq> 1 then Inr (cpd_empty, bs) else
     rbind (or_panic (read_u8 bs)) (\<lambda>(count1, bs).
     let message_count = 1 + unat count1 in
     rbind (or_panic (checked_sub (cc_max_messages_per_packet config) 1)) (\<lambda>max1.
     if \<not> max1 \<le> 255 then Inl (Panicked AssertionFailed) else
     if \<not> message_count \<le> cc_max_messages_per_packet config then Inl (Panicked AssertionFailed) else
     rbind (case cc_kind config of
              UnreliableUnordered \<Rightarrow> cpd_deserialize_unordered feat nm message_count bs
            | ReliableOrdered \<Rightarrow> cpd_deserialize_ordered feat nm message_count bs) (\<lambda>(messages, bs).
     Inr (\<lparr>pd_channel_index = channel_index, pd_messages = messages\<rparr>, bs)))))))"

section \<open>Sound message types\<close>

text \<open>What an implementation of \<open>NetworkMessage\<close> has to satisfy: reading back what was written
  gives the message and leaves the rest of the stream, and the bytes written do not depend on
  the writer as long as they fit.\<close>

definition msg_lawful :: "('m, 'e) network_message \<Rightarrow> bool" where
  "msg_lawful nm \<longleftrightarrow>
     (\<forall>m bs rest. msg_serialize nm m None = Inr bs \<longrightarrow> msg_deserialize nm (bs @ rest) = Inr (m, rest)) \<and>
     (\<forall>m r bs. msg_serialize nm m (Some r) = Inr bs \<longleftrightarrow>
        msg_serialize nm m None = Inr bs \<and> length bs \<le> r)"

definition check_bytes :: "features \<Rightarrow> u8 list" where
  "check_bytes feat = (if feat_serialize_check feat then le_u32 SERIALIZE_CHECK_VALUE else [])"

lemma cpd_serialize_check_writes:
  "cur_ok c \<Longrightarrow> cpd_serialize_check feat c = Inr c' \<longleftrightarrow> writes c c' (check_bytes feat)"
  by (auto simp: cpd_serialize_check_def check_bytes_def cur_write_eq_Inr)

lemma cpd_deserialize_check_bytes [simp]:
  "cpd_deserialize_check feat (check_bytes feat @ rest) = Inr rest"
  by (simp add: cpd_deserialize_check_def check_bytes_def)

definition id_bytes :: "(u16 \<times> 'm) list \<Rightarrow> u8 list" where
  "id_bytes ms = concat (map (\<lambda>(mid, _). le_u16 mid) ms)"

lemma length_id_bytes [simp]: "length (id_bytes ms) = 2 * length ms"
  by (induction ms) (auto simp: id_bytes_def)

lemma cpd_write_ids:
  "cur_ok c \<Longrightarrow> rfold (\<lambda>c (mid, _). cur_write c (le_u16 mid)) c ms = Inr c' \<longleftrightarrow>
    writes c c' (id_bytes ms)"
proof (induction ms arbitrary: c)
  case Nil
  then show ?case by (auto simp: id_bytes_def)
next
  case (Cons x ms)
  obtain mid m where x: "x = (mid, m)" by (cases x)
  have "writes c c' (id_bytes (x # ms)) \<longleftrightarrow>
      (\<exists>c1. writes c c1 (le_u16 mid) \<and> writes c1 c' (id_bytes ms))"
    using Cons.prems by (simp add: x id_bytes_def writes_append)
  then show ?case
    using Cons.IH writesD(1)[OF _ Cons.prems]
    by (auto simp: x rbind_eq_Inr cur_write_eq_Inr)
qed

lemma cpd_read_ids_bytes [simp]:
  "cpd_read_ids (length ms) (id_bytes ms @ rest) = Inr (map fst ms, rest)"
  by (induction ms) (auto simp: id_bytes_def)

text \<open>Sizes on the wire.\<close>

definition msg_size :: "('m, 'e) network_message \<Rightarrow> 'm \<Rightarrow> usize" where
  "msg_size nm m = (case msg_serialize nm m None of Inl _ \<Rightarrow> 0 | Inr bs \<Rightarrow> length bs)"

definition msg_measurable :: "('m, 'e) network_message \<Rightarrow> 'm \<Rightarrow> bool" where
  "msg_measurable nm m \<longleftrightarrow> (\<exists>bs. msg_serialize nm m None = Inr bs)"

lemma measure_sink_measurable:
  "measure_sink_bytes nm m = Inr n \<longleftrightarrow> msg_measurable nm m \<and> n = msg_size nm m"
  by (auto simp: measure_sink_bytes_def msg_measurable_def msg_size_def split: sum.splits)

definition cpd_wire_size ::
  "features \<Rightarrow> ('m, 'e) network_message \<Rightarrow> channel_config \<Rightarrow> 'm channel_packet_data \<Rightarrow> usize" where
  "cpd_wire_size feat nm config pd =
     (let chk = length (check_bytes feat); n = length (pd_messages pd)
      in if n = 0 then 3
         else 4 + sum_list (map (\<lambda>(_, m). msg_size nm m + chk) (pd_messages pd)) +
              (case cc_kind config of UnreliableUnordered \<Rightarrow> 0 | ReliableOrdered \<Rightarrow> 2 * n + chk))"

definition cpd_valid :: "connection_config \<Rightarrow> 'm channel_packet_data \<Rightarrow> bool" where
  "cpd_valid nconfig pd \<longleftrightarrow>
     pd_channel_index pd \<le> 65535 \<and> pd_channel_index pd < length (nc_channels nconfig) \<and>
     (pd_messages pd \<noteq> [] \<longrightarrow>
        (let mx = cc_max_messages_per_packet (nc_channels nconfig ! pd_channel_index pd)
         in length (pd_messages pd) \<le> mx \<and> mx \<le> 256))"

text \<open>What the receiving side decodes: an entry without messages loses its channel index, and
  the ids of an unordered channel are not on the wire.\<close>

definition cpd_seen :: "connection_config \<Rightarrow> 'm channel_packet_data \<Rightarrow> 'm channel_packet_data" where
  "cpd_seen nconfig pd =
     (if pd_messages pd = [] then cpd_empty
      else case cc_kind (nc_channels nconfig ! pd_channel_index pd) of
          UnreliableUnordered \<Rightarrow> pd\<lparr>pd_messages := map (\<lambda>(_, m). (0, m)) (pd_messages pd)\<rparr>
        | ReliableOrdered \<Rightarrow> pd)"

locale message_codec =
  fixes nm :: "('m, 'e) network_message"
  assumes decode_encode: "msg_serialize nm m None = Inr bs \<Longrightarrow> msg_deserialize nm (bs @ rest) = Inr (m, rest)"
    and encode_room: "msg_serialize nm m (Some r) = Inr bs \<longleftrightarrow>
      msg_serialize nm m None = Inr bs \<and> length bs \<le> r"
begin

lemma write_message_writes:
  "cur_write_message nm c m = Inr c' \<longleftrightarrow>
    (\<exists>bs. msg_serialize nm m None = Inr bs \<and> writes c c' bs)"
proof (cases "msg_serialize nm m (Some (cur_room c))")
  case (Inl e)
  have "\<not> (msg_serialize nm m None = Inr bs \<and> length bs \<le> cur_room c)" for bs
    using encode_room[of m "cur_room c" bs] Inl by simp
  with Inl show ?thesis by (auto simp: cur_write_message_def writes_def)
next
  case (Inr bs)
  then have "msg_serialize nm m None = Inr bs" "length bs \<le> cur_room c"
    using encode_room[of m "cur_room c" bs] by auto
  with Inr show ?thesis by (auto simp: cur_write_message_def writes_def)
qed

lemma read_message_back:
  "msg_serialize nm m None = Inr bs \<Longrightarrow> read_message nm (bs @ rest) = Inr (m, rest)"
  by (simp add: read_message_def decode_encode)

text \<open>The bytes of a list of messages, and reading them back in both framings.\<close>

definition encodes :: "features \<Rightarrow> (u16 \<times> 'm) list \<Rightarrow> u8 list list \<Rightarrow> bool" where
  "encodes feat ms bss \<longleftrightarrow>
     list_all2 (\<lambda>(_, m) bs. msg_serialize nm m None = Inr bs) ms bss"

definition body :: "features \<Rightarrow> u8 list list \<Rightarrow> u8 list" where
  "body feat bss = concat (map (\<lambda>bs. bs @ check_bytes feat) bss)"

lemma serialize_messages_writes:
  "cur_ok c \<Longrightarrow> cpd_serialize_messages feat nm ms c = Inr c' \<longleftrightarrow>
    (\<exists>bss. encodes feat ms bss \<and> writes c c' (body feat bss))"
proof (induction ms arbitrary: c)
  case Nil
  then show ?case by (auto simp: encodes_def body_def)
next
  case (Cons x ms)
  obtain mid m where x: "x = (mid, m)" by (cases x)
  show ?case
  proof
    assume "cpd_serialize_messages feat nm (x # ms) c = Inr c'"
    then obtain c1 c2 where c1: "cur_write_message nm c m = Inr c1"
      and c2: "cpd_serialize_check feat c1 = Inr c2" "cpd_serialize_messages feat nm ms c2 = Inr c'"
      by (auto simp: x rbind_eq_Inr)
    obtain bs where bs: "msg_serialize nm m None = Inr bs" "writes c c1 bs"
      using c1 write_message_writes by blast
    note ok1 = writesD(1)[OF bs(2) Cons.prems]
    have w2: "writes c1 c2 (check_bytes feat)" using c2(1) cpd_serialize_check_writes[OF ok1] by blast
    obtain bss where "encodes feat ms bss" "writes c2 c' (body feat bss)"
      using c2(2) Cons.IH[OF writesD(1)[OF w2 ok1]] by blast
    with bs w2 have "encodes feat (x # ms) (bs # bss)"
      "writes c c' (bs @ check_bytes feat @ body feat bss)"
      using ok1 Cons.prems by (auto simp: x encodes_def intro: writes_trans)
    then have "encodes feat (x # ms) (bs # bss)" "writes c c' (body feat (bs # bss))"
      by (simp_all add: body_def)
    then show "\<exists>bss. encodes feat (x # ms) bss \<and> writes c c' (body feat bss)" by blast
  next
    assume "\<exists>bss. encodes feat (x # ms) bss \<and> writes c c' (body feat bss)"
    then obtain bs bss where bs: "msg_serialize nm m None = Inr bs" "encodes feat ms bss"
      "writes c c' (bs @ check_bytes feat @ body feat bss)"
      by (auto simp: x encodes_def body_def list_all2_Cons1)
    then obtain c1 where c1: "writes c c1 bs" "writes c1 c' (check_bytes feat @ body feat bss)"
      using writes_append[OF Cons.prems] by blast
    note ok1 = writesD(1)[OF c1(1) Cons.prems]
    obtain c2 where c2: "writes c1 c2 (check_bytes feat)" "writes c2 c' (body feat bss)"
      using c1(2) writes_append[OF ok1] by blast
    have "cur_write_message nm c m = Inr c1" using bs(1) c1(1) write_message_writes by blast
    moreover have "cpd_serialize_check feat c1 = Inr c2"
      using c2(1) cpd_serialize_check_writes[OF ok1] by blast
    moreover have "cpd_serialize_messages feat nm ms c2 = Inr c'"
      using bs(2) c2(2) Cons.IH[OF writesD(1)[OF c2(1) ok1]] by blast
    ultimately show "cpd_serialize_messages feat nm (x # ms) c = Inr c'" by (simp add: x)
  qed
qed

lemma deserialize_unordered_body:
  "encodes feat ms bss \<Longrightarrow>
    cpd_deserialize_unordered feat nm (length ms) (body feat bss @ rest) =
      Inr (map (\<lambda>(_, m). (0, m)) ms, rest)"
  by (induction ms arbitrary: bss)
     (auto simp: encodes_def body_def list_all2_Cons1 read_message_back)

lemma read_messages_body:
  "encodes feat ms bss \<Longrightarrow>
    cpd_read_messages feat nm (map fst ms) (body feat bss @ rest) = Inr (ms, rest)"
  by (induction ms arbitrary: bss)
     (auto simp: encodes_def body_def list_all2_Cons1 read_message_back)

lemma deserialize_ordered_body:
  "encodes feat ms bss \<Longrightarrow>
    cpd_deserialize_ordered feat nm (length ms) (id_bytes ms @ check_bytes feat @ body feat bss @ rest) =
      Inr (ms, rest)"
  by (simp add: cpd_deserialize_ordered_def read_messages_body)

text \<open>The bytes of one channel's data.\<close>

definition cpd_bytes :: "features \<Rightarrow> channel_config \<Rightarrow> 'm channel_packet_data \<Rightarrow> u8 list list \<Rightarrow> u8 list" where
  "cpd_bytes feat config pd bss =
     le_u16 (of_nat (pd_channel_index pd)) @
     (if pd_messages pd = [] then [0]
      else [1] @ [of_nat (length (pd_messages pd) - 1)] @
        (case cc_kind config of
           UnreliableUnordered \<Rightarrow> body feat bss
         | ReliableOrdered \<Rightarrow> id_bytes (pd_messages pd) @ check_bytes feat @ body feat bss))"

lemma ordered_writes:
  assumes "cur_ok c"
  shows "cpd_serialize_ordered feat nm pd c = Inr c' \<longleftrightarrow>
    (\<exists>bss. encodes feat (pd_messages pd) bss \<and>
       writes c c' (id_bytes (pd_messages pd) @ check_bytes feat @ body feat bss))"
proof
  assume "cpd_serialize_ordered feat nm pd c = Inr c'"
  then obtain c1 c2 where c1: "rfold (\<lambda>c (mid, _). cur_write c (le_u16 mid)) c (pd_messages pd) = Inr c1"
    and c2: "cpd_serialize_check feat c1 = Inr c2" "cpd_serialize_messages feat nm (pd_messages pd) c2 = Inr c'"
    by (auto simp: cpd_serialize_ordered_def rbind_eq_Inr)
  have w1: "writes c c1 (id_bytes (pd_messages pd))" using c1 cpd_write_ids[OF assms] by blast
  note ok1 = writesD(1)[OF w1 assms]
  have w2: "writes c1 c2 (check_bytes feat)" using c2(1) cpd_serialize_check_writes[OF ok1] by blast
  obtain bss where "encodes feat (pd_messages pd) bss" "writes c2 c' (body feat bss)"
    using c2(2) serialize_messages_writes[OF writesD(1)[OF w2 ok1]] by blast
  with w1 w2 ok1 assms show "\<exists>bss. encodes feat (pd_messages pd) bss \<and>
       writes c c' (id_bytes (pd_messages pd) @ check_bytes feat @ body feat bss)"
    by (blast intro: writes_trans)
next
  assume "\<exists>bss. encodes feat (pd_messages pd) bss \<and>
       writes c c' (id_bytes (pd_messages pd) @ check_bytes feat @ body feat bss)"
  then obtain bss c1 where bss: "encodes feat (pd_messages pd) bss"
    and w1: "writes c c1 (id_bytes (pd_messages pd))" "writes c1 c' (check_bytes feat @ body feat bss)"
    using writes_append[OF assms] by blast
  note ok1 = writesD(1)[OF w1(1) assms]
  obtain c2 where w2: "writes c1 c2 (check_bytes feat)" "writes c2 c' (body feat bss)"
    using w1(2) writes_append[OF ok1] by blast
  have "cpd_serialize_messages feat nm (pd_messages pd) c2 = Inr c'"
    using serialize_messages_writes[OF writesD(1)[OF w2(1) ok1]] bss w2(2) by blast
  then show "cpd_serialize_ordered feat nm pd c = Inr c'"
    using w1(1) w2(1) cpd_write_ids[OF assms, of "pd_messages pd" c1]
      cpd_serialize_check_writes[OF ok1, of feat c2]
    by (simp add: cpd_serialize_ordered_def)
qed

text \<open>When serializing succeeds, and what it then writes.\<close>

lemma serialize_writes:
  assumes ok: "cur_ok c"
  shows "cpd_serialize feat nm nconfig pd c = Inr c' \<longleftrightarrow>
    cpd_valid nconfig pd \<and>
    (\<exists>bss. (pd_messages pd \<noteq> [] \<longrightarrow> encodes feat (pd_messages pd) bss) \<and>
       writes c c' (cpd_bytes feat (nc_channels nconfig ! pd_channel_index pd) pd bss))"
    (is "?L \<longleftrightarrow> ?R")
proof -
  let ?i = "pd_channel_index pd" and ?ms = "pd_messages pd"
  let ?cfg = "nc_channels nconfig ! ?i"
  let ?mx = "cc_max_messages_per_packet ?cfg"
  let ?payload = "\<lambda>c. case cc_kind ?cfg of
        UnreliableUnordered \<Rightarrow> cpd_serialize_unordered feat nm pd c
      | ReliableOrdered \<Rightarrow> cpd_serialize_ordered feat nm pd c"
  have head: "?L \<longleftrightarrow> ?i \<le> 65535 \<and> ?i < length (nc_channels nconfig) \<and>
      (\<exists>c1 c2. writes c c1 (le_u16 (of_nat ?i)) \<and>
         writes c1 c2 [if ?ms \<noteq> [] then 1 else 0] \<and>
         (if ?ms = [] then c' = c2
          else 1 \<le> ?mx \<and> ?mx - 1 \<le> 255 \<and> length ?ms \<le> ?mx \<and> length ?ms - 1 \<le> 255 \<and>
            (\<exists>c3. writes c2 c3 [of_nat (length ?ms - 1)] \<and> ?payload c3 = Inr c')))"
    by (auto simp: cpd_serialize_def rbind_eq_Inr Let_def cur_write_eq_Inr vec_index_eq_Inr
        checked_sub_eq_Inr not_less split: if_splits)
  have payload: "?payload c3 = Inr c' \<longleftrightarrow> (\<exists>bss. encodes feat ?ms bss \<and> writes c3 c'
      (case cc_kind ?cfg of UnreliableUnordered \<Rightarrow> body feat bss
         | ReliableOrdered \<Rightarrow> id_bytes ?ms @ check_bytes feat @ body feat bss))" if "cur_ok c3" for c3
    using that by (cases "cc_kind ?cfg")
      (simp_all add: ordered_writes cpd_serialize_unordered_def serialize_messages_writes)
  show ?thesis
  proof (cases "?ms = []")
    case True
    then show ?thesis
      unfolding head cpd_valid_def cpd_bytes_def using writes_append[OF ok] by auto
  next
    case False
    have "?mx - 1 \<le> 255 \<longleftrightarrow> ?mx \<le> 256" "1 \<le> ?mx" "length ?ms - 1 \<le> 255"
      if "length ?ms \<le> ?mx" "?mx \<le> 256"
      using that False by (cases ?ms; simp)+
    then have "?L \<longleftrightarrow> cpd_valid nconfig pd \<and>
      (\<exists>c1. writes c c1 (le_u16 (of_nat ?i)) \<and> (\<exists>c2. writes c1 c2 [1] \<and>
         (\<exists>c3. writes c2 c3 [of_nat (length ?ms - 1)] \<and> ?payload c3 = Inr c')))"
      unfolding head cpd_valid_def Let_def using False by auto
    moreover have "(\<exists>c1. writes c c1 (le_u16 (of_nat ?i)) \<and> (\<exists>c2. writes c1 c2 [1] \<and>
         (\<exists>c3. writes c2 c3 [of_nat (length ?ms - 1)] \<and> ?payload c3 = Inr c'))) \<longleftrightarrow>
      (\<exists>bss. encodes feat ?ms bss \<and> writes c c' (le_u16 (of_nat ?i) @ [1] @
         [of_nat (length ?ms - 1)] @ (case cc_kind ?cfg of UnreliableUnordered \<Rightarrow> body feat bss
           | ReliableOrdered \<Rightarrow> id_bytes ?ms @ check_bytes feat @ body feat bss)))"
      by (rule writes_step[OF ok], rule writes_step, assumption, rule writes_step, assumption,
          rule payload)
    ultimately show ?thesis using False by (simp add: cpd_bytes_def)
  qed
qed

lemma deserialize_bytes:
  assumes "cpd_valid nconfig pd" "pd_messages pd \<noteq> [] \<longrightarrow> encodes feat (pd_messages pd) bss"
  shows "cpd_deserialize feat nm nconfig
      (cpd_bytes feat (nc_channels nconfig ! pd_channel_index pd) pd bss @ rest) =
    Inr (cpd_seen nconfig pd, rest)"
proof (cases "pd_messages pd = []")
  case True
  with assms show ?thesis
    by (simp add: cpd_deserialize_def cpd_bytes_def cpd_seen_def cpd_valid_def Let_def unat_u16_of_nat)
next
  case False
  let ?ms = "pd_messages pd"
  let ?cfg = "nc_channels nconfig ! pd_channel_index pd"
  have valid: "pd_channel_index pd \<le> 65535" "pd_channel_index pd < length (nc_channels nconfig)"
    "length ?ms \<le> cc_max_messages_per_packet ?cfg" "cc_max_messages_per_packet ?cfg \<le> 256"
    using assms(1) False by (auto simp: cpd_valid_def Let_def)
  define cnt where "cnt = (of_nat (length ?ms - 1) :: u8)"
  have count: "Suc (unat cnt) = length ?ms"
    unfolding cnt_def unat_of_nat using valid False by (cases ?ms) simp_all
  have mx: "1 \<le> cc_max_messages_per_packet ?cfg" using valid(3) False by (cases ?ms) auto
  have enc: "encodes feat ?ms bss" using assms(2) False by blast
  have bytes: "cpd_bytes feat ?cfg pd bss @ rest =
      le_u16 (of_nat (pd_channel_index pd)) @ 1 # cnt #
        (case cc_kind ?cfg of UnreliableUnordered \<Rightarrow> body feat bss @ rest
           | ReliableOrdered \<Rightarrow> id_bytes ?ms @ check_bytes feat @ body feat bss @ rest)"
    unfolding cpd_bytes_def cnt_def using False by (cases "cc_kind ?cfg") auto
  show ?thesis
    unfolding bytes
    using valid False mx count deserialize_ordered_body[OF enc, of rest]
      deserialize_unordered_body[OF enc, of rest]
    by (cases "cc_kind ?cfg")
      (simp_all add: cpd_deserialize_def cpd_seen_def Let_def unat_u16_of_nat)
qed

lemma serialize_deserialize:
  assumes "cur_ok c" "cpd_serialize feat nm nconfig pd c = Inr c'"
  obtains bs where "writes c c' bs" "cpd_valid nconfig pd"
    "\<And>rest. cpd_deserialize feat nm nconfig (bs @ rest) = Inr (cpd_seen nconfig pd, rest)"
  using assms serialize_writes deserialize_bytes by metis

lemma encodes_size:
  "encodes feat ms bss \<Longrightarrow>
    length (body feat bss) = sum_list (map (\<lambda>(_, m). msg_size nm m + length (check_bytes feat)) ms)"
  by (induction ms arbitrary: bss)
     (auto simp: encodes_def body_def list_all2_Cons1 msg_size_def)

lemma encodes_exists:
  "\<forall>(_, m) \<in> set ms. msg_measurable nm m \<Longrightarrow> \<exists>bss. encodes feat ms bss"
proof (induction ms)
  case (Cons x ms)
  obtain mid m where x: "x = (mid, m)" by (cases x)
  from Cons obtain bss bs where "encodes feat ms bss" "msg_serialize nm m None = Inr bs"
    by (auto simp: x msg_measurable_def)
  then have "encodes feat (x # ms) (bs # bss)" by (simp add: encodes_def x)
  then show ?case by blast
qed (rule exI[of _ "[]"], simp add: encodes_def)

lemma cpd_bytes_size:
  "pd_messages pd \<noteq> [] \<longrightarrow> encodes feat (pd_messages pd) bss \<Longrightarrow>
    length (cpd_bytes feat config pd bss) = cpd_wire_size feat nm config pd"
  by (auto simp: cpd_bytes_def cpd_wire_size_def Let_def encodes_size split: channel_type.splits)

lemma serialize_fits:
  assumes "cur_ok c" "cpd_valid nconfig pd" "\<forall>(_, m) \<in> set (pd_messages pd). msg_measurable nm m"
    and "cpd_wire_size feat nm (nc_channels nconfig ! pd_channel_index pd) pd \<le> cur_room c"
  obtains c' where "cpd_serialize feat nm nconfig pd c = Inr c'"
proof -
  let ?cfg = "nc_channels nconfig ! pd_channel_index pd"
  obtain bss where bss: "encodes feat (pd_messages pd) bss" using encodes_exists[OF assms(3)] by blast
  then have "writes c (cur_put c (cpd_bytes feat ?cfg pd bss)) (cpd_bytes feat ?cfg pd bss)"
    using assms(4) cpd_bytes_size by (simp add: writes_def)
  with bss assms(1,2) that serialize_writes show ?thesis by blast
qed

lemma serialize_size:
  assumes "cur_ok c" "cpd_serialize feat nm nconfig pd c = Inr c'"
  shows "cur_room c' = cur_room c - cpd_wire_size feat nm (nc_channels nconfig ! pd_channel_index pd) pd"
    "cpd_wire_size feat nm (nc_channels nconfig ! pd_channel_index pd) pd \<le> cur_room c"
  using assms serialize_writes[OF assms(1)] writesD(3,6)[OF _ assms(1)] cpd_bytes_size by metis+

lemma encodes_measurable:
  "encodes feat ms bss \<Longrightarrow> \<forall>(_, m) \<in> set ms. msg_measurable nm m"
  by (induction ms arbitrary: bss) (auto simp: encodes_def list_all2_Cons1 msg_measurable_def)

lemma serialize_exact:
  assumes ok: "cur_ok c"
  shows "(\<exists>c'. cpd_serialize feat nm nconfig pd c = Inr c') \<longleftrightarrow>
    cpd_valid nconfig pd \<and> (\<forall>(_, m) \<in> set (pd_messages pd). msg_measurable nm m) \<and>
    cpd_wire_size feat nm (nc_channels nconfig ! pd_channel_index pd) pd \<le> cur_room c"
    (is "?L \<longleftrightarrow> ?R")
proof
  assume ?L
  then obtain c' where c': "cpd_serialize feat nm nconfig pd c = Inr c'" by blast
  then obtain bss where "cpd_valid nconfig pd" "pd_messages pd \<noteq> [] \<longrightarrow> encodes feat (pd_messages pd) bss"
    using serialize_writes[OF ok] by blast
  moreover from this(2) have "\<forall>(_, m) \<in> set (pd_messages pd). msg_measurable nm m"
    using encodes_measurable by (cases "pd_messages pd = []") auto
  ultimately show ?R using serialize_size(2)[OF ok c'] by blast
next
  assume ?R
  then show ?L using serialize_fits[OF ok, of nconfig pd feat] by blast
qed

end

lemma msg_lawful_codec: "msg_lawful nm \<Longrightarrow> message_codec nm"
  by (simp add: msg_lawful_def message_codec_def)

section \<open>The message of the repository's tests\<close>

text \<open>\<open>TestMessage\<close> in \<open>src/connection.rs\<close>: a \<open>u64\<close> written with \<open>write_u64::<LittleEndian>\<close>.
  Its error type is \<open>io::Error\<close>; the only errors are a full writer and the end of the stream.\<close>

datatype io_error = WriteZero | UnexpectedEof

definition test_message :: "(u64, io_error) network_message" where
  "test_message =
     \<lparr>msg_serialize = (\<lambda>v room. case room of
          None \<Rightarrow> Inr (le_u64 v)
        | Some r \<Rightarrow> if 8 \<le> r then Inr (le_u64 v) else Inl WriteZero),
      msg_deserialize = (\<lambda>bs. if 8 \<le> length bs then Inr (of_le (take 8 bs), drop 8 bs)
                              else Inl UnexpectedEof)\<rparr>"

interpretation test_codec: message_codec test_message
  by unfold_locales (auto simp: test_message_def)

lemma test_message_lawful: "msg_lawful test_message"
  unfolding msg_lawful_def using test_codec.decode_encode test_codec.encode_room by blast

lemma test_message_measurable [simp]: "msg_measurable test_message m"
  by (simp add: msg_measurable_def test_message_def)

section \<open>The properties\<close>

text \<open>Serializing the data of a channel succeeds exactly when the data respects the
  configuration, every message can be written, and the packet has room for the bytes of the
  framing, which are as many as \<open>cpd_wire_size\<close> says.\<close>

theorem cpd_serialize_exact:
  assumes "msg_lawful nm" "cur_ok c"
  shows "(\<exists>c'. cpd_serialize feat nm nconfig pd c = Inr c') \<longleftrightarrow>
    cpd_valid nconfig pd \<and> (\<forall>(_, m) \<in> set (pd_messages pd). msg_measurable nm m) \<and>
    cpd_wire_size feat nm (nc_channels nconfig ! pd_channel_index pd) pd \<le> cur_room c"
  by (rule message_codec.serialize_exact[OF msg_lawful_codec[OF assms(1)] assms(2)])

text \<open>C20: what \<open>serialize\<close> wrote, \<open>deserialize\<close> reads back, whatever follows it in the packet:
  the channel index, the messages in order and, on an ordered channel, their ids. Data without
  messages comes back as \<open>empty()\<close>.\<close>

theorem cpd_roundtrip:
  assumes "msg_lawful nm" "cur_ok c" "cpd_serialize feat nm nconfig pd c = Inr c'"
  shows "\<exists>bs. cur_written c' = cur_written c @ bs \<and>
    length bs = cpd_wire_size feat nm (nc_channels nconfig ! pd_channel_index pd) pd \<and>
    cpd_deserialize feat nm nconfig (bs @ rest) = Inr (cpd_seen nconfig pd, rest)"
proof -
  note codec = msg_lawful_codec[OF assms(1)]
  obtain bs where bs: "writes c c' bs"
    "cpd_deserialize feat nm nconfig (bs @ rest) = Inr (cpd_seen nconfig pd, rest)"
    by (rule message_codec.serialize_deserialize[OF codec assms(2,3)]) blast
  note W = writesD[OF bs(1) assms(2)] and S = message_codec.serialize_size[OF codec assms(2,3)]
  have "length bs = cpd_wire_size feat nm (nc_channels nconfig ! pd_channel_index pd) pd"
    using W(3,6) S by linarith
  with bs(2) W(2) show ?thesis by blast
qed

definition demo_packet_config :: connection_config where
  "demo_packet_config = connection_config_new 1"

definition demo_packet_data :: "u64 channel_packet_data" where
  "demo_packet_data = \<lparr>pd_channel_index = 0, pd_messages = [(65535, 1), (0, 2)]\<rparr>"

definition demo_features :: features where
  "demo_features = \<lparr>feat_serialize_check = True, feat_soak_debugging_asserts = False\<rparr>"

lemma demo_serialized:
  "cpd_serialize demo_features test_message demo_packet_config demo_packet_data (cur_new (replicate 40 0)) =
   Inr \<lparr>cur_buf = [0, 0, 1, 1, 255, 255, 0, 0, 0x78, 0x56, 0x34, 0x12, 1, 0, 0, 0, 0, 0, 0, 0, 0x78, 0x56, 0x34, 0x12,
                   2, 0, 0, 0, 0, 0, 0, 0, 0x78, 0x56, 0x34, 0x12, 0, 0, 0, 0], cur_pos = 36\<rparr>"
  by code_simp

theorem cpd_serialize_exact_witness:
  "\<not> (\<exists>c'. cpd_serialize demo_features test_message demo_packet_config demo_packet_data (cur_new (replicate 35 0)) = Inr c')"
proof -
  have "cpd_wire_size demo_features test_message (nc_channels demo_packet_config ! pd_channel_index demo_packet_data)
      demo_packet_data = 36" by code_simp
  then show ?thesis
    using cpd_serialize_exact[OF test_message_lawful, of "cur_new (replicate 35 0)" demo_features demo_packet_config
      demo_packet_data] by simp
qed

theorem cpd_roundtrip_witness:
  "\<exists>bs. length bs = 36 \<and> cpd_deserialize demo_features test_message demo_packet_config (bs @ [9]) =
     Inr (demo_packet_data, [9])"
proof -
  have "cpd_wire_size demo_features test_message (nc_channels demo_packet_config ! pd_channel_index demo_packet_data)
      demo_packet_data = 36" "cpd_seen demo_packet_config demo_packet_data = demo_packet_data" by code_simp+
  then show ?thesis
    using cpd_roundtrip[OF test_message_lawful _ demo_serialized, of "[9]"] by auto
qed

end
