(* ===== verification/Reliable.thy ===== *)
theory Reliable
  imports Packet_Data Sequence_Buffer
begin

text \<open>
  \<open>src/channel/reliable.rs\<close>: the reliable ordered channel. This theory is the code; what it
  promises is in \<open>Reliable_Sender\<close> and \<open>Reliable_Receiver\<close>, and end to end in
  \<open>Delivery\<close>.
\<close>

record 'm message_send_queue_entry =
  se_message_id :: u16
  se_message :: 'm
  se_time_last_sent :: f64
  se_measured_bits :: usize

record 'm message_receive_queue_entry =
  re_message_id :: u16
  re_message :: 'm

record sent_packet_entry =
  sp_acked :: bool
  sp_time_sent :: f64
  sp_message_ids :: "usize \<times> usize"

record 'm reliable =
  rl_time :: f64
  rl_config :: channel_config
  rl_send_message_id :: u16
  rl_receive_message_id :: u16
  rl_oldest_unacked_message_id :: u16
  rl_sent_packet_message_ids :: "u16 list"
  rl_sent_packets :: "sent_packet_entry sequence_buffer"
  rl_message_send_queue :: "'m message_send_queue_entry sequence_buffer"
  rl_message_receive_queue :: "'m message_receive_queue_entry sequence_buffer"

definition reliable_new :: "channel_config \<Rightarrow> f64 \<Rightarrow> panic + 'm reliable" where
  "reliable_new config time =
     (if cc_kind config \<noteq> ReliableOrdered then Inl AssertionFailed else
      rbind (sb_new (cc_sent_packet_buffer_size config)) (\<lambda>sent_packets.
      rbind (sb_new (cc_message_send_queue_size config)) (\<lambda>message_send_queue.
      rbind (sb_new (cc_message_receive_queue_size config)) (\<lambda>message_receive_queue.
      Inr \<lparr>rl_time = time, rl_config = config, rl_send_message_id = 0, rl_receive_message_id = 0,
           rl_oldest_unacked_message_id = 0,
           rl_sent_packet_message_ids =
             replicate (cc_max_messages_per_packet config * cc_sent_packet_buffer_size config) 0,
           rl_sent_packets = sent_packets, rl_message_send_queue = message_send_queue,
           rl_message_receive_queue = message_receive_queue\<rparr>))))"

definition reliable_advance_time :: "'m reliable \<Rightarrow> f64 \<Rightarrow> 'm reliable" where
  "reliable_advance_time rl new_time = rl\<lparr>rl_time := new_time\<rparr>"

definition reliable_reset :: "'m reliable \<Rightarrow> 'm reliable" where
  "reliable_reset rl =
     rl\<lparr>rl_send_message_id := 0, rl_receive_message_id := 0, rl_oldest_unacked_message_id := 0,
        rl_sent_packets := sb_reset (rl_sent_packets rl),
        rl_message_send_queue := sb_reset (rl_message_send_queue rl),
        rl_message_receive_queue := sb_reset (rl_message_receive_queue rl)\<rparr>"

definition reliable_has_messages_to_send :: "'m reliable \<Rightarrow> bool" where
  "reliable_has_messages_to_send rl \<longleftrightarrow> rl_oldest_unacked_message_id rl \<noteq> rl_send_message_id rl"

definition reliable_can_send_message :: "'m reliable \<Rightarrow> panic + bool" where
  "reliable_can_send_message rl = sb_available (rl_message_send_queue rl) (rl_send_message_id rl)"

definition reliable_send_message ::
  "('m, 'e) network_message \<Rightarrow> 'm reliable \<Rightarrow> 'm \<Rightarrow> panic + 'm reliable" where
  "reliable_send_message nm rl message =
     rbind (reliable_can_send_message rl) (\<lambda>can_send.
     if \<not> can_send then Inl AssertionFailed else
     rbind (sb_insert_with (rl_message_send_queue rl) (rl_send_message_id rl)
              (\<lambda>_. rbind (measure_sink_bytes nm message) (\<lambda>bytes.
                   let measured_bits = 8 * bytes in
                   Inr (\<lparr>se_message_id = rl_send_message_id rl, se_message = message,
                         se_time_last_sent = f64_of_int (- 1), se_measured_bits = measured_bits\<rparr>, ())))
              ()) (\<lambda>(result, queue, _).
     if \<not> result then Inl AssertionFailed
     else Inr (rl\<lparr>rl_message_send_queue := queue,
                  rl_send_message_id := rl_send_message_id rl + 1\<rparr>)))"

definition reliable_receive_message :: "'m reliable \<Rightarrow> panic + ((u16 \<times> 'm) option \<times> 'm reliable)" where
  "reliable_receive_message rl =
     rbind (sb_take (rl_message_receive_queue rl) (rl_receive_message_id rl)) (\<lambda>(taken, queue).
     case taken of
       None \<Rightarrow> Inr (None, rl\<lparr>rl_message_receive_queue := queue\<rparr>)
     | Some entry \<Rightarrow>
         if re_message_id entry \<noteq> rl_receive_message_id rl then Inl AssertionFailed
         else Inr (Some (re_message_id entry, re_message entry),
                   rl\<lparr>rl_message_receive_queue := queue,
                      rl_receive_message_id := rl_receive_message_id rl + 1\<rparr>))"

section \<open>Sending\<close>

text \<open>The loop of \<open>get_messages_to_send\<close> over \<open>i\<close>, with the send queue, the ids chosen so far,
  the bits used and the give-up counter as its state.\<close>

fun reliable_select ::
  "channel_config \<Rightarrow> f64 \<Rightarrow> u16 \<Rightarrow> usize \<Rightarrow> nat list \<Rightarrow> 'm message_send_queue_entry sequence_buffer
     \<Rightarrow> u16 list \<Rightarrow> usize \<Rightarrow> usize
     \<Rightarrow> panic + ('m message_send_queue_entry sequence_buffer \<times> u16 list \<times> usize)" where
  "reliable_select config time oldest available_bits [] queue message_ids used_bits give_up_counter =
     Inr (queue, message_ids, used_bits)"
| "reliable_select config time oldest available_bits (i # is) queue message_ids used_bits give_up_counter =
     rbind (checked_sub available_bits used_bits) (\<lambda>left.
     if left < 4 * 8 then Inr (queue, message_ids, used_bits) else
     if sb_capacity queue < give_up_counter then Inr (queue, message_ids, used_bits) else
     let message_id = oldest + of_nat i in
     rbind (sb_get_mut queue message_id) (\<lambda>found. case found of
       None \<Rightarrow> reliable_select config time oldest available_bits is queue message_ids used_bits give_up_counter
     | Some (entry, write) \<Rightarrow>
         if se_time_last_sent entry + cc_message_resend_time config \<le> time \<and>
            se_measured_bits entry \<le> available_bits
         then
           let message_bits = se_measured_bits entry + 2 * 8 in
           if available_bits < used_bits + message_bits
           then reliable_select config time oldest available_bits is queue message_ids used_bits
                  (give_up_counter + 1)
           else
             let queue' = write (entry\<lparr>se_time_last_sent := time\<rparr>);
                 message_ids' = message_ids @ [message_id];
                 used_bits' = used_bits + message_bits in
             if cc_max_messages_per_packet config \<le> length message_ids'
             then Inr (queue', message_ids', used_bits')
             else reliable_select config time oldest available_bits is queue' message_ids' used_bits'
                    give_up_counter
         else if cc_max_messages_per_packet config \<le> length message_ids
         then Inr (queue, message_ids, used_bits)
         else reliable_select config time oldest available_bits is queue message_ids used_bits
                give_up_counter))"

definition reliable_get_messages_to_send ::
  "'m reliable \<Rightarrow> usize \<Rightarrow> panic + (u16 list \<times> usize \<times> 'm reliable)" where
  "reliable_get_messages_to_send rl available_bits0 =
     (if \<not> reliable_has_messages_to_send rl then Inl AssertionFailed else
      let available_bits = (case cc_packet_budget (rl_config rl) of
            None \<Rightarrow> available_bits0
          | Some bytes \<Rightarrow> min (bytes * 8) available_bits0);
          message_limit = min (sb_capacity (rl_message_receive_queue rl))
                              (sb_capacity (rl_message_send_queue rl)) in
      rbind (reliable_select (rl_config rl) (rl_time rl) (rl_oldest_unacked_message_id rl) available_bits
               [0..<message_limit] (rl_message_send_queue rl) [] CONSERVATIVE_MESSAGE_HEADER_BITS 0)
        (\<lambda>(queue, message_ids, used_bits).
      Inr (message_ids, used_bits, rl\<lparr>rl_message_send_queue := queue\<rparr>)))"

fun reliable_collect ::
  "'m message_send_queue_entry sequence_buffer \<Rightarrow> u16 list \<Rightarrow> panic + (u16 \<times> 'm) list" where
  "reliable_collect queue [] = Inr []"
| "reliable_collect queue (mid # ids) =
     rbind (sb_get queue mid) (\<lambda>found. case found of
       None \<Rightarrow> Inl UnwrapOnNone
     | Some entry \<Rightarrow> rbind (reliable_collect queue ids) (\<lambda>messages.
                     Inr ((mid, se_message entry) # messages)))"

definition reliable_get_message_packet_data ::
  "'m reliable \<Rightarrow> usize \<Rightarrow> u16 list \<Rightarrow> panic + 'm channel_packet_data" where
  "reliable_get_message_packet_data rl channel_index message_ids =
     rbind (reliable_collect (rl_message_send_queue rl) message_ids) (\<lambda>messages.
     Inr \<lparr>pd_channel_index = channel_index, pd_messages = messages\<rparr>)"

text \<open>Writing the ids of a packet into its run of \<open>sent_packet_message_ids\<close>.\<close>

definition reliable_store_ids :: "usize \<Rightarrow> u16 list \<Rightarrow> u16 list \<Rightarrow> panic + u16 list" where
  "reliable_store_ids message_ids_index message_ids buffer =
     rfold (\<lambda>buffer (i, mid). vec_update buffer (message_ids_index + i) mid) buffer
       (enumerate 0 message_ids)"

definition reliable_add_message_packet_entry ::
  "'m reliable \<Rightarrow> u16 list \<Rightarrow> u16 \<Rightarrow> panic + 'm reliable" where
  "reliable_add_message_packet_entry rl message_ids packet_sequence =
     (if cc_sent_packet_buffer_size (rl_config rl) = 0 then Inl DivisionByZero else
      let message_ids_index = (unat packet_sequence mod cc_sent_packet_buffer_size (rl_config rl))
            * cc_max_messages_per_packet (rl_config rl);
          message_ids_run = length message_ids in
      rbind (sb_insert_with (rl_sent_packets rl) packet_sequence
               (\<lambda>buffer. rbind (reliable_store_ids message_ids_index message_ids buffer) (\<lambda>buffer.
                  Inr (\<lparr>sp_acked = False, sp_time_sent = rl_time rl,
                        sp_message_ids = (message_ids_index, message_ids_run)\<rparr>, buffer)))
               (rl_sent_packet_message_ids rl)) (\<lambda>(_, sent_packets, buffer).
      Inr (rl\<lparr>rl_sent_packets := sent_packets, rl_sent_packet_message_ids := buffer\<rparr>)))"

definition reliable_packet_data ::
  "'m reliable \<Rightarrow> usize \<Rightarrow> u16 \<Rightarrow> usize \<Rightarrow> panic + ('m channel_packet_data \<times> usize \<times> 'm reliable)" where
  "reliable_packet_data rl channel_index packet_sequence available_bits =
     (if \<not> reliable_has_messages_to_send rl then Inr (cpd_empty, 0, rl) else
      rbind (reliable_get_messages_to_send rl available_bits) (\<lambda>(message_ids, message_bits, rl).
      if message_ids \<noteq> [] then
        rbind (reliable_get_message_packet_data rl channel_index message_ids) (\<lambda>packet_data.
        rbind (reliable_add_message_packet_entry rl message_ids packet_sequence) (\<lambda>rl.
        Inr (packet_data, message_bits, rl)))
      else Inr (cpd_empty, 0, rl)))"

section \<open>Receiving\<close>

definition reliable_process_packet_data ::
  "'m reliable \<Rightarrow> 'm channel_packet_data \<Rightarrow> u16 \<Rightarrow> panic + 'm reliable" where
  "reliable_process_packet_data rl packet_data packet_sequence =
     rbind (checked_sub (sb_capacity (rl_message_receive_queue rl)) 1) (\<lambda>cap1.
     let min_message_id = rl_receive_message_id rl;
         max_message_id = rl_receive_message_id rl + of_nat cap1 in
     rbind (rfold (\<lambda>queue (mid, message).
         if sequence_less_than mid min_message_id then Inr queue
         else if sequence_greater_than mid max_message_id then Inl DesyncTooNew
         else rbind (sb_insert_with queue mid
                (\<lambda>_. Inr (\<lparr>re_message_id = mid, re_message = message\<rparr>, ())) ()) (\<lambda>(result, queue, _).
              if \<not> result then Inl DesyncTooOld else Inr queue))
       (rl_message_receive_queue rl) (pd_messages packet_data)) (\<lambda>queue.
     Inr (rl\<lparr>rl_message_receive_queue := queue\<rparr>)))"

section \<open>Acknowledgements\<close>

function reliable_skip_acked ::
  "'m message_send_queue_entry sequence_buffer \<Rightarrow> u16 \<Rightarrow> u16 \<Rightarrow> panic + u16" where
  "reliable_skip_acked queue stop_message_id oldest =
     (if oldest = stop_message_id then Inr oldest else
      rbind (sb_exists queue oldest) (\<lambda>ex.
      if ex then Inr oldest else reliable_skip_acked queue stop_message_id (oldest + 1)))"
  by pat_completeness auto
termination
proof (relation "measure (\<lambda>(_, stop, oldest). unat (stop - oldest))")
  fix queue :: "'m message_send_queue_entry sequence_buffer" and stop oldest :: u16
  assume "oldest \<noteq> stop"
  then have "unat (stop - oldest) \<noteq> 0" by (simp add: unat_eq_0)
  moreover have "stop - (oldest + 1) = (stop - oldest) - 1" by simp
  ultimately have "unat (stop - (oldest + 1)) < unat (stop - oldest)"
    by (simp only: unat_u16_diff[of "stop - oldest" 1]) simp
  then show "((queue, stop, oldest + 1), queue, stop, oldest)
      \<in> measure (\<lambda>(_, stop, oldest). unat (stop - oldest))" by simp
qed simp

declare reliable_skip_acked.simps [simp del]

definition update_oldest_unacked_message_id ::
  "u16 \<Rightarrow> 'm message_send_queue_entry sequence_buffer \<Rightarrow> panic + u16" where
  "update_oldest_unacked_message_id oldest queue =
     (let stop_message_id = sb_sequence_pointer queue in
      rbind (reliable_skip_acked queue stop_message_id oldest) (\<lambda>oldest.
      if sequence_greater_than oldest stop_message_id then Inl AssertionFailed else Inr oldest))"

fun reliable_ack_messages ::
  "u16 list \<Rightarrow> 'm message_send_queue_entry sequence_buffer \<Rightarrow> u16
     \<Rightarrow> panic + ('m message_send_queue_entry sequence_buffer \<times> u16)" where
  "reliable_ack_messages [] queue oldest = Inr (queue, oldest)"
| "reliable_ack_messages (mid # ids) queue oldest =
     rbind (sb_take queue mid) (\<lambda>(taken, queue).
     case taken of
       None \<Rightarrow> reliable_ack_messages ids queue oldest
     | Some entry \<Rightarrow>
         if se_message_id entry \<noteq> mid then Inl AssertionFailed else
         rbind (update_oldest_unacked_message_id oldest queue) (\<lambda>oldest.
         reliable_ack_messages ids queue oldest))"

definition reliable_process_ack :: "'m reliable \<Rightarrow> u16 \<Rightarrow> panic + 'm reliable" where
  "reliable_process_ack rl ack =
     rbind (sb_get_mut (rl_sent_packets rl) ack) (\<lambda>found. case found of
       None \<Rightarrow> Inr rl
     | Some (entry, write) \<Rightarrow>
         if sp_acked entry then Inl AssertionFailed else
         let sent_packets = write (entry\<lparr>sp_acked := True\<rparr>);
             (first_message, message_count) = sp_message_ids entry;
             last_message = first_message + message_count in
         if length (rl_sent_packet_message_ids rl) < last_message then Inl IndexOutOfBounds else
         rbind (reliable_ack_messages
                  (take message_count (drop first_message (rl_sent_packet_message_ids rl)))
                  (rl_message_send_queue rl) (rl_oldest_unacked_message_id rl)) (\<lambda>(queue, oldest).
         Inr (rl\<lparr>rl_sent_packets := sent_packets, rl_message_send_queue := queue,
                 rl_oldest_unacked_message_id := oldest\<rparr>)))"

section \<open>A small channel for concrete runs\<close>

text \<open>A configuration with queues of four entries, and the state \<open>new\<close> makes of it; the
  defaults (1024 entries) behave the same but are slower to evaluate.\<close>

definition demo_reliable_config :: channel_config where
  "demo_reliable_config = (channel_config_new ReliableOrdered)\<lparr>cc_sent_packet_buffer_size := 4,
     cc_message_send_queue_size := 4, cc_message_receive_queue_size := 4,
     cc_max_messages_per_packet := 2\<rparr>"

definition demo_reliable :: "u64 reliable" where
  "demo_reliable = \<lparr>rl_time = f64_of_int 0, rl_config = demo_reliable_config, rl_send_message_id = 0,
     rl_receive_message_id = 0, rl_oldest_unacked_message_id = 0,
     rl_sent_packet_message_ids = replicate 8 0,
     rl_sent_packets = \<lparr>sb_sequence = 0, sb_entry_sequence = replicate 4 None, sb_entries = replicate 4 None\<rparr>,
     rl_message_send_queue = \<lparr>sb_sequence = 0, sb_entry_sequence = replicate 4 None, sb_entries = replicate 4 None\<rparr>,
     rl_message_receive_queue = \<lparr>sb_sequence = 0, sb_entry_sequence = replicate 4 None, sb_entries = replicate 4 None\<rparr>\<rparr>"

lemma demo_reliable_new: "reliable_new demo_reliable_config (f64_of_int 0) = Inr demo_reliable"
  by (simp add: reliable_new_def demo_reliable_def demo_reliable_config_def channel_config_new_def
      sb_new_def)

lemma demo_reliable_config_sizes [simp]:
  "cc_sent_packet_buffer_size demo_reliable_config = 4"
  "cc_message_send_queue_size demo_reliable_config = 4"
  "cc_message_receive_queue_size demo_reliable_config = 4"
  "cc_max_messages_per_packet demo_reliable_config = 2"
  "cc_packet_budget demo_reliable_config = None"
  by (simp_all add: demo_reliable_config_def channel_config_new_def)

end
