(* ===== verification/Reliable_Sender.thy ===== *)
theory Reliable_Sender
  imports Reliable "HOL-Library.Sublist"
begin

text \<open>
  The sending half of the reliable channel (\<open>send_message\<close>, \<open>packet_data\<close> and \<open>process_ack\<close> of
  \<open>src/channel/reliable.rs\<close>) against its contract: the messages between the oldest
  unacknowledged id and the next id, and which of them each packet carried.
\<close>

section \<open>The state behind the contract\<close>

definition send_queue_ok :: "u16 \<Rightarrow> u16 \<Rightarrow> 'm message_send_queue_entry sequence_buffer \<Rightarrow> bool" where
  "send_queue_ok old next q \<longleftrightarrow>
     sb_window q \<and> sb_capacity q \<le> 16384 \<and> sb_sequence q = next \<and>
     unat (next - old) \<le> sb_capacity q \<and>
     (\<forall>s e. sb_lookup q s = Some e \<longrightarrow> se_message_id e = s \<and> unat (s - old) < unat (next - old)) \<and>
     (old \<noteq> next \<longrightarrow> sb_lookup q old \<noteq> None)"

lemma send_queue_okD:
  assumes "send_queue_ok old next q"
  shows "sb_window q" "sb_wf q" "2 \<le> sb_capacity q" "sb_capacity q \<le> 16384" "sb_sequence q = next"
    "unat (next - old) \<le> sb_capacity q" "old \<noteq> next \<Longrightarrow> sb_lookup q old \<noteq> None"
    "sb_lookup q s = Some e \<Longrightarrow> se_message_id e = s"
    "sb_lookup q s = Some e \<Longrightarrow> unat (s - old) < unat (next - old)"
  using assms sb_windowD(1,3) by (auto simp: send_queue_ok_def)

text \<open>The part that survives while an acknowledgement is being processed: the oldest id may be
  stale.\<close>

definition send_queue_pre :: "u16 \<Rightarrow> u16 \<Rightarrow> 'm message_send_queue_entry sequence_buffer \<Rightarrow> bool" where
  "send_queue_pre old next q \<longleftrightarrow>
     sb_window q \<and> sb_capacity q \<le> 16384 \<and> sb_sequence q = next \<and>
     unat (next - old) \<le> sb_capacity q \<and>
     (\<forall>s e. sb_lookup q s = Some e \<longrightarrow> se_message_id e = s \<and> unat (s - old) < unat (next - old))"

lemma send_queue_ok_pre:
  "send_queue_ok old next q \<longleftrightarrow> send_queue_pre old next q \<and> (old \<noteq> next \<longrightarrow> sb_lookup q old \<noteq> None)"
  by (auto simp: send_queue_ok_def send_queue_pre_def)

section \<open>Acknowledgements\<close>

text \<open>Skipping stops at the first live id, or at the end, and forgets no live one.\<close>

lemma skip_acked_result:
  assumes "send_queue_pre old next q"
  shows "\<exists>old'. reliable_skip_acked q next old = Inr old' \<and> send_queue_ok old' next q \<and>
    unat (next - old') \<le> unat (next - old)"
  using assms
proof (induction "unat (next - old)" arbitrary: old rule: less_induct)
  case less
  have wf: "sb_wf q" using less.prems sb_windowD(1) by (auto simp: send_queue_pre_def)
  show ?case
  proof (cases "old = next \<or> sb_lookup q old \<noteq> None")
    case True
    have "reliable_skip_acked q next old = Inr old"
      using True wf by (subst reliable_skip_acked.simps) (auto simp: sb_reads)
    with True less.prems show ?thesis by (auto simp: send_queue_ok_pre)
  next
    case False
    then have "old \<noteq> next" and none: "sb_lookup q old = None" by auto
    then have ne: "next \<noteq> old" by simp
    then have pos: "0 < unat (next - old)" by (simp add: unat_gt_0)
    note d = u16_dist_pred[OF ne]
    have live: "unat (s - (old + 1)) < unat (next - (old + 1))" if "sb_lookup q s = Some e" for s e
    proof -
      have "s \<noteq> old" using that none by auto
      then have "unat (s - (old + 1)) = unat (s - old) - 1" "0 < unat (s - old)"
        by (simp_all add: u16_dist_pred unat_gt_0)
      moreover have "unat (s - old) < unat (next - old)"
        using less.prems that by (auto simp: send_queue_pre_def)
      ultimately show ?thesis by (simp add: d)
    qed
    have "send_queue_pre (old + 1) next q"
      using less.prems live d by (auto simp: send_queue_pre_def)
    moreover have "unat (next - (old + 1)) < unat (next - old)" using d pos by simp
    ultimately obtain old' where "reliable_skip_acked q next (old + 1) = Inr old'"
      "send_queue_ok old' next q" "unat (next - old') \<le> unat (next - (old + 1))"
      using less.hyps by blast
    moreover have "reliable_skip_acked q next old = reliable_skip_acked q next (old + 1)"
      using False wf by (subst reliable_skip_acked.simps) (auto simp: sb_reads)
    ultimately show ?thesis using d by auto
  qed
qed

lemma update_oldest_result:
  assumes "send_queue_pre old next q"
  shows "\<exists>old'. update_oldest_unacked_message_id old q = Inr old' \<and> send_queue_ok old' next q \<and>
    unat (next - old') \<le> unat (next - old)"
proof -
  obtain old' where old': "reliable_skip_acked q next old = Inr old'" "send_queue_ok old' next q"
    "unat (next - old') \<le> unat (next - old)"
    using skip_acked_result[OF assms] by blast
  have "\<not> sequence_greater_than old' next"
  proof (cases "old' = next")
    case False
    then have "unat (old' - next) = 65536 - unat (next - old')" by (intro unat_neg_diff) auto
    then show ?thesis
      using send_queue_okD(4,6)[OF old'(2)] by (auto simp: sequence_greater_than_dist)
  qed simp
  moreover have "sb_sequence_pointer q = next"
    using assms by (simp add: send_queue_pre_def sb_sequence_pointer_def)
  ultimately show ?thesis using old' by (simp add: update_oldest_unacked_message_id_def Let_def)
qed

lemma ack_messages_result:
  assumes "send_queue_ok old next q"
  shows "\<exists>q' old'. reliable_ack_messages ids q old = Inr (q', old') \<and> send_queue_ok old' next q' \<and>
    sb_capacity q' = sb_capacity q \<and> sb_lookup q' = sb_lookup q |` (- set ids) \<and>
    unat (next - old') \<le> unat (next - old)"
  using assms
proof (induction ids arbitrary: q old)
  case Nil
  then show ?case by (simp add: restrict_map_def)
next
  case (Cons mid ids)
  note D = send_queue_okD[OF Cons.prems]
  obtain q1 where q1: "sb_take q mid = Inr (sb_lookup q mid, q1)" "sb_wf q1"
    "sb_lookup q1 = (sb_lookup q)(mid := None)" "sb_capacity q1 = sb_capacity q"
    "sb_sequence q1 = sb_sequence q"
    by (rule sb_take_wf[OF D(2), of mid])
  have restrict: "sb_lookup q1 |` (- set ids) = sb_lookup q |` (- set (mid # ids))"
    by (auto simp: q1(3) restrict_map_def fun_eq_iff)
  show ?case
  proof (cases "sb_lookup q mid")
    case None
    then have same: "sb_lookup q1 = sb_lookup q" by (simp add: q1(3) fun_eq_iff)
    have "send_queue_ok old next q1"
      using Cons.prems same q1 by (auto simp: send_queue_ok_def sb_window_def)
    from Cons.IH[OF this] show ?thesis using None q1(1,4) restrict by simp
  next
    case (Some e)
    have "sb_window q1" using D(1) q1 by (auto simp: sb_window_def)
    then have "send_queue_pre old next q1"
      using Cons.prems q1 by (auto simp: send_queue_ok_def send_queue_pre_def split: if_splits)
    then obtain old1 where old1: "update_oldest_unacked_message_id old q1 = Inr old1"
      "send_queue_ok old1 next q1" "unat (next - old1) \<le> unat (next - old)"
      using update_oldest_result by blast
    obtain q2 old2 where q2: "reliable_ack_messages ids q1 old1 = Inr (q2, old2)"
      "send_queue_ok old2 next q2" "sb_capacity q2 = sb_capacity q1"
      "sb_lookup q2 = sb_lookup q1 |` (- set ids)" "unat (next - old2) \<le> unat (next - old1)"
      using Cons.IH[OF old1(2)] by blast
    have "reliable_ack_messages (mid # ids) q old = Inr (q2, old2)"
      using Some D(8) q1(1) old1(1) q2(1) by simp
    then show ?thesis using q2 q1(4) old1(3) restrict by auto
  qed
qed

section \<open>Accepting a message\<close>

text \<open>The slot of the next id is free exactly when the window is not full.\<close>

lemma send_slot_free:
  assumes "send_queue_ok old next q"
  shows "sb_slot_free q next \<longleftrightarrow> unat (next - old) < sb_capacity q"
proof -
  note D = send_queue_okD[OF assms]
  let ?c = "sb_capacity q"
  have dvd: "?c dvd 65536" using sb_windowD(2)[OF D(1)] .
  have c: "unat (of_nat ?c :: u16) = ?c" using D(4) by (simp add: unat_u16_of_nat)
  show ?thesis
  proof
    assume free: "sb_slot_free q next"
    show "unat (next - old) < ?c"
    proof (rule ccontr)
      assume "\<not> unat (next - old) < ?c"
      then have full: "unat (next - old) = ?c" using D(6) by simp
      then have "old \<noteq> next" using D(3) by auto
      then have "sb_lookup q old \<noteq> None" by (rule D(7))
      moreover have "sb_index q next = sb_index q old"
        using full by (simp add: sb_index_eq_iff[OF dvd])
      ultimately show False using free by (simp add: sb_slot_free_def)
    qed
  next
    assume room: "unat (next - old) < ?c"
    show "sb_slot_free q next"
      unfolding sb_slot_free_def
    proof (intro allI impI)
      fix s assume same: "sb_index q s = sb_index q next"
      show "sb_lookup q s = None"
      proof (rule ccontr)
        assume "sb_lookup q s \<noteq> None"
        then obtain e where e: "sb_lookup q s = Some e" by blast
        have less: "unat (s - old) < unat (next - old)" by (rule D(9)[OF e])
        then have "unat (next - s) = unat (next - old) - unat (s - old)"
          using u16_dist_split[of s old "next"] by simp
        then have "0 < unat (next - s)" "unat (next - s) < ?c" using less room by auto
        moreover have "?c dvd unat (next - s)"
          using same sb_index_eq_iff[OF dvd, of "next" s] by simp
        ultimately show False by (auto dest: dvd_imp_le)
      qed
    qed
  qed
qed

lemma send_queue_insert:
  assumes ok: "send_queue_ok old next q" and room: "unat (next - old) < sb_capacity q"
    and e: "se_message_id e = next"
  shows "sb_insert_with q next (\<lambda>_. Inr (e, ())) () = Inr (True, sb_inserted q next e, ())"
    "send_queue_ok old (next + 1) (sb_inserted q next e)"
    "sb_capacity (sb_inserted q next e) = sb_capacity q"
    "sb_lookup (sb_inserted q next e) = (sb_lookup q)(next \<mapsto> e)"
proof -
  note D = send_queue_okD[OF ok]
  have newer: "sequence_greater_than (next + 1) (sb_sequence q)" by (simp add: D(5))
  then show "sb_insert_with q next (\<lambda>_. Inr (e, ())) () = Inr (True, sb_inserted q next e, ())"
    by (simp add: sb_insert_with_window[OF D(1)])
  note I = sb_inserted_window[OF D(1) disjI1[OF newer], of e]
  show cap: "sb_capacity (sb_inserted q next e) = sb_capacity q" by (rule I(2))
  have near: "unat (next - s) < sb_capacity q" if "sb_lookup q s = Some v" for s v
    using D(9)[OF that] room u16_dist_split[of s old "next"] by simp
  show lk: "sb_lookup (sb_inserted q next e) = (sb_lookup q)(next \<mapsto> e)"
  proof
    fix s
    show "sb_lookup (sb_inserted q next e) s = ((sb_lookup q)(next \<mapsto> e)) s"
      using near[of s] unfolding I(4) by (cases "sb_lookup q s") simp_all
  qed
  have d: "unat (next + 1 - old) = unat (next - old) + 1"
    using room D(4) by (intro u16_dist_next) simp
  have "old = next \<or> sb_lookup q old \<noteq> None" using D(7) by blast
  moreover have "sb_sequence (sb_inserted q next e) = next + 1" using I(3) newer by simp
  ultimately show "send_queue_ok old (next + 1) (sb_inserted q next e)"
    using I(1) cap d room D(4,8,9) e unfolding send_queue_ok_def lk
    by (fastforce split: if_splits)
qed

section \<open>Choosing the messages of a packet\<close>

definition entry_due :: "channel_config \<Rightarrow> f64 \<Rightarrow> 'm message_send_queue_entry \<Rightarrow> bool" where
  "entry_due config time e \<longleftrightarrow> se_time_last_sent e + cc_message_resend_time config \<le> time"

text \<open>The send queue after the messages \<open>ids\<close> were stamped with the time they were sent.\<close>

definition stamped ::
  "f64 \<Rightarrow> u16 list \<Rightarrow> (u16 \<Rightarrow> 'm message_send_queue_entry option) \<Rightarrow> u16 \<Rightarrow> 'm message_send_queue_entry option" where
  "stamped time ids f = (\<lambda>s. if s \<in> set ids then map_option (\<lambda>e. e\<lparr>se_time_last_sent := time\<rparr>) (f s) else f s)"

definition chosen_bits :: "(u16 \<Rightarrow> 'm message_send_queue_entry option) \<Rightarrow> u16 list \<Rightarrow> nat" where
  "chosen_bits f ids = sum_list (map (\<lambda>s. se_measured_bits (the (f s)) + 16) ids)"

text \<open>What the loop guarantees of the ids \<open>new\<close> it adds, in terms of the queue it started with.\<close>

definition select_post where
  "select_post config time old available js q new q' used used' \<longleftrightarrow>
     used' = used + chosen_bits (sb_lookup q) new \<and> used' \<le> available \<and>
     subseq new (map (\<lambda>i. old + of_nat i) js) \<and>
     (\<forall>s \<in> set new. \<exists>e. sb_lookup q s = Some e \<and> entry_due config time e) \<and>
     sb_wf q' \<and> sb_capacity q' = sb_capacity q \<and> sb_sequence q' = sb_sequence q \<and>
     sb_lookup q' = stamped time new (sb_lookup q)"

lemma subseq_set: "subseq xs ys \<Longrightarrow> set xs \<subseteq> set ys"
  by (metis subseq_conv_nths set_nths_subset)

lemma select_post_idle:
  "sb_wf q \<Longrightarrow> used \<le> available \<Longrightarrow> select_post config time old available js q [] q used used"
  by (simp add: select_post_def chosen_bits_def stamped_def)

lemma select_post_skip:
  "select_post config time old available js q new q' used used' \<Longrightarrow>
   select_post config time old available (i # js) q new q' used used'"
  by (auto simp: select_post_def)

lemma select_post_take:
  assumes "sb_lookup q s = Some e" "entry_due config time e" "s = old + of_nat i"
    and upd: "sb_lookup qs = (sb_lookup q)(s \<mapsto> e\<lparr>se_time_last_sent := time\<rparr>)"
      "sb_capacity qs = sb_capacity q" "sb_sequence qs = sb_sequence q"
    and fresh: "s \<notin> (\<lambda>i. old + of_nat i) ` set js"
    and post: "select_post config time old available js qs new q' (used + (se_measured_bits e + 16)) used'"
  shows "select_post config time old available (i # js) q (s # new) q' used used'"
proof -
  have sub: "subseq new (map (\<lambda>i. old + of_nat i) js)" using post by (simp add: select_post_def)
  then have "set new \<subseteq> (\<lambda>i. old + of_nat i) ` set js"
    using subseq_set[OF sub] by simp
  with fresh have s_new: "s \<notin> set new" by blast
  then have other: "sb_lookup qs t = sb_lookup q t" if "t \<in> set new" for t
    using that by (auto simp: upd)
  have bits: "chosen_bits (sb_lookup qs) new = chosen_bits (sb_lookup q) new"
    unfolding chosen_bits_def using other by (intro arg_cong[where f = sum_list] map_cong) auto
  have st: "stamped time new (sb_lookup qs) = stamped time (s # new) (sb_lookup q)"
    using s_new assms(1) by (auto simp: stamped_def upd(1) fun_eq_iff)
  have due: "\<exists>e. sb_lookup q t = Some e \<and> entry_due config time e" if "t \<in> set (s # new)" for t
  proof (cases "t = s")
    case False
    with that have t: "t \<in> set new" by simp
    then have "\<exists>e. sb_lookup qs t = Some e \<and> entry_due config time e"
      using post by (simp add: select_post_def)
    then show ?thesis by (simp only: other[OF t])
  qed (use assms(1,2) in blast)
  have sum: "chosen_bits (sb_lookup q) (s # new) = se_measured_bits e + 16 + chosen_bits (sb_lookup q) new"
    by (simp add: chosen_bits_def assms(1))
  have sub': "subseq (s # new) (map (\<lambda>i. old + of_nat i) (i # js))" using sub assms(3) by simp
  have "used' = used + (se_measured_bits e + 16) + chosen_bits (sb_lookup q) new" "used' \<le> available"
    "sb_wf q'" "sb_capacity q' = sb_capacity q" "sb_sequence q' = sb_sequence q"
    "sb_lookup q' = stamped time (s # new) (sb_lookup q)"
    using post unfolding select_post_def bits st upd(2,3) by blast+
  then show ?thesis
    unfolding select_post_def using sub' due sum by (intro conjI ballI) simp_all
qed

lemma select_result:
  assumes "sb_wf q" "used \<le> available" "inj_on (\<lambda>i. old + of_nat i :: u16) (set js)" "distinct js"
  shows "\<exists>q' new used'. reliable_select config time old available js q ids used g = Inr (q', ids @ new, used') \<and>
    select_post config time old available js q new q' used used' \<and>
    (length ids < cc_max_messages_per_packet config \<longrightarrow>
       length (ids @ new) \<le> cc_max_messages_per_packet config)"
  using assms
proof (induction js arbitrary: q ids used g)
  case Nil
  then show ?case by (simp add: select_post_idle)
next
  case (Cons i js)
  define s where "s = old + (of_nat i :: u16)"
  note idle = select_post_idle[OF Cons.prems(1,2), of config time old "i # js"]
  note skip = select_post_skip[of config time old available js]
  have rest: "inj_on (\<lambda>i. old + of_nat i :: u16) (set js)" "distinct js"
    using Cons.prems(3,4) by (auto simp: inj_on_def)
  note IH = Cons.IH[OF _ _ rest]
  consider (stop) "available - used < 32 \<or> sb_capacity q < g"
    | (missing) "\<not> available - used < 32" "\<not> sb_capacity q < g" "sb_lookup q s = None"
    | (here) e where "\<not> available - used < 32" "\<not> sb_capacity q < g" "sb_lookup q s = Some e"
    by (cases "sb_lookup q s") auto
  then show ?case
  proof cases
    case stop
    then show ?thesis using idle Cons.prems(2) by auto
  next
    case missing
    then show ?thesis
      using IH[OF Cons.prems(1,2), of ids g] skip sb_get_mut_wf(1)[OF Cons.prems(1), of s] Cons.prems(2)
      by (force simp: s_def)
  next
    case here
    obtain wr where wr: "sb_get_mut q s = Inr (Some (e, wr))"
      and wr': "\<And>v. sb_wf (wr v) \<and> sb_lookup (wr v) = (sb_lookup q)(s \<mapsto> v) \<and>
        sb_capacity (wr v) = sb_capacity q \<and> sb_sequence (wr v) = sb_sequence q"
      using sb_get_mut_wf(2)[OF Cons.prems(1) here(3)] by blast
    let ?due = "entry_due config time e \<and> se_measured_bits e \<le> available"
    let ?fits = "used + (se_measured_bits e + 2 * 8) \<le> available"
    note unfold = reliable_select.simps(2)[of config time old available i js q ids used g]
    show ?thesis
    proof (cases "?due \<and> ?fits")
      case False
      then obtain g' where "reliable_select config time old available (i # js) q ids used g =
          (if \<not> ?due \<and> cc_max_messages_per_packet config \<le> length ids then Inr (q, ids, used)
           else reliable_select config time old available js q ids used g')"
        using here(1,2) wr Cons.prems(2) unfolding unfold s_def entry_due_def
        by (cases "?due") (auto simp: Let_def entry_due_def)
      then show ?thesis
        using IH[OF Cons.prems(1,2), of ids g'] skip[of q _ _ used] idle
        by (cases "\<not> ?due \<and> cc_max_messages_per_packet config \<le> length ids") fastforce+
    next
      case True
      let ?q = "wr (e\<lparr>se_time_last_sent := time\<rparr>)"
      let ?used = "used + (se_measured_bits e + 16)"
      have fresh: "s \<notin> (\<lambda>i. old + of_nat i) ` set js"
        using Cons.prems(3,4) unfolding s_def inj_on_def by auto
      have fits: "?used \<le> available" using True by simp
      note take = select_post_take[where q = q and qs = ?q and i = i and js = js and s = s and e = e,
          OF here(3) _ s_def _ _ _ fresh]
      show ?thesis
      proof (cases "cc_max_messages_per_packet config \<le> length (ids @ [s])")
        case True
        have "select_post config time old available (i # js) q [s] ?q used ?used"
          using take[of config time available "[]" ?q used ?used] select_post_idle[of ?q ?used available] fits
            wr' \<open>?due \<and> ?fits\<close> by blast
        moreover have "reliable_select config time old available (i # js) q ids used g = Inr (?q, ids @ [s], ?used)"
          using True \<open>?due \<and> ?fits\<close> here wr Cons.prems(2)
          by (auto simp: s_def entry_due_def Let_def)
        ultimately show ?thesis by force
      next
        case False
        obtain q' new used' where r: "reliable_select config time old available js ?q (ids @ [s]) ?used g =
            Inr (q', (ids @ [s]) @ new, used')"
          "select_post config time old available js ?q new q' ?used used'"
          "length ((ids @ [s]) @ new) \<le> cc_max_messages_per_packet config"
          using IH[of ?q ?used "ids @ [s]" g] wr' fits False by fastforce
        have "select_post config time old available (i # js) q (s # new) q' used used'"
          using take[OF _ _ _ _ r(2)] wr' \<open>?due \<and> ?fits\<close> by blast
        moreover have "reliable_select config time old available (i # js) q ids used g = Inr (q', ids @ s # new, used')"
          using False \<open>?due \<and> ?fits\<close> here wr Cons.prems(2) r(1)
          by (auto simp: s_def entry_due_def Let_def)
        ultimately show ?thesis using r(3) by force
      qed
    qed
  qed
qed

text \<open>The oldest message is the first one chosen, whenever it is due and fits.\<close>

lemma inj_on_offsets: "n \<le> 65536 \<Longrightarrow> inj_on (\<lambda>i. old + of_nat i :: u16) {0..<n}"
proof (rule inj_onI)
  fix i j assume n: "n \<le> 65536" "i \<in> {0..<n}" "j \<in> {0..<n}" "old + of_nat i = old + (of_nat j :: u16)"
  then have "unat (of_nat i :: u16) = unat (of_nat j :: u16)" by simp
  with n show "i = j" by (simp only: unat_u16_of_nat) simp
qed

lemma select_head:
  assumes wf: "sb_wf q" "sb_lookup q old = Some e" "entry_due config time e"
    and fits: "used + (se_measured_bits e + 16) \<le> available" "used + 32 \<le> available"
    and n: "Suc n \<le> 65536"
    and r: "reliable_select config time old available [0..<Suc n] q [] used 0 = Inr (q', ids, used')"
  shows "\<exists>new. ids = old # new"
proof -
  obtain wr where wr: "sb_get_mut q old = Inr (Some (e, wr))"
    and wr': "\<And>v. sb_wf (wr v)"
    using sb_get_mut_wf(2)[OF wf(1,2)] by blast
  let ?q = "wr (e\<lparr>se_time_last_sent := time\<rparr>)" and ?used = "used + (se_measured_bits e + 2 * 8)"
  have "reliable_select config time old available (0 # [1..<Suc n]) q [] used 0 =
      (if cc_max_messages_per_packet config \<le> 1 then Inr (?q, [old], ?used)
       else reliable_select config time old available [1..<Suc n] ?q [old] ?used 0)"
    using fits wr wf(3) by (simp add: entry_due_def Let_def)
  moreover have "[0..<Suc n] = 0 # [1..<Suc n]" by (simp add: upt_conv_Cons del: upt_Suc)
  ultimately have r': "(if cc_max_messages_per_packet config \<le> 1 then Inr (?q, [old], ?used)
       else reliable_select config time old available [1..<Suc n] ?q [old] ?used 0) = Inr (q', ids, used')"
    using r by metis
  have "\<exists>p' new u'. reliable_select config time old available [1..<Suc n] ?q [old] ?used 0 = Inr (p', [old] @ new, u')"
    using select_result[of ?q ?used available old "[1..<Suc n]" config time "[old]" 0] wr' fits
      inj_on_offsets[OF n] by (fastforce intro: inj_on_subset)
  with r' show ?thesis by (auto split: if_splits)
qed

section \<open>The packets that were sent\<close>

definition sent_ok :: "channel_config \<Rightarrow> sent_packet_entry sequence_buffer \<Rightarrow> u16 list \<Rightarrow> bool" where
  "sent_ok config sp buffer \<longleftrightarrow>
     sb_window sp \<and> sb_capacity sp = cc_sent_packet_buffer_size config \<and>
     1 \<le> cc_max_messages_per_packet config \<and>
     length buffer = cc_max_messages_per_packet config * cc_sent_packet_buffer_size config \<and>
     (\<forall>s e. sb_lookup sp s = Some e \<longrightarrow>
        fst (sp_message_ids e) = sb_index sp s * cc_max_messages_per_packet config \<and>
        snd (sp_message_ids e) \<le> cc_max_messages_per_packet config)"

text \<open>Whether a packet was acknowledged, and the ids it carried.\<close>

definition packet_record ::
  "sent_packet_entry sequence_buffer \<Rightarrow> u16 list \<Rightarrow> u16 \<Rightarrow> (bool \<times> u16 list) option" where
  "packet_record sp buffer s =
     map_option (\<lambda>e. (sp_acked e, take (snd (sp_message_ids e)) (drop (fst (sp_message_ids e)) buffer)))
       (sb_lookup sp s)"

lemma store_ids_result:
  assumes "k + length ids \<le> length buffer"
  shows "reliable_store_ids k ids buffer = Inr (take k buffer @ ids @ drop (k + length ids) buffer)"
proof -
  have "rfold (\<lambda>buffer (i, mid). vec_update buffer (k + i) mid) buffer (enumerate n ids) =
      Inr (take (k + n) buffer @ ids @ drop (k + n + length ids) buffer)"
    if "k + n + length ids \<le> length buffer" for n
    using that
  proof (induction ids arbitrary: n buffer)
    case (Cons mid ids)
    let ?b = "buffer[k + n := mid]"
    have "rfold (\<lambda>buffer (i, mid). vec_update buffer (k + i) mid) buffer (enumerate n (mid # ids)) =
        rfold (\<lambda>buffer (i, mid). vec_update buffer (k + i) mid) ?b (enumerate (Suc n) ids)"
      using Cons.prems by simp
    also have "\<dots> = Inr (take (k + Suc n) ?b @ ids @ drop (k + Suc n + length ids) ?b)"
      using Cons.prems by (intro Cons.IH) simp
    also have "take (k + Suc n) ?b = take (k + n) buffer @ [mid]"
      using Cons.prems by (simp add: take_Suc_conv_app_nth)
    finally show ?case by simp
  qed simp
  from this[of 0] assms show ?thesis by (simp add: reliable_store_ids_def)
qed

text \<open>Runs of different slots do not overlap.\<close>

lemma run_bounds:
  assumes "i < n" "len \<le> m" shows "i * m + len \<le> m * (n :: nat)"
proof -
  have "i * m + len \<le> Suc i * m" using assms(2) by simp
  also have "\<dots> \<le> n * m" using assms(1) by (intro mult_le_mono1) simp
  finally show ?thesis by (simp add: mult.commute)
qed

lemma run_unchanged:
  fixes i j m :: nat
  assumes "i \<noteq> j" "length ids \<le> m" "len \<le> m" "i * m + length ids \<le> length buffer"
  shows "take len (drop (j * m) (take (i * m) buffer @ ids @ drop (i * m + length ids) buffer)) =
    take len (drop (j * m) buffer)"
proof (cases "j < i")
  case True
  then have "Suc j * m \<le> i * m" by (intro mult_le_mono1) simp
  then have "j * m + len \<le> i * m" using assms(3) by simp
  then show ?thesis using assms(4) by (simp add: take_drop min_absorb1 min_absorb2)
next
  case False
  then have "Suc i * m \<le> j * m" using assms(1) by (intro mult_le_mono1) simp
  then have "i * m + length ids \<le> j * m" using assms(2) by simp
  then have "i * m \<le> j * m" by linarith
  then have "drop (j * m) (take (i * m) buffer) = []"
    unfolding drop_eq_Nil length_take by (rule order_trans[OF min.cobounded2])
  with \<open>i * m + length ids \<le> j * m\<close> show ?thesis using assms(4) by simp
qed

section \<open>The contract\<close>

text \<open>A size, the next id, the oldest id that is not acknowledged, the messages that still have
  to be delivered, and what the recent packets carried.\<close>

record 'm outbox =
  ob_size :: nat
  ob_next :: u16
  ob_oldest :: u16
  ob_pending :: "u16 \<Rightarrow> 'm option"
  ob_packets :: "u16 \<Rightarrow> (bool \<times> u16 list) option"
  ob_packet_next :: u16
  ob_packet_size :: nat

definition outbox_of :: "'m reliable \<Rightarrow> 'm outbox" where
  "outbox_of rl =
     \<lparr>ob_size = sb_capacity (rl_message_send_queue rl), ob_next = rl_send_message_id rl,
      ob_oldest = rl_oldest_unacked_message_id rl,
      ob_pending = (\<lambda>s. map_option se_message (sb_lookup (rl_message_send_queue rl) s)),
      ob_packets = packet_record (rl_sent_packets rl) (rl_sent_packet_message_ids rl),
      ob_packet_next = sb_sequence (rl_sent_packets rl),
      ob_packet_size = sb_capacity (rl_sent_packets rl)\<rparr>"

definition queue_measured :: "('m, 'e) network_message \<Rightarrow> 'm message_send_queue_entry sequence_buffer \<Rightarrow> bool" where
  "queue_measured nm q \<longleftrightarrow>
     (\<forall>s e. sb_lookup q s = Some e \<longrightarrow>
        msg_measurable nm (se_message e) \<and> se_measured_bits e = 8 * msg_size nm (se_message e))"

definition sender_ok :: "('m, 'e) network_message \<Rightarrow> 'm reliable \<Rightarrow> bool" where
  "sender_ok nm rl \<longleftrightarrow>
     send_queue_ok (rl_oldest_unacked_message_id rl) (rl_send_message_id rl) (rl_message_send_queue rl) \<and>
     queue_measured nm (rl_message_send_queue rl) \<and>
     sent_ok (rl_config rl) (rl_sent_packets rl) (rl_sent_packet_message_ids rl)"

lemma sender_okD:
  assumes "sender_ok nm rl"
  shows "send_queue_ok (rl_oldest_unacked_message_id rl) (rl_send_message_id rl) (rl_message_send_queue rl)"
    "queue_measured nm (rl_message_send_queue rl)"
    "sent_ok (rl_config rl) (rl_sent_packets rl) (rl_sent_packet_message_ids rl)"
    "sb_wf (rl_message_send_queue rl)" "sb_wf (rl_sent_packets rl)"
  using assms send_queue_okD(2) sb_windowD(1) by (auto simp: sender_ok_def sent_ok_def)

subsection \<open>Accepting\<close>

definition outbox_add :: "'m outbox \<Rightarrow> 'm \<Rightarrow> 'm outbox" where
  "outbox_add ob m = ob\<lparr>ob_next := ob_next ob + 1, ob_pending := (ob_pending ob)(ob_next ob \<mapsto> m)\<rparr>"

lemma can_send_result:
  assumes "sender_ok nm rl"
  shows "reliable_can_send_message rl =
    Inr (unat (ob_next (outbox_of rl) - ob_oldest (outbox_of rl)) < ob_size (outbox_of rl))"
  using send_slot_free[OF sender_okD(1)[OF assms]] sender_okD(4)[OF assms]
  by (simp add: reliable_can_send_message_def sb_reads outbox_of_def)

lemma send_message_result:
  assumes "sender_ok nm rl" "reliable_can_send_message rl = Inr True" "msg_measurable nm m"
  obtains q where
    "reliable_send_message nm rl m =
       Inr (rl\<lparr>rl_message_send_queue := q, rl_send_message_id := rl_send_message_id rl + 1\<rparr>)"
    "sender_ok nm (rl\<lparr>rl_message_send_queue := q, rl_send_message_id := rl_send_message_id rl + 1\<rparr>)"
    "outbox_of (rl\<lparr>rl_message_send_queue := q, rl_send_message_id := rl_send_message_id rl + 1\<rparr>) =
       outbox_add (outbox_of rl) m"
proof -
  let ?n = "rl_send_message_id rl" and ?q = "rl_message_send_queue rl"
  let ?e = "\<lparr>se_message_id = ?n, se_message = m, se_time_last_sent = f64_of_int (- 1),
      se_measured_bits = 8 * msg_size nm m\<rparr>"
  note D = sender_okD[OF assms(1)]
  have room: "unat (?n - rl_oldest_unacked_message_id rl) < sb_capacity ?q"
    using can_send_result[OF assms(1)] assms(2) by (simp add: outbox_of_def)
  note I = send_queue_insert[OF D(1) room, of ?e, simplified]
  have "measure_sink_bytes nm m = Inr (msg_size nm m)"
    using assms(3) by (simp add: measure_sink_measurable)
  then have "reliable_send_message nm rl m =
      Inr (rl\<lparr>rl_message_send_queue := sb_inserted ?q ?n ?e, rl_send_message_id := ?n + 1\<rparr>)"
    using assms(2) I(1) by (simp add: reliable_send_message_def Let_def)
  moreover have "queue_measured nm (sb_inserted ?q ?n ?e)"
    using D(2) assms(3) by (simp add: queue_measured_def I(4))
  ultimately show ?thesis
    using D(3) I by (intro that[of "sb_inserted ?q ?n ?e"])
      (simp_all add: sender_ok_def outbox_of_def outbox_add_def fun_eq_iff)
qed

text \<open>Sending on a full queue or a message that cannot be measured panics.\<close>

lemma send_message_panics:
  assumes "sender_ok nm rl"
  shows "reliable_can_send_message rl = Inr False \<Longrightarrow> reliable_send_message nm rl m = Inl AssertionFailed"
    and "reliable_can_send_message rl = Inr True \<Longrightarrow> \<not> msg_measurable nm m \<Longrightarrow>
      reliable_send_message nm rl m = Inl UnwrapOnErr"
proof -
  show "reliable_send_message nm rl m = Inl AssertionFailed" if "reliable_can_send_message rl = Inr False"
    using that by (simp add: reliable_send_message_def)
  assume "reliable_can_send_message rl = Inr True" "\<not> msg_measurable nm m"
  moreover from this have "measure_sink_bytes nm m = Inl UnwrapOnErr"
    by (auto simp: measure_sink_bytes_def msg_measurable_def split: sum.splits)
  moreover have "sequence_greater_than (rl_send_message_id rl + 1) (sb_sequence (rl_message_send_queue rl))"
    using send_queue_okD(5)[OF sender_okD(1)[OF assms]] by simp
  ultimately show "reliable_send_message nm rl m = Inl UnwrapOnErr"
    using send_queue_okD(1)[OF sender_okD(1)[OF assms]]
    by (simp add: reliable_send_message_def sb_insert_with_window)
qed

subsection \<open>Acknowledging\<close>

lemma process_ack_result:
  assumes "sender_ok nm rl" "ob_packets (outbox_of rl) ack = Some (False, ids)"
  obtains q old sp where
    "reliable_process_ack rl ack = Inr (rl\<lparr>rl_sent_packets := sp, rl_message_send_queue := q,
                 rl_oldest_unacked_message_id := old\<rparr>)"
    "sender_ok nm (rl\<lparr>rl_sent_packets := sp, rl_message_send_queue := q, rl_oldest_unacked_message_id := old\<rparr>)"
    "outbox_of (rl\<lparr>rl_sent_packets := sp, rl_message_send_queue := q, rl_oldest_unacked_message_id := old\<rparr>) =
       (outbox_of rl)\<lparr>ob_oldest := old, ob_pending := ob_pending (outbox_of rl) |` (- set ids),
          ob_packets := (ob_packets (outbox_of rl))(ack \<mapsto> (True, ids))\<rparr>"
proof -
  let ?sp = "rl_sent_packets rl" and ?b = "rl_sent_packet_message_ids rl" and ?c = "rl_config rl"
  note D = sender_okD[OF assms(1)]
  obtain e where e: "sb_lookup ?sp ack = Some e" "\<not> sp_acked e"
    "ids = take (snd (sp_message_ids e)) (drop (fst (sp_message_ids e)) ?b)"
    using assms(2) by (auto simp: outbox_of_def packet_record_def)
  obtain k len where kl: "sp_message_ids e = (k, len)" by (cases "sp_message_ids e")
  have "k = sb_index ?sp ack * cc_max_messages_per_packet ?c" "len \<le> cc_max_messages_per_packet ?c"
    using D(3) e(1) kl by (force simp: sent_ok_def)+
  then have in_range: "k + len \<le> length ?b"
    using D(3) run_bounds[OF sb_index_less[OF D(5), of ack]] by (simp add: sent_ok_def)
  obtain wr where wr: "sb_get_mut ?sp ack = Inr (Some (e, wr))"
    and wr': "\<And>v. sb_wf (wr v) \<and> sb_lookup (wr v) = (sb_lookup ?sp)(ack \<mapsto> v) \<and>
      sb_capacity (wr v) = sb_capacity ?sp \<and> sb_sequence (wr v) = sb_sequence ?sp"
    using sb_get_mut_wf(2)[OF D(5) e(1)] by blast
  obtain q old where ack: "reliable_ack_messages ids (rl_message_send_queue rl) (rl_oldest_unacked_message_id rl)
      = Inr (q, old)" "send_queue_ok old (rl_send_message_id rl) q"
    "sb_capacity q = sb_capacity (rl_message_send_queue rl)"
    "sb_lookup q = sb_lookup (rl_message_send_queue rl) |` (- set ids)"
    using ack_messages_result[OF D(1), of ids] by blast
  let ?sp' = "wr (e\<lparr>sp_acked := True\<rparr>)"
  have idx: "sb_index ?sp' s = sb_index ?sp s" for s using wr' by (simp add: sb_index_def)
  have "sb_window ?sp'" using D(3) wr' e(1) by (auto simp: sent_ok_def sb_window_def)
  then have sent: "sent_ok ?c ?sp' ?b"
    using D(3) wr' e(1) by (auto simp: sent_ok_def idx)
  have measured: "queue_measured nm q"
    using D(2) by (auto simp: queue_measured_def ack(4) restrict_map_def split: if_splits)
  show ?thesis
  proof (rule that)
    show "reliable_process_ack rl ack = Inr (rl\<lparr>rl_sent_packets := ?sp', rl_message_send_queue := q,
                 rl_oldest_unacked_message_id := old\<rparr>)"
      using wr e kl in_range ack(1) by (simp add: reliable_process_ack_def Let_def not_less)
    show "sender_ok nm (rl\<lparr>rl_sent_packets := ?sp', rl_message_send_queue := q,
        rl_oldest_unacked_message_id := old\<rparr>)"
      using ack(2) measured sent by (simp add: sender_ok_def)
    have "packet_record ?sp' ?b = (packet_record ?sp ?b)(ack \<mapsto> (True, ids))"
      using e(3) wr' by (auto simp: packet_record_def fun_eq_iff)
    moreover have "(\<lambda>s. map_option se_message (sb_lookup q s)) =
        (\<lambda>s. map_option se_message (sb_lookup (rl_message_send_queue rl) s)) |` (- set ids)"
      by (auto simp: ack(4) restrict_map_def fun_eq_iff)
    ultimately show "outbox_of (rl\<lparr>rl_sent_packets := ?sp', rl_message_send_queue := q,
        rl_oldest_unacked_message_id := old\<rparr>) =
       (outbox_of rl)\<lparr>ob_oldest := old, ob_pending := ob_pending (outbox_of rl) |` (- set ids),
          ob_packets := (ob_packets (outbox_of rl))(ack \<mapsto> (True, ids))\<rparr>"
      using ack(3) wr' by (simp add: outbox_of_def)
  qed
qed

lemma process_ack_unknown:
  assumes "sender_ok nm rl"
  shows "ob_packets (outbox_of rl) ack = None \<Longrightarrow> reliable_process_ack rl ack = Inr rl"
    and "ob_packets (outbox_of rl) ack = Some (True, ids) \<Longrightarrow>
      reliable_process_ack rl ack = Inl AssertionFailed"
proof -
  note wf = sender_okD(5)[OF assms]
  show "reliable_process_ack rl ack = Inr rl" if "ob_packets (outbox_of rl) ack = None"
    using that sb_get_mut_wf(1)[OF wf, of ack]
    by (simp add: outbox_of_def packet_record_def reliable_process_ack_def)
  assume "ob_packets (outbox_of rl) ack = Some (True, ids)"
  then obtain e where e: "sb_lookup (rl_sent_packets rl) ack = Some e" "sp_acked e"
    by (auto simp: outbox_of_def packet_record_def)
  then show "reliable_process_ack rl ack = Inl AssertionFailed"
    using sb_get_mut_wf(2)[OF wf e(1)] by (auto simp: reliable_process_ack_def)
qed

subsection \<open>Emitting a packet\<close>

definition outbox_emit :: "'m outbox \<Rightarrow> u16 \<Rightarrow> u16 list \<Rightarrow> 'm outbox" where
  "outbox_emit ob s ids =
     ob\<lparr>ob_packets := (\<lambda>q. if unat (s - q) < ob_packet_size ob then ob_packets ob q else None)(s \<mapsto> (False, ids)),
        ob_packet_next := s + 1\<rparr>"

text \<open>Ids a packet may carry: pending ones, in order from the oldest, at most \<open>mx\<close>.\<close>

definition outbox_choice :: "'m outbox \<Rightarrow> nat \<Rightarrow> u16 list \<Rightarrow> bool" where
  "outbox_choice ob mx ids \<longleftrightarrow>
     subseq ids (map (\<lambda>i. ob_oldest ob + of_nat i) [0..<ob_size ob]) \<and>
     set ids \<subseteq> dom (ob_pending ob) \<and> length ids \<le> mx"

definition outbox_bits :: "('m, 'e) network_message \<Rightarrow> 'm outbox \<Rightarrow> u16 list \<Rightarrow> nat" where
  "outbox_bits nm ob ids =
     CONSERVATIVE_MESSAGE_HEADER_BITS + sum_list (map (\<lambda>s. 8 * msg_size nm (the (ob_pending ob s)) + 16) ids)"

lemma collect_result:
  assumes "sb_wf q" "\<And>s. s \<in> set ids \<Longrightarrow> sb_lookup q s \<noteq> None"
  shows "reliable_collect q ids = Inr (map (\<lambda>s. (s, se_message (the (sb_lookup q s)))) ids)"
  using assms(2)
proof (induction ids)
  case (Cons s ids)
  obtain e where "sb_lookup q s = Some e" using Cons.prems[of s] by auto
  with Cons show ?case by (simp add: sb_reads assms(1))
qed simp

lemma add_entry_result:
  assumes sent: "sent_ok config sp buffer" and len: "length ids \<le> cc_max_messages_per_packet config"
    and fresh: "sequence_greater_than (s + 1) (sb_sequence sp)"
    and rl: "rl_config rl = config" "rl_sent_packets rl = sp" "rl_sent_packet_message_ids rl = buffer"
  obtains sp' buffer' where
    "reliable_add_message_packet_entry rl ids s =
       Inr (rl\<lparr>rl_sent_packets := sp', rl_sent_packet_message_ids := buffer'\<rparr>)"
    "sent_ok config sp' buffer'" "sb_capacity sp' = sb_capacity sp" "sb_sequence sp' = s + 1"
    "packet_record sp' buffer' = (\<lambda>q. if unat (s - q) < sb_capacity sp then packet_record sp buffer q
        else None)(s \<mapsto> (False, ids))"
proof -
  let ?m = "cc_max_messages_per_packet config" and ?i = "sb_index sp s"
  let ?e = "\<lparr>sp_acked = False, sp_time_sent = rl_time rl, sp_message_ids = (?i * ?m, length ids)\<rparr>"
  let ?b = "take (?i * ?m) buffer @ ids @ drop (?i * ?m + length ids) buffer"
  let ?sp = "sb_inserted sp s ?e"
  note S = sent[unfolded sent_ok_def]
  have w: "sb_window sp" and wf: "sb_wf sp" using S sb_windowD(1) by auto
  have idx: "unat s mod cc_sent_packet_buffer_size config = ?i" using S by (simp add: sb_index_def)
  have in_range: "?i * ?m + length ids \<le> length buffer"
    using run_bounds[OF sb_index_less[OF wf, of s] len] S by simp
  note I = sb_inserted_window[OF w disjI1[OF fresh], of ?e]
  have pos: "cc_sent_packet_buffer_size config \<noteq> 0" using S sb_windowD(3)[OF w] by auto
  have add: "reliable_add_message_packet_entry rl ids s =
      Inr (rl\<lparr>rl_sent_packets := ?sp, rl_sent_packet_message_ids := ?b\<rparr>)"
    using pos fresh store_ids_result[OF in_range] rl
    by (simp add: reliable_add_message_packet_entry_def Let_def idx sb_insert_with_window[OF w])
  have idx': "sb_index ?sp q = sb_index sp q" for q using I(2) by (simp add: sb_index_def)
  have ok: "sent_ok config ?sp ?b"
    using S I(1,2) len in_range by (auto simp: sent_ok_def I(4) idx' split: if_splits)
  have "packet_record ?sp ?b q = ((\<lambda>q. if unat (s - q) < sb_capacity sp then packet_record sp buffer q
        else None)(s \<mapsto> (False, ids))) q" for q
  proof (cases "q = s \<or> \<not> unat (s - q) < sb_capacity sp \<or> sb_lookup sp q = None")
    case True
    then show ?thesis using in_range fresh by (auto simp: packet_record_def I(4) min_def)
  next
    case False
    then obtain v where v: "sb_lookup sp q = Some v" "q \<noteq> s" "unat (s - q) < sb_capacity sp" by auto
    have c: "2 \<le> sb_capacity sp" using sb_windowD(3)[OF w] .
    have "?i \<noteq> sb_index sp q"
      using sb_window_slot_inj[of sp s s q] sb_windowD(2)[OF w] v(2,3) c by auto
    moreover have "fst (sp_message_ids v) = sb_index sp q * ?m" "snd (sp_message_ids v) \<le> ?m"
      using S v(1) by auto
    ultimately have "take (snd (sp_message_ids v)) (drop (fst (sp_message_ids v)) ?b) =
        take (snd (sp_message_ids v)) (drop (fst (sp_message_ids v)) buffer)"
      using run_unchanged[OF _ len, of ?i "sb_index sp q" "snd (sp_message_ids v)" buffer] in_range by simp
    then show ?thesis using v by (simp add: packet_record_def I(4))
  qed
  then have "packet_record ?sp ?b = (\<lambda>q. if unat (s - q) < sb_capacity sp then packet_record sp buffer q
        else None)(s \<mapsto> (False, ids))" by (rule ext)
  moreover have "sb_sequence ?sp = s + 1" using I(3) fresh by simp
  ultimately show ?thesis using that[OF add ok I(2)] by blast
qed

lemma get_messages_result:
  assumes ok: "sender_ok nm rl" and some: "reliable_has_messages_to_send rl"
    and room: "32 \<le> channel_budget (rl_config rl) available"
  obtains ids q where
    "reliable_get_messages_to_send rl available =
       Inr (ids, outbox_bits nm (outbox_of rl) ids, rl\<lparr>rl_message_send_queue := q\<rparr>)"
    "outbox_choice (outbox_of rl) (cc_max_messages_per_packet (rl_config rl)) ids"
    "outbox_bits nm (outbox_of rl) ids \<le> channel_budget (rl_config rl) available"
    "sender_ok nm (rl\<lparr>rl_message_send_queue := q\<rparr>)" "outbox_of (rl\<lparr>rl_message_send_queue := q\<rparr>) = outbox_of rl"
    "\<And>s e. sb_lookup (rl_message_send_queue rl) s = Some e \<Longrightarrow> s \<in> set ids \<Longrightarrow>
       entry_due (rl_config rl) (rl_time rl) e"
proof -
  let ?q = "rl_message_send_queue rl" and ?old = "rl_oldest_unacked_message_id rl"
  let ?n = "min (sb_capacity (rl_message_receive_queue rl)) (sb_capacity ?q)"
  let ?av = "channel_budget (rl_config rl) available" and ?ob = "outbox_of rl"
  note D = sender_okD[OF ok]
  note Q = send_queue_okD[OF D(1)]
  have inj: "inj_on (\<lambda>i. ?old + of_nat i :: u16) (set [0..<?n])"
    using inj_on_offsets[of ?n ?old] Q(4) by simp
  obtain q ids bits where sel: "reliable_select (rl_config rl) (rl_time rl) ?old ?av [0..<?n] ?q []
      CONSERVATIVE_MESSAGE_HEADER_BITS 0 = Inr (q, ids, bits)"
    and post: "select_post (rl_config rl) (rl_time rl) ?old ?av [0..<?n] ?q ids q CONSERVATIVE_MESSAGE_HEADER_BITS bits"
    and len: "length ids \<le> cc_max_messages_per_packet (rl_config rl)"
    using select_result[OF D(4) _ inj, of CONSERVATIVE_MESSAGE_HEADER_BITS ?av "rl_config rl" "rl_time rl" "[]" 0]
      room D(3) by (auto simp: header_bits sent_ok_def)
  note P = post[unfolded select_post_def]
  have live: "sb_lookup ?q s \<noteq> None" if "s \<in> set ids" for s using P that by auto
  have bits: "bits = outbox_bits nm ?ob ids"
  proof -
    have eq: "map (\<lambda>s. se_measured_bits (the (sb_lookup ?q s)) + 16) ids =
        map (\<lambda>s. 8 * msg_size nm (the (ob_pending ?ob s)) + 16) ids"
      using live D(2) by (fastforce simp: outbox_of_def queue_measured_def)
    show ?thesis unfolding outbox_bits_def eq[symmetric] using P by (simp only: chosen_bits_def)
  qed
  have "subseq ids (map (\<lambda>i. ?old + of_nat i) [0..<sb_capacity ?q])"
  proof -
    have "prefix (map (\<lambda>i. ?old + of_nat i) [0..<?n]) (map (\<lambda>i. ?old + (of_nat i :: u16)) [0..<sb_capacity ?q])"
      by (rule map_mono_prefix) (metis min.cobounded2 prefixI upt_add_eq_append zero_le le_add_diff_inverse)
    then show ?thesis using P prefix_imp_subseq subseq_order.order_trans by blast
  qed
  then have choice: "outbox_choice ?ob (cc_max_messages_per_packet (rl_config rl)) ids"
    using live len by (fastforce simp: outbox_choice_def outbox_of_def)
  have key: "sb_lookup q s = None \<longleftrightarrow> sb_lookup ?q s = None"
    "sb_lookup q s = Some e' \<Longrightarrow> \<exists>e. sb_lookup ?q s = Some e \<and> se_message e' = se_message e \<and>
      se_message_id e' = se_message_id e \<and> se_measured_bits e' = se_measured_bits e" for s e'
    using P by (auto simp: stamped_def split: if_splits)
  have "sb_window q" using Q(1) P key by (simp add: sb_window_def)
  then have "send_queue_ok ?old (rl_send_message_id rl) q"
    unfolding send_queue_ok_def
  proof (intro conjI allI impI)
    fix s e' assume "sb_lookup q s = Some e'"
    from key(2)[OF this] obtain e where e: "sb_lookup ?q s = Some e" "se_message_id e' = se_message_id e" by blast
    then show "se_message_id e' = s" using Q(8) by simp
    show "unat (s - ?old) < unat (rl_send_message_id rl - ?old)" using e(1) by (rule Q(9))
  qed (use P Q(4-7) key(1) in simp_all)
  moreover have "queue_measured nm q"
    unfolding queue_measured_def
  proof (intro allI impI)
    fix s e' assume "sb_lookup q s = Some e'"
    from key(2)[OF this] D(2)
    show "msg_measurable nm (se_message e') \<and> se_measured_bits e' = 8 * msg_size nm (se_message e')"
      by (auto simp: queue_measured_def)
  qed
  ultimately have ok': "sender_ok nm (rl\<lparr>rl_message_send_queue := q\<rparr>)" using D(3) by (simp add: sender_ok_def)
  have "map_option se_message (sb_lookup q s) = map_option se_message (sb_lookup ?q s)" for s
    using P by (auto simp: stamped_def option.map_comp comp_def)
  then have ob: "outbox_of (rl\<lparr>rl_message_send_queue := q\<rparr>) = ?ob" using P by (simp add: outbox_of_def)
  have "reliable_get_messages_to_send rl available = Inr (ids, bits, rl\<lparr>rl_message_send_queue := q\<rparr>)"
    using sel some unfolding reliable_get_messages_to_send_def channel_budget_def[symmetric] Let_def by simp
  moreover have "entry_due (rl_config rl) (rl_time rl) e"
    if "sb_lookup ?q s = Some e" "s \<in> set ids" for s e using P that by auto
  ultimately show ?thesis using that[of ids q] choice ok' ob bits P by simp
qed

lemma has_messages_iff: "reliable_has_messages_to_send rl \<longleftrightarrow> ob_oldest (outbox_of rl) \<noteq> ob_next (outbox_of rl)"
  by (simp add: reliable_has_messages_to_send_def outbox_of_def)

text \<open>What \<open>packet_data\<close> returns and leaves behind.\<close>

definition emitted ::
  "('m, 'e) network_message \<Rightarrow> usize \<Rightarrow> u16 \<Rightarrow> 'm outbox \<Rightarrow> u16 list
     \<Rightarrow> 'm channel_packet_data \<Rightarrow> usize \<Rightarrow> 'm outbox \<Rightarrow> bool" where
  "emitted nm channel_index s ob ids pd bits ob' \<longleftrightarrow>
     (if ids = [] then pd = cpd_empty \<and> bits = 0 \<and> ob' = ob
      else pd = \<lparr>pd_channel_index = channel_index, pd_messages = map (\<lambda>s. (s, the (ob_pending ob s))) ids\<rparr> \<and>
           bits = outbox_bits nm ob ids \<and> ob' = outbox_emit ob s ids)"

text \<open>The parts of the state that sending leaves alone.\<close>

definition same_receiver :: "'m reliable \<Rightarrow> 'm reliable \<Rightarrow> bool" where
  "same_receiver rl rl' \<longleftrightarrow> rl_config rl' = rl_config rl \<and> rl_time rl' = rl_time rl \<and>
     rl_receive_message_id rl' = rl_receive_message_id rl \<and>
     rl_message_receive_queue rl' = rl_message_receive_queue rl"

lemma packet_data_result:
  assumes ok: "sender_ok nm rl" and room: "32 \<le> channel_budget (rl_config rl) available"
    and fresh: "sequence_greater_than (s + 1) (ob_packet_next (outbox_of rl))"
  obtains pd bits rl' ids where
    "reliable_packet_data rl channel_index s available = Inr (pd, bits, rl')"
    "sender_ok nm rl'" "same_receiver rl rl'"
    "outbox_choice (outbox_of rl) (cc_max_messages_per_packet (rl_config rl)) ids"
    "emitted nm channel_index s (outbox_of rl) ids pd bits (outbox_of rl')"
    "bits \<le> channel_budget (rl_config rl) available"
    "ids \<noteq> [] \<Longrightarrow> reliable_has_messages_to_send rl"
proof (cases "reliable_has_messages_to_send rl")
  case False
  have "outbox_choice (outbox_of rl) (cc_max_messages_per_packet (rl_config rl)) []"
    by (simp add: outbox_choice_def)
  with False ok show ?thesis
    by (intro that[of cpd_empty 0 rl "[]"])
      (simp_all add: reliable_packet_data_def same_receiver_def emitted_def)
next
  case True
  let ?ob = "outbox_of rl"
  obtain ids q where get: "reliable_get_messages_to_send rl available =
       Inr (ids, outbox_bits nm ?ob ids, rl\<lparr>rl_message_send_queue := q\<rparr>)"
    and choice: "outbox_choice ?ob (cc_max_messages_per_packet (rl_config rl)) ids"
    and bits: "outbox_bits nm ?ob ids \<le> channel_budget (rl_config rl) available"
    and ok1: "sender_ok nm (rl\<lparr>rl_message_send_queue := q\<rparr>)"
    and ob1: "outbox_of (rl\<lparr>rl_message_send_queue := q\<rparr>) = ?ob"
    by (rule get_messages_result[OF ok True room]) blast
  let ?rl = "rl\<lparr>rl_message_send_queue := q\<rparr>"
  show ?thesis
  proof (cases "ids = []")
    case True
    with \<open>reliable_has_messages_to_send rl\<close> get ok1 ob1 choice show ?thesis
      by (intro that[of cpd_empty 0 ?rl "[]"])
        (simp_all add: reliable_packet_data_def same_receiver_def emitted_def)
  next
    case False
    note D = sender_okD[OF ok1, simplified]
    have pend: "map_option se_message (sb_lookup q t) = ob_pending ?ob t" for t
      using arg_cong[OF ob1, of "\<lambda>ob. ob_pending ob t"] by (simp add: outbox_of_def)
    have live: "sb_lookup q t \<noteq> None" if "t \<in> set ids" for t
      using choice that pend[of t] by (cases "sb_lookup q t") (auto simp: outbox_choice_def)
    then have msgs: "map (\<lambda>t. (t, se_message (the (sb_lookup q t)))) ids =
        map (\<lambda>t. (t, the (ob_pending ?ob t))) ids"
      by (auto simp: pend[symmetric] option.map_sel)
    have len: "length ids \<le> cc_max_messages_per_packet (rl_config rl)"
      using choice by (simp add: outbox_choice_def)
    have next_s: "sequence_greater_than (s + 1) (sb_sequence (rl_sent_packets rl))"
      using fresh by (simp add: outbox_of_def)
    obtain sp buffer where add: "reliable_add_message_packet_entry ?rl ids s =
         Inr (?rl\<lparr>rl_sent_packets := sp, rl_sent_packet_message_ids := buffer\<rparr>)"
      "sent_ok (rl_config rl) sp buffer" "sb_capacity sp = sb_capacity (rl_sent_packets rl)"
      "sb_sequence sp = s + 1"
      "packet_record sp buffer = (\<lambda>q. if unat (s - q) < sb_capacity (rl_sent_packets rl)
          then packet_record (rl_sent_packets rl) (rl_sent_packet_message_ids rl) q else None)(s \<mapsto> (False, ids))"
      by (rule add_entry_result[OF D(3) len next_s, where rl = ?rl]) simp_all
    let ?rl' = "?rl\<lparr>rl_sent_packets := sp, rl_sent_packet_message_ids := buffer\<rparr>"
    have emit: "outbox_of ?rl' = outbox_emit ?ob s ids"
      using ob1 add(3-5) by (simp add: outbox_of_def outbox_emit_def cong: if_cong)
    have "sender_ok nm ?rl'" using ok1 add(2) by (simp add: sender_ok_def)
    moreover have "reliable_packet_data rl channel_index s available =
        Inr (\<lparr>pd_channel_index = channel_index, pd_messages = map (\<lambda>t. (t, the (ob_pending ?ob t))) ids\<rparr>,
             outbox_bits nm ?ob ids, ?rl')"
      using \<open>reliable_has_messages_to_send rl\<close> False get add(1) collect_result[OF D(4) live] msgs
      by (simp add: reliable_packet_data_def reliable_get_message_packet_data_def)
    moreover have "same_receiver rl ?rl'" by (simp add: same_receiver_def)
    moreover have "emitted nm channel_index s ?ob ids
        \<lparr>pd_channel_index = channel_index, pd_messages = map (\<lambda>t. (t, the (ob_pending ?ob t))) ids\<rparr>
        (outbox_bits nm ?ob ids) (outbox_of ?rl')"
      unfolding emitted_def emit using False by (simp only: if_False simp_thms)
    ultimately show ?thesis
      using choice bits \<open>reliable_has_messages_to_send rl\<close> by (intro that)
  qed
qed

text \<open>With fewer than 32 bits of room (whether the caller's packet is that full or the
  channel's own budget is that small) a sender with messages pending panics in the subtraction
  that starts its loop.\<close>

theorem packet_data_overflows:
  assumes ok: "sender_ok nm rl" and some: "reliable_has_messages_to_send rl"
    and small: "channel_budget (rl_config rl) available < 32"
    and receiver: "0 < sb_capacity (rl_message_receive_queue rl)"
  shows "reliable_packet_data rl channel_index s available = Inl ArithmeticOverflow"
proof -
  let ?n = "min (sb_capacity (rl_message_receive_queue rl)) (sb_capacity (rl_message_send_queue rl))"
  have "0 < ?n" using receiver send_queue_okD(3)[OF sender_okD(1)[OF ok]] by simp
  then have "[0..<?n] = 0 # [1..<?n]" by (simp add: upt_conv_Cons)
  then show ?thesis
    using some small unfolding reliable_packet_data_def reliable_get_messages_to_send_def
      channel_budget_def[symmetric] Let_def by (simp add: header_bits)
qed

lemma oldest_is_sent:
  assumes ok: "sender_ok nm rl" and some: "reliable_has_messages_to_send rl"
    and e: "sb_lookup (rl_message_send_queue rl) (rl_oldest_unacked_message_id rl) = Some e"
    and due: "entry_due (rl_config rl) (rl_time rl) e"
    and fits: "32 + (se_measured_bits e + 16) \<le> channel_budget (rl_config rl) available"
      "64 \<le> channel_budget (rl_config rl) available"
    and receiver: "0 < sb_capacity (rl_message_receive_queue rl)"
    and r: "reliable_packet_data rl channel_index s available = Inr (pd, bits, rl')"
  shows "\<exists>rest. pd_messages pd = (rl_oldest_unacked_message_id rl, se_message e) # rest"
proof -
  let ?q = "rl_message_send_queue rl" and ?old = "rl_oldest_unacked_message_id rl"
  let ?n = "min (sb_capacity (rl_message_receive_queue rl)) (sb_capacity ?q)"
  note Q = send_queue_okD[OF sender_okD(1)[OF ok]]
  obtain q ids u where sel: "reliable_select (rl_config rl) (rl_time rl) ?old
      (channel_budget (rl_config rl) available) [0..<?n] ?q [] 32 0 = Inr (q, ids, u)"
    using r some unfolding reliable_packet_data_def reliable_get_messages_to_send_def
      channel_budget_def[symmetric] Let_def by (auto simp: rbind_eq_Inr header_bits)
  obtain k where k: "?n = Suc k" using receiver Q(3) by (cases ?n) auto
  then have "Suc k \<le> 65536" using Q(4) by simp
  from select_head[OF Q(2) e due fits(1) _ this sel[unfolded k]] fits(2)
  obtain new where ids: "ids = ?old # new" by auto
  obtain ids' q' where get: "reliable_get_messages_to_send rl available =
       Inr (ids', outbox_bits nm (outbox_of rl) ids', rl\<lparr>rl_message_send_queue := q'\<rparr>)"
    and ok1: "sender_ok nm (rl\<lparr>rl_message_send_queue := q'\<rparr>)"
    and ob1: "outbox_of (rl\<lparr>rl_message_send_queue := q'\<rparr>) = outbox_of rl"
    by (rule get_messages_result[OF ok some, of available]) (use fits(2) in auto)
  have ids': "ids' = ?old # new"
    using get sel some ids unfolding reliable_get_messages_to_send_def
      channel_budget_def[symmetric] Let_def by (simp add: header_bits)
  have wf: "sb_wf q'" using sender_okD(4)[OF ok1] by simp
  have "map_option se_message (sb_lookup q' ?old) = Some (se_message e)"
    using arg_cong[OF ob1, of "\<lambda>ob. ob_pending ob ?old"] e by (simp add: outbox_of_def)
  then obtain e' where e': "sb_lookup q' ?old = Some e'" "se_message e' = se_message e" by auto
  have "\<exists>rl1. reliable_get_message_packet_data (rl\<lparr>rl_message_send_queue := q'\<rparr>) channel_index ids' = Inr rl1 \<and>
      pd_messages pd = pd_messages rl1"
    using r some get ids' by (auto simp: reliable_packet_data_def rbind_eq_Inr)
  then show ?thesis
    by (auto simp: reliable_get_message_packet_data_def rbind_eq_Inr ids' sb_reads wf e')
qed

lemma reset_sender:
  assumes "sender_ok nm rl"
  shows "sender_ok nm (reliable_reset rl)"
    "outbox_of (reliable_reset rl) = (outbox_of rl)\<lparr>ob_next := 0, ob_oldest := 0,
       ob_pending := (\<lambda>_. None), ob_packets := (\<lambda>_. None), ob_packet_next := 0\<rparr>"
proof -
  note D = sender_okD[OF assms]
  note Q = send_queue_okD[OF D(1)]
  have w: "sb_window (rl_sent_packets rl)" using D(3) by (simp add: sent_ok_def)
  note clear = sbw.clear_all[OF Q(1)] sbw.clear_all[OF w]
  show "sender_ok nm (reliable_reset rl)"
    using D(3) clear Q(4) by (auto simp: sender_ok_def send_queue_ok_def queue_measured_def sent_ok_def
        reliable_reset_def sb_sequence_pointer_def)
  show "outbox_of (reliable_reset rl) = (outbox_of rl)\<lparr>ob_next := 0, ob_oldest := 0,
       ob_pending := (\<lambda>_. None), ob_packets := (\<lambda>_. None), ob_packet_next := 0\<rparr>"
    using clear by (auto simp: outbox_of_def reliable_reset_def packet_record_def)
qed

lemma new_sender:
  assumes "reliable_new config t = Inr rl" "1 \<le> cc_max_messages_per_packet config"
    and q: "2 \<le> cc_message_send_queue_size config" "cc_message_send_queue_size config \<le> 16384"
      "cc_message_send_queue_size config dvd 65536"
    and p: "2 \<le> cc_sent_packet_buffer_size config" "cc_sent_packet_buffer_size config dvd 65536"
  shows "sender_ok nm rl"
    "outbox_of rl = \<lparr>ob_size = cc_message_send_queue_size config, ob_next = 0, ob_oldest = 0,
       ob_pending = (\<lambda>_. None), ob_packets = (\<lambda>_. None), ob_packet_next = 0,
       ob_packet_size = cc_sent_packet_buffer_size config\<rparr>"
proof -
  obtain sq sp where new: "sb_new (cc_message_send_queue_size config) = Inr sq"
      "sb_new (cc_sent_packet_buffer_size config) = Inr sp"
    and rl: "rl_message_send_queue rl = sq" "rl_sent_packets rl = sp" "rl_config rl = config"
      "rl_send_message_id rl = 0" "rl_oldest_unacked_message_id rl = 0"
      "rl_sent_packet_message_ids rl =
        replicate (cc_max_messages_per_packet config * cc_sent_packet_buffer_size config) 0"
    using assms(1) by (auto simp: reliable_new_def rbind_eq_Inr split: if_splits)
  have "sb_window sq" "sb_window sp" using sb_new_window new q p by auto
  with sb_new_wf[OF new(1)] sb_new_wf[OF new(2)] q p assms(2)
  show "sender_ok nm rl"
    "outbox_of rl = \<lparr>ob_size = cc_message_send_queue_size config, ob_next = 0, ob_oldest = 0,
       ob_pending = (\<lambda>_. None), ob_packets = (\<lambda>_. None), ob_packet_next = 0,
       ob_packet_size = cc_sent_packet_buffer_size config\<rparr>"
    by (simp_all add: sender_ok_def send_queue_ok_def queue_measured_def sent_ok_def rl outbox_of_def
        packet_record_def fun_eq_iff)
qed

section \<open>The interface\<close>

text \<open>What the connection and the end to end argument use of a sending side.\<close>

definition outbox_ok :: "'m outbox \<Rightarrow> bool" where
  "outbox_ok ob \<longleftrightarrow> ob_size ob \<le> 16384 \<and> unat (ob_next ob - ob_oldest ob) \<le> ob_size ob \<and>
     (\<forall>s. ob_pending ob s \<noteq> None \<longrightarrow> unat (s - ob_oldest ob) < unat (ob_next ob - ob_oldest ob)) \<and>
     (ob_oldest ob \<noteq> ob_next ob \<longrightarrow> ob_pending ob (ob_oldest ob) \<noteq> None) \<and>
     ob_packet_size ob \<le> 32768 \<and>
     (\<forall>s. ob_packets ob s \<noteq> None \<longrightarrow> unat (ob_packet_next ob - 1 - s) < ob_packet_size ob)"

lemma outbox_of_ok:
  assumes "sender_ok nm rl"
  shows "outbox_ok (outbox_of rl)"
proof -
  note D = sender_okD[OF assms]
  note Q = send_queue_okD[OF D(1)]
  have w: "sb_window (rl_sent_packets rl)" using D(3) by (simp add: sent_ok_def)
  show ?thesis
    unfolding outbox_ok_def
    using Q(4,6,7,9) sb_windowD(4)[OF w] sb_window_cap[OF w]
    by (auto simp: outbox_of_def packet_record_def)
qed

locale ordered_sender =
  fixes nm :: "('m, 'e) network_message"
    and ok :: "'r \<Rightarrow> bool" and view :: "'r \<Rightarrow> 'm outbox"
    and limit :: "'r \<Rightarrow> nat" and budget :: "'r \<Rightarrow> usize \<Rightarrow> usize"
    and can_send :: "'r \<Rightarrow> panic + bool" and send :: "'r \<Rightarrow> 'm \<Rightarrow> panic + 'r"
    and emit :: "'r \<Rightarrow> usize \<Rightarrow> u16 \<Rightarrow> usize \<Rightarrow> panic + ('m channel_packet_data \<times> usize \<times> 'r)"
    and ack :: "'r \<Rightarrow> u16 \<Rightarrow> panic + 'r"
  assumes view_ok: "ok r \<Longrightarrow> outbox_ok (view r)"
    and can_send_room: "ok r \<Longrightarrow>
      can_send r = Inr (unat (ob_next (view r) - ob_oldest (view r)) < ob_size (view r))"
    and send_adds: "ok r \<Longrightarrow> can_send r = Inr True \<Longrightarrow> msg_measurable nm m \<Longrightarrow>
      \<exists>r'. send r m = Inr r' \<and> ok r' \<and> view r' = outbox_add (view r) m"
    and emit_chooses: "ok r \<Longrightarrow> 32 \<le> budget r available \<Longrightarrow>
      sequence_greater_than (s + 1) (ob_packet_next (view r)) \<Longrightarrow>
      \<exists>pd bits r' ids. emit r i s available = Inr (pd, bits, r') \<and> ok r' \<and>
        outbox_choice (view r) (limit r) ids \<and> emitted nm i s (view r) ids pd bits (view r') \<and>
        bits \<le> budget r available"
    and ack_removes: "ok r \<Longrightarrow> ob_packets (view r) a = Some (False, ids) \<Longrightarrow>
      \<exists>r' old. ack r a = Inr r' \<and> ok r' \<and>
        view r' = (view r)\<lparr>ob_oldest := old, ob_pending := ob_pending (view r) |` (- set ids),
                           ob_packets := (ob_packets (view r))(a \<mapsto> (True, ids))\<rparr>"
    and ack_unknown: "ok r \<Longrightarrow> ob_packets (view r) a = None \<Longrightarrow> ack r a = Inr r"
    and ack_again: "ok r \<Longrightarrow> ob_packets (view r) a = Some (True, ids) \<Longrightarrow> ack r a = Inl AssertionFailed"
begin

text \<open>An acknowledged message is not sent again.\<close>

lemma acked_not_resent:
  assumes "ok r" "ob_packets (view r) a = Some (False, ids)" "ack r a = Inr r'"
    and "outbox_choice (view r') mx ids'"
  shows "set ids' \<inter> set ids = {}"
  using ack_removes[OF assms(1,2)] assms(3,4) by (auto simp: outbox_choice_def restrict_map_def split: if_splits)

text \<open>Acknowledging the packet that carried the oldest message makes room, unless it was
  empty.\<close>

lemma ack_makes_room:
  assumes "ok r" "ob_packets (view r) a = Some (False, ids)" "ob_oldest (view r) \<in> set ids"
    and "ob_oldest (view r) \<noteq> ob_next (view r)"
  shows "\<exists>r'. ack r a = Inr r' \<and> ok r' \<and> can_send r' = Inr True"
proof -
  obtain r' old where r': "ack r a = Inr r'" "ok r'"
    and v: "view r' = (view r)\<lparr>ob_oldest := old, ob_pending := ob_pending (view r) |` (- set ids),
                           ob_packets := (ob_packets (view r))(a \<mapsto> (True, ids))\<rparr>"
    using ack_removes[OF assms(1,2)] by blast
  note before = view_ok[OF assms(1), unfolded outbox_ok_def]
    and after = view_ok[OF r'(2), unfolded outbox_ok_def v, simplified]
  let ?n = "ob_next (view r)" and ?o = "ob_oldest (view r)"
  have "unat (?n - old) < ob_size (view r)"
  proof (cases "old = ?n")
    case True
    have "0 < unat (?n - ?o)" using assms(4) by (simp add: unat_gt_0)
    then show ?thesis using True before by simp
  next
    case False
    then obtain m where "(ob_pending (view r) |` (- set ids)) old = Some m" using after by auto
    then have old: "old \<notin> set ids" "ob_pending (view r) old \<noteq> None"
      by (auto simp: restrict_map_def split: if_splits)
    then have "unat (old - ?o) < unat (?n - ?o)" "old \<noteq> ?o" using before assms(3) by auto
    then have "unat (?n - old) = unat (?n - ?o) - unat (old - ?o)" "0 < unat (old - ?o)"
      using u16_dist_split[of old ?o ?n] by (simp_all add: unat_gt_0)
    then show ?thesis using before \<open>unat (old - ?o) < unat (?n - ?o)\<close> by linarith
  qed
  with r' can_send_room[OF r'(2)] show ?thesis by (simp add: v)
qed

end

interpretation rls: ordered_sender nm "sender_ok nm" outbox_of
    "\<lambda>rl. cc_max_messages_per_packet (rl_config rl)" "\<lambda>rl. channel_budget (rl_config rl)"
    reliable_can_send_message "reliable_send_message nm" reliable_packet_data reliable_process_ack for nm
proof (unfold_locales, goal_cases)
  case (1 r)
  then show ?case by (rule outbox_of_ok)
next
  case (2 r)
  then show ?case by (rule can_send_result)
next
  case (3 r m)
  show ?case by (rule send_message_result[OF 3]) blast
next
  case (4 r available s i)
  show ?case by (rule packet_data_result[OF 4, of i]) blast
next
  case (5 r a ids)
  show ?case by (rule process_ack_result[OF 5]) blast
next
  case (6 r a)
  then show ?case by (rule process_ack_unknown(1))
next
  case (7 r a ids)
  then show ?case by (rule process_ack_unknown(2))
qed

section \<open>The properties of the sending side\<close>

text \<open>\<open>send_message\<close> appends to the window of unacknowledged messages exactly when the
  window is not full, which is what \<open>can_send_message\<close> answers; on a full window it panics.\<close>

theorem sender_accepts:
  assumes "sender_ok nm rl" "msg_measurable nm m"
  shows "if unat (rl_send_message_id rl - rl_oldest_unacked_message_id rl) < sb_capacity (rl_message_send_queue rl)
    then reliable_can_send_message rl = Inr True \<and>
         (\<exists>rl'. reliable_send_message nm rl m = Inr rl' \<and> sender_ok nm rl' \<and>
                outbox_of rl' = outbox_add (outbox_of rl) m)
    else reliable_can_send_message rl = Inr False \<and> reliable_send_message nm rl m = Inl AssertionFailed"
  using rls.can_send_room[OF assms(1)] rls.send_adds[OF assms(1) _ assms(2)]
    send_message_panics(1)[OF assms(1)]
  by (simp add: outbox_of_def)

lemma sender_emitting:
  assumes "sender_ok nm rl" "32 \<le> channel_budget (rl_config rl) available"
    and "sequence_greater_than (s + 1) (sb_sequence (rl_sent_packets rl))"
  shows "\<exists>pd bits rl' ids. reliable_packet_data rl channel_index s available = Inr (pd, bits, rl') \<and>
    sender_ok nm rl' \<and> outbox_choice (outbox_of rl) (cc_max_messages_per_packet (rl_config rl)) ids \<and>
    emitted nm channel_index s (outbox_of rl) ids pd bits (outbox_of rl') \<and>
    bits \<le> channel_budget (rl_config rl) available"
  by (rule rls.emit_chooses) (use assms in \<open>simp_all add: outbox_of_def\<close>)


text \<open>The oldest unacknowledged message leads the packet whenever its resend time has passed
  and it fits, so it is retransmitted until it is acknowledged.\<close>

theorem sender_retransmits_oldest:
  assumes "sender_ok nm rl" "reliable_has_messages_to_send rl"
    and "sb_lookup (rl_message_send_queue rl) (rl_oldest_unacked_message_id rl) = Some e"
    and "se_time_last_sent e + cc_message_resend_time (rl_config rl) \<le> rl_time rl"
    and "32 + (se_measured_bits e + 16) \<le> channel_budget (rl_config rl) available"
      "64 \<le> channel_budget (rl_config rl) available"
    and "0 < sb_capacity (rl_message_receive_queue rl)"
    and "reliable_packet_data rl channel_index s available = Inr (pd, bits, rl')"
  shows "\<exists>rest. pd_messages pd = (rl_oldest_unacked_message_id rl, se_message e) # rest"
  by (rule oldest_is_sent[OF assms(1-3) _ assms(5-8)]) (use assms(4) in \<open>simp add: entry_due_def\<close>)

text \<open>C14: \<open>process_ack\<close> removes exactly the messages the acknowledged packet carried and moves
  the oldest id to the first message still pending; it never panics on a packet that was not
  acknowledged before, ignores an unknown one, and panics on a second acknowledgement.\<close>

theorem sender_acks:
  assumes "sender_ok nm rl"
  shows "case ob_packets (outbox_of rl) a of
      None \<Rightarrow> reliable_process_ack rl a = Inr rl
    | Some (True, ids) \<Rightarrow> reliable_process_ack rl a = Inl AssertionFailed
    | Some (False, ids) \<Rightarrow> (\<exists>rl'. reliable_process_ack rl a = Inr rl' \<and> sender_ok nm rl' \<and>
        ob_next (outbox_of rl') = ob_next (outbox_of rl) \<and>
        ob_pending (outbox_of rl') = ob_pending (outbox_of rl) |` (- set ids) \<and>
        (ob_oldest (outbox_of rl') = ob_next (outbox_of rl') \<or>
         ob_pending (outbox_of rl') (ob_oldest (outbox_of rl')) \<noteq> None))"
proof (cases "ob_packets (outbox_of rl) a")
  case None
  then show ?thesis using rls.ack_unknown[OF assms] by simp
next
  case (Some p)
  obtain acked ids where p: "p = (acked, ids)" by (cases p)
  show ?thesis
  proof (cases acked)
    case True
    then show ?thesis using rls.ack_again[OF assms, of a ids] Some p by simp
  next
    case False
    then obtain rl' old where "reliable_process_ack rl a = Inr rl'" "sender_ok nm rl'"
      and "outbox_of rl' = (outbox_of rl)\<lparr>ob_oldest := old, ob_pending := ob_pending (outbox_of rl) |` (- set ids),
             ob_packets := (ob_packets (outbox_of rl))(a \<mapsto> (True, ids))\<rparr>"
      using rls.ack_removes[OF assms, of a ids] Some p by auto
    then show ?thesis using Some p False outbox_of_ok[of nm rl'] by (auto simp: outbox_ok_def)
  qed
qed

text \<open>An acknowledgement of the packet that carried the oldest message frees the send
  window: afterwards a message can be sent again.\<close>

theorem sender_ack_frees_window:
  assumes "sender_ok nm rl" "ob_packets (outbox_of rl) a = Some (False, ids)"
    and "rl_oldest_unacked_message_id rl \<in> set ids" "reliable_has_messages_to_send rl"
  shows "\<exists>rl'. reliable_process_ack rl a = Inr rl' \<and> sender_ok nm rl' \<and>
    reliable_can_send_message rl' = Inr True"
  by (rule rls.ack_makes_room[OF assms(1,2)])
    (use assms(3,4) has_messages_iff[of rl] in \<open>simp_all add: outbox_of_def\<close>)

subsection \<open>A concrete run\<close>

text \<open>Two messages are sent, then packet 0 is emitted with 200 bits of room.\<close>

definition demo_sending :: "u64 reliable" where
  "demo_sending = (case rbind (reliable_send_message test_message demo_reliable 42) (\<lambda>rl.
     reliable_send_message test_message rl 43) of Inr rl \<Rightarrow> rl | Inl _ \<Rightarrow> demo_reliable)"

definition demo_emitted :: "u64 reliable" where
  "demo_emitted = (case reliable_packet_data demo_sending 0 0 200 of
     Inr (_, _, rl) \<Rightarrow> rl | Inl _ \<Rightarrow> demo_sending)"

lemma demo_sender_ok: "sender_ok test_message demo_reliable"
  by (rule new_sender(1)[OF demo_reliable_new]) simp_all

lemma demo_sending_ok: "sender_ok test_message demo_sending"
proof -
  obtain rl where rl: "reliable_send_message test_message demo_reliable 42 = Inr rl" "sender_ok test_message rl"
    "outbox_of rl = outbox_add (outbox_of demo_reliable) 42"
    using rls.send_adds[OF demo_sender_ok, of 42] rls.can_send_room[OF demo_sender_ok]
      new_sender(2)[OF demo_reliable_new] by auto
  have "reliable_can_send_message rl = Inr True"
    using rls.can_send_room[OF rl(2)] rl(3) new_sender(2)[OF demo_reliable_new]
    by (simp add: outbox_add_def)
  from rls.send_adds[OF rl(2) this, of 43] rl(1) show ?thesis
    by (auto simp: demo_sending_def)
qed

lemma demo_sending_facts:
  "rl_config demo_sending = demo_reliable_config" "channel_budget demo_reliable_config 200 = 200"
  "sb_sequence (rl_sent_packets demo_sending) = 0" "reliable_has_messages_to_send demo_sending"
  "rl_oldest_unacked_message_id demo_sending = 0"
  "0 < sb_capacity (rl_message_receive_queue demo_sending)"
  by code_simp+

lemma demo_sending_oldest:
  "sb_get (rl_message_send_queue demo_sending) 0 = Inr (Some \<lparr>se_message_id = 0, se_message = 42,
     se_time_last_sent = f64_of_int (- 1), se_measured_bits = 64\<rparr>)"
  by code_simp

lemma demo_sending_room:
  "32 \<le> channel_budget (rl_config demo_sending) 200"
  "sequence_greater_than (0 + 1) (sb_sequence (rl_sent_packets demo_sending))"
  by (simp add: demo_sending_facts, simp only: demo_sending_facts sequence_greater_than_next)

lemma demo_emitted_run:
  "reliable_packet_data demo_sending 0 0 200 =
     Inr (\<lparr>pd_channel_index = 0, pd_messages = [(0, 42), (1, 43)]\<rparr>, 192, demo_emitted)"
  by code_simp

lemma demo_emitted_ok:
  "sender_ok test_message demo_emitted" "ob_packets (outbox_of demo_emitted) 0 = Some (False, [0, 1])"
proof -
  obtain pd bits rl ids where r: "reliable_packet_data demo_sending 0 0 200 = Inr (pd, bits, rl)"
    "sender_ok test_message rl" "emitted test_message 0 0 (outbox_of demo_sending) ids pd bits (outbox_of rl)"
    using sender_emitting[OF demo_sending_ok demo_sending_room] by blast
  then have rl: "rl = demo_emitted" and pd: "pd = \<lparr>pd_channel_index = 0, pd_messages = [(0, 42), (1, 43)]\<rparr>"
    using demo_emitted_run by auto
  show "sender_ok test_message demo_emitted" using r(2) rl by simp
  have "ids \<noteq> []" using r(3) pd by (auto simp: emitted_def cpd_empty_def split: if_splits)
  moreover from this have "map fst (pd_messages pd) = ids"
    using r(3) by (simp add: emitted_def comp_def)
  ultimately have "ids = [0, 1]" using pd by simp
  then show "ob_packets (outbox_of demo_emitted) 0 = Some (False, [0, 1])"
    using r(3) rl by (simp add: emitted_def outbox_emit_def)
qed

theorem sender_accepts_witness:
  "reliable_can_send_message demo_reliable = Inr True \<and>
   (\<exists>rl'. reliable_send_message test_message demo_reliable 42 = Inr rl' \<and> sender_ok test_message rl')"
proof -
  have "unat (rl_send_message_id demo_reliable - rl_oldest_unacked_message_id demo_reliable) <
      sb_capacity (rl_message_send_queue demo_reliable)" by code_simp
  with sender_accepts[OF demo_sender_ok test_message_measurable, of 42] show ?thesis by auto
qed


theorem packet_data_overflows_witness:
  "reliable_packet_data demo_sending 0 0 31 = Inl ArithmeticOverflow"
proof -
  have "channel_budget (rl_config demo_sending) 31 < 32" by code_simp
  then show ?thesis by (rule packet_data_overflows[OF demo_sending_ok demo_sending_facts(4) _ demo_sending_facts(6)])
qed

theorem sender_retransmits_oldest_witness:
  "\<exists>pd bits rl' rest. reliable_packet_data demo_sending 0 0 200 = Inr (pd, bits, rl') \<and>
     pd_messages pd = (0, 42) # rest"
proof -
  let ?e = "\<lparr>se_message_id = 0, se_message = 42, se_time_last_sent = f64_of_int (- 1), se_measured_bits = 64\<rparr>"
  have e: "sb_lookup (rl_message_send_queue demo_sending) (rl_oldest_unacked_message_id demo_sending) = Some ?e"
    using demo_sending_oldest sender_okD(4)[OF demo_sending_ok] by (simp add: sb_get_wf demo_sending_facts)
  have due: "se_time_last_sent ?e + cc_message_resend_time (rl_config demo_sending) \<le> rl_time demo_sending"
    by code_simp
  show ?thesis
    using sender_retransmits_oldest[OF demo_sending_ok demo_sending_facts(4) e due _ _
        demo_sending_facts(6) demo_emitted_run] demo_emitted_run
    by (simp add: demo_sending_facts)
qed

theorem sender_acks_witness:
  "\<exists>rl'. reliable_process_ack demo_emitted 0 = Inr rl' \<and> sender_ok test_message rl' \<and>
     ob_pending (outbox_of rl') 0 = None"
  using sender_acks[OF demo_emitted_ok(1), of 0] demo_emitted_ok(2) by (auto simp: restrict_map_def)

theorem sender_ack_frees_window_witness:
  "\<exists>rl'. reliable_process_ack demo_emitted 0 = Inr rl' \<and> reliable_can_send_message rl' = Inr True"
proof -
  have "rl_oldest_unacked_message_id demo_emitted = 0" "reliable_has_messages_to_send demo_emitted"
    by code_simp+
  with sender_ack_frees_window[OF demo_emitted_ok] show ?thesis by auto
qed

end
