(* ===== verification/Reliable_Receiver.thy ===== *)
theory Reliable_Receiver
  imports Reliable
begin

text \<open>
  The receiving half of the reliable channel (\<open>process_packet_data\<close> and \<open>receive_message\<close> of
  \<open>src/channel/reliable.rs\<close>) against its contract: a number, the next message to hand out,
  and the messages that have arrived ahead of it.
\<close>

section \<open>The contract\<close>

record 'm inbox =
  ib_size :: nat
  ib_next :: u16
  ib_pending :: "u16 \<Rightarrow> 'm option"

datatype verdict = Stale | Acceptable | TooNew

text \<open>An arriving message is stale, inside the receive window, or too new to be kept.\<close>

definition inbox_verdict :: "'m inbox \<Rightarrow> u16 \<Rightarrow> verdict" where
  "inbox_verdict ib mid =
     (if unat (mid - ib_next ib) < ib_size ib then Acceptable
      else if sequence_less_than mid (ib_next ib) then Stale else TooNew)"

fun inbox_accept :: "'m inbox \<Rightarrow> u16 \<times> 'm \<Rightarrow> 'm inbox" where
  "inbox_accept ib (mid, m) =
     (if inbox_verdict ib mid = Acceptable then ib\<lparr>ib_pending := (ib_pending ib)(mid \<mapsto> m)\<rparr> else ib)"

definition inbox_pop :: "'m inbox \<Rightarrow> (u16 \<times> 'm) option \<times> 'm inbox" where
  "inbox_pop ib =
     (case ib_pending ib (ib_next ib) of
        None \<Rightarrow> (None, ib)
      | Some m \<Rightarrow> (Some (ib_next ib, m),
          ib\<lparr>ib_next := ib_next ib + 1, ib_pending := (ib_pending ib)(ib_next ib := None)\<rparr>))"

definition inbox_clear :: "'m inbox \<Rightarrow> 'm inbox" where
  "inbox_clear ib = ib\<lparr>ib_next := 0, ib_pending := (\<lambda>_. None)\<rparr>"

lemma inbox_accept_simps [simp]:
  "ib_size (inbox_accept ib x) = ib_size ib" "ib_next (inbox_accept ib x) = ib_next ib"
  by (cases x; simp)+

lemma inbox_verdict_accept [simp]: "inbox_verdict (inbox_accept ib x) mid = inbox_verdict ib mid"
  by (simp add: inbox_verdict_def)

section \<open>The state behind it\<close>

definition receive_queue_ok :: "u16 \<Rightarrow> 'm message_receive_queue_entry sequence_buffer \<Rightarrow> bool" where
  "receive_queue_ok r q \<longleftrightarrow> sb_window q \<and> sb_capacity q \<le> 16384 \<and>
     unat (sb_sequence q - r) \<le> sb_capacity q \<and>
     (\<forall>s e. sb_lookup q s = Some e \<longrightarrow>
        re_message_id e = s \<and> unat (s - r) < unat (sb_sequence q - r))"

definition receiver_ok :: "'m reliable \<Rightarrow> bool" where
  "receiver_ok rl \<longleftrightarrow> receive_queue_ok (rl_receive_message_id rl) (rl_message_receive_queue rl)"

definition queue_pending :: "'m message_receive_queue_entry sequence_buffer \<Rightarrow> u16 \<Rightarrow> 'm option" where
  "queue_pending q s = map_option re_message (sb_lookup q s)"

definition inbox_of :: "'m reliable \<Rightarrow> 'm inbox" where
  "inbox_of rl =
     \<lparr>ib_size = sb_capacity (rl_message_receive_queue rl), ib_next = rl_receive_message_id rl,
      ib_pending = queue_pending (rl_message_receive_queue rl)\<rparr>"

text \<open>The two comparisons of \<open>process_packet_data\<close> decide the verdict.\<close>

lemma verdict_comparisons:
  assumes "2 \<le> n" "n \<le> 16384"
  shows "sequence_less_than mid r \<longleftrightarrow> \<not> unat (mid - r) < n \<and> sequence_less_than mid r"
    and "\<not> sequence_less_than mid r \<Longrightarrow>
      sequence_greater_than mid (r + of_nat (n - 1)) \<longleftrightarrow> n \<le> unat (mid - r)"
proof -
  have less: "sequence_less_than mid r \<Longrightarrow> 32768 \<le> unat (mid - r)"
  proof -
    assume "sequence_less_than mid r"
    then have "0 < unat (r - mid)" "unat (r - mid) \<le> 32768"
      by (auto simp: sequence_less_than_def sequence_greater_than_dist)
    moreover from this have "r \<noteq> mid" by auto
    ultimately show ?thesis using unat_neg_diff[of r mid] by simp
  qed
  then show "sequence_less_than mid r \<longleftrightarrow> \<not> unat (mid - r) < n \<and> sequence_less_than mid r"
    using assms by fastforce
  assume "\<not> sequence_less_than mid r"
  then have d: "unat (mid - r) \<le> 32768"
    using unat_neg_diff[of mid r] unat_u16_less[of "mid - r"]
    by (cases "mid = r") (auto simp: sequence_less_than_def sequence_greater_than_dist)
  have top: "unat (r + of_nat (n - 1) - r) = n - 1"
    using assms by (intro u16_dist_of_nat) simp
  show "sequence_greater_than mid (r + of_nat (n - 1)) \<longleftrightarrow> n \<le> unat (mid - r)"
  proof (cases "n - 1 \<le> unat (mid - r)")
    case True
    then have "unat (mid - (r + of_nat (n - 1))) = unat (mid - r) - (n - 1)"
      using u16_dist_split[of "r + of_nat (n - 1)" r mid] top by simp
    with True d assms show ?thesis by (auto simp: sequence_greater_than_dist)
  next
    case False
    then have "unat (mid - (r + of_nat (n - 1))) = 65536 - (n - 1 - unat (mid - r))"
      using u16_dist_split'[of mid r "r + of_nat (n - 1)"] top by simp
    with False assms show ?thesis by (auto simp: sequence_greater_than_dist)
  qed
qed

section \<open>Every operation refines the contract\<close>

lemma receive_queue_insert:
  assumes ok: "receive_queue_ok r q" and d: "unat (mid - r) < sb_capacity q"
  obtains q' where
    "sb_insert_with q mid (\<lambda>_. Inr (\<lparr>re_message_id = mid, re_message = m\<rparr>, ())) () = Inr (True, q', ())"
    "receive_queue_ok r q'" "sb_capacity q' = sb_capacity q"
    "queue_pending q' = (queue_pending q)(mid \<mapsto> m)"
proof -
  let ?e = "\<lparr>re_message_id = mid, re_message = m\<rparr>" and ?p = "sb_sequence q" and ?c = "sb_capacity q"
  have w: "sb_window q" and cap: "?c \<le> 16384" and pr: "unat (?p - r) \<le> ?c"
    and live: "\<And>s e. sb_lookup q s = Some e \<Longrightarrow> re_message_id e = s \<and> unat (s - r) < unat (?p - r)"
    using ok by (auto simp: receive_queue_ok_def)
  have next_d: "unat (mid + 1 - r) = unat (mid - r) + 1"
    using d cap by (intro u16_dist_next) simp
  show ?thesis
  proof (cases "unat (mid - r) < unat (?p - r)")
    case True
    have "unat (?p - 1 - mid) < ?c"
    proof -
      have "unat (?p - (mid + 1)) = unat (?p - r) - (unat (mid - r) + 1)"
        using u16_dist_split[of "mid + 1" r ?p] next_d True by simp
      moreover have "?p - (mid + 1) = ?p - 1 - mid" by simp
      ultimately show ?thesis using pr sb_windowD(3)[OF w] by simp
    qed
    then have inside: "sb_in_window q mid" by (simp add: sb_in_window_def)
    have "\<not> sequence_greater_than (mid + 1) ?p"
    proof (cases "unat (mid + 1 - r) = unat (?p - r)")
      case True
      then show ?thesis using u16_dist_split[of "mid + 1" r ?p] by (simp add: sequence_greater_than_dist unat_eq_0)
    next
      case False
      then have "unat (mid + 1 - r) < unat (?p - r)" using True next_d by simp
      then have "unat (mid + 1 - ?p) = 65536 - (unat (?p - r) - unat (mid + 1 - r))"
        by (rule u16_dist_split')
      then show ?thesis using pr cap by (auto simp add: sequence_greater_than_dist)
    qed
    with inside have ins: "sb_insert_with q mid (\<lambda>_. Inr (?e, ())) () = Inr (True, sb_inserted q mid ?e, ())"
      by (simp add: sb_insert_with_window[OF w])
    note I = sb_inserted_window[OF w disjI2[OF inside], of ?e]
    have lk: "sb_lookup (sb_inserted q mid ?e) = (sb_lookup q)(mid \<mapsto> ?e)"
      using I(4) \<open>\<not> sequence_greater_than (mid + 1) ?p\<close> by (auto simp: fun_eq_iff)
    show ?thesis
    proof (rule that[OF ins])
      show "receive_queue_ok r (sb_inserted q mid ?e)"
        using I(1-3) \<open>\<not> sequence_greater_than (mid + 1) ?p\<close> cap pr live True
        by (auto simp: receive_queue_ok_def lk split: if_splits)
      show "queue_pending (sb_inserted q mid ?e) = (queue_pending q)(mid \<mapsto> m)"
        by (auto simp: queue_pending_def lk fun_eq_iff)
    qed (rule I(2))
  next
    case False
    have "unat (mid + 1 - ?p) = unat (mid - r) + 1 - unat (?p - r)"
      using u16_dist_split[of ?p r "mid + 1"] next_d False by simp
    then have newer: "sequence_greater_than (mid + 1) ?p"
      using False d cap by (intro sequence_greater_than_near) auto
    then have ins: "sb_insert_with q mid (\<lambda>_. Inr (?e, ())) () = Inr (True, sb_inserted q mid ?e, ())"
      by (simp add: sb_insert_with_window[OF w])
    note I = sb_inserted_window[OF w disjI1[OF newer], of ?e]
    have near: "unat (mid - s) < ?c" if "sb_lookup q s = Some e" for s e
      using live[OF that] False d u16_dist_split[of s r mid] by simp
    have lk: "sb_lookup (sb_inserted q mid ?e) = (sb_lookup q)(mid \<mapsto> ?e)"
    proof
      fix s
      show "sb_lookup (sb_inserted q mid ?e) s = ((sb_lookup q)(mid \<mapsto> ?e)) s"
        using near[of s] unfolding I(4) by (cases "sb_lookup q s") simp_all
    qed
    show ?thesis
    proof (rule that[OF ins])
      show "receive_queue_ok r (sb_inserted q mid ?e)"
        using I(1-3) newer cap live False d next_d
        by (fastforce simp: receive_queue_ok_def lk split: if_splits)
      show "queue_pending (sb_inserted q mid ?e) = (queue_pending q)(mid \<mapsto> m)"
        by (auto simp: queue_pending_def lk fun_eq_iff)
    qed (rule I(2))
  qed
qed

text \<open>The loop body, then the loop, of \<open>process_packet_data\<close>.\<close>

definition receive_step ::
  "u16 \<Rightarrow> u16 \<Rightarrow> 'm message_receive_queue_entry sequence_buffer \<Rightarrow> u16 \<times> 'm
     \<Rightarrow> panic + 'm message_receive_queue_entry sequence_buffer" where
  "receive_step mn mx = (\<lambda>queue (mid, message).
         if sequence_less_than mid mn then Inr queue
         else if sequence_greater_than mid mx then Inl DesyncTooNew
         else rbind (sb_insert_with queue mid
                (\<lambda>_. Inr (\<lparr>re_message_id = mid, re_message = message\<rparr>, ())) ()) (\<lambda>(result, queue, _).
              if \<not> result then Inl DesyncTooOld else Inr queue))"

definition inbox_at :: "u16 \<Rightarrow> 'm message_receive_queue_entry sequence_buffer \<Rightarrow> 'm inbox" where
  "inbox_at r q = \<lparr>ib_size = sb_capacity q, ib_next = r, ib_pending = queue_pending q\<rparr>"

lemma receive_step_cases:
  assumes ok: "receive_queue_ok r q"
  shows "inbox_verdict (inbox_at r q) mid = TooNew \<Longrightarrow>
      receive_step r (r + of_nat (sb_capacity q - 1)) q (mid, m) = Inl DesyncTooNew"
    and "inbox_verdict (inbox_at r q) mid \<noteq> TooNew \<Longrightarrow>
      \<exists>q'. receive_step r (r + of_nat (sb_capacity q - 1)) q (mid, m) = Inr q' \<and>
        receive_queue_ok r q' \<and> sb_capacity q' = sb_capacity q \<and>
        inbox_at r q' = inbox_accept (inbox_at r q) (mid, m)"
proof -
  have c: "2 \<le> sb_capacity q" "sb_capacity q \<le> 16384"
    using ok sb_windowD(3) by (auto simp: receive_queue_ok_def)
  note V = verdict_comparisons[OF c, of mid r]
  show "receive_step r (r + of_nat (sb_capacity q - 1)) q (mid, m) = Inl DesyncTooNew"
    if "inbox_verdict (inbox_at r q) mid = TooNew"
    using that V by (simp add: inbox_verdict_def inbox_at_def receive_step_def split: if_splits)
  assume not_new: "inbox_verdict (inbox_at r q) mid \<noteq> TooNew"
  show "\<exists>q'. receive_step r (r + of_nat (sb_capacity q - 1)) q (mid, m) = Inr q' \<and>
        receive_queue_ok r q' \<and> sb_capacity q' = sb_capacity q \<and>
        inbox_at r q' = inbox_accept (inbox_at r q) (mid, m)"
  proof (cases "unat (mid - r) < sb_capacity q")
    case True
    obtain q' where "sb_insert_with q mid (\<lambda>_. Inr (\<lparr>re_message_id = mid, re_message = m\<rparr>, ())) ()
        = Inr (True, q', ())" "receive_queue_ok r q'" "sb_capacity q' = sb_capacity q"
      "queue_pending q' = (queue_pending q)(mid \<mapsto> m)"
      using receive_queue_insert[OF ok True] by blast
    moreover have "\<not> sequence_less_than mid r"
      "\<not> sequence_greater_than mid (r + of_nat (sb_capacity q - 1))"
      using V True by auto
    ultimately show ?thesis using True by (simp add: inbox_verdict_def inbox_at_def receive_step_def)
  next
    case False
    then have "sequence_less_than mid r"
      using not_new by (simp add: inbox_verdict_def inbox_at_def split: if_splits)
    with False ok show ?thesis by (simp add: inbox_verdict_def inbox_at_def receive_step_def)
  qed
qed

lemma receive_loop_refines:
  assumes "receive_queue_ok r q" "n = sb_capacity q"
  shows "if \<exists>x \<in> set ms. inbox_verdict (inbox_at r q) (fst x) = TooNew
     then rfold (receive_step r (r + of_nat (n - 1))) q ms = Inl DesyncTooNew
     else \<exists>q'. rfold (receive_step r (r + of_nat (n - 1))) q ms = Inr q' \<and>
        receive_queue_ok r q' \<and> sb_capacity q' = sb_capacity q \<and>
        inbox_at r q' = foldl inbox_accept (inbox_at r q) ms"
  using assms
proof (induction ms arbitrary: q)
  case Nil
  then show ?case by auto
next
  case (Cons x ms)
  obtain mid m where x: "x = (mid, m)" by (cases x)
  note step = receive_step_cases[OF Cons.prems(1), of mid m, folded Cons.prems(2)]
  show ?case
  proof (cases "inbox_verdict (inbox_at r q) mid = TooNew")
    case True
    with step(1) show ?thesis by (simp add: x)
  next
    case False
    then obtain q' where q': "receive_step r (r + of_nat (n - 1)) q (mid, m) = Inr q'"
      "receive_queue_ok r q'" "sb_capacity q' = n"
      "inbox_at r q' = inbox_accept (inbox_at r q) (mid, m)"
      using step(2) by blast
    have "\<And>mid'. inbox_verdict (inbox_at r q') mid' = inbox_verdict (inbox_at r q) mid'"
      unfolding q'(4) by (rule inbox_verdict_accept)
    then have "(\<exists>x \<in> set (x # ms). inbox_verdict (inbox_at r q) (fst x) = TooNew) \<longleftrightarrow>
        (\<exists>x \<in> set ms. inbox_verdict (inbox_at r q') (fst x) = TooNew)"
      using False by (simp add: x)
    moreover have "rfold (receive_step r (r + of_nat (n - 1))) q (x # ms) =
        rfold (receive_step r (r + of_nat (n - 1))) q' ms"
      by (simp only: rfold.simps x q'(1) rbind.simps)
    moreover have "foldl inbox_accept (inbox_at r q) (x # ms) = foldl inbox_accept (inbox_at r q') ms"
      by (simp only: foldl.simps x q'(4))
    moreover have "sb_capacity q = sb_capacity q'" using q'(3) Cons.prems(2) by simp
    ultimately show ?thesis using Cons.IH[OF q'(2) q'(3)[symmetric]] by (simp only:)
  qed
qed

lemma inbox_of_at: "inbox_of rl = inbox_at (rl_receive_message_id rl) (rl_message_receive_queue rl)"
  by (simp add: inbox_of_def inbox_at_def)

text \<open>The two halves of \<open>process_packet_data\<close>: the packet is taken, or it names a message the
  window has no room for.\<close>

lemma receive_step_loop:
  "reliable_process_packet_data rl packet_data packet_sequence =
     rbind (checked_sub (sb_capacity (rl_message_receive_queue rl)) 1) (\<lambda>cap1.
     rbind (rfold (receive_step (rl_receive_message_id rl) (rl_receive_message_id rl + of_nat cap1))
       (rl_message_receive_queue rl) (pd_messages packet_data)) (\<lambda>queue.
     Inr (rl\<lparr>rl_message_receive_queue := queue\<rparr>)))"
  by (simp add: reliable_process_packet_data_def receive_step_def Let_def)

lemma process_packet_data_too_new:
  assumes "receiver_ok rl" "x \<in> set (pd_messages pd)" "inbox_verdict (inbox_of rl) (fst x) = TooNew"
  shows "reliable_process_packet_data rl pd s = Inl DesyncTooNew"
proof -
  have ok: "receive_queue_ok (rl_receive_message_id rl) (rl_message_receive_queue rl)"
    using assms(1) by (simp add: receiver_ok_def)
  then have "2 \<le> sb_capacity (rl_message_receive_queue rl)"
    using sb_windowD(3) by (auto simp: receive_queue_ok_def)
  with receive_loop_refines[OF ok refl, of "pd_messages pd"] assms(2,3) show ?thesis
    by (auto simp: receive_step_loop inbox_of_at split: if_splits)
qed

lemma process_packet_data_accepts:
  assumes "receiver_ok rl" "\<And>x. x \<in> set (pd_messages pd) \<Longrightarrow> inbox_verdict (inbox_of rl) (fst x) \<noteq> TooNew"
  obtains q where "reliable_process_packet_data rl pd s = Inr (rl\<lparr>rl_message_receive_queue := q\<rparr>)"
    "receiver_ok (rl\<lparr>rl_message_receive_queue := q\<rparr>)"
    "inbox_of (rl\<lparr>rl_message_receive_queue := q\<rparr>) = foldl inbox_accept (inbox_of rl) (pd_messages pd)"
proof -
  have ok: "receive_queue_ok (rl_receive_message_id rl) (rl_message_receive_queue rl)"
    using assms(1) by (simp add: receiver_ok_def)
  then have "2 \<le> sb_capacity (rl_message_receive_queue rl)"
    using sb_windowD(3) by (auto simp: receive_queue_ok_def)
  with receive_loop_refines[OF ok refl, of "pd_messages pd"] assms(2) that show ?thesis
    by (fastforce simp: receive_step_loop inbox_of_at receiver_ok_def split: if_splits)
qed

lemma receive_queue_take:
  assumes ok: "receive_queue_ok r q" and e: "sb_lookup q r = Some e"
  obtains q' where "sb_take q r = Inr (Some e, q')" "receive_queue_ok (r + 1) q'"
    "sb_capacity q' = sb_capacity q" "queue_pending q' = (queue_pending q)(r := None)"
proof -
  have w: "sb_window q" and cap: "sb_capacity q \<le> 16384" and pr: "unat (sb_sequence q - r) \<le> sb_capacity q"
    and live: "\<And>s e. sb_lookup q s = Some e \<Longrightarrow>
      re_message_id e = s \<and> unat (s - r) < unat (sb_sequence q - r)"
    using ok by (auto simp: receive_queue_ok_def)
  obtain q' where q': "sb_take q r = Inr (Some e, q')" "sb_wf q'" "sb_lookup q' = (sb_lookup q)(r := None)"
    "sb_capacity q' = sb_capacity q" "sb_sequence q' = sb_sequence q"
    using sb_take_wf[OF sb_windowD(1)[OF w], of r] unfolding e by blast
  note one = u16_dist_pred
  have pos: "sb_sequence q \<noteq> r" using live[OF e] by auto
  have window: "sb_window q'" using w q' by (auto simp: sb_window_def)
  have nz: "unat (s - r) \<noteq> 0" if "s \<noteq> r" for s using that by (simp add: unat_eq_0)
  have "receive_queue_ok (r + 1) q'"
    unfolding receive_queue_ok_def q'(3-5)
  proof (intro conjI allI impI)
    fix s v assume "((sb_lookup q)(r := None)) s = Some v"
    then have "s \<noteq> r" "sb_lookup q s = Some v" by (auto split: if_splits)
    with live[of s v] nz[of s] show "re_message_id v = s"
      "unat (s - (r + 1)) < unat (sb_sequence q - (r + 1))"
      by (auto simp: one pos)
  qed (use window cap pr in \<open>simp_all add: one[OF pos]\<close>)
  with q' show ?thesis by (intro that[of q']) (auto simp: queue_pending_def fun_eq_iff)
qed

lemma receive_message_refines:
  assumes "receiver_ok rl"
  obtains rl' where "reliable_receive_message rl = Inr (fst (inbox_pop (inbox_of rl)), rl')"
    "receiver_ok rl'" "inbox_of rl' = snd (inbox_pop (inbox_of rl))"
    "rl' = rl\<lparr>rl_message_receive_queue := rl_message_receive_queue rl',
              rl_receive_message_id := rl_receive_message_id rl'\<rparr>"
proof -
  let ?r = "rl_receive_message_id rl" and ?q = "rl_message_receive_queue rl"
  have ok: "receive_queue_ok ?r ?q" using assms by (simp add: receiver_ok_def)
  then have w: "sb_window ?q" by (simp add: receive_queue_ok_def)
  show ?thesis
  proof (cases "sb_lookup ?q ?r")
    case None
    obtain q' where "sb_take ?q ?r = Inr (None, q')" "sb_wf q'" "sb_lookup q' = (sb_lookup ?q)(?r := None)"
      "sb_capacity q' = sb_capacity ?q" "sb_sequence q' = sb_sequence ?q"
      using sb_take_wf[OF sb_windowD(1)[OF w], of ?r] unfolding None by blast
    moreover have "(sb_lookup ?q)(?r := None) = sb_lookup ?q" using None by (simp add: fun_eq_iff)
    ultimately show ?thesis using ok None w
      by (intro that[of "rl\<lparr>rl_message_receive_queue := q'\<rparr>"])
        (auto simp: reliable_receive_message_def inbox_pop_def inbox_of_def queue_pending_def
          receiver_ok_def receive_queue_ok_def sb_window_def fun_eq_iff)
  next
    case (Some e)
    obtain q' where q': "sb_take ?q ?r = Inr (Some e, q')" "receive_queue_ok (?r + 1) q'"
      "sb_capacity q' = sb_capacity ?q" "queue_pending q' = (queue_pending ?q)(?r := None)"
      by (rule receive_queue_take[OF ok Some])
    have "re_message_id e = ?r" using ok Some by (auto simp: receive_queue_ok_def)
    with q' Some show ?thesis
      by (intro that[of "rl\<lparr>rl_message_receive_queue := q', rl_receive_message_id := ?r + 1\<rparr>"])
        (auto simp: reliable_receive_message_def inbox_pop_def inbox_of_def queue_pending_def receiver_ok_def)
  qed
qed

lemma reset_receiver:
  assumes "receiver_ok rl"
  shows "receiver_ok (reliable_reset rl)" "inbox_of (reliable_reset rl) = inbox_clear (inbox_of rl)"
proof -
  have w: "sb_window (rl_message_receive_queue rl)"
    using assms by (simp add: receiver_ok_def receive_queue_ok_def)
  then show "receiver_ok (reliable_reset rl)"
    using assms sbw.clear_all[OF w]
    by (auto simp: receiver_ok_def receive_queue_ok_def reliable_reset_def sb_sequence_pointer_def)
  show "inbox_of (reliable_reset rl) = inbox_clear (inbox_of rl)"
    using sb_reset_lookup[OF sb_windowD(1)[OF w]]
    by (auto simp: inbox_of_def inbox_clear_def reliable_reset_def queue_pending_def fun_eq_iff)
qed

text \<open>A configuration whose receive queue is a power of two of at least 2 and at most 16384.\<close>

lemma new_receiver:
  assumes "reliable_new config t = Inr rl" "2 \<le> cc_message_receive_queue_size config"
    "cc_message_receive_queue_size config \<le> 16384" "cc_message_receive_queue_size config dvd 65536"
  shows "receiver_ok rl"
    "inbox_of rl = \<lparr>ib_size = cc_message_receive_queue_size config, ib_next = 0, ib_pending = (\<lambda>_. None)\<rparr>"
proof -
  obtain q where q: "sb_new (cc_message_receive_queue_size config) = Inr q"
    "rl_message_receive_queue rl = q" "rl_receive_message_id rl = 0"
    using assms(1) by (auto simp: reliable_new_def rbind_eq_Inr split: if_splits)
  note new = sb_new_wf[OF q(1)]
  have "sb_window q" using sb_new_window[OF q(1)] assms by simp
  with new assms show "receiver_ok rl"
    by (simp add: receiver_ok_def receive_queue_ok_def q)
  show "inbox_of rl = \<lparr>ib_size = cc_message_receive_queue_size config, ib_next = 0, ib_pending = (\<lambda>_. None)\<rparr>"
    using new assms by (simp add: inbox_of_def q queue_pending_def fun_eq_iff)
qed

section \<open>The interface\<close>

text \<open>What the connection and the end to end argument use of a receiving side.\<close>

lemma inbox_accept_fold_simps [simp]:
  "ib_size (foldl inbox_accept ib ms) = ib_size ib" "ib_next (foldl inbox_accept ib ms) = ib_next ib"
  by (induction ms arbitrary: ib) simp_all

lemma inbox_verdict_fold [simp]:
  "inbox_verdict (foldl inbox_accept ib ms) mid = inbox_verdict ib mid"
  by (simp add: inbox_verdict_def)

lemma inbox_pending_accept:
  "ib_pending (inbox_accept ib x) s =
     (if s = fst x \<and> inbox_verdict ib s = Acceptable then Some (snd x) else ib_pending ib s)"
  by (cases x) (auto simp: fun_upd_def)

lemma inbox_pending_fold:
  "ib_pending (foldl inbox_accept ib ms) s =
     (case map_of (rev ms) s of
        Some m \<Rightarrow> if inbox_verdict ib s = Acceptable then Some m else ib_pending ib s
      | None \<Rightarrow> ib_pending ib s)"
  by (induction ms rule: rev_induct)
    (auto simp del: inbox_accept.simps simp: inbox_pending_accept split: option.splits)

lemma inbox_fold_idem:
  "foldl inbox_accept (foldl inbox_accept ib ms) ms = foldl inbox_accept ib ms"
proof (rule inbox.equality)
  show "ib_pending (foldl inbox_accept (foldl inbox_accept ib ms) ms) =
      ib_pending (foldl inbox_accept ib ms)"
    by (rule ext) (simp add: inbox_pending_fold split: option.splits)
qed simp_all

locale ordered_receiver =
  fixes ok :: "'r \<Rightarrow> bool" and view :: "'r \<Rightarrow> 'm inbox"
    and deliver :: "'r \<Rightarrow> 'm channel_packet_data \<Rightarrow> u16 \<Rightarrow> panic + 'r"
    and pop :: "'r \<Rightarrow> panic + ((u16 \<times> 'm) option \<times> 'r)"
  assumes deliver_accepts: "ok r \<Longrightarrow>
      (\<And>x. x \<in> set (pd_messages pd) \<Longrightarrow> inbox_verdict (view r) (fst x) \<noteq> TooNew) \<Longrightarrow>
      \<exists>r'. deliver r pd s = Inr r' \<and> ok r' \<and> view r' = foldl inbox_accept (view r) (pd_messages pd)"
    and deliver_rejects: "ok r \<Longrightarrow> x \<in> set (pd_messages pd) \<Longrightarrow>
      inbox_verdict (view r) (fst x) = TooNew \<Longrightarrow> deliver r pd s = Inl DesyncTooNew"
    and pop_step: "ok r \<Longrightarrow>
      \<exists>r'. pop r = Inr (fst (inbox_pop (view r)), r') \<and> ok r' \<and> view r' = snd (inbox_pop (view r))"
begin

lemma deliver_result:
  assumes "ok r" "deliver r pd s = Inr r'"
  shows "ok r'" "view r' = foldl inbox_accept (view r) (pd_messages pd)"
    "\<And>x. x \<in> set (pd_messages pd) \<Longrightarrow> inbox_verdict (view r) (fst x) \<noteq> TooNew"
proof -
  show not_new: "\<And>x. x \<in> set (pd_messages pd) \<Longrightarrow> inbox_verdict (view r) (fst x) \<noteq> TooNew"
    using deliver_rejects[OF assms(1)] assms(2) by fastforce
  show "ok r'" "view r' = foldl inbox_accept (view r) (pd_messages pd)"
    using deliver_accepts[OF assms(1) not_new, of pd s] assms(2) by auto
qed

lemma deliver_twice:
  assumes "ok r" "deliver r pd s = Inr r1"
  shows "\<exists>r2. deliver r1 pd s' = Inr r2 \<and> ok r2 \<and> view r2 = view r1"
proof -
  note first = deliver_result[OF assms]
  have "inbox_verdict (view r1) (fst x) \<noteq> TooNew" if "x \<in> set (pd_messages pd)" for x
    using first(3)[OF that] by (simp add: first(2))
  from deliver_accepts[OF first(1) this, of pd s'] show ?thesis
    by (auto simp: first(2) inbox_fold_idem)
qed

lemma pop_result:
  assumes "ok r" "pop r = Inr (x, r')"
  shows "ok r'" "x = fst (inbox_pop (view r))" "view r' = snd (inbox_pop (view r))"
  using pop_step[OF assms(1)] assms(2) by auto

end

interpretation rlr: ordered_receiver receiver_ok inbox_of reliable_process_packet_data reliable_receive_message
proof (unfold_locales, goal_cases)
  case (1 r pd s)
  then show ?case by (metis process_packet_data_accepts)
next
  case (2 r x pd s)
  then show ?case by (rule process_packet_data_too_new)
next
  case (3 r)
  then show ?case by (metis receive_message_refines)
qed

section \<open>The properties of the receiving side\<close>

text \<open>C15: The receiving side refines the inbox: a packet whose messages are all stale or inside
  the window is taken, its acceptable messages becoming pending, and a packet with a message
  beyond the window panics with the first desync error. The second desync error, an insertion
  that the queue refuses, cannot happen.\<close>

theorem receiver_takes_packet:
  assumes "receiver_ok rl"
  shows "if \<forall>x \<in> set (pd_messages pd). inbox_verdict (inbox_of rl) (fst x) \<noteq> TooNew
    then \<exists>rl'. reliable_process_packet_data rl pd s = Inr rl' \<and> receiver_ok rl' \<and>
           inbox_of rl' = foldl inbox_accept (inbox_of rl) (pd_messages pd)
    else reliable_process_packet_data rl pd s = Inl DesyncTooNew"
  using rlr.deliver_accepts[OF assms, of pd s] rlr.deliver_rejects[OF assms, of _ pd s] by auto

text \<open>C17: \<open>receive_message\<close> never panics and hands out exactly the message whose turn it is,
  with its id, and only then moves on; it returns nothing and changes nothing while that
  message is missing, even when later ones have arrived.\<close>

theorem receiver_hands_out_in_order:
  assumes "receiver_ok rl"
  shows "\<exists>rl'. reliable_receive_message rl = Inr (fst (inbox_pop (inbox_of rl)), rl') \<and>
    receiver_ok rl' \<and> inbox_of rl' = snd (inbox_pop (inbox_of rl))"
  by (rule rlr.pop_step[OF assms])

text \<open>A packet that arrives a second time is taken again and changes nothing the receiver
  will ever hand out.\<close>

theorem receiver_ignores_duplicate:
  assumes "receiver_ok rl" "reliable_process_packet_data rl pd s = Inr rl1"
  shows "\<exists>rl2. reliable_process_packet_data rl1 pd s' = Inr rl2 \<and> receiver_ok rl2 \<and>
    inbox_of rl2 = inbox_of rl1"
  by (rule rlr.deliver_twice[OF assms])

lemma demo_receiver_ok: "receiver_ok demo_reliable"
  by (rule new_receiver(1)[OF demo_reliable_new]) simp_all

lemma demo_inbox: "inbox_of demo_reliable = \<lparr>ib_size = 4, ib_next = 0, ib_pending = (\<lambda>_. None)\<rparr>"
  using new_receiver(2)[OF demo_reliable_new] by simp

theorem receiver_takes_packet_witness:
  "\<exists>rl'. reliable_process_packet_data demo_reliable \<lparr>pd_channel_index = 0, pd_messages = [(1, 7)]\<rparr> 0
     = Inr rl' \<and> receiver_ok rl' \<and> ib_pending (inbox_of rl') 1 = Some 7"
  using receiver_takes_packet[OF demo_receiver_ok,
      of "\<lparr>pd_channel_index = 0, pd_messages = [(1, 7)]\<rparr>" 0]
  by (auto simp: demo_inbox inbox_verdict_def)

theorem receiver_hands_out_in_order_witness:
  "\<exists>rl'. reliable_receive_message demo_reliable = Inr (None, rl') \<and> receiver_ok rl'"
  using receiver_hands_out_in_order[OF demo_receiver_ok]
  by (auto simp: demo_inbox inbox_pop_def)

theorem receiver_ignores_duplicate_witness:
  "\<exists>rl1 rl2. reliable_process_packet_data demo_reliable
       \<lparr>pd_channel_index = 0, pd_messages = [(1, 7), (0, 9)]\<rparr> 0 = Inr rl1 \<and>
     reliable_process_packet_data rl1 \<lparr>pd_channel_index = 0, pd_messages = [(1, 7), (0, 9)]\<rparr> 0 = Inr rl2 \<and>
     inbox_of rl2 = inbox_of rl1"
proof -
  let ?pd = "\<lparr>pd_channel_index = 0, pd_messages = [(1, 7), (0, 9)]\<rparr>"
  obtain rl1 where "reliable_process_packet_data demo_reliable ?pd 0 = Inr rl1"
    using rlr.deliver_accepts[OF demo_receiver_ok, of ?pd 0]
    by (force simp: demo_inbox inbox_verdict_def)
  with receiver_ignores_duplicate[OF demo_receiver_ok this, of 0] show ?thesis by blast
qed

end
