(* ===== verification/Delivery.thy ===== *)
theory Delivery
  imports Reliable_Sender Reliable_Receiver
begin

text \<open>
  The reliable channel end to end: a sending and a receiving \<open>Reliable\<close> joined by a network
  that loses, duplicates, delays and reorders packets, as a step relation over the channel's own
  operations. The result is the promise of the channel: what the receiver has handed out is
  always a prefix of what the sender was given.

  Packets are numbered without bound here; on the wire a packet has its number modulo 65536.
  What the network and the reliable.io layer underneath are relied on for is written into the
  steps: a packet arrives unaltered (checksums), it does not arrive so late that half the
  range of message ids has been handed out since it was sent, an acknowledgement is reported
  once, only for a packet that arrived, and close to the packets being sent.
\<close>

section \<open>The system\<close>

record 'm link =
  lk_sender :: "'m reliable"
  lk_receiver :: "'m reliable"
  lk_sent :: "'m list"                              \<comment> \<open>every message given to \<open>send_message\<close>\<close>
  lk_received :: "'m list"                          \<comment> \<open>every message \<open>receive_message\<close> returned\<close>
  lk_packets :: "('m channel_packet_data \<times> nat) list"  \<comment> \<open>every packet, with the messages sent before it\<close>
  lk_recorded :: nat                                \<comment> \<open>after the last packet with messages\<close>
  lk_delivered :: "nat set"
  lk_acked :: "nat set"

inductive link_step :: "('m, 'e) network_message \<Rightarrow> 'm link \<Rightarrow> 'm link \<Rightarrow> bool" for nm where
  Time: "link_step nm l (l\<lparr>lk_sender := reliable_advance_time (lk_sender l) t,
                           lk_receiver := reliable_advance_time (lk_receiver l) t'\<rparr>)"
| Send: "reliable_can_send_message (lk_sender l) = Inr True \<Longrightarrow>
    reliable_send_message nm (lk_sender l) m = Inr s \<Longrightarrow>
    link_step nm l (l\<lparr>lk_sender := s, lk_sent := lk_sent l @ [m]\<rparr>)"
| Emit: "n = length (lk_packets l) \<Longrightarrow> n + 1 < lk_recorded l + 32768 \<Longrightarrow>
    32 \<le> channel_budget (rl_config (lk_sender l)) available \<Longrightarrow>
    reliable_packet_data (lk_sender l) channel_index (of_nat n) available = Inr (pd, bits, s) \<Longrightarrow>
    link_step nm l (l\<lparr>lk_sender := s, lk_packets := lk_packets l @ [(pd, length (lk_sent l))],
       lk_recorded := (if pd_messages pd = [] then lk_recorded l else n + 1)\<rparr>)"
| Deliver: "n < length (lk_packets l) \<Longrightarrow> lk_packets l ! n = (pd, base) \<Longrightarrow>
    length (lk_received l) < base + 16384 \<Longrightarrow>
    reliable_process_packet_data (lk_receiver l) pd (of_nat n) = Inr r \<Longrightarrow>
    link_step nm l (l\<lparr>lk_receiver := r, lk_delivered := insert n (lk_delivered l)\<rparr>)"
| Receive: "reliable_receive_message (lk_receiver l) = Inr (Some (i, m), r) \<Longrightarrow>
    link_step nm l (l\<lparr>lk_receiver := r, lk_received := lk_received l @ [m]\<rparr>)"
| Poll: "reliable_receive_message (lk_receiver l) = Inr (None, r) \<Longrightarrow>
    link_step nm l (l\<lparr>lk_receiver := r\<rparr>)"
| Ack: "n \<in> lk_delivered l \<Longrightarrow> n \<notin> lk_acked l \<Longrightarrow>
    lk_recorded l \<le> n + 32768 \<Longrightarrow> n < lk_recorded l + 32768 \<Longrightarrow>
    length (lk_sent l) < snd (lk_packets l ! n) + 32768 \<Longrightarrow>
    reliable_process_ack (lk_sender l) (of_nat n) = Inr s \<Longrightarrow>
    link_step nm l (l\<lparr>lk_sender := s, lk_acked := insert n (lk_acked l)\<rparr>)"

text \<open>Both ends start as \<open>new\<close> makes them.\<close>

definition link_start :: "'m reliable \<Rightarrow> 'm reliable \<Rightarrow> 'm link" where
  "link_start s r = \<lparr>lk_sender = s, lk_receiver = r, lk_sent = [], lk_received = [], lk_packets = [],
     lk_recorded = 0, lk_delivered = {}, lk_acked = {}\<rparr>"

inductive link_reachable :: "('m, 'e) network_message \<Rightarrow> channel_config \<Rightarrow> channel_config \<Rightarrow> 'm link \<Rightarrow> bool"
  for nm cs cr where
  start: "reliable_config_ok cs \<Longrightarrow> reliable_config_ok cr \<Longrightarrow>
    reliable_new cs t = Inr s \<Longrightarrow> reliable_new cr t' = Inr r \<Longrightarrow>
    link_reachable nm cs cr (link_start s r)"
| step: "link_reachable nm cs cr l \<Longrightarrow> link_step nm l l' \<Longrightarrow> link_reachable nm cs cr l'"

section \<open>The invariant\<close>

text \<open>An id on the wire stands for a message with an index below the number sent.\<close>

definition names :: "'m list \<Rightarrow> nat \<Rightarrow> u16 \<Rightarrow> 'm \<Rightarrow> bool" where
  "names sent k s m \<longleftrightarrow> k < length sent \<and> s = of_nat k \<and> m = sent ! k"

definition arrived :: "'m link \<Rightarrow> nat \<Rightarrow> bool" where
  "arrived l k \<longleftrightarrow> k < length (lk_received l) \<or>
     ib_pending (inbox_of (lk_receiver l)) (of_nat k) = Some (lk_sent l ! k) \<and>
     k < length (lk_received l) + ib_size (inbox_of (lk_receiver l))"

definition oldest_index :: "'m link \<Rightarrow> nat" where
  "oldest_index l = length (lk_sent l) -
     unat (ob_next (outbox_of (lk_sender l)) - ob_oldest (outbox_of (lk_sender l)))"

definition sender_inv :: "('m, 'e) network_message \<Rightarrow> 'm link \<Rightarrow> bool" where
  "sender_inv nm l \<longleftrightarrow> sender_ok nm (lk_sender l) \<and>
     (let ob = outbox_of (lk_sender l) in
        ob_next ob = of_nat (length (lk_sent l)) \<and>
        unat (ob_next ob - ob_oldest ob) \<le> length (lk_sent l) \<and>
        (\<forall>s m. ob_pending ob s = Some m \<longrightarrow>
           (\<exists>k. oldest_index l \<le> k \<and> names (lk_sent l) k s m)) \<and>
        (\<forall>k < length (lk_sent l). oldest_index l \<le> k \<longrightarrow> ob_pending ob (of_nat k) = None \<longrightarrow> arrived l k) \<and>
        (\<forall>k < oldest_index l. arrived l k))"

definition receiver_inv :: "'m link \<Rightarrow> bool" where
  "receiver_inv l \<longleftrightarrow> receiver_ok (lk_receiver l) \<and>
     (let ib = inbox_of (lk_receiver l) in
        ib_next ib = of_nat (length (lk_received l)) \<and>
        length (lk_received l) \<le> length (lk_sent l) \<and>
        lk_received l = take (length (lk_received l)) (lk_sent l) \<and>
        (\<forall>s m. ib_pending ib s = Some m \<longrightarrow>
           (\<exists>k. length (lk_received l) \<le> k \<and> k < length (lk_received l) + ib_size ib \<and>
                names (lk_sent l) k s m)))"

text \<open>What a packet sent after \<open>base\<close> messages may carry.\<close>

definition carries :: "'m list \<Rightarrow> nat \<Rightarrow> nat \<Rightarrow> u16 \<times> 'm \<Rightarrow> bool" where
  "carries sent base k x \<longleftrightarrow> k < base \<and> base \<le> k + 16384 \<and> names sent k (fst x) (snd x)"

definition packets_inv :: "'m link \<Rightarrow> bool" where
  "packets_inv l \<longleftrightarrow>
     lk_acked l \<subseteq> lk_delivered l \<and> lk_delivered l \<subseteq> {..<length (lk_packets l)} \<and>
     (\<forall>n < length (lk_packets l). snd (lk_packets l ! n) \<le> length (lk_sent l) \<and>
        (\<forall>x \<in> set (pd_messages (fst (lk_packets l ! n))).
           \<exists>k. carries (lk_sent l) (snd (lk_packets l ! n)) k x)) \<and>
     (\<forall>n \<in> lk_delivered l. \<forall>x \<in> set (pd_messages (fst (lk_packets l ! n))).
        \<forall>k. carries (lk_sent l) (snd (lk_packets l ! n)) k x \<longrightarrow> arrived l k)"

definition records_inv :: "'m link \<Rightarrow> bool" where
  "records_inv l \<longleftrightarrow>
     (let ob = outbox_of (lk_sender l) in
        ob_packet_next ob = of_nat (lk_recorded l) \<and> lk_recorded l \<le> length (lk_packets l) \<and>
        (\<forall>n a ids. n < length (lk_packets l) \<longrightarrow> lk_recorded l \<le> n + 32768 \<longrightarrow>
           n < lk_recorded l + 32768 \<longrightarrow> ob_packets ob (of_nat n) = Some (a, ids) \<longrightarrow>
           a = (n \<in> lk_acked l) \<and> ids = map fst (pd_messages (fst (lk_packets l ! n)))))"

definition link_inv :: "('m, 'e) network_message \<Rightarrow> 'm link \<Rightarrow> bool" where
  "link_inv nm l \<longleftrightarrow> sender_inv nm l \<and> receiver_inv l \<and> packets_inv l \<and> records_inv l"

subsection \<open>Numbers on the wire\<close>

lemma of_nat_u16_inj:
  assumes "(of_nat i :: u16) = of_nat j" "i < j + 65536" "j < i + 65536"
  shows "i = j"
proof -
  have "i mod 65536 = j mod 65536" using arg_cong[OF assms(1), of unat] by (simp only: unat_u16_of_nat)
  moreover have "a = b" if "a \<le> b" "b < a + 65536" "b mod 65536 = a mod 65536" for a b :: nat
  proof -
    have "65536 dvd b - a" using mod_eq_dvd_iff_nat[OF that(1), of 65536] that(3) by simp
    then have "b - a = 0" using that(2) nat_dvd_not_less[of "b - a" 65536] by linarith
    then show ?thesis using that(1) by simp
  qed
  ultimately show ?thesis using assms(2,3) nat_le_linear[of i j] by metis
qed

lemma unat_of_nat_diff: "j \<le> i \<Longrightarrow> i < j + 65536 \<Longrightarrow> unat (of_nat i - of_nat j :: u16) = i - j"
proof -
  assume a: "j \<le> i" "i < j + 65536"
  have "(of_nat i - of_nat j :: u16) = of_nat (i - j)" by (rule of_nat_diff[OF a(1), symmetric])
  with a show ?thesis by (simp only: unat_u16_of_nat) simp
qed

lemma sequence_order_near:
  assumes "i < j + 32768" "j < i + 32768"
  shows "sequence_greater_than (of_nat i) (of_nat j) \<longleftrightarrow> j < i"
proof (cases "j \<le> i")
  case True
  then show ?thesis using assms unat_of_nat_diff[OF True] by (auto simp: sequence_greater_than_dist)
next
  case False
  then have d: "unat (of_nat j - of_nat i :: u16) = j - i" using assms by (intro unat_of_nat_diff) auto
  have ne: "(of_nat j :: u16) \<noteq> of_nat i" using d False by auto
  have "unat (of_nat i - of_nat j :: u16) = 65536 - (j - i)"
    using unat_neg_diff[OF ne] d by (simp only:)
  then show ?thesis using assms False by (auto simp: sequence_greater_than_dist)
qed

text \<open>The verdict on a message is the comparison of the unbounded indices.\<close>

lemma verdict_index:
  assumes "ib_next ib = of_nat r" "ib_size ib \<le> 16384" "k < r + 32768" "r < k + 32768"
  shows "inbox_verdict ib (of_nat k) =
    (if k < r then Stale else if k < r + ib_size ib then Acceptable else TooNew)"
proof (cases "k < r")
  case True
  have d: "unat (of_nat r - of_nat k :: u16) = r - k" using True assms by (intro unat_of_nat_diff) auto
  have ne: "(of_nat r :: u16) \<noteq> of_nat k" using d True by auto
  have "unat (of_nat k - of_nat r :: u16) = 65536 - (r - k)"
    using unat_neg_diff[OF ne] d by (simp only:)
  moreover have "sequence_less_than (of_nat k) (of_nat r)"
    using sequence_order_near[of r k] True assms by (simp add: sequence_less_than_def)
  ultimately show ?thesis using True assms by (simp add: inbox_verdict_def)
next
  case False
  then have "unat (of_nat k - of_nat r :: u16) = k - r" using assms by (intro unat_of_nat_diff) auto
  moreover have "\<not> sequence_less_than (of_nat k) (of_nat r)"
    using sequence_order_near[of r k] False assms by (simp add: sequence_less_than_def)
  ultimately show ?thesis using False assms by (auto simp: inbox_verdict_def)
qed

subsection \<open>Consequences of the invariant\<close>

lemma inbox_size: "receiver_ok rl \<Longrightarrow> ib_size (inbox_of rl) \<le> 16384"
  by (simp add: receiver_ok_def receive_queue_ok_def inbox_of_def)

lemma sender_invD:
  assumes "sender_inv nm l"
  shows "sender_ok nm (lk_sender l)" "outbox_ok (outbox_of (lk_sender l))"
    "ob_next (outbox_of (lk_sender l)) = of_nat (length (lk_sent l))"
    "length (lk_sent l) \<le> oldest_index l + 16384" "oldest_index l \<le> length (lk_sent l)"
    "ob_oldest (outbox_of (lk_sender l)) = of_nat (oldest_index l)"
    "ob_pending (outbox_of (lk_sender l)) s = Some m \<Longrightarrow>
       \<exists>k. oldest_index l \<le> k \<and> names (lk_sent l) k s m"
    "k < length (lk_sent l) \<Longrightarrow> oldest_index l \<le> k \<Longrightarrow>
       ob_pending (outbox_of (lk_sender l)) (of_nat k) = None \<Longrightarrow> arrived l k"
    "k < oldest_index l \<Longrightarrow> arrived l k"
proof -
  let ?ob = "outbox_of (lk_sender l)"
  note I = assms[unfolded sender_inv_def Let_def]
  show "sender_ok nm (lk_sender l)" "ob_next ?ob = of_nat (length (lk_sent l))"
    "k < oldest_index l \<Longrightarrow> arrived l k" using I by blast+
  show ok: "outbox_ok ?ob" using I rls.view_ok by blast
  show "ob_pending ?ob s = Some m \<Longrightarrow> \<exists>k. oldest_index l \<le> k \<and> names (lk_sent l) k s m"
    "k < length (lk_sent l) \<Longrightarrow> oldest_index l \<le> k \<Longrightarrow> ob_pending ?ob (of_nat k) = None \<Longrightarrow> arrived l k"
    using I by blast+
  have d: "unat (ob_next ?ob - ob_oldest ?ob) \<le> length (lk_sent l)"
    "unat (ob_next ?ob - ob_oldest ?ob) \<le> 16384" using I ok by (auto simp: outbox_ok_def)
  then show "length (lk_sent l) \<le> oldest_index l + 16384" "oldest_index l \<le> length (lk_sent l)"
    by (simp_all add: oldest_index_def)
  have "of_nat (oldest_index l) = (of_nat (length (lk_sent l)) :: u16) - of_nat (unat (ob_next ?ob - ob_oldest ?ob))"
    unfolding oldest_index_def using d(1) by (rule of_nat_diff)
  also have "\<dots> = ob_oldest ?ob" using I by simp
  finally show "ob_oldest ?ob = of_nat (oldest_index l)" by simp
qed

lemma receiver_invD:
  assumes "receiver_inv l"
  shows "receiver_ok (lk_receiver l)" "ib_size (inbox_of (lk_receiver l)) \<le> 16384"
    "ib_next (inbox_of (lk_receiver l)) = of_nat (length (lk_received l))"
    "length (lk_received l) \<le> length (lk_sent l)"
    "lk_received l = take (length (lk_received l)) (lk_sent l)"
    "ib_pending (inbox_of (lk_receiver l)) s = Some m \<Longrightarrow>
      \<exists>k. length (lk_received l) \<le> k \<and> k < length (lk_received l) + ib_size (inbox_of (lk_receiver l)) \<and>
          names (lk_sent l) k s m"
  using assms inbox_size unfolding receiver_inv_def Let_def by blast+

lemma packets_invD:
  assumes "packets_inv l"
  shows "lk_acked l \<subseteq> lk_delivered l" "n \<in> lk_delivered l \<Longrightarrow> n < length (lk_packets l)"
    "n < length (lk_packets l) \<Longrightarrow> snd (lk_packets l ! n) \<le> length (lk_sent l)"
    "n < length (lk_packets l) \<Longrightarrow> x \<in> set (pd_messages (fst (lk_packets l ! n))) \<Longrightarrow>
      \<exists>k. carries (lk_sent l) (snd (lk_packets l ! n)) k x"
    "n \<in> lk_delivered l \<Longrightarrow> x \<in> set (pd_messages (fst (lk_packets l ! n))) \<Longrightarrow>
      carries (lk_sent l) (snd (lk_packets l ! n)) k x \<Longrightarrow> arrived l k"
  using assms unfolding packets_inv_def by blast+

lemma packets_invI:
  assumes "lk_acked l \<subseteq> lk_delivered l" "\<And>n. n \<in> lk_delivered l \<Longrightarrow> n < length (lk_packets l)"
    "\<And>n. n < length (lk_packets l) \<Longrightarrow> snd (lk_packets l ! n) \<le> length (lk_sent l)"
    "\<And>n x. n < length (lk_packets l) \<Longrightarrow> x \<in> set (pd_messages (fst (lk_packets l ! n))) \<Longrightarrow>
      \<exists>k. carries (lk_sent l) (snd (lk_packets l ! n)) k x"
    "\<And>n x k. n \<in> lk_delivered l \<Longrightarrow> x \<in> set (pd_messages (fst (lk_packets l ! n))) \<Longrightarrow>
      carries (lk_sent l) (snd (lk_packets l ! n)) k x \<Longrightarrow> arrived l k"
  shows "packets_inv l"
  unfolding packets_inv_def using assms by blast

text \<open>The two windows never drift apart by more than half the range.\<close>

lemma window_span:
  assumes "sender_inv nm l" "receiver_inv l"
  shows "length (lk_sent l) \<le> length (lk_received l) + 32768"
proof -
  note S = sender_invD[OF assms(1)] and R = receiver_invD[OF assms(2)]
  have "oldest_index l \<le> length (lk_received l) + 16384"
  proof (cases "oldest_index l")
    case (Suc k)
    then have "arrived l k" using S(9) by simp
    then show ?thesis using Suc R(2) by (auto simp: arrived_def)
  qed simp
  then show ?thesis using S(4) by simp
qed

section \<open>Every step keeps the invariant\<close>

lemma sender_inv_frame:
  assumes "sender_inv nm l" "sender_ok nm (lk_sender l')"
    "outbox_of (lk_sender l') = outbox_of (lk_sender l)" "lk_sent l' = lk_sent l"
    and "\<And>k. k < length (lk_sent l) \<Longrightarrow> arrived l k \<Longrightarrow> arrived l' k"
  shows "sender_inv nm l'"
proof -
  have "oldest_index l' = oldest_index l" using assms(3,4) by (simp add: oldest_index_def)
  moreover have "oldest_index l \<le> length (lk_sent l)" by (simp add: oldest_index_def)
  ultimately show ?thesis
    using assms unfolding sender_inv_def Let_def by (metis less_le_trans)
qed

lemma receiver_inv_frame:
  assumes "receiver_inv l" "receiver_ok (lk_receiver l')"
    "inbox_of (lk_receiver l') = inbox_of (lk_receiver l)" "lk_sent l' = lk_sent l"
    "lk_received l' = lk_received l"
  shows "receiver_inv l'"
  using assms by (simp add: receiver_inv_def)

lemma packets_inv_frame:
  assumes "packets_inv l" "lk_packets l' = lk_packets l" "lk_sent l' = lk_sent l"
    "lk_delivered l' = lk_delivered l" "lk_acked l' \<subseteq> lk_delivered l"
    and "\<And>k. k < length (lk_sent l) \<Longrightarrow> arrived l k \<Longrightarrow> arrived l' k"
  shows "packets_inv l'"
  using assms unfolding packets_inv_def by (fastforce simp: carries_def names_def)

lemma records_inv_frame:
  assumes "records_inv l" "ob_packets (outbox_of (lk_sender l')) = ob_packets (outbox_of (lk_sender l))"
    "ob_packet_next (outbox_of (lk_sender l')) = ob_packet_next (outbox_of (lk_sender l))"
    "lk_packets l' = lk_packets l" "lk_recorded l' = lk_recorded l" "lk_acked l' = lk_acked l"
  shows "records_inv l'"
  using assms by (simp add: records_inv_def Let_def)

lemma advance_time_views [simp]:
  "outbox_of (reliable_advance_time rl t) = outbox_of rl"
  "inbox_of (reliable_advance_time rl t) = inbox_of rl"
  "sender_ok nm (reliable_advance_time rl t) = sender_ok nm rl"
  "receiver_ok (reliable_advance_time rl t) = receiver_ok rl"
  by (simp_all add: reliable_advance_time_def outbox_of_def inbox_of_def sender_ok_def receiver_ok_def)

lemma time_keeps:
  assumes "link_inv nm l"
  shows "link_inv nm (l\<lparr>lk_sender := reliable_advance_time (lk_sender l) t,
      lk_receiver := reliable_advance_time (lk_receiver l) t'\<rparr>)" (is "link_inv nm ?l")
proof -
  have I: "sender_inv nm l" "receiver_inv l" "packets_inv l" "records_inv l"
    using assms by (auto simp: link_inv_def)
  note ok = sender_invD(1)[OF I(1)] receiver_invD(1)[OF I(2)]
  have arr: "arrived ?l k = arrived l k" for k by (simp add: arrived_def)
  have "sender_inv nm ?l" by (rule sender_inv_frame[OF I(1)]) (simp_all add: ok arr)
  moreover have "receiver_inv ?l" by (rule receiver_inv_frame[OF I(2)]) (simp_all add: ok)
  moreover have "packets_inv ?l"
    by (rule packets_inv_frame[OF I(3)]) (use I(3) in \<open>simp_all add: arr packets_inv_def\<close>)
  moreover have "records_inv ?l" by (rule records_inv_frame[OF I(4)]) simp_all
  ultimately show ?thesis by (simp add: link_inv_def)
qed

lemma send_keeps:
  assumes inv: "link_inv nm l" and can: "reliable_can_send_message (lk_sender l) = Inr True"
    and send: "reliable_send_message nm (lk_sender l) m = Inr s"
  shows "link_inv nm (l\<lparr>lk_sender := s, lk_sent := lk_sent l @ [m]\<rparr>)" (is "link_inv nm ?l")
proof -
  have I: "sender_inv nm l" "receiver_inv l" "packets_inv l" "records_inv l"
    using inv by (auto simp: link_inv_def)
  note S = sender_invD[OF I(1)] and P = packets_invD[OF I(3)]
  have "msg_measurable nm m"
    using send_message_panics(2)[OF S(1) can, of m] send by auto
  then have s: "sender_ok nm s" "outbox_of s = outbox_add (outbox_of (lk_sender l)) m"
    using rls.send_adds[OF S(1) can, of m] send by auto
  let ?n = "length (lk_sent l)" and ?ob = "outbox_of (lk_sender l)"
  have room: "unat (ob_next ?ob - ob_oldest ?ob) < ob_size ?ob"
    using rls.can_send_room[OF S(1)] can by simp
  have size: "ob_size ?ob \<le> 16384" using S(2) by (simp add: outbox_ok_def)
  have next_d: "unat (ob_next ?ob + 1 - ob_oldest ?ob) = unat (ob_next ?ob - ob_oldest ?ob) + 1"
    using room size by (intro u16_dist_next) simp
  have view: "ob_next (outbox_of (lk_sender ?l)) = ob_next ?ob + 1"
    "ob_oldest (outbox_of (lk_sender ?l)) = ob_oldest ?ob" by (simp_all add: s(2) outbox_add_def)
  have pend: "ob_pending (outbox_of (lk_sender ?l)) = (ob_pending ?ob)(of_nat ?n \<mapsto> m)"
    using S(3) by (simp add: s(2) outbox_add_def)
  have le: "unat (ob_next ?ob - ob_oldest ?ob) \<le> ?n"
    using I(1) unfolding sender_inv_def Let_def by blast
  have old: "oldest_index ?l = oldest_index l"
    using next_d by (simp add: oldest_index_def s(2) outbox_add_def)
  have arr: "arrived l k \<Longrightarrow> k < ?n \<Longrightarrow> arrived ?l k" for k
    by (auto simp: arrived_def nth_append)
  have nm: "names (lk_sent l) k t x \<Longrightarrow> names (lk_sent ?l) k t x" for k t x
    by (simp add: names_def nth_append)
  have "sender_inv nm ?l"
    unfolding sender_inv_def Let_def old
  proof (intro conjI allI impI)
    show "sender_ok nm (lk_sender ?l)" using s(1) by simp
    show "ob_next (outbox_of (lk_sender ?l)) = of_nat (length (lk_sent ?l))"
      using S(3) by (simp add: s(2) outbox_add_def)
    show "unat (ob_next (outbox_of (lk_sender ?l)) - ob_oldest (outbox_of (lk_sender ?l))) \<le> length (lk_sent ?l)"
      unfolding view using le next_d by simp
  next
    fix t x assume "ob_pending (outbox_of (lk_sender ?l)) t = Some x"
    then consider "t = of_nat ?n" "x = m" | "ob_pending ?ob t = Some x"
      unfolding pend by (cases "t = of_nat ?n") simp_all
    then show "\<exists>k\<ge>oldest_index l. names (lk_sent ?l) k t x"
    proof cases
      case 1
      then show ?thesis using S(5) by (intro exI[of _ ?n]) (simp add: names_def)
    next
      case 2
      from S(7)[OF this] show ?thesis using nm by blast
    qed
  next
    fix k assume k: "k < length (lk_sent ?l)" "oldest_index l \<le> k"
      "ob_pending (outbox_of (lk_sender ?l)) (of_nat k) = None"
    then have "k \<noteq> ?n" unfolding pend by auto
    then have "k < ?n" using k(1) by simp
    moreover have "ob_pending ?ob (of_nat k) = None"
      using k(3) unfolding pend by (cases "(of_nat k :: u16) = of_nat ?n") simp_all
    ultimately show "arrived ?l k" using S(8) k(2) arr by blast
  next
    fix k assume "k < oldest_index l"
    then show "arrived ?l k" using S(5,9) arr by simp
  qed
  moreover have "receiver_inv ?l"
  proof -
    note R = receiver_invD[OF I(2)]
    have "lk_received l = take (length (lk_received l)) (lk_sent l @ [m])" using R(4,5) by simp
    with R show ?thesis unfolding receiver_inv_def Let_def using nm by fastforce
  qed
  moreover have "packets_inv ?l"
  proof (rule packets_invI)
    fix n x assume n: "n < length (lk_packets ?l)" "x \<in> set (pd_messages (fst (lk_packets ?l ! n)))"
    then obtain k where "carries (lk_sent l) (snd (lk_packets l ! n)) k x" using P(4) by fastforce
    then show "\<exists>k. carries (lk_sent ?l) (snd (lk_packets ?l ! n)) k x" using nm by (auto simp: carries_def)
  next
    fix n x k assume n: "n \<in> lk_delivered ?l" "x \<in> set (pd_messages (fst (lk_packets ?l ! n)))"
      and k: "carries (lk_sent ?l) (snd (lk_packets ?l ! n)) k x"
    have "snd (lk_packets l ! n) \<le> ?n" using P(2,3) n(1) by simp
    with k have c: "carries (lk_sent l) (snd (lk_packets l ! n)) k x" "k < ?n"
      by (auto simp: carries_def names_def nth_append)
    then have "arrived l k" using P(5) n by simp
    then show "arrived ?l k" using arr c(2) by blast
  qed (use P(1-3) in \<open>auto intro: le_SucI\<close>)
  moreover have "records_inv ?l"
    by (rule records_inv_frame[OF I(4)]) (simp_all add: s(2) outbox_add_def)
  ultimately show ?thesis by (simp add: link_inv_def)
qed

lemma names_unique:
  assumes "names sent k s m" "names sent k' s m'" "k < k' + 65536" "k' < k + 65536"
  shows "k = k' \<and> m = m'"
  using assms of_nat_u16_inj[of k k'] by (auto simp: names_def)

text \<open>What a delivery does to the messages that wait at the receiver.\<close>

lemma deliver_pending:
  assumes I: "sender_inv nm l" "receiver_inv l" "packets_inv l"
    and n: "n < length (lk_packets l)" "lk_packets l ! n = (pd, base)"
    and fresh: "length (lk_received l) < base + 16384"
    and r: "reliable_process_packet_data (lk_receiver l) pd s = Inr r"
  shows "receiver_ok r" "ib_next (inbox_of r) = ib_next (inbox_of (lk_receiver l))"
    "ib_size (inbox_of r) = ib_size (inbox_of (lk_receiver l))"
    "ib_pending (inbox_of r) t = Some m \<Longrightarrow> \<exists>k. length (lk_received l) \<le> k \<and>
        k < length (lk_received l) + ib_size (inbox_of (lk_receiver l)) \<and> names (lk_sent l) k t m"
    "k < length (lk_sent l) \<Longrightarrow> length (lk_received l) \<le> k \<Longrightarrow>
       ib_pending (inbox_of (lk_receiver l)) (of_nat k) = Some (lk_sent l ! k) \<Longrightarrow>
       ib_pending (inbox_of r) (of_nat k) = Some (lk_sent l ! k)"
    "x \<in> set (pd_messages pd) \<Longrightarrow> carries (lk_sent l) base k x \<Longrightarrow> length (lk_received l) \<le> k \<Longrightarrow>
       ib_pending (inbox_of r) (of_nat k) = Some (lk_sent l ! k) \<and>
       k < length (lk_received l) + ib_size (inbox_of (lk_receiver l))"
proof -
  let ?ib = "inbox_of (lk_receiver l)" and ?r = "length (lk_received l)"
  note R = receiver_invD[OF I(2)] and P = packets_invD[OF I(3)]
  have span: "length (lk_sent l) \<le> ?r + 32768" by (rule window_span[OF I(1,2)])
  have base: "base \<le> length (lk_sent l)" using P(3)[OF n(1)] n(2) by simp
  note D = rlr.deliver_result[OF R(1) r]
  show "receiver_ok r" "ib_next (inbox_of r) = ib_next ?ib" "ib_size (inbox_of r) = ib_size ?ib"
    using D by simp_all
  have verdict: "inbox_verdict ?ib (of_nat k) = (if k < ?r then Stale else if k < ?r + ib_size ?ib then Acceptable else TooNew)"
    if "carries (lk_sent l) base k x" for k x
    using that fresh base span by (intro verdict_index[OF R(3,2)]) (auto simp: carries_def)
  have hit: "\<exists>k. carries (lk_sent l) base k (t, m)" if "map_of (rev (pd_messages pd)) t = Some m" for t m
    using map_of_SomeD[OF that] P(4)[OF n(1), of "(t, m)"] n(2) by simp
  have pending: "ib_pending (inbox_of r) t = (case map_of (rev (pd_messages pd)) t of
        Some m \<Rightarrow> if inbox_verdict ?ib t = Acceptable then Some m else ib_pending ?ib t
      | None \<Rightarrow> ib_pending ?ib t)" for t
    unfolding D(2) by (rule inbox_pending_fold)
  show "\<exists>k. ?r \<le> k \<and> k < ?r + ib_size ?ib \<and> names (lk_sent l) k t m"
    if new: "ib_pending (inbox_of r) t = Some m"
  proof (cases "map_of (rev (pd_messages pd)) t")
    case None
    then show ?thesis using new R(6) by (simp add: pending)
  next
    case (Some m')
    then obtain k where k: "carries (lk_sent l) base k (t, m')" using hit by blast
    then have t: "t = of_nat k" by (simp add: carries_def names_def)
    show ?thesis
    proof (cases "inbox_verdict ?ib t = Acceptable")
      case True
      then have "m' = m" using new Some by (simp add: pending)
      moreover have "?r \<le> k \<and> k < ?r + ib_size ?ib"
        using verdict[OF k] True unfolding t by (auto split: if_splits)
      ultimately show ?thesis using k by (auto simp: carries_def)
    next
      case False
      then show ?thesis using new Some R(6) by (simp add: pending)
    qed
  qed
  have same: "m = lk_sent l ! k"
    if mk: "map_of (rev (pd_messages pd)) (of_nat k) = Some m" and "k < length (lk_sent l)" "?r \<le> k" for k m
  proof -
    obtain k' where k': "carries (lk_sent l) base k' (of_nat k, m)" using hit[OF mk] by blast
    then have "names (lk_sent l) k' (of_nat k) m" "k' < base" "base \<le> k' + 16384" by (auto simp: carries_def)
    moreover have "names (lk_sent l) k (of_nat k) (lk_sent l ! k)"
      using \<open>k < length (lk_sent l)\<close> by (simp add: names_def)
    moreover have "k < k' + 65536" "k' < k + 65536" using calculation(2,3) \<open>k < length (lk_sent l)\<close> \<open>?r \<le> k\<close> span base fresh by linarith+
    ultimately show ?thesis using names_unique by metis
  qed
  show "ib_pending (inbox_of r) (of_nat k) = Some (lk_sent l ! k)"
    if "k < length (lk_sent l)" "?r \<le> k" "ib_pending ?ib (of_nat k) = Some (lk_sent l ! k)"
    using that same by (auto simp: pending split: option.splits)
  assume x: "x \<in> set (pd_messages pd)" and k: "carries (lk_sent l) base k x" and rk: "?r \<le> k"
  obtain m where xm: "x = (of_nat k, m)" using k by (cases x) (simp add: carries_def names_def)
  have klen: "k < length (lk_sent l)" using k by (simp add: carries_def names_def)
  have "inbox_verdict ?ib (of_nat k) \<noteq> TooNew" using D(3)[OF x] xm by simp
  then have acc: "inbox_verdict ?ib (of_nat k) = Acceptable" "k < ?r + ib_size ?ib"
    using verdict[OF k] rk by (auto split: if_splits)
  have "of_nat k \<in> fst ` set (rev (pd_messages pd))" using x xm by force
  then obtain m' where m': "map_of (rev (pd_messages pd)) (of_nat k) = Some m'"
    by (metis map_of_eq_None_iff not_None_eq)
  with same[OF m' klen rk] acc show "ib_pending (inbox_of r) (of_nat k) = Some (lk_sent l ! k) \<and> k < ?r + ib_size ?ib"
    by (simp add: pending)
qed

lemma deliver_keeps:
  assumes inv: "link_inv nm l" and n: "n < length (lk_packets l)" "lk_packets l ! n = (pd, base)"
    and fresh: "length (lk_received l) < base + 16384"
    and r: "reliable_process_packet_data (lk_receiver l) pd (of_nat n) = Inr r"
  shows "link_inv nm (l\<lparr>lk_receiver := r, lk_delivered := insert n (lk_delivered l)\<rparr>)" (is "link_inv nm ?l")
proof -
  have I: "sender_inv nm l" "receiver_inv l" "packets_inv l" "records_inv l"
    using inv by (auto simp: link_inv_def)
  note D = deliver_pending[OF I(1-3) n fresh r] and R = receiver_invD[OF I(2)] and P = packets_invD[OF I(3)]
  have arr: "arrived ?l k" if "k < length (lk_sent l)" "arrived l k" for k
    using that D(5)[of k] by (auto simp: arrived_def D(3))
  have new: "arrived ?l k" if "x \<in> set (pd_messages pd)" "carries (lk_sent l) base k x" for k x
    using D(6)[OF that] by (auto simp: arrived_def D(3))
  have "sender_inv nm ?l"
    by (rule sender_inv_frame[OF I(1)]) (use sender_invD(1)[OF I(1)] arr in auto)
  moreover have "receiver_inv ?l"
    unfolding receiver_inv_def Let_def
    by (intro conjI allI impI) (use D(1-4) R(3-5) in auto)
  moreover have "packets_inv ?l"
  proof (rule packets_invI)
    fix i x k assume i: "i \<in> lk_delivered ?l" "x \<in> set (pd_messages (fst (lk_packets ?l ! i)))"
      and k: "carries (lk_sent ?l) (snd (lk_packets ?l ! i)) k x"
    show "arrived ?l k"
    proof (cases "i = n")
      case True
      with i k n(2) show ?thesis using new by simp
    next
      case False
      then have "arrived l k" using P(5) i k by simp
      then show ?thesis using arr k by (auto simp: carries_def names_def)
    qed
  qed (use P n(1) in auto)
  moreover have "records_inv ?l" by (rule records_inv_frame[OF I(4)]) simp_all
  ultimately show ?thesis by (simp add: link_inv_def)
qed

lemma poll_keeps:
  assumes inv: "link_inv nm l" and r: "reliable_receive_message (lk_receiver l) = Inr (None, r)"
  shows "link_inv nm (l\<lparr>lk_receiver := r\<rparr>)" (is "link_inv nm ?l")
proof -
  have I: "sender_inv nm l" "receiver_inv l" "packets_inv l" "records_inv l"
    using inv by (auto simp: link_inv_def)
  note R = receiver_invD[OF I(2)]
  note pop = rlr.pop_result[OF R(1) r]
  have view: "inbox_of r = inbox_of (lk_receiver l)"
    using pop(2,3) by (simp add: inbox_pop_def split: option.splits)
  have arr: "arrived ?l k = arrived l k" for k by (simp add: arrived_def view)
  have "sender_inv nm ?l" by (rule sender_inv_frame[OF I(1)]) (simp_all add: arr sender_invD(1)[OF I(1)])
  moreover have "receiver_inv ?l" by (rule receiver_inv_frame[OF I(2)]) (simp_all add: view pop(1))
  moreover have "packets_inv ?l"
    by (rule packets_inv_frame[OF I(3)]) (use packets_invD(1)[OF I(3)] in \<open>simp_all add: arr\<close>)
  moreover have "records_inv ?l" by (rule records_inv_frame[OF I(4)]) simp_all
  ultimately show ?thesis by (simp add: link_inv_def)
qed

lemma receive_keeps:
  assumes inv: "link_inv nm l" and r: "reliable_receive_message (lk_receiver l) = Inr (Some (i, m), r)"
  shows "link_inv nm (l\<lparr>lk_receiver := r, lk_received := lk_received l @ [m]\<rparr>)" (is "link_inv nm ?l")
proof -
  have I: "sender_inv nm l" "receiver_inv l" "packets_inv l" "records_inv l"
    using inv by (auto simp: link_inv_def)
  note R = receiver_invD[OF I(2)]
  note pop = rlr.pop_result[OF R(1) r]
  let ?ib = "inbox_of (lk_receiver l)" and ?r = "length (lk_received l)"
  have m: "ib_pending ?ib (of_nat ?r) = Some m"
    and view: "inbox_of r = ?ib\<lparr>ib_next := ib_next ?ib + 1, ib_pending := (ib_pending ?ib)(of_nat ?r := None)\<rparr>"
    using pop(2,3) R(3) by (auto simp: inbox_pop_def split: option.splits)
  obtain k where "?r \<le> k" "k < ?r + ib_size ?ib" "names (lk_sent l) k (of_nat ?r) m"
    using R(6)[OF m] by blast
  moreover from this have "k = ?r" using R(2) of_nat_u16_inj[of ?r k] by (simp add: names_def)
  ultimately have mr: "?r < length (lk_sent l)" "m = lk_sent l ! ?r" by (auto simp: names_def)
  have other: "(of_nat k :: u16) \<noteq> of_nat ?r" if "?r < k" "k < ?r + ib_size ?ib" for k
    using that R(2) of_nat_u16_inj[of k ?r] by auto
  have arr: "arrived ?l k" if "arrived l k" for k
    using that other[of k] by (cases "k < Suc ?r") (auto simp: arrived_def view)
  have "sender_inv nm ?l"
    by (rule sender_inv_frame[OF I(1)]) (use sender_invD(1)[OF I(1)] arr in auto)
  moreover have "receiver_inv ?l"
    unfolding receiver_inv_def Let_def
  proof (intro conjI allI impI)
    show "lk_received ?l = take (length (lk_received ?l)) (lk_sent ?l)"
      using mr R(5) by (simp add: take_Suc_conv_app_nth)
  next
    fix t x assume "ib_pending (inbox_of (lk_receiver ?l)) t = Some x"
    then have t: "t \<noteq> of_nat ?r" "ib_pending ?ib t = Some x" by (auto simp: view split: if_splits)
    obtain k where k: "?r \<le> k" "k < ?r + ib_size ?ib" "names (lk_sent l) k t x"
      using R(6)[OF t(2)] by blast
    moreover have "k \<noteq> ?r" using k(3) t(1) by (auto simp: names_def)
    ultimately show "\<exists>k\<ge>length (lk_received ?l). k < length (lk_received ?l) +
        ib_size (inbox_of (lk_receiver ?l)) \<and> names (lk_sent ?l) k t x"
      by (intro exI[of _ k]) (simp add: view)
  qed (use pop(1) R(3) mr in \<open>simp_all add: view\<close>)
  moreover have "packets_inv ?l"
    by (rule packets_inv_frame[OF I(3)]) (use packets_invD(1)[OF I(3)] arr in auto)
  moreover have "records_inv ?l" by (rule records_inv_frame[OF I(4)]) simp_all
  ultimately show ?thesis by (simp add: link_inv_def)
qed

text \<open>Removing messages that have arrived from the sender's window.\<close>

lemma sender_inv_shrink:
  assumes inv: "sender_inv nm l" and ok: "sender_ok nm (lk_sender l')"
    and view: "ob_next (outbox_of (lk_sender l')) = ob_next (outbox_of (lk_sender l))"
      "ob_pending (outbox_of (lk_sender l')) = ob_pending (outbox_of (lk_sender l)) |` (- set ids)"
    and sent: "lk_sent l' = lk_sent l" and arr: "\<And>k. arrived l' k = arrived l k"
    and acked: "\<And>k. k < length (lk_sent l) \<Longrightarrow> oldest_index l \<le> k \<Longrightarrow> of_nat k \<in> set ids \<Longrightarrow> arrived l k"
  shows "sender_inv nm l'"
proof -
  note S = sender_invD[OF inv]
  let ?ob = "outbox_of (lk_sender l)" and ?ob' = "outbox_of (lk_sender l')" and ?n = "length (lk_sent l)"
  define d where "d = unat (ob_next ?ob' - ob_oldest ?ob')"
  note O = rls.view_ok[OF ok, unfolded outbox_ok_def, folded d_def]
  have pend: "ob_pending ?ob t = Some m" if "ob_pending ?ob' t = Some m" for t m
    using that by (auto simp: view restrict_map_def split: if_splits)
  have d_le: "d \<le> ?n" "d \<le> 16384"
  proof -
    show "d \<le> ?n"
    proof (cases "ob_oldest ?ob' = ob_next ?ob'")
      case False
      then obtain m where "ob_pending ?ob' (ob_oldest ?ob') = Some m" using O by auto
      from S(7)[OF pend[OF this]] obtain k where k: "oldest_index l \<le> k" "k < ?n" "ob_oldest ?ob' = of_nat k"
        by (auto simp: names_def)
      then have "d = ?n - k" unfolding d_def using S(3,4) view(1) unat_of_nat_diff[of k ?n] by simp
      then show ?thesis by simp
    qed (simp add: d_def)
    show "d \<le> 16384" using O by linarith
  qed
  have o': "oldest_index l' = ?n - d" by (simp add: oldest_index_def sent d_def)
  have old': "ob_oldest ?ob' = of_nat (?n - d)"
  proof -
    have "of_nat (?n - d) = (of_nat ?n :: u16) - of_nat d" using d_le(1) by (rule of_nat_diff)
    then show ?thesis using S(3) view(1) by (simp add: d_def)
  qed
  have live: "?n - d \<le> k" if k: "k < ?n" "oldest_index l \<le> k" "ob_pending ?ob' (of_nat k) \<noteq> None" for k
  proof (rule ccontr)
    assume "\<not> ?n - d \<le> k"
    then have less: "k < ?n - d" by simp
    have u: "unat (of_nat (?n - d) - of_nat k :: u16) = ?n - d - k"
      using less k(1,2) S(4) by (intro unat_of_nat_diff) auto
    then have ne: "(of_nat (?n - d) :: u16) \<noteq> of_nat k" using less by auto
    have "unat (of_nat k - of_nat (?n - d) :: u16) = 65536 - (?n - d - k)"
      using unat_neg_diff[OF ne] u by (simp only:)
    moreover have "unat (of_nat k - ob_oldest ?ob') < d" using O k(3) by blast
    ultimately have "65536 - (?n - d - k) < d" unfolding old' by simp
    then show False using d_le k S(4) less by linarith
  qed
  have gone: "arrived l' k" if k: "k < ?n" "ob_pending ?ob' (of_nat k) = None \<or> k < oldest_index l" for k
  proof (cases "k < oldest_index l")
    case True
    then show ?thesis using S(9) arr by simp
  next
    case False
    then have "ob_pending ?ob (of_nat k) = None \<or> of_nat k \<in> set ids"
      using k(2) by (auto simp: view restrict_map_def split: if_splits)
    then show ?thesis using S(8)[of k] acked[of k] k(1) False arr by auto
  qed
  show ?thesis
    unfolding sender_inv_def Let_def o' sent
  proof (intro conjI allI impI)
    fix t m assume t: "ob_pending ?ob' t = Some m"
    from S(7)[OF pend[OF t]] obtain k where k: "oldest_index l \<le> k" "names (lk_sent l) k t m" by blast
    then have "?n - d \<le> k" using live[of k] t by (auto simp: names_def)
    with k show "\<exists>k\<ge>?n - d. names (lk_sent l) k t m" by blast
  next
    fix k assume "k < ?n - d"
    then show "arrived l' k" using gone[of k] live[of k] by (cases "k < oldest_index l") force+
  qed (use ok S(3) view(1) d_le(1) gone in \<open>auto simp: d_def\<close>)
qed

lemma ack_keeps:
  assumes inv: "link_inv nm l" and n: "n \<in> lk_delivered l" "n \<notin> lk_acked l"
    and near: "lk_recorded l \<le> n + 32768" "n < lk_recorded l + 32768"
    and recent: "length (lk_sent l) < snd (lk_packets l ! n) + 32768"
    and s: "reliable_process_ack (lk_sender l) (of_nat n) = Inr s"
  shows "link_inv nm (l\<lparr>lk_sender := s, lk_acked := insert n (lk_acked l)\<rparr>)" (is "link_inv nm ?l")
proof -
  have I: "sender_inv nm l" "receiver_inv l" "packets_inv l" "records_inv l"
    using inv by (auto simp: link_inv_def)
  note S = sender_invD[OF I(1)] and P = packets_invD[OF I(3)]
  let ?ob = "outbox_of (lk_sender l)" and ?msgs = "pd_messages (fst (lk_packets l ! n))"
  have nlen: "n < length (lk_packets l)" by (rule P(2)[OF n(1)])
  have arr: "arrived ?l k = arrived l k" for k by (simp add: arrived_def)
  have packets: "packets_inv ?l"
    by (rule packets_inv_frame[OF I(3)]) (use P(1) n(1) in \<open>auto simp: arrived_def\<close>)
  have receiver: "receiver_inv ?l"
    by (rule receiver_inv_frame[OF I(2)]) (use receiver_invD(1)[OF I(2)] in simp_all)
  have only_n: "i = n" if "i < length (lk_packets l)" "lk_recorded l \<le> i + 32768" "i < lk_recorded l + 32768"
      "(of_nat i :: u16) = of_nat n" for i
    using of_nat_u16_inj[OF that(4)] that(2,3) near by linarith
  show ?thesis
  proof (cases "ob_packets ?ob (of_nat n)")
    case None
    then have same: "s = lk_sender l" using rls.ack_unknown[OF S(1), of "of_nat n"] s by simp
    have "sender_inv nm ?l"
      by (rule sender_inv_frame[OF I(1)]) (use S(1) in \<open>simp_all add: same arrived_def\<close>)
    moreover have "records_inv ?l"
      using I(4) None only_n unfolding records_inv_def Let_def by (fastforce simp: same)
    ultimately show ?thesis using packets receiver by (simp add: link_inv_def)
  next
    case (Some p)
    obtain a ids where p: "p = (a, ids)" by (cases p)
    then have rec: "ob_packets ?ob (of_nat n) = Some (False, ids)" "ids = map fst ?msgs"
      using Some I(4) nlen near n(2) unfolding records_inv_def Let_def by auto
    obtain old where s': "sender_ok nm s"
      and view: "outbox_of s = ?ob\<lparr>ob_oldest := old, ob_pending := ob_pending ?ob |` (- set ids),
         ob_packets := (ob_packets ?ob)(of_nat n \<mapsto> (True, ids))\<rparr>"
      using rls.ack_removes[OF S(1) rec(1)] s by auto
    have acked: "arrived l k" if k: "k < length (lk_sent l)" "oldest_index l \<le> k" "of_nat k \<in> set ids" for k
    proof -
      obtain x where x: "x \<in> set ?msgs" "fst x = of_nat k" using k(3) rec(2) by auto
      obtain k' where k': "carries (lk_sent l) (snd (lk_packets l ! n)) k' x"
        using P(4)[OF nlen x(1)] by blast
      then have "k' = k"
        using x(2) k S(4) P(3)[OF nlen] recent by (intro of_nat_u16_inj) (auto simp: carries_def names_def)
      then show ?thesis using P(5)[OF n(1) x(1) k'] by simp
    qed
    have "sender_inv nm ?l"
      by (rule sender_inv_shrink[OF I(1), where ids = ids])
        (use s' acked in \<open>simp_all add: view arr\<close>)
    moreover have "records_inv ?l"
      unfolding records_inv_def Let_def
    proof (intro conjI allI impI)
      fix i b js assume i: "i < length (lk_packets ?l)" "lk_recorded ?l \<le> i + 32768" "i < lk_recorded ?l + 32768"
        "ob_packets (outbox_of (lk_sender ?l)) (of_nat i) = Some (b, js)"
      have "b = (i \<in> insert n (lk_acked l)) \<and> js = map fst (pd_messages (fst (lk_packets l ! i)))"
      proof (cases "i = n")
        case True
        then show ?thesis using i(4) rec(2) by (simp add: view)
      next
        case False
        then have "(of_nat i :: u16) \<noteq> of_nat n" using only_n i(1-3) by auto
        then have "ob_packets ?ob (of_nat i) = Some (b, js)" using i(4) by (simp add: view)
        then show ?thesis using I(4) i(1-3) False unfolding records_inv_def Let_def by simp
      qed
      then show "b = (i \<in> lk_acked ?l)" "js = map fst (pd_messages (fst (lk_packets ?l ! i)))" by simp_all
    qed (use I(4) in \<open>simp_all add: records_inv_def Let_def view\<close>)
    ultimately show ?thesis using packets receiver by (simp add: link_inv_def)
  qed
qed

text \<open>A packet in which the channel has no messages leaves nothing on record.\<close>

lemma record_ahead_empty:
  assumes "outbox_ok ob" "ob_packet_next ob = of_nat p" "p \<le> n" "n + 1 < p + 32768"
  shows "ob_packets ob (of_nat n) = None"
proof (rule ccontr)
  assume "ob_packets ob (of_nat n) \<noteq> None"
  then have "unat (ob_packet_next ob - 1 - of_nat n) < 32768" using assms(1) by (fastforce simp: outbox_ok_def)
  moreover have "ob_packet_next ob - 1 - of_nat n = of_nat p - of_nat (n + 1)" by (simp add: assms(2))
  ultimately have small: "unat (of_nat p - of_nat (n + 1) :: u16) < 32768" by (simp only:)
  have u: "unat (of_nat (n + 1) - of_nat p :: u16) = n + 1 - p"
    using assms(3,4) by (intro unat_of_nat_diff) auto
  have ne: "(of_nat (n + 1) :: u16) \<noteq> of_nat p" using u assms(3) by auto
  have "unat (of_nat p - of_nat (n + 1) :: u16) = 65536 - (n + 1 - p)"
    using unat_neg_diff[OF ne] u by (simp only:)
  with small assms(3,4) show False by linarith
qed

lemma emit_silent_keeps:
  assumes inv: "link_inv nm l" and n: "length (lk_packets l) + 1 < lk_recorded l + 32768"
    and s: "sender_ok nm s" "outbox_of s = outbox_of (lk_sender l)" and none: "pd_messages pd = []"
  shows "link_inv nm (l\<lparr>lk_sender := s, lk_packets := lk_packets l @ [(pd, length (lk_sent l))]\<rparr>)" (is "link_inv nm ?l")
proof -
  have I: "sender_inv nm l" "receiver_inv l" "packets_inv l" "records_inv l"
    using inv by (auto simp: link_inv_def)
  note P = packets_invD[OF I(3)]
  have arr: "arrived ?l k = arrived l k" for k by (simp add: arrived_def)
  have "sender_inv nm ?l" by (rule sender_inv_frame[OF I(1)]) (simp_all add: s arr)
  moreover have "receiver_inv ?l" by (rule receiver_inv_frame[OF I(2)]) (use receiver_invD(1)[OF I(2)] in simp_all)
  moreover have "packets_inv ?l"
  proof (rule packets_invI)
    fix i x assume "i < length (lk_packets ?l)" "x \<in> set (pd_messages (fst (lk_packets ?l ! i)))"
    then show "\<exists>k. carries (lk_sent ?l) (snd (lk_packets ?l ! i)) k x"
      using P(4)[of i x] none by (cases "i < length (lk_packets l)") (auto simp: nth_append less_Suc_eq)
  next
    fix i x k assume "i \<in> lk_delivered ?l" "x \<in> set (pd_messages (fst (lk_packets ?l ! i)))"
      "carries (lk_sent ?l) (snd (lk_packets ?l ! i)) k x"
    then show "arrived ?l k" using P(2)[of i] P(5)[of i x k] by (simp add: arr nth_append)
  next
    fix i assume "i < length (lk_packets ?l)"
    then show "snd (lk_packets ?l ! i) \<le> length (lk_sent ?l)"
      using P(3)[of i] by (cases "i < length (lk_packets l)") (auto simp: nth_append less_Suc_eq)
  qed (use P(1,2) in \<open>auto intro: less_SucI\<close>)
  moreover have "records_inv ?l"
  proof -
    have rec: "ob_packet_next (outbox_of (lk_sender l)) = of_nat (lk_recorded l)" "lk_recorded l \<le> length (lk_packets l)"
      using I(4) by (simp_all add: records_inv_def Let_def)
    have "ob_packets (outbox_of (lk_sender l)) (of_nat (length (lk_packets l))) = None"
      by (rule record_ahead_empty[OF sender_invD(2)[OF I(1)] rec n])
    then show ?thesis using I(4) rec s(2) unfolding records_inv_def Let_def
      by (auto simp: nth_append less_Suc_eq)
  qed
  ultimately show ?thesis by (simp add: link_inv_def)
qed

lemma emit_keeps:
  assumes inv: "link_inv nm l" and n: "n = length (lk_packets l)" "n + 1 < lk_recorded l + 32768"
    and room: "32 \<le> channel_budget (rl_config (lk_sender l)) available"
    and s: "reliable_packet_data (lk_sender l) channel_index (of_nat n) available = Inr (pd, bits, s)"
  shows "link_inv nm (l\<lparr>lk_sender := s, lk_packets := lk_packets l @ [(pd, length (lk_sent l))],
       lk_recorded := (if pd_messages pd = [] then lk_recorded l else n + 1)\<rparr>)" (is "link_inv nm ?l")
proof -
  have I: "sender_inv nm l" "receiver_inv l" "packets_inv l" "records_inv l"
    using inv by (auto simp: link_inv_def)
  note S = sender_invD[OF I(1)] and P = packets_invD[OF I(3)]
  let ?ob = "outbox_of (lk_sender l)" and ?p = "lk_recorded l"
  have rec: "ob_packet_next ?ob = of_nat ?p" "?p \<le> length (lk_packets l)"
    using I(4) by (simp_all add: records_inv_def Let_def)
  have old_records: "a = (i \<in> lk_acked l) \<and> ids = map fst (pd_messages (fst (lk_packets l ! i)))"
    if "i < length (lk_packets l)" "?p \<le> i + 32768" "i < ?p + 32768"
      "ob_packets ?ob (of_nat i) = Some (a, ids)" for i a ids
    using I(4) that unfolding records_inv_def Let_def by blast
  have "sequence_greater_than (of_nat (n + 1)) (of_nat ?p)"
    using sequence_order_near[of "n + 1" ?p] n rec(2) by simp
  then obtain ids where s': "sender_ok nm s" and choice: "set ids \<subseteq> dom (ob_pending ?ob)"
    and em: "emitted nm channel_index (of_nat n) ?ob ids pd bits (outbox_of s)"
    using rls.emit_chooses[OF S(1) room, of "of_nat n" channel_index] s
    by (auto simp: rec(1) outbox_choice_def add.commute)
  have view: "ob_next (outbox_of s) = ob_next ?ob" "ob_pending (outbox_of s) = ob_pending ?ob"
    using em by (auto simp: emitted_def outbox_emit_def split: if_splits)
  have msgs: "pd_messages pd = map (\<lambda>s. (s, the (ob_pending ?ob s))) ids"
    using em by (auto simp: emitted_def cpd_empty_def split: if_splits)
  have arr: "arrived ?l k = arrived l k" for k by (simp add: arrived_def)
  have sender: "sender_inv nm ?l"
    by (rule sender_inv_shrink[OF I(1), where ids = "[]"]) (use s' in \<open>simp_all add: view arrived_def restrict_map_def\<close>)
  have receiver: "receiver_inv ?l"
    by (rule receiver_inv_frame[OF I(2)]) (use receiver_invD[OF I(2)] in simp_all)
  have packets: "packets_inv ?l"
  proof (rule packets_invI)
    fix i x assume i: "i < length (lk_packets ?l)" "x \<in> set (pd_messages (fst (lk_packets ?l ! i)))"
    show "\<exists>k. carries (lk_sent ?l) (snd (lk_packets ?l ! i)) k x"
    proof (cases "i = n")
      case True
      then obtain t where t: "t \<in> set ids" "x = (t, the (ob_pending ?ob t))"
        using i(2) msgs n(1) by auto
      then obtain m where m: "ob_pending ?ob t = Some m" using choice by blast
      from S(7)[OF this] obtain k where "oldest_index l \<le> k" "names (lk_sent l) k t m" by blast
      then have "carries (lk_sent l) (length (lk_sent l)) k x"
        using S(4) t(2) m by (auto simp: carries_def names_def)
      then show ?thesis using True n(1) by auto
    qed (use P(4)[of i x] i n(1) in \<open>simp add: nth_append\<close>)
  next
    fix i x k assume i: "i \<in> lk_delivered ?l" "x \<in> set (pd_messages (fst (lk_packets ?l ! i)))"
      "carries (lk_sent ?l) (snd (lk_packets ?l ! i)) k x"
    then have "i < length (lk_packets l)" using P(2) by simp
    with i P(5) show "arrived ?l k" by (simp add: arr nth_append)
  next
    fix i assume "i < length (lk_packets ?l)"
    then show "snd (lk_packets ?l ! i) \<le> length (lk_sent ?l)"
      using P(3)[of i] n(1) by (cases "i = n") (simp_all add: nth_append)
  qed (use P(1,2) in \<open>auto intro: less_SucI\<close>)
  have "n \<notin> lk_acked l" using P(1,2) n(1) by blast
  have "records_inv ?l"
  proof (cases "ids = []")
    case True
    then have same: "outbox_of s = ?ob" "pd_messages pd = []" using em msgs by (simp_all add: emitted_def)
    have "link_inv nm (l\<lparr>lk_sender := s, lk_packets := lk_packets l @ [(pd, length (lk_sent l))]\<rparr>)"
      by (rule emit_silent_keeps[OF inv _ s' same]) (use n in simp)
    then show ?thesis using same(2) by (simp add: link_inv_def)
  next
    case False
    then have emit: "outbox_of s = outbox_emit ?ob (of_nat n) ids" and some: "pd_messages pd \<noteq> []"
      using em msgs by (simp_all add: emitted_def)
    have ids: "ids = map fst (pd_messages pd)" by (simp add: msgs comp_def)
    show ?thesis
      unfolding records_inv_def Let_def
    proof (intro conjI allI impI)
      fix i a js assume i: "i < length (lk_packets ?l)" "lk_recorded ?l \<le> i + 32768" "i < lk_recorded ?l + 32768"
        "ob_packets (outbox_of (lk_sender ?l)) (of_nat i) = Some (a, js)"
      have "a = (i \<in> lk_acked l) \<and> js = map fst (pd_messages (fst (lk_packets ?l ! i)))"
      proof (cases "i = n")
        case True
        then show ?thesis using i(4) \<open>n \<notin> lk_acked l\<close> ids n(1) by (simp add: emit outbox_emit_def)
      next
        case False
        then have less: "i < length (lk_packets l)" "n < i + 32768" using i(1,2) n(1) some by simp_all
        then have "(of_nat i :: u16) \<noteq> of_nat n" using False of_nat_u16_inj[of i n] n(1) by auto
        then have "ob_packets ?ob (of_nat i) = Some (a, js)"
          using i(4) by (simp add: emit outbox_emit_def split: if_splits)
        moreover have "?p \<le> i + 32768" "i < ?p + 32768" using less n rec(2) by linarith+
        ultimately show ?thesis using old_records[OF less(1)] less(1) by (simp add: nth_append)
      qed
      then show "a = (i \<in> lk_acked ?l)" "js = map fst (pd_messages (fst (lk_packets ?l ! i)))" by simp_all
    qed (use n(1) some in \<open>simp_all add: emit outbox_emit_def add.commute\<close>)
  qed
  then show ?thesis using sender receiver packets by (simp add: link_inv_def)
qed

lemma link_step_keeps: "link_step nm l l' \<Longrightarrow> link_inv nm l \<Longrightarrow> link_inv nm l'"
proof (induction rule: link_step.induct)
  case (Emit n l available channel_index pd bits s)
  then show ?case using emit_keeps by metis
qed (simp_all add: time_keeps send_keeps deliver_keeps receive_keeps poll_keeps ack_keeps)

lemma link_start_inv:
  assumes "reliable_config_ok cs" "reliable_config_ok cr" "reliable_new cs t = Inr s" "reliable_new cr t' = Inr r"
  shows "link_inv nm (link_start s r)"
proof -
  note cs = assms(1)[unfolded reliable_config_ok_def] and cr = assms(2)[unfolded reliable_config_ok_def]
  have s: "sender_ok nm s" "outbox_of s = \<lparr>ob_size = cc_message_send_queue_size cs, ob_next = 0, ob_oldest = 0,
       ob_pending = (\<lambda>_. None), ob_packets = (\<lambda>_. None), ob_packet_next = 0,
       ob_packet_size = cc_sent_packet_buffer_size cs\<rparr>"
    using new_sender[OF assms(3)] cs by blast+
  have r: "receiver_ok r"
    "inbox_of r = \<lparr>ib_size = cc_message_receive_queue_size cr, ib_next = 0, ib_pending = (\<lambda>_. None)\<rparr>"
    using new_receiver[OF assms(4)] cr by blast+
  show ?thesis
    unfolding link_inv_def
  proof (intro conjI)
    show "sender_inv nm (link_start s r)"
      using s by (simp add: sender_inv_def link_start_def oldest_index_def Let_def)
    show "receiver_inv (link_start s r)" using r by (simp add: receiver_inv_def link_start_def Let_def)
    show "packets_inv (link_start s r)" by (simp add: packets_inv_def link_start_def)
    show "records_inv (link_start s r)" using s by (simp add: records_inv_def link_start_def Let_def)
  qed
qed

lemma link_reachable_inv: "link_reachable nm cs cr l \<Longrightarrow> link_inv nm l"
  by (induction rule: link_reachable.induct) (auto intro: link_start_inv link_step_keeps)

section \<open>The promise of the channel\<close>

text \<open>The sizes of the queues never change.\<close>

lemma send_size:
  assumes "sender_ok nm rl" "reliable_can_send_message rl = Inr True" "reliable_send_message nm rl m = Inr rl'"
  shows "ob_size (outbox_of rl') = ob_size (outbox_of rl)"
  using rls.send_adds[OF assms(1,2), of m] send_message_panics(2)[OF assms(1,2), of m] assms(3)
  by (fastforce simp: outbox_add_def)

lemma emit_size:
  assumes inv: "link_inv nm l" and n: "n = length (lk_packets l)" "n + 1 < lk_recorded l + 32768"
    and room: "32 \<le> channel_budget (rl_config (lk_sender l)) available"
    and s: "reliable_packet_data (lk_sender l) channel_index (of_nat n) available = Inr (pd, bits, s)"
  shows "ob_size (outbox_of s) = ob_size (outbox_of (lk_sender l))"
proof -
  have S: "sender_ok nm (lk_sender l)" and rec: "records_inv l"
    using inv sender_invD(1) by (auto simp: link_inv_def)
  have "sequence_greater_than (of_nat (n + 1)) (of_nat (lk_recorded l))"
    using sequence_order_near[of "n + 1" "lk_recorded l"] n rec by (simp add: records_inv_def Let_def)
  then have "\<exists>ids. emitted nm channel_index (of_nat n) (outbox_of (lk_sender l)) ids pd bits (outbox_of s)"
    using rls.emit_chooses[OF S room, of "of_nat n" channel_index] s rec
    by (auto simp: records_inv_def Let_def add.commute)
  then show ?thesis by (auto simp: emitted_def outbox_emit_def split: if_splits)
qed

lemma ack_size:
  assumes S: "sender_ok nm rl" and s: "reliable_process_ack rl a = Inr rl'"
  shows "ob_size (outbox_of rl') = ob_size (outbox_of rl)"
proof (cases "ob_packets (outbox_of rl) a")
  case None
  then show ?thesis using rls.ack_unknown[OF S] s by force
next
  case (Some p)
  obtain b ids where "p = (b, ids)" by (cases p)
  then show ?thesis
    using Some rls.ack_again[OF S, of a ids] rls.ack_removes[OF S, of a ids] s by (cases b) auto
qed

lemma deliver_size:
  assumes "receiver_ok rl" "reliable_process_packet_data rl pd s = Inr rl'"
  shows "ib_size (inbox_of rl') = ib_size (inbox_of rl)"
  using rlr.deliver_result(2)[OF assms] by simp

lemma receive_size:
  assumes "receiver_ok rl" "reliable_receive_message rl = Inr (x, rl')"
  shows "ib_size (inbox_of rl') = ib_size (inbox_of rl)"
  using rlr.pop_result(3)[OF assms] by (simp add: inbox_pop_def split: option.splits)

lemma link_sizes:
  "link_reachable nm cs cr l \<Longrightarrow>
     ob_size (outbox_of (lk_sender l)) = cc_message_send_queue_size cs \<and>
     ib_size (inbox_of (lk_receiver l)) = cc_message_receive_queue_size cr"
proof (induction rule: link_reachable.induct)
  case (start t s t' r)
  then show ?case
    using new_sender(2)[OF start(3)] new_receiver(2)[OF start(4)]
    by (simp add: link_start_def reliable_config_ok_def)
next
  case (step l l')
  have inv: "link_inv nm l" by (rule link_reachable_inv[OF step(1)])
  then have ok: "sender_ok nm (lk_sender l)" "receiver_ok (lk_receiver l)"
    using sender_invD(1) receiver_invD(1) by (auto simp: link_inv_def)
  from step(2) step.IH show ?case
    by cases (simp_all add: send_size[OF ok(1)] emit_size[OF inv] ack_size[OF ok(1)]
        deliver_size[OF ok(2)] receive_size[OF ok(2)])
qed

text \<open>C12: Whatever the network loses, duplicates, delays or reorders, the messages handed out
  are a prefix of the messages sent: none is lost, repeated, altered or out of order.\<close>

theorem delivery_in_order:
  assumes "link_reachable nm cs cr l"
  shows "prefix (lk_received l) (lk_sent l)"
  using receiver_invD(5)[of l] link_reachable_inv[OF assms]
  by (metis link_inv_def take_is_prefix)

lemma link_keeps_message:
  assumes "link_inv nm l" "k < length (lk_sent l)"
  shows "k < length (lk_received l) \<or>
    ib_pending (inbox_of (lk_receiver l)) (of_nat k) = Some (lk_sent l ! k) \<or>
    ob_pending (outbox_of (lk_sender l)) (of_nat k) = Some (lk_sent l ! k)"
proof -
  have I: "sender_inv nm l" using assms(1) by (simp add: link_inv_def)
  note S = sender_invD[OF I]
  show ?thesis
  proof (cases "ob_pending (outbox_of (lk_sender l)) (of_nat k)")
    case None
    then have "arrived l k" using S(8,9) assms(2) by (meson linorder_not_less)
    then show ?thesis by (auto simp: arrived_def)
  next
    case (Some m)
    show ?thesis
    proof (cases "k < oldest_index l")
      case True
      then show ?thesis using S(9) by (auto simp: arrived_def)
    next
      case False
      from S(7)[OF Some] obtain k' where k': "oldest_index l \<le> k'" "names (lk_sent l) k' (of_nat k) m" by blast
      then have "k' = k" using False S(4) assms(2)
        by (intro of_nat_u16_inj) (auto simp: names_def)
      then show ?thesis using Some k' by (simp add: names_def)
    qed
  qed
qed

text \<open>No message is ever dropped: every message that was sent has been handed out, waits at
  the receiver, or is still in the send queue and will be sent again.\<close>

theorem delivery_keeps_every_message:
  assumes "link_reachable nm cs cr l" "k < length (lk_sent l)"
  shows "k < length (lk_received l) \<or>
    ib_pending (inbox_of (lk_receiver l)) (of_nat k) = Some (lk_sent l ! k) \<or>
    ob_pending (outbox_of (lk_sender l)) (of_nat k) = Some (lk_sent l ! k)"
  by (rule link_keeps_message[OF link_reachable_inv[OF assms(1)] assms(2)])

lemma drained_room:
  assumes "link_inv nm l"
    and sizes: "ob_size (outbox_of (lk_sender l)) \<le> ib_size (inbox_of (lk_receiver l))"
    and drained: "reliable_receive_message (lk_receiver l) = Inr (None, r0)"
  shows "length (lk_sent l) \<le> length (lk_received l) + ib_size (inbox_of (lk_receiver l))"
proof -
  have I: "sender_inv nm l" "receiver_inv l" using assms(1) by (auto simp: link_inv_def)
  note S = sender_invD[OF I(1)] and R = receiver_invD[OF I(2)]
  have none: "ib_pending (inbox_of (lk_receiver l)) (of_nat (length (lk_received l))) = None"
    using rlr.pop_result(2)[OF R(1) drained] R(3) by (auto simp: inbox_pop_def split: option.splits)
  have "oldest_index l \<le> length (lk_received l)"
  proof (rule ccontr)
    assume "\<not> oldest_index l \<le> length (lk_received l)"
    then have "arrived l (length (lk_received l))" using S(9) by simp
    with none show False by (simp add: arrived_def)
  qed
  moreover have "length (lk_sent l) \<le> oldest_index l + ob_size (outbox_of (lk_sender l))"
  proof -
    have "unat (ob_next (outbox_of (lk_sender l)) - ob_oldest (outbox_of (lk_sender l))) \<le>
        ob_size (outbox_of (lk_sender l))"
      using S(2) unfolding outbox_ok_def by blast
    then show ?thesis by (simp add: oldest_index_def)
  qed
  ultimately show ?thesis using sizes by linarith
qed

lemma deliver_drained:
  assumes l: "link_inv nm l"
    and sizes: "ob_size (outbox_of (lk_sender l)) \<le> ib_size (inbox_of (lk_receiver l))"
    and drained: "reliable_receive_message (lk_receiver l) = Inr (None, r0)"
    and n: "n < length (lk_packets l)" "lk_packets l ! n = (pd, base)"
    and fresh: "length (lk_received l) < base + 16384"
  shows "\<exists>r. reliable_process_packet_data (lk_receiver l) pd s = Inr r"
proof -
  have I: "sender_inv nm l" "receiver_inv l" "packets_inv l"
    using l by (auto simp: link_inv_def)
  note R = receiver_invD[OF I(2)] and P = packets_invD[OF I(3)]
  note room = drained_room[OF l sizes drained] and span = window_span[OF I(1,2)]
  have "inbox_verdict (inbox_of (lk_receiver l)) (fst x) \<noteq> TooNew" if x: "x \<in> set (pd_messages pd)" for x
  proof -
    obtain k where k: "carries (lk_sent l) base k x" using P(4)[OF n(1), of x] n(2) x by auto
    then have "k < length (lk_sent l)" "fst x = of_nat k" by (auto simp: carries_def names_def)
    moreover have "inbox_verdict (inbox_of (lk_receiver l)) (of_nat k) =
        (if k < length (lk_received l) then Stale
         else if k < length (lk_received l) + ib_size (inbox_of (lk_receiver l)) then Acceptable else TooNew)"
      using k fresh span by (intro verdict_index[OF R(3,2)]) (auto simp: carries_def names_def)
    ultimately show ?thesis using room by simp
  qed
  from rlr.deliver_accepts[OF R(1) this] show ?thesis by blast
qed

text \<open>A receiver that hands out what it has before the next packet arrives, with a receive
  queue at least as large as the sender's send queue, never panics on a desync.\<close>

theorem delivery_never_desyncs:
  assumes "link_reachable nm cs cr l"
    and "cc_message_send_queue_size cs \<le> cc_message_receive_queue_size cr"
    and "reliable_receive_message (lk_receiver l) = Inr (None, r0)"
    and "n < length (lk_packets l)" "lk_packets l ! n = (pd, base)"
    and "length (lk_received l) < base + 16384"
  shows "\<exists>r. reliable_process_packet_data (lk_receiver l) pd (of_nat n) = Inr r"
  using deliver_drained[OF link_reachable_inv[OF assms(1)] _ assms(3-6)] link_sizes[OF assms(1)] assms(2) by simp

lemma link_makes_progress:
  assumes l: "link_inv nm l"
    and "ob_size (outbox_of (lk_sender l)) \<le> ib_size (inbox_of (lk_receiver l))"
    and "reliable_receive_message (lk_receiver l) = Inr (None, r0)"
    and n: "n < length (lk_packets l)" "lk_packets l ! n = (pd, base)"
    and fresh: "length (lk_received l) < base + 16384"
    and x: "(of_nat (length (lk_received l)), m) \<in> set (pd_messages pd)"
  shows "\<exists>r r'. reliable_process_packet_data (lk_receiver l) pd (of_nat n) = Inr r \<and>
    reliable_receive_message r = Inr (Some (of_nat (length (lk_received l)), lk_sent l ! length (lk_received l)), r')"
proof -
  obtain r where r: "reliable_process_packet_data (lk_receiver l) pd (of_nat n) = Inr r"
    using deliver_drained[OF assms(1-6)] by blast
  have I: "sender_inv nm l" "receiver_inv l" "packets_inv l"
    using l by (auto simp: link_inv_def)
  note D = deliver_pending[OF I n fresh r] and P = packets_invD[OF I(3)] and R = receiver_invD[OF I(2)]
  let ?k = "length (lk_received l)"
  obtain k where k: "carries (lk_sent l) base k (of_nat ?k, m)" using P(4)[OF n(1)] n(2) x by fastforce
  moreover have "base \<le> ?k + 16384"
    using P(3)[OF n(1)] n(2) drained_room[OF assms(1-3)] R(2) by simp
  ultimately have "k = ?k" using fresh by (intro of_nat_u16_inj) (auto simp: carries_def names_def)
  with D(6)[OF x k] have "ib_pending (inbox_of r) (of_nat ?k) = Some (lk_sent l ! ?k)" by simp
  then have "fst (inbox_pop (inbox_of r)) = Some (of_nat ?k, lk_sent l ! ?k)"
    using D(2) R(3) by (simp add: inbox_pop_def)
  with rlr.pop_step[OF D(1)] r show ?thesis by auto
qed

text \<open>As soon as a packet arrives that carries the message the receiver is waiting for, the
  receiver hands that message out.\<close>

theorem delivery_makes_progress:
  assumes l: "link_reachable nm cs cr l"
    and "cc_message_send_queue_size cs \<le> cc_message_receive_queue_size cr"
    and "reliable_receive_message (lk_receiver l) = Inr (None, r0)"
    and n: "n < length (lk_packets l)" "lk_packets l ! n = (pd, base)"
    and fresh: "length (lk_received l) < base + 16384"
    and x: "(of_nat (length (lk_received l)), m) \<in> set (pd_messages pd)"
  shows "\<exists>r r'. reliable_process_packet_data (lk_receiver l) pd (of_nat n) = Inr r \<and>
    reliable_receive_message r = Inr (Some (of_nat (length (lk_received l)), lk_sent l ! length (lk_received l)), r')"
  using link_makes_progress[OF link_reachable_inv[OF l] _ assms(3-7)] link_sizes[OF l] assms(2) by simp

lemma link_acks_never_panic:
  assumes "link_inv nm l" "n \<in> lk_delivered l" "n \<notin> lk_acked l"
    and "lk_recorded l \<le> n + 32768" "n < lk_recorded l + 32768"
  shows "\<exists>s. reliable_process_ack (lk_sender l) (of_nat n) = Inr s"
proof -
  have I: "sender_inv nm l" "packets_inv l" "records_inv l"
    using assms(1) by (auto simp: link_inv_def)
  note S = sender_invD(1)[OF I(1)]
  show ?thesis
  proof (cases "ob_packets (outbox_of (lk_sender l)) (of_nat n)")
    case None
    then show ?thesis using rls.ack_unknown[OF S] by blast
  next
    case (Some p)
    obtain a ids where p: "p = (a, ids)" by (cases p)
    have "a = (n \<in> lk_acked l)"
      using I(3) Some p assms(4,5) packets_invD(2)[OF I(2) assms(2)]
      unfolding records_inv_def Let_def by blast
    then show ?thesis using rls.ack_removes[OF S, of "of_nat n" ids] Some p assms(3) by auto
  qed
qed

text \<open>The acknowledgements the network layer reports never make the sender panic.\<close>

theorem delivery_acks_never_panic:
  assumes "link_reachable nm cs cr l" "n \<in> lk_delivered l" "n \<notin> lk_acked l"
    and "lk_recorded l \<le> n + 32768" "n < lk_recorded l + 32768"
  shows "\<exists>s. reliable_process_ack (lk_sender l) (of_nat n) = Inr s"
  by (rule link_acks_never_panic[OF link_reachable_inv[OF assms(1)] assms(2-)])

section \<open>Channels that stay silent\<close>

text \<open>
  The sent packets of a channel are remembered by 16 bit packet numbers, and the pointer of that
  memory moves only when the channel has messages in a packet. All channels of a connection
  share the packet numbers, so a channel that stays silent while another one is busy falls
  behind: its memory then answers for packets it never took part in, or refuses new ones.
\<close>

lemma silent_packet_data:
  "\<not> reliable_has_messages_to_send rl \<Longrightarrow> reliable_packet_data rl i s available = Inr (cpd_empty, 0, rl)"
  by (simp add: reliable_packet_data_def)

text \<open>C38: An acknowledged packet stays on record while the channel is silent: the packet 65536
  later has the same number, and its acknowledgement, which the connection hands to every
  channel, panics in this one.\<close>

theorem silent_channel_panics_on_reused_number:
  assumes "sender_ok nm rl" "ob_packets (outbox_of rl) a = Some (False, ids)"
    and "reliable_process_ack rl a = Inr rl1" "\<not> reliable_has_messages_to_send rl1"
  shows "(\<forall>i s available. reliable_packet_data rl1 i s available = Inr (cpd_empty, 0, rl1)) \<and>
    reliable_process_ack rl1 (a + of_nat 65536) = Inl AssertionFailed"
proof -
  obtain old where "sender_ok nm rl1" "outbox_of rl1 = (outbox_of rl)\<lparr>ob_oldest := old,
      ob_pending := ob_pending (outbox_of rl) |` (- set ids),
      ob_packets := (ob_packets (outbox_of rl))(a \<mapsto> (True, ids))\<rparr>"
    using rls.ack_removes[OF assms(1,2)] assms(3) by auto
  then have "reliable_process_ack rl1 a = Inl AssertionFailed"
    using rls.ack_again[of nm rl1 a ids] by simp
  moreover have "a + of_nat 65536 = a" by simp
  ultimately show ?thesis using silent_packet_data[OF assms(4)] by (simp only: simp_thms)
qed

lemma stale_number_not_recorded:
  assumes sent: "sent_ok config (rl_sent_packets rl) buffer"
    and old: "\<not> sequence_greater_than (s + 1) (sb_sequence (rl_sent_packets rl))"
      "\<not> sb_in_window (rl_sent_packets rl) s" and rl: "rl_config rl = config"
  shows "reliable_add_message_packet_entry rl ids s = Inr rl"
proof -
  have w: "sb_window (rl_sent_packets rl)" "cc_sent_packet_buffer_size config \<noteq> 0"
    using sent sb_windowD(3) by (fastforce simp: sent_ok_def)+
  with old rl show ?thesis
    by (simp add: reliable_add_message_packet_entry_def sb_insert_with_window Let_def)
qed

text \<open>C39: After a silence of more than half the range of packet numbers the next packet with
  messages is not recorded: it is sent, but its acknowledgement does nothing, so its messages
  stay in the send queue.\<close>

theorem silent_channel_forgets_next_packet:
  assumes ok: "sender_ok nm rl" and some: "reliable_has_messages_to_send rl"
    and room: "32 \<le> channel_budget (rl_config rl) available"
    and silence: "32768 < unat (s + 1 - sb_sequence (rl_sent_packets rl))"
      "sb_capacity (rl_sent_packets rl) \<le> unat (sb_sequence (rl_sent_packets rl) - 1 - s)"
  shows "\<exists>pd bits rl1. reliable_packet_data rl i s available = Inr (pd, bits, rl1) \<and>
    outbox_of rl1 = outbox_of rl \<and> reliable_process_ack rl1 s = Inr rl1"
proof -
  have old: "\<not> sequence_greater_than (s + 1) (sb_sequence (rl_sent_packets rl))"
    "\<not> sb_in_window (rl_sent_packets rl) s"
    using silence by (simp_all add: sequence_greater_than_far sb_in_window_def)
  obtain ids q where get: "reliable_get_messages_to_send rl available =
       Inr (ids, outbox_bits nm (outbox_of rl) ids, rl\<lparr>rl_message_send_queue := q\<rparr>)"
    and choice: "outbox_choice (outbox_of rl) (cc_max_messages_per_packet (rl_config rl)) ids"
    and ok1: "sender_ok nm (rl\<lparr>rl_message_send_queue := q\<rparr>)"
    and ob1: "outbox_of (rl\<lparr>rl_message_send_queue := q\<rparr>) = outbox_of rl"
    by (rule get_messages_result[OF ok some room]) blast
  let ?rl = "rl\<lparr>rl_message_send_queue := q\<rparr>"
  have live: "sb_lookup q t \<noteq> None" if "t \<in> set ids" for t
  proof -
    have "map_option se_message (sb_lookup q t) = ob_pending (outbox_of rl) t"
      using arg_cong[OF ob1, of "\<lambda>ob. ob_pending ob t"] by (simp add: outbox_of_def)
    moreover have "ob_pending (outbox_of rl) t \<noteq> None" using choice that by (auto simp: outbox_choice_def)
    ultimately show ?thesis by auto
  qed
  have "reliable_add_message_packet_entry ?rl ids s = Inr ?rl"
    by (rule stale_number_not_recorded[of "rl_config rl" _ "rl_sent_packet_message_ids rl"])
      (use sender_okD(3)[OF ok] old in simp_all)
  then have "\<exists>pd bits. reliable_packet_data rl i s available = Inr (pd, bits, ?rl)"
    using some get collect_result[OF _ live, of ids] sender_okD(4)[OF ok1]
    by (simp add: reliable_packet_data_def reliable_get_message_packet_data_def)
  moreover have "ob_packets (outbox_of rl) s = None"
  proof (rule ccontr)
    assume "ob_packets (outbox_of rl) s \<noteq> None"
    then have "unat (ob_packet_next (outbox_of rl) - 1 - s) < ob_packet_size (outbox_of rl)"
      using rls.view_ok[OF ok] unfolding outbox_ok_def by blast
    with silence(2) show False by (simp add: outbox_of_def)
  qed
  ultimately show ?thesis using rls.ack_unknown[OF ok1, of s] ob1 by metis
qed

subsection \<open>A concrete run\<close>

definition demo_packet :: "u64 channel_packet_data" where
  "demo_packet = \<lparr>pd_channel_index = 0, pd_messages = [(0, 42), (1, 43)]\<rparr>"

definition demo_delivered :: "u64 reliable" where
  "demo_delivered = (case reliable_process_packet_data demo_reliable demo_packet 0 of
     Inr rl \<Rightarrow> rl | Inl _ \<Rightarrow> demo_reliable)"

definition demo_handed_out :: "u64 reliable" where
  "demo_handed_out = (case reliable_receive_message demo_delivered of
     Inr (_, rl) \<Rightarrow> rl | Inl _ \<Rightarrow> demo_delivered)"

definition demo_link :: "u64 link" where
  "demo_link = (link_start demo_reliable demo_reliable)\<lparr>lk_sender := demo_emitted, lk_sent := [42, 43],
     lk_packets := [(demo_packet, 2)], lk_recorded := 1\<rparr>"

definition demo_link_delivered :: "u64 link" where
  "demo_link_delivered = demo_link\<lparr>lk_receiver := demo_delivered, lk_delivered := {0}\<rparr>"

definition demo_link_received :: "u64 link" where
  "demo_link_received = demo_link_delivered\<lparr>lk_receiver := demo_handed_out, lk_received := [42]\<rparr>"

lemma demo_config_ok: "reliable_config_ok demo_reliable_config"
  by (simp add: reliable_config_ok_def demo_reliable_config_def channel_config_new_def)

abbreviation demo_reachable :: "u64 link \<Rightarrow> bool" where
  "demo_reachable \<equiv> link_reachable test_message demo_reliable_config demo_reliable_config"

lemma demo_link_reachable: "demo_reachable demo_link"
proof -
  have start: "demo_reachable (link_start demo_reliable demo_reliable)"
    by (rule link_reachable.start[OF demo_config_ok demo_config_ok demo_reliable_new demo_reliable_new])
  obtain s1 where s1: "reliable_can_send_message demo_reliable = Inr True"
    "reliable_send_message test_message demo_reliable 42 = Inr s1"
    "reliable_can_send_message s1 = Inr True" "reliable_send_message test_message s1 43 = Inr demo_sending"
  proof -
    have "(case reliable_send_message test_message demo_reliable 42 of Inl _ \<Rightarrow> False
        | Inr rl \<Rightarrow> reliable_can_send_message rl = Inr True \<and>
            reliable_send_message test_message rl 43 = Inr demo_sending)"
      "reliable_can_send_message demo_reliable = Inr True" by code_simp+
    then show ?thesis using that by (auto split: sum.splits)
  qed
  have "demo_reachable ((link_start demo_reliable demo_reliable)\<lparr>lk_sender := s1, lk_sent := [42]\<rparr>)"
    using link_reachable.step[OF start link_step.Send[of "link_start demo_reliable demo_reliable" test_message 42 s1]] s1
    by (simp add: link_start_def)
  then have sent: "demo_reachable ((link_start demo_reliable demo_reliable)\<lparr>lk_sender := demo_sending, lk_sent := [42, 43]\<rparr>)"
    using link_reachable.step[OF _ link_step.Send[of "(link_start demo_reliable demo_reliable)\<lparr>lk_sender := s1,
      lk_sent := [42]\<rparr>" test_message 43 demo_sending]] s1
    by (simp add: link_start_def)
  show ?thesis
    using link_reachable.step[OF sent link_step.Emit[of 0 "(link_start demo_reliable demo_reliable)\<lparr>lk_sender := demo_sending,
      lk_sent := [42, 43]\<rparr>" 200 0 demo_packet 192 demo_emitted test_message]]
      demo_emitted_run demo_sending_room(1)
    by (simp add: link_start_def demo_link_def demo_packet_def numeral_2_eq_2)
qed

lemma demo_delivered_run:
  "reliable_process_packet_data demo_reliable demo_packet 0 = Inr demo_delivered"
  "reliable_receive_message demo_delivered = Inr (Some (0, 42), demo_handed_out)"
  by code_simp+

lemma demo_link_delivered_reachable: "demo_reachable demo_link_delivered"
  using link_reachable.step[OF demo_link_reachable link_step.Deliver[of 0 demo_link demo_packet 2 demo_delivered test_message]]
    demo_delivered_run by (simp add: demo_link_delivered_def demo_link_def link_start_def)

lemma demo_link_received_reachable: "demo_reachable demo_link_received"
  using link_reachable.step[OF demo_link_delivered_reachable
      link_step.Receive[of demo_link_delivered 0 42 demo_handed_out test_message]]
    demo_delivered_run by (simp add: demo_link_received_def demo_link_delivered_def demo_link_def link_start_def)

lemma demo_receiver_drained: "reliable_receive_message (lk_receiver demo_link) = Inr (None, demo_reliable)"
proof -
  have "reliable_receive_message demo_reliable = Inr (None, demo_reliable)" by code_simp
  then show ?thesis by (simp add: demo_link_def link_start_def)
qed

theorem delivery_in_order_witness:
  "prefix (lk_received demo_link_received) (lk_sent demo_link_received) \<and> lk_received demo_link_received = [42]"
  using delivery_in_order[OF demo_link_received_reachable] by (simp add: demo_link_received_def)

theorem delivery_keeps_every_message_witness:
  "ib_pending (inbox_of (lk_receiver demo_link)) 0 = Some 42 \<or>
   ob_pending (outbox_of (lk_sender demo_link)) 0 = Some 42"
  using delivery_keeps_every_message[OF demo_link_reachable, of 0] by (simp add: demo_link_def link_start_def)

theorem delivery_never_desyncs_witness:
  "\<exists>r. reliable_process_packet_data (lk_receiver demo_link) demo_packet 0 = Inr r"
  using delivery_never_desyncs[OF demo_link_reachable _ demo_receiver_drained, of 0 demo_packet 2]
  by (simp add: demo_link_def link_start_def)

theorem delivery_makes_progress_witness:
  "\<exists>r r'. reliable_process_packet_data (lk_receiver demo_link) demo_packet 0 = Inr r \<and>
     reliable_receive_message r = Inr (Some (0, 42), r')"
  using delivery_makes_progress[OF demo_link_reachable _ demo_receiver_drained, of 0 demo_packet 2 42]
  by (simp add: demo_link_def link_start_def demo_packet_def)

theorem delivery_acks_never_panic_witness:
  "\<exists>s. reliable_process_ack (lk_sender demo_link_delivered) 0 = Inr s"
  using delivery_acks_never_panic[OF demo_link_delivered_reachable, of 0]
  by (simp add: demo_link_delivered_def demo_link_def link_start_def)

theorem silent_channel_panics_on_reused_number_witness:
  "\<exists>rl1. reliable_process_ack demo_emitted 0 = Inr rl1 \<and>
     reliable_process_ack rl1 (0 + of_nat 65536) = Inl AssertionFailed"
proof -
  have "case reliable_process_ack demo_emitted 0 of Inl _ \<Rightarrow> False
      | Inr rl1 \<Rightarrow> \<not> reliable_has_messages_to_send rl1" by code_simp
  then obtain rl1 where "reliable_process_ack demo_emitted 0 = Inr rl1" "\<not> reliable_has_messages_to_send rl1"
    by (auto split: sum.splits)
  with silent_channel_panics_on_reused_number[OF demo_emitted_ok this] show ?thesis by blast
qed

theorem silent_channel_forgets_next_packet_witness:
  "\<exists>pd bits rl1. reliable_packet_data demo_sending 0 40000 200 = Inr (pd, bits, rl1) \<and>
     outbox_of rl1 = outbox_of demo_sending \<and> reliable_process_ack rl1 40000 = Inr rl1"
proof -
  have "32768 < unat (40000 + 1 - sb_sequence (rl_sent_packets demo_sending))"
    "sb_capacity (rl_sent_packets demo_sending) \<le> unat (sb_sequence (rl_sent_packets demo_sending) - 1 - 40000)"
    by code_simp+
  then show ?thesis
    by (rule silent_channel_forgets_next_packet[OF demo_sending_ok demo_sending_facts(4) demo_sending_room(1)])
qed

end
