(* ===== verification/Unreliable.thy ===== *)
theory Unreliable
  imports Packet_Data "HOL-Library.Sublist"
begin

text \<open>
  \<open>src/channel/unreliable.rs\<close>: the unreliable unordered channel, two bounded queues. The
  methods of the trait \<open>Processor\<close> become functions that return the new state; the code first,
  then what \<open>packet_data\<close> takes from the send queue and how many bits it accounts for.
\<close>

section \<open>The code\<close>

record 'm unreliable =
  ur_message_send_queue :: "'m vec_deque"
  ur_message_receive_queue :: "(u16 \<times> 'm) vec_deque"

definition unreliable_new :: "channel_config \<Rightarrow> panic + 'm unreliable" where
  "unreliable_new config =
     (if cc_kind config \<noteq> UnreliableUnordered then Inl AssertionFailed
      else Inr \<lparr>ur_message_send_queue = vd_with_capacity (cc_message_send_queue_size config),
                ur_message_receive_queue = vd_with_capacity (cc_message_receive_queue_size config)\<rparr>)"

definition unreliable_advance_time :: "'m unreliable \<Rightarrow> f64 \<Rightarrow> 'm unreliable" where
  "unreliable_advance_time ur new_time = ur"

definition unreliable_reset :: "'m unreliable \<Rightarrow> 'm unreliable" where
  "unreliable_reset ur =
     ur\<lparr>ur_message_send_queue := vd_clear (ur_message_send_queue ur),
        ur_message_receive_queue := vd_clear (ur_message_receive_queue ur)\<rparr>"

definition unreliable_can_send_message :: "'m unreliable \<Rightarrow> panic + bool" where
  "unreliable_can_send_message ur =
     (let q = ur_message_send_queue ur in
      if \<not> 0 < vd_capacity q then Inl AssertionFailed
      else Inr (length (vd_items q) < vd_capacity q))"

text \<open>As written in the source: true when the queue is empty.\<close>

definition unreliable_has_messages_to_send :: "'m unreliable \<Rightarrow> bool" where
  "unreliable_has_messages_to_send ur \<longleftrightarrow> vd_items (ur_message_send_queue ur) = []"

definition unreliable_send_message :: "'m unreliable \<Rightarrow> 'm \<Rightarrow> 'm unreliable" where
  "unreliable_send_message ur message =
     ur\<lparr>ur_message_send_queue := vd_push_back (ur_message_send_queue ur) message\<rparr>"

definition unreliable_receive_message :: "'m unreliable \<Rightarrow> (u16 \<times> 'm) option \<times> 'm unreliable" where
  "unreliable_receive_message ur =
     (let (r, q) = vd_pop_front (ur_message_receive_queue ur)
      in (r, ur\<lparr>ur_message_receive_queue := q\<rparr>))"

text \<open>The loop of \<open>packet_data\<close>: each round stops or takes a message off the send queue; a
  message that does not fit is dropped.\<close>

fun unreliable_fill ::
  "('m, 'e) network_message \<Rightarrow> usize \<Rightarrow> u16 \<Rightarrow> usize \<Rightarrow> 'm list \<Rightarrow> usize \<Rightarrow> (u16 \<times> 'm) list
     \<Rightarrow> panic + ('m list \<times> usize \<times> (u16 \<times> 'm) list)" where
  "unreliable_fill nm max_messages packet_sequence available_bits queue used_bits messages =
     (if available_bits - used_bits < 4 * 8 then Inr (queue, used_bits, messages)
      else if length messages = max_messages then Inr (queue, used_bits, messages)
      else case queue of
          [] \<Rightarrow> Inr (queue, used_bits, messages)
        | message # queue' \<Rightarrow>
            rbind (measure_sink_bytes nm message) (\<lambda>bytes.
            let message_bits = 8 * bytes in
            if available_bits < used_bits + message_bits
            then unreliable_fill nm max_messages packet_sequence available_bits queue' used_bits messages
            else let used_bits' = used_bits + message_bits in
              if \<not> used_bits' \<le> available_bits then Inl AssertionFailed
              else unreliable_fill nm max_messages packet_sequence available_bits queue' used_bits'
                     (messages @ [(packet_sequence, message)])))"

declare unreliable_fill.simps [simp del]

definition unreliable_packet_data ::
  "('m, 'e) network_message \<Rightarrow> 'm unreliable \<Rightarrow> channel_config \<Rightarrow> usize \<Rightarrow> u16 \<Rightarrow> usize
     \<Rightarrow> panic + ('m channel_packet_data \<times> usize \<times> 'm unreliable)" where
  "unreliable_packet_data nm ur config channel_index packet_sequence available_bits0 =
     (let q = ur_message_send_queue ur in
      if vd_items q = [] then Inr (cpd_empty, 0, ur) else
      let available_bits = (case cc_packet_budget config of
            None \<Rightarrow> available_bits0
          | Some packet_budget \<Rightarrow> min (packet_budget * 8) available_bits0) in
      rbind (unreliable_fill nm (cc_max_messages_per_packet config) packet_sequence available_bits
               (vd_items q) CONSERVATIVE_MESSAGE_HEADER_BITS []) (\<lambda>(queue, used_bits, messages).
      let ur' = ur\<lparr>ur_message_send_queue := q\<lparr>vd_items := queue\<rparr>\<rparr> in
      if messages = [] then Inr (cpd_empty, 0, ur')
      else Inr (\<lparr>pd_channel_index = channel_index, pd_messages = messages\<rparr>, used_bits, ur')))"

definition unreliable_process_packet_data ::
  "'m unreliable \<Rightarrow> 'm channel_packet_data \<Rightarrow> u16 \<Rightarrow> 'm unreliable" where
  "unreliable_process_packet_data ur packet_data packet_sequence =
     ur\<lparr>ur_message_receive_queue :=
          foldl (\<lambda>q (_, message).
                   if length (vd_items q) < vd_capacity q
                   then vd_push_back q (packet_sequence, message) else q)
            (ur_message_receive_queue ur) (pd_messages packet_data)\<rparr>"

definition unreliable_process_ack :: "'m unreliable \<Rightarrow> u16 \<Rightarrow> 'm unreliable" where
  "unreliable_process_ack ur ack = ur"

section \<open>What packet_data takes\<close>

text \<open>The contract of one call of \<open>packet_data\<close>: it removes a prefix of the send queue. Of that
  prefix the messages \<open>kept\<close> go into the packet, in order; the \<open>dropped\<close> ones are lost because
  they did not fit next to what the packet holds. It stops when the queue or the packet is
  exhausted.\<close>

definition unreliable_round ::
  "('m, 'e) network_message \<Rightarrow> nat \<Rightarrow> usize \<Rightarrow> usize \<Rightarrow> 'm list \<Rightarrow> 'm list \<Rightarrow> 'm list \<Rightarrow> 'm list \<Rightarrow> bool" where
  "unreliable_round nm max_messages used available queue kept dropped rest \<longleftrightarrow>
     (\<exists>taken \<in> shuffles kept dropped. queue = taken @ rest) \<and>
     length kept \<le> max_messages \<and>
     (kept \<noteq> [] \<longrightarrow> used + sum_list (map (\<lambda>m. 8 * msg_size nm m) kept) \<le> available) \<and>
     (\<forall>m \<in> set dropped. available < used + sum_list (map (\<lambda>m. 8 * msg_size nm m) kept) + 8 * msg_size nm m) \<and>
     (rest = [] \<or> length kept = max_messages \<or>
      available < used + sum_list (map (\<lambda>m. 8 * msg_size nm m) kept) + 32)"

lemma unreliable_round_stop:
  "queue = [] \<or> max_messages = 0 \<or> available < used + 32 \<Longrightarrow>
    unreliable_round nm max_messages used available queue [] [] queue"
  by (auto simp: unreliable_round_def)

lemma unreliable_round_drop:
  assumes "unreliable_round nm k used available queue kept dropped rest"
    and "available < used + 8 * msg_size nm m"
  shows "unreliable_round nm k used available (m # queue) kept (m # dropped) rest"
proof -
  obtain taken where "taken \<in> shuffles kept dropped" "queue = taken @ rest"
    using assms(1) by (auto simp: unreliable_round_def)
  then have "m # taken \<in> shuffles kept (m # dropped)" "m # queue = (m # taken) @ rest"
    using Cons_in_shuffles_rightI by auto
  with assms show ?thesis unfolding unreliable_round_def by force
qed

lemma unreliable_round_keep:
  assumes "unreliable_round nm k (used + 8 * msg_size nm m) available queue kept dropped rest"
    and "used + 8 * msg_size nm m \<le> available"
  shows "unreliable_round nm (Suc k) used available (m # queue) (m # kept) dropped rest"
proof -
  obtain taken where "taken \<in> shuffles kept dropped" "queue = taken @ rest"
    using assms(1) by (auto simp: unreliable_round_def)
  then have "m # taken \<in> shuffles (m # kept) dropped" "m # queue = (m # taken) @ rest"
    using Cons_in_shuffles_leftI by auto
  with assms show ?thesis
    unfolding unreliable_round_def by (cases "kept = []") (force simp: add.assoc)+
qed

lemma unreliable_fill_result:
  assumes "\<forall>m \<in> set queue. msg_measurable nm m" "length messages \<le> max_messages"
  obtains kept dropped rest where
    "unreliable_fill nm max_messages s available queue used messages =
       Inr (rest, used + sum_list (map (\<lambda>m. 8 * msg_size nm m) kept), messages @ map (Pair s) kept)"
    "unreliable_round nm (max_messages - length messages) used available queue kept dropped rest"
  using assms
proof (induction queue arbitrary: used messages thesis)
  case Nil
  then show ?case
    by (intro Nil(1)[of "[]" "[]" "[]"]) (auto simp: unreliable_fill.simps intro: unreliable_round_stop)
next
  case (Cons m queue)
  have size: "measure_sink_bytes nm m = Inr (msg_size nm m)"
    using Cons.prems(2) by (simp add: measure_sink_measurable)
  consider (stop) "available - used < 32 \<or> length messages = max_messages"
    | (drop) "\<not> available - used < 32" "length messages < max_messages" "available < used + 8 * msg_size nm m"
    | (keep) "\<not> available - used < 32" "length messages < max_messages" "used + 8 * msg_size nm m \<le> available"
    using Cons.prems(3) by linarith
  then show ?case
  proof cases
    case stop
    then have "unreliable_fill nm max_messages s available (m # queue) used messages =
        Inr (m # queue, used, messages)"
      by (auto simp: unreliable_fill.simps[of _ _ _ _ "m # queue"])
    moreover have "unreliable_round nm (max_messages - length messages) used available (m # queue) [] [] (m # queue)"
      using stop by (intro unreliable_round_stop) linarith
    ultimately show ?thesis using Cons.prems(1)[of "m # queue" "[]" "[]"] by simp
  next
    case drop
    have *: "unreliable_fill nm max_messages s available (m # queue) used messages =
        unreliable_fill nm max_messages s available queue used messages"
      using drop size by (simp add: unreliable_fill.simps[of _ _ _ _ "m # queue"])
    obtain kept dropped rest where
      "unreliable_fill nm max_messages s available queue used messages =
         Inr (rest, used + sum_list (map (\<lambda>m. 8 * msg_size nm m) kept), messages @ map (Pair s) kept)"
      "unreliable_round nm (max_messages - length messages) used available queue kept dropped rest"
      using Cons.IH[where messages = messages and used = used] Cons.prems(2,3) by auto
    with drop(3) * show ?thesis
      by (intro Cons.prems(1)[of rest kept "m # dropped"]) (auto intro: unreliable_round_drop)
  next
    case keep
    let ?used = "used + 8 * msg_size nm m" and ?messages = "messages @ [(s, m)]"
    have *: "unreliable_fill nm max_messages s available (m # queue) used messages =
        unreliable_fill nm max_messages s available queue ?used ?messages"
      using keep size by (simp add: unreliable_fill.simps[of _ _ _ _ "m # queue"] Let_def)
    obtain kept dropped rest where
      "unreliable_fill nm max_messages s available queue ?used ?messages =
         Inr (rest, ?used + sum_list (map (\<lambda>m. 8 * msg_size nm m) kept), ?messages @ map (Pair s) kept)"
      "unreliable_round nm (max_messages - length ?messages) ?used available queue kept dropped rest"
      using Cons.IH[where messages = ?messages and used = ?used] Cons.prems(2) keep(2) by auto
    moreover have "max_messages - length messages = Suc (max_messages - length ?messages)" using keep(2) by simp
    ultimately show ?thesis using keep(3) *
      by (intro Cons.prems(1)[of rest "m # kept" dropped]) (auto intro: unreliable_round_keep)
  qed
qed

section \<open>The invariant\<close>

text \<open>Both queues stay within the capacity they were made with, and every queued message can be
  measured.\<close>

definition unreliable_ok :: "('m, 'e) network_message \<Rightarrow> channel_config \<Rightarrow> 'm unreliable \<Rightarrow> bool" where
  "unreliable_ok nm config ur \<longleftrightarrow>
     0 < cc_message_send_queue_size config \<and>
     vd_capacity (ur_message_send_queue ur) = cc_message_send_queue_size config \<and>
     length (vd_items (ur_message_send_queue ur)) \<le> cc_message_send_queue_size config \<and>
     vd_capacity (ur_message_receive_queue ur) = cc_message_receive_queue_size config \<and>
     length (vd_items (ur_message_receive_queue ur)) \<le> cc_message_receive_queue_size config \<and>
     (\<forall>m \<in> set (vd_items (ur_message_send_queue ur)). msg_measurable nm m)"

lemma unreliable_new_ok:
  "unreliable_new config = Inr ur \<Longrightarrow> 0 < cc_message_send_queue_size config \<Longrightarrow> unreliable_ok nm config ur"
  by (auto simp: unreliable_new_def unreliable_ok_def split: if_splits)

lemma unreliable_reset_ok: "unreliable_ok nm config ur \<Longrightarrow> unreliable_ok nm config (unreliable_reset ur)"
  by (simp add: unreliable_ok_def unreliable_reset_def)

lemma unreliable_can_send:
  "unreliable_ok nm config ur \<Longrightarrow> unreliable_can_send_message ur =
     Inr (length (vd_items (ur_message_send_queue ur)) < cc_message_send_queue_size config)"
  by (auto simp: unreliable_ok_def unreliable_can_send_message_def Let_def)

lemma unreliable_send_ok:
  "unreliable_ok nm config ur \<Longrightarrow> unreliable_can_send_message ur = Inr True \<Longrightarrow> msg_measurable nm m \<Longrightarrow>
    unreliable_ok nm config (unreliable_send_message ur m)"
  by (simp add: unreliable_can_send) (simp add: unreliable_ok_def unreliable_send_message_def)

lemma unreliable_receive_result:
  assumes "unreliable_ok nm config ur"
  obtains r ur' where "unreliable_receive_message ur = (r, ur')" "unreliable_ok nm config ur'"
    "vd_items (ur_message_receive_queue ur) =
       (case r of None \<Rightarrow> [] | Some x \<Rightarrow> [x]) @ vd_items (ur_message_receive_queue ur')"
proof (cases "vd_items (ur_message_receive_queue ur)")
  case Nil
  with assms show ?thesis
    by (intro that[of None ur]) (simp_all add: unreliable_receive_message_def)
next
  case (Cons x xs)
  let ?ur = "ur\<lparr>ur_message_receive_queue := (ur_message_receive_queue ur)\<lparr>vd_items := xs\<rparr>\<rparr>"
  have "unreliable_ok nm config ?ur" using assms Cons by (simp add: unreliable_ok_def)
  with Cons show ?thesis
    by (intro that[of "Some x" ?ur]) (simp_all add: unreliable_receive_message_def)
qed

lemma unreliable_packet_data_result:
  assumes ok: "unreliable_ok nm config ur"
  obtains kept dropped rest ur' where
    "unreliable_packet_data nm ur config channel_index s available =
       Inr (if kept = [] then cpd_empty else \<lparr>pd_channel_index = channel_index, pd_messages = map (Pair s) kept\<rparr>,
            if kept = [] then 0 else 32 + sum_list (map (\<lambda>m. 8 * msg_size nm m) kept), ur')"
    "unreliable_round nm (cc_max_messages_per_packet config) 32 (channel_budget config available)
       (vd_items (ur_message_send_queue ur)) kept dropped rest"
    "vd_items (ur_message_send_queue ur') = rest"
    "ur_message_receive_queue ur' = ur_message_receive_queue ur" "unreliable_ok nm config ur'"
proof (cases "vd_items (ur_message_send_queue ur) = []")
  case True
  with ok show ?thesis
    by (intro that[of "[]" ur "[]" "[]"])
      (simp_all add: unreliable_packet_data_def unreliable_round_def Let_def)
next
  case False
  let ?q = "vd_items (ur_message_send_queue ur)" and ?mx = "cc_max_messages_per_packet config"
  have m: "\<forall>m \<in> set ?q. msg_measurable nm m" using ok by (simp add: unreliable_ok_def)
  obtain kept dropped rest where fill:
    "unreliable_fill nm ?mx s (channel_budget config available) ?q 32 [] =
       Inr (rest, 32 + sum_list (map (\<lambda>m. 8 * msg_size nm m) kept), map (Pair s) kept)"
    and round: "unreliable_round nm ?mx 32 (channel_budget config available) ?q kept dropped rest"
    by (rule unreliable_fill_result[OF m, of "[]" ?mx s "channel_budget config available" 32]) auto
  let ?ur = "ur\<lparr>ur_message_send_queue := (ur_message_send_queue ur)\<lparr>vd_items := rest\<rparr>\<rparr>"
  obtain taken where "?q = taken @ rest" using round by (auto simp: unreliable_round_def)
  then have "unreliable_ok nm config ?ur" using ok by (simp add: unreliable_ok_def)
  moreover have "unreliable_packet_data nm ur config channel_index s available =
       Inr (if kept = [] then cpd_empty else \<lparr>pd_channel_index = channel_index, pd_messages = map (Pair s) kept\<rparr>,
            if kept = [] then 0 else 32 + sum_list (map (\<lambda>m. 8 * msg_size nm m) kept), ?ur)"
    using False fill
    by (simp add: unreliable_packet_data_def channel_budget_def[symmetric] header_bits Let_def)
  ultimately show ?thesis using that[of kept ?ur dropped rest] round by simp
qed

lemma push_while_room:
  assumes "length (vd_items q) \<le> vd_capacity q"
  shows "foldl (\<lambda>q (_, message). if length (vd_items q) < vd_capacity q then vd_push_back q (s, message) else q) q ms =
    q\<lparr>vd_items := vd_items q @ map (\<lambda>(_, m). (s, m)) (take (vd_capacity q - length (vd_items q)) ms)\<rparr>"
  using assms
proof (induction ms arbitrary: q)
  case (Cons x ms)
  show ?case
  proof (cases "length (vd_items q) < vd_capacity q")
    case True
    then obtain k where k: "vd_capacity q - length (vd_items q) = Suc k" by (cases "vd_capacity q - length (vd_items q)") auto
    have "vd_capacity q - Suc (length (vd_items q)) = k" using k by simp
    with True k Cons.IH[of "vd_push_back q (s, snd x)"] show ?thesis
      by (cases x) (simp add: vd_push_back_def)
  next
    case False
    with Cons.prems Cons.IH[of q] show ?thesis by (cases x) simp
  qed
qed simp

lemma unreliable_process_result:
  assumes "unreliable_ok nm config ur"
  shows "vd_items (ur_message_receive_queue (unreliable_process_packet_data ur pd s)) =
      vd_items (ur_message_receive_queue ur) @ map (\<lambda>(_, m). (s, m))
        (take (cc_message_receive_queue_size config - length (vd_items (ur_message_receive_queue ur))) (pd_messages pd))"
    "unreliable_ok nm config (unreliable_process_packet_data ur pd s)"
  using assms push_while_room[of "ur_message_receive_queue ur" s "pd_messages pd"]
  by (auto simp: unreliable_process_packet_data_def unreliable_ok_def)

section \<open>The properties\<close>

text \<open>C30: \<open>packet_data\<close> of an unreliable channel never panics. It removes a prefix of the send
  queue, packs the messages of it that fit, in order, within the channel's budget, and stops
  only when nothing is left, the packet holds \<open>max_messages_per_packet\<close> messages or fewer than
  32 bits are left; a message is dropped only when it did not fit.\<close>

theorem unreliable_packs:
  assumes "unreliable_ok nm config ur"
  shows "\<exists>kept dropped rest ur'.
    unreliable_packet_data nm ur config channel_index s available =
      Inr (if kept = [] then (cpd_empty, 0, ur')
           else (\<lparr>pd_channel_index = channel_index, pd_messages = map (Pair s) kept\<rparr>,
                 32 + sum_list (map (\<lambda>m. 8 * msg_size nm m) kept), ur')) \<and>
    unreliable_round nm (cc_max_messages_per_packet config) 32 (channel_budget config available)
      (vd_items (ur_message_send_queue ur)) kept dropped rest \<and>
    vd_items (ur_message_send_queue ur') = rest \<and> unreliable_ok nm config ur'"
  by (rule unreliable_packet_data_result[OF assms, of channel_index s available]) (auto split: if_splits)

text \<open>C31: what one packet carries from one end to the other: the peer's receive queue gains
  the packed messages in order, as many as there is room for, each with the number of the
  packet as its id.\<close>

theorem unreliable_arrives:
  assumes "unreliable_ok nm config sender" "unreliable_ok nm config' receiver"
    and "unreliable_packet_data nm sender config channel_index s available = Inr (pd, bits, sender')"
  shows "\<exists>kept dropped.
    unreliable_round nm (cc_max_messages_per_packet config) 32 (channel_budget config available)
      (vd_items (ur_message_send_queue sender)) kept dropped (vd_items (ur_message_send_queue sender')) \<and>
    vd_items (ur_message_receive_queue (unreliable_process_packet_data receiver pd t)) =
      vd_items (ur_message_receive_queue receiver) @ map (Pair t)
        (take (cc_message_receive_queue_size config' - length (vd_items (ur_message_receive_queue receiver))) kept) \<and>
    unreliable_ok nm config' (unreliable_process_packet_data receiver pd t)"
proof -
  obtain kept dropped where pd: "pd_messages pd = map (Pair s) kept"
    and round: "unreliable_round nm (cc_max_messages_per_packet config) 32 (channel_budget config available)
      (vd_items (ur_message_send_queue sender)) kept dropped (vd_items (ur_message_send_queue sender'))"
    by (rule unreliable_packet_data_result[OF assms(1), of channel_index s available])
       (use assms(3) in \<open>auto simp: cpd_empty_def split: if_splits\<close>)
  have "map (\<lambda>(_, m). (t, m)) (take n (pd_messages pd)) = map (Pair t) (take n kept)" for n
    by (simp add: pd take_map comp_def)
  with round unreliable_process_result[OF assms(2), of pd t] show ?thesis by auto
qed

text \<open>\<open>has_messages_to_send\<close> answers the opposite of its name: when it says yes, the next
  packet carries nothing and the state does not change; after any \<open>send_message\<close> it says no.\<close>

theorem unreliable_has_messages_inverted:
  "(unreliable_has_messages_to_send ur \<longrightarrow>
      unreliable_packet_data nm ur config channel_index s available = Inr (cpd_empty, 0, ur)) \<and>
   \<not> unreliable_has_messages_to_send (unreliable_send_message ur m)"
  by (simp add: unreliable_has_messages_to_send_def unreliable_packet_data_def
      unreliable_send_message_def Let_def)

section \<open>Witnesses\<close>

definition demo_unreliable_config :: channel_config where
  "demo_unreliable_config = (channel_config_new UnreliableUnordered)\<lparr>cc_message_send_queue_size := 4,
     cc_message_receive_queue_size := 2\<rparr>"

text \<open>Three messages of eight bytes are queued; 190 bits have room for two of them.\<close>

definition demo_unreliable :: "u64 list \<Rightarrow> u64 unreliable" where
  "demo_unreliable ms = \<lparr>ur_message_send_queue = \<lparr>vd_items = ms, vd_capacity = 4\<rparr>,
     ur_message_receive_queue = \<lparr>vd_items = [], vd_capacity = 2\<rparr>\<rparr>"

lemma demo_unreliable_ok: "length ms \<le> 4 \<Longrightarrow> unreliable_ok test_message demo_unreliable_config (demo_unreliable ms)"
  by (simp add: unreliable_ok_def demo_unreliable_config_def demo_unreliable_def channel_config_new_def)

lemma demo_unreliable_packet:
  "unreliable_packet_data test_message (demo_unreliable [1, 2, 3]) demo_unreliable_config 0 7 190 =
     Inr (\<lparr>pd_channel_index = 0, pd_messages = [(7, 1), (7, 2)]\<rparr>, 160, demo_unreliable [3])"
  by code_simp

theorem unreliable_packs_witness:
  "\<exists>kept dropped rest. unreliable_round test_message (cc_max_messages_per_packet demo_unreliable_config) 32
      (channel_budget demo_unreliable_config 190) [1, 2, 3] kept dropped rest"
  using unreliable_packs[OF demo_unreliable_ok[of "[1, 2, 3]"], of 0 7 190]
  by (auto simp: demo_unreliable_def)

theorem unreliable_arrives_witness:
  "\<exists>kept dropped. unreliable_round test_message (cc_max_messages_per_packet demo_unreliable_config) 32
      (channel_budget demo_unreliable_config 190) [1, 2, 3] kept dropped [3]"
  using unreliable_arrives[OF demo_unreliable_ok demo_unreliable_ok[of "[]"] demo_unreliable_packet, of 7]
  by (auto simp: demo_unreliable_def)

end
