(* ===== verification/Channel.thy ===== *)
theory Channel
  imports Reliable Unreliable
begin

text \<open>
  \<open>src/channel/processor.rs\<close> and \<open>src/channel.rs\<close>: the trait \<open>Processor\<close> with its two
  implementations, and the channel that wraps one of them with an error level and counters.
  A \<open>Box<dyn Processor>\<close> is a value of the datatype \<open>processor\<close>; a method call through it is
  the case distinction.
\<close>

section \<open>Dispatch\<close>

datatype 'm processor = ReliableProcessor "'m reliable" | UnreliableProcessor "'m unreliable"

fun processor_advance_time :: "'m processor \<Rightarrow> f64 \<Rightarrow> 'm processor" where
  "processor_advance_time (ReliableProcessor rl) t = ReliableProcessor (reliable_advance_time rl t)"
| "processor_advance_time (UnreliableProcessor ur) t = UnreliableProcessor (unreliable_advance_time ur t)"

fun processor_reset :: "'m processor \<Rightarrow> 'm processor" where
  "processor_reset (ReliableProcessor rl) = ReliableProcessor (reliable_reset rl)"
| "processor_reset (UnreliableProcessor ur) = UnreliableProcessor (unreliable_reset ur)"

fun processor_can_send_message :: "'m processor \<Rightarrow> panic + bool" where
  "processor_can_send_message (ReliableProcessor rl) = reliable_can_send_message rl"
| "processor_can_send_message (UnreliableProcessor ur) = unreliable_can_send_message ur"

fun processor_has_messages_to_send :: "'m processor \<Rightarrow> bool" where
  "processor_has_messages_to_send (ReliableProcessor rl) = reliable_has_messages_to_send rl"
| "processor_has_messages_to_send (UnreliableProcessor ur) = unreliable_has_messages_to_send ur"

fun processor_send_message ::
  "('m, 'e) network_message \<Rightarrow> 'm processor \<Rightarrow> 'm \<Rightarrow> panic + 'm processor" where
  "processor_send_message nm (ReliableProcessor rl) message =
     rbind (reliable_send_message nm rl message) (\<lambda>rl. Inr (ReliableProcessor rl))"
| "processor_send_message nm (UnreliableProcessor ur) message =
     Inr (UnreliableProcessor (unreliable_send_message ur message))"

fun processor_receive_message :: "'m processor \<Rightarrow> panic + ((u16 \<times> 'm) option \<times> 'm processor)" where
  "processor_receive_message (ReliableProcessor rl) =
     rbind (reliable_receive_message rl) (\<lambda>(r, rl). Inr (r, ReliableProcessor rl))"
| "processor_receive_message (UnreliableProcessor ur) =
     (let (r, ur') = unreliable_receive_message ur in Inr (r, UnreliableProcessor ur'))"

fun processor_packet_data ::
  "('m, 'e) network_message \<Rightarrow> 'm processor \<Rightarrow> channel_config \<Rightarrow> usize \<Rightarrow> u16 \<Rightarrow> usize
     \<Rightarrow> panic + ('m channel_packet_data \<times> usize \<times> 'm processor)" where
  "processor_packet_data nm (ReliableProcessor rl) config channel_index packet_sequence available_bits =
     rbind (reliable_packet_data rl channel_index packet_sequence available_bits)
       (\<lambda>(pd, bits, rl). Inr (pd, bits, ReliableProcessor rl))"
| "processor_packet_data nm (UnreliableProcessor ur) config channel_index packet_sequence available_bits =
     rbind (unreliable_packet_data nm ur config channel_index packet_sequence available_bits)
       (\<lambda>(pd, bits, ur). Inr (pd, bits, UnreliableProcessor ur))"

fun processor_process_packet_data ::
  "'m processor \<Rightarrow> 'm channel_packet_data \<Rightarrow> u16 \<Rightarrow> panic + 'm processor" where
  "processor_process_packet_data (ReliableProcessor rl) packet_data packet_sequence =
     rbind (reliable_process_packet_data rl packet_data packet_sequence)
       (\<lambda>rl. Inr (ReliableProcessor rl))"
| "processor_process_packet_data (UnreliableProcessor ur) packet_data packet_sequence =
     Inr (UnreliableProcessor (unreliable_process_packet_data ur packet_data packet_sequence))"

fun processor_process_ack :: "'m processor \<Rightarrow> u16 \<Rightarrow> panic + 'm processor" where
  "processor_process_ack (ReliableProcessor rl) ack =
     rbind (reliable_process_ack rl ack) (\<lambda>rl. Inr (ReliableProcessor rl))"
| "processor_process_ack (UnreliableProcessor ur) ack =
     Inr (UnreliableProcessor (unreliable_process_ack ur ack))"

section \<open>The channel\<close>

record channel_counters =
  ct_sent :: usize
  ct_received :: usize

record 'm channel =
  ch_config :: channel_config
  ch_channel_index :: usize
  ch_error_level :: channel_error_level
  ch_processor :: "'m processor"
  ch_counters :: channel_counters

definition channel_counters_reset :: "channel_counters \<Rightarrow> channel_counters" where
  "channel_counters_reset ct = ct\<lparr>ct_sent := 0, ct_received := 0\<rparr>"

definition channel_new :: "channel_config \<Rightarrow> usize \<Rightarrow> f64 \<Rightarrow> panic + 'm channel" where
  "channel_new config channel_index time =
     rbind (case cc_kind config of
              ReliableOrdered \<Rightarrow> rbind (reliable_new config time) (\<lambda>rl. Inr (ReliableProcessor rl))
            | UnreliableUnordered \<Rightarrow> rbind (unreliable_new config) (\<lambda>ur. Inr (UnreliableProcessor ur)))
       (\<lambda>processor.
     Inr \<lparr>ch_config = config, ch_channel_index = channel_index, ch_error_level = ChannelNone,
          ch_processor = processor, ch_counters = \<lparr>ct_sent = 0, ct_received = 0\<rparr>\<rparr>)"

text \<open>Setting the error level also logs, which is not modelled.\<close>

definition channel_set_error_level :: "'m channel \<Rightarrow> channel_error_level \<Rightarrow> 'm channel" where
  "channel_set_error_level ch level = ch\<lparr>ch_error_level := level\<rparr>"

definition channel_reset_counters :: "'m channel \<Rightarrow> 'm channel" where
  "channel_reset_counters ch = ch\<lparr>ch_counters := channel_counters_reset (ch_counters ch)\<rparr>"

definition channel_reset :: "'m channel \<Rightarrow> 'm channel" where
  "channel_reset ch =
     (let ch = channel_set_error_level ch ChannelNone;
          ch = ch\<lparr>ch_processor := processor_reset (ch_processor ch)\<rparr>
      in channel_reset_counters ch)"

definition channel_advance_time :: "'m channel \<Rightarrow> f64 \<Rightarrow> 'm channel" where
  "channel_advance_time ch time = ch\<lparr>ch_processor := processor_advance_time (ch_processor ch) time\<rparr>"

definition channel_packet_data ::
  "('m, 'e) network_message \<Rightarrow> 'm channel \<Rightarrow> u16 \<Rightarrow> usize
     \<Rightarrow> panic + ('m channel_packet_data \<times> usize \<times> 'm channel)" where
  "channel_packet_data nm ch packet_sequence available_bits =
     rbind (processor_packet_data nm (ch_processor ch) (ch_config ch) (ch_channel_index ch)
              packet_sequence available_bits) (\<lambda>(pd, bits, p).
     Inr (pd, bits, ch\<lparr>ch_processor := p\<rparr>))"

definition channel_process_packet_data ::
  "'m channel \<Rightarrow> 'm channel_packet_data \<Rightarrow> u16 \<Rightarrow> panic + 'm channel" where
  "channel_process_packet_data ch packet_data packet_sequence =
     (if ch_error_level ch \<noteq> ChannelNone then Inr ch else
      rbind (processor_process_packet_data (ch_processor ch) packet_data packet_sequence) (\<lambda>p.
      Inr (ch\<lparr>ch_processor := p\<rparr>)))"

definition channel_process_ack :: "'m channel \<Rightarrow> u16 \<Rightarrow> panic + 'm channel" where
  "channel_process_ack ch packet_sequence =
     rbind (processor_process_ack (ch_processor ch) packet_sequence) (\<lambda>p.
     Inr (ch\<lparr>ch_processor := p\<rparr>))"

definition channel_can_send_message :: "'m channel \<Rightarrow> panic + bool" where
  "channel_can_send_message ch = processor_can_send_message (ch_processor ch)"

definition channel_has_messages_to_send :: "'m channel \<Rightarrow> bool" where
  "channel_has_messages_to_send ch = processor_has_messages_to_send (ch_processor ch)"

definition channel_send_message ::
  "('m, 'e) network_message \<Rightarrow> 'm channel \<Rightarrow> 'm \<Rightarrow> panic + 'm channel" where
  "channel_send_message nm ch message =
     (if ch_error_level ch \<noteq> ChannelNone then Inr ch else
      rbind (channel_can_send_message ch) (\<lambda>can_send.
      if \<not> can_send then Inr (channel_set_error_level ch SendQueueFull) else
      rbind (processor_send_message nm (ch_processor ch) message) (\<lambda>p.
      Inr (ch\<lparr>ch_processor := p,
              ch_counters := (ch_counters ch)\<lparr>ct_sent := ct_sent (ch_counters ch) + 1\<rparr>\<rparr>))))"

definition channel_receive_message :: "'m channel \<Rightarrow> panic + ((u16 \<times> 'm) option \<times> 'm channel)" where
  "channel_receive_message ch =
     (if ch_error_level ch \<noteq> ChannelNone then Inr (None, ch) else
      rbind (processor_receive_message (ch_processor ch)) (\<lambda>(r, p).
      case r of
        None \<Rightarrow> Inr (None, ch\<lparr>ch_processor := p\<rparr>)
      | Some result \<Rightarrow>
          Inr (Some result, ch\<lparr>ch_processor := p,
             ch_counters := (ch_counters ch)\<lparr>ct_received := ct_received (ch_counters ch) + 1\<rparr>\<rparr>)))"

end
