(* ===== verification/Connection.thy ===== *)
theory Connection
  imports Channel
begin

text \<open>
  \<open>src/connection.rs\<close>: a connection is a list of channels; it writes what the channels have
  to send into one packet and hands what a packet holds to the channels.
\<close>

section \<open>The code\<close>

record 'm connection =
  cn_config :: connection_config
  cn_channels :: "'m channel list"
  cn_error_level :: connection_error_level

definition connection_new :: "connection_config \<Rightarrow> f64 \<Rightarrow> panic + 'm connection" where
  "connection_new config time =
     (if nc_channels config = [] then Inl AssertionFailed else
      rbind (rfold (\<lambda>channels (channel_index, channel_config).
               rbind (channel_new channel_config channel_index time) (\<lambda>ch. Inr (channels @ [ch])))
             [] (enumerate 0 (nc_channels config))) (\<lambda>channels.
      Inr \<lparr>cn_config = config, cn_channels = channels, cn_error_level = ConnectionNone\<rparr>))"

text \<open>\<open>advance_time\<close> stops at the first channel in an error state.\<close>

fun connection_advance_channels :: "'m channel list \<Rightarrow> f64 \<Rightarrow> 'm channel list \<times> bool" where
  "connection_advance_channels [] new_time = ([], False)"
| "connection_advance_channels (ch # chs) new_time =
     (let ch' = channel_advance_time ch new_time in
      if ch_error_level ch' \<noteq> ChannelNone then (ch' # chs, True)
      else let (chs', failed) = connection_advance_channels chs new_time in (ch' # chs', failed))"

definition connection_advance_time :: "'m connection \<Rightarrow> f64 \<Rightarrow> 'm connection" where
  "connection_advance_time cn new_time =
     (let (channels, failed) = connection_advance_channels (cn_channels cn) new_time
      in cn\<lparr>cn_channels := channels,
            cn_error_level := (if failed then ConnectionChannel else cn_error_level cn)\<rparr>)"

fun connection_ack_channels :: "'m channel list \<Rightarrow> u16 \<Rightarrow> panic + 'm channel list" where
  "connection_ack_channels [] ack = Inr []"
| "connection_ack_channels (ch # chs) ack =
     rbind (channel_process_ack ch ack) (\<lambda>ch.
     rbind (connection_ack_channels chs ack) (\<lambda>chs. Inr (ch # chs)))"

definition connection_process_acks :: "'m connection \<Rightarrow> u16 list \<Rightarrow> panic + 'm connection" where
  "connection_process_acks cn acks =
     rfold (\<lambda>cn ack. rbind (connection_ack_channels (cn_channels cn) ack) (\<lambda>chs.
              Inr (cn\<lparr>cn_channels := chs\<rparr>))) cn acks"

section \<open>Packets\<close>

record 'm connection_packet =
  cp_channel_data :: "'m channel_packet_data list"

definition connection_packet_serialize ::
  "features \<Rightarrow> ('m, 'e) network_message \<Rightarrow> 'm connection_packet \<Rightarrow> connection_config \<Rightarrow> u8 list
     \<Rightarrow> 'e failure + (usize \<times> u8 list)" where
  "connection_packet_serialize feat nm packet config dest =
     (if \<not> length (cp_channel_data packet) < 65535 then Inl (Panicked AssertionFailed) else
      rbind (or_panic (cur_write (cur_new dest) (le_u16 (of_nat (length (cp_channel_data packet)))))) (\<lambda>writer.
      if \<not> cur_pos writer < CONSERVATIVE_PACKET_HEADER_BITS then Inl (Panicked AssertionFailed) else
      if cp_channel_data packet = [] then Inr (cur_pos writer, cur_buf writer) else
      rbind (rfold (\<lambda>writer channel_data. cpd_serialize feat nm config channel_data writer)
               writer (cp_channel_data packet)) (\<lambda>writer.
      Inr (cur_pos writer, cur_buf writer))))"

fun connection_read_channels ::
  "features \<Rightarrow> ('m, 'e) network_message \<Rightarrow> connection_config \<Rightarrow> nat \<Rightarrow> u8 list
     \<Rightarrow> 'e failure + 'm channel_packet_data list" where
  "connection_read_channels feat nm config 0 bs = Inr []"
| "connection_read_channels feat nm config (Suc n) bs =
     rbind (cpd_deserialize feat nm config bs) (\<lambda>(data, bs).
     rbind (connection_read_channels feat nm config n bs) (\<lambda>channel_data. Inr (data # channel_data)))"

definition connection_packet_deserialize ::
  "features \<Rightarrow> ('m, 'e) network_message \<Rightarrow> connection_config \<Rightarrow> u8 list
     \<Rightarrow> 'e failure + 'm connection_packet" where
  "connection_packet_deserialize feat nm config src =
     rbind (or_panic (read_u16 src)) (\<lambda>(channels, bs).
     rbind (connection_read_channels feat nm config (unat channels) bs) (\<lambda>channel_data.
     Inr \<lparr>cp_channel_data = channel_data\<rparr>))"

text \<open>The loop of \<open>process_packet\<close> over the entries of a packet. The bound check is the one
  of the source, \<open>channel_index > len\<close>; an index equal to the length reaches the
  indexing.\<close>

fun connection_deliver ::
  "'m connection \<Rightarrow> 'm channel_packet_data list \<Rightarrow> u16 \<Rightarrow> panic + (bool \<times> 'm connection)" where
  "connection_deliver cn [] packet_sequence = Inr (True, cn)"
| "connection_deliver cn (entry # entries) packet_sequence =
     (if length (cn_channels cn) < pd_channel_index entry
      then connection_deliver cn entries packet_sequence else
      rbind (vec_index (cn_channels cn) (pd_channel_index entry)) (\<lambda>ch.
      rbind (channel_process_packet_data ch entry packet_sequence) (\<lambda>ch.
      let cn' = cn\<lparr>cn_channels := (cn_channels cn)[pd_channel_index entry := ch]\<rparr> in
      if ch_error_level ch \<noteq> ChannelNone then Inr (False, cn')
      else connection_deliver cn' entries packet_sequence)))"

definition connection_process_packet ::
  "features \<Rightarrow> ('m, 'e) network_message \<Rightarrow> 'm connection \<Rightarrow> u16 \<Rightarrow> u8 list
     \<Rightarrow> panic + (bool \<times> 'm connection)" where
  "connection_process_packet feat nm cn packet_sequence packet_data =
     (if cn_error_level cn \<noteq> ConnectionNone then Inr (False, cn) else
      if packet_data = [] then Inl AssertionFailed else
      rbind (expect (connection_packet_deserialize feat nm (cn_config cn) packet_data)) (\<lambda>packet.
      connection_deliver cn (cp_channel_data packet) packet_sequence))"

text \<open>The loop of \<open>generate_packet\<close> over the channels.\<close>

fun connection_collect ::
  "features \<Rightarrow> ('m, 'e) network_message \<Rightarrow> u16 \<Rightarrow> 'm channel list \<Rightarrow> usize
     \<Rightarrow> panic + ('m channel_packet_data list \<times> 'm channel list)" where
  "connection_collect feat nm packet_sequence [] available_bits = Inr ([], [])"
| "connection_collect feat nm packet_sequence (ch # chs) available_bits =
     rbind (channel_packet_data nm ch packet_sequence available_bits) (\<lambda>(packet_data, packet_data_bits, ch).
     if 0 < packet_data_bits then
       if feat_soak_debugging_asserts feat \<and>
          \<not> packet_data_bits + CONSERVATIVE_CHANNEL_HEADER_BITS < available_bits
       then Inl AssertionFailed else
       rbind (checked_sub available_bits CONSERVATIVE_CHANNEL_HEADER_BITS) (\<lambda>available_bits.
       rbind (checked_sub available_bits packet_data_bits) (\<lambda>available_bits.
       rbind (connection_collect feat nm packet_sequence chs available_bits) (\<lambda>(channel_data, chs).
       Inr (packet_data # channel_data, ch # chs))))
     else
       rbind (connection_collect feat nm packet_sequence chs available_bits) (\<lambda>(channel_data, chs).
       Inr (channel_data, ch # chs)))"

text \<open>The result is the number of bytes written, the packet buffer and the connection.\<close>

definition connection_generate_packet ::
  "features \<Rightarrow> ('m, 'e) network_message \<Rightarrow> 'm connection \<Rightarrow> u16 \<Rightarrow> u8 list
     \<Rightarrow> panic + (usize \<times> u8 list \<times> 'm connection)" where
  "connection_generate_packet feat nm cn packet_sequence packet_data =
     (if cn_channels cn = [] then Inr (0, packet_data, cn) else
      if packet_data = [] then Inl AssertionFailed else
      rbind (checked_sub (length packet_data * 8) CONSERVATIVE_PACKET_HEADER_BITS) (\<lambda>available_bits.
      rbind (connection_collect feat nm packet_sequence (cn_channels cn) available_bits)
        (\<lambda>(channel_data, channels).
      let cn' = cn\<lparr>cn_channels := channels\<rparr> in
      if channel_data \<noteq> [] then
        rbind (expect (connection_packet_serialize feat nm \<lparr>cp_channel_data = channel_data\<rparr>
                 (cn_config cn) packet_data)) (\<lambda>(written, buffer).
        Inr (written, buffer, cn'))
      else Inr (0, packet_data, cn'))))"

section \<open>Per channel operations\<close>

definition connection_reset :: "'m connection \<Rightarrow> 'm connection" where
  "connection_reset cn =
     cn\<lparr>cn_error_level := ConnectionNone, cn_channels := map channel_reset (cn_channels cn)\<rparr>"

definition connection_channel_counters :: "'m connection \<Rightarrow> usize \<Rightarrow> panic + channel_counters" where
  "connection_channel_counters cn channel =
     rbind (vec_index (cn_channels cn) channel) (\<lambda>ch. Inr (ch_counters ch))"

definition connection_can_send_message :: "'m connection \<Rightarrow> usize \<Rightarrow> panic + bool" where
  "connection_can_send_message cn channel =
     rbind (vec_index (cn_channels cn) channel) channel_can_send_message"

definition connection_has_messages_to_send :: "'m connection \<Rightarrow> usize \<Rightarrow> panic + bool" where
  "connection_has_messages_to_send cn channel =
     rbind (vec_index (cn_channels cn) channel) (\<lambda>ch. Inr (channel_has_messages_to_send ch))"

definition connection_send_message ::
  "('m, 'e) network_message \<Rightarrow> 'm connection \<Rightarrow> usize \<Rightarrow> 'm \<Rightarrow> panic + 'm connection" where
  "connection_send_message nm cn channel_index message =
     rbind (vec_index (cn_channels cn) channel_index) (\<lambda>ch.
     rbind (channel_send_message nm ch message) (\<lambda>ch.
     Inr (cn\<lparr>cn_channels := (cn_channels cn)[channel_index := ch]\<rparr>)))"

definition connection_receive_message ::
  "'m connection \<Rightarrow> usize \<Rightarrow> panic + ((u16 \<times> 'm) option \<times> 'm connection)" where
  "connection_receive_message cn channel_index =
     rbind (vec_index (cn_channels cn) channel_index) (\<lambda>ch.
     rbind (channel_receive_message ch) (\<lambda>(r, ch).
     Inr (r, cn\<lparr>cn_channels := (cn_channels cn)[channel_index := ch]\<rparr>)))"

end
