(* ===== verification/Processor_Contract.thy ===== *)
theory Processor_Contract
  imports Channel Reliable_Sender Reliable_Receiver
begin

text \<open>
  The contract of the trait \<open>Processor\<close> (\<open>src/channel/processor.rs\<close>) that a channel relies on:
  every method keeps the implementation's invariant, sending and receiving do not panic, and
  the bits \<open>packet_data\<close> reports are exactly the bits its data takes on the wire. It is
  interpreted on both implementations, on the dispatch between them, and gives the
  properties of \<open>src/channel.rs\<close>.
\<close>

section \<open>The contract\<close>

definition packed ::
  "('m, 'e) network_message \<Rightarrow> channel_config \<Rightarrow> usize \<Rightarrow> usize \<Rightarrow> 'm channel_packet_data \<Rightarrow> usize \<Rightarrow> bool" where
  "packed nm config i available pd bits \<longleftrightarrow>
     (if pd_messages pd = [] then pd = cpd_empty \<and> bits = 0
      else pd_channel_index pd = i \<and> length (pd_messages pd) \<le> cc_max_messages_per_packet config \<and>
        (\<forall>(_, m) \<in> set (pd_messages pd). msg_measurable nm m) \<and> bits \<le> channel_budget config available \<and>
        (\<forall>feat. \<not> feat_serialize_check feat \<longrightarrow> 8 * cpd_wire_size feat nm config pd = bits))"

lemma packed_positive: "packed nm config i available pd bits \<Longrightarrow> 0 < bits \<longleftrightarrow> pd_messages pd \<noteq> []"
proof -
  assume p: "packed nm config i available pd bits"
  let ?feat = "\<lparr>feat_serialize_check = False, feat_soak_debugging_asserts = False\<rparr>"
  have "bits = 8 * cpd_wire_size ?feat nm config pd" if "pd_messages pd \<noteq> []"
    using p that by (simp add: packed_def)
  moreover have "0 < cpd_wire_size ?feat nm config pd"
    by (simp add: cpd_wire_size_def Let_def)
  ultimately have "0 < bits" if "pd_messages pd \<noteq> []" using that by simp
  with p show ?thesis by (auto simp: packed_def)
qed

locale processor_laws =
  fixes nm :: "('m, 'e) network_message"
    and ok :: "channel_config \<Rightarrow> 'p \<Rightarrow> bool" and recent :: "u16 \<Rightarrow> 'p \<Rightarrow> bool"
    and advance :: "'p \<Rightarrow> f64 \<Rightarrow> 'p" and clear :: "'p \<Rightarrow> 'p"
    and can_send :: "'p \<Rightarrow> panic + bool" and send :: "'p \<Rightarrow> 'm \<Rightarrow> panic + 'p"
    and receive :: "'p \<Rightarrow> panic + ((u16 \<times> 'm) option \<times> 'p)"
    and emit :: "'p \<Rightarrow> channel_config \<Rightarrow> usize \<Rightarrow> u16 \<Rightarrow> usize \<Rightarrow> panic + ('m channel_packet_data \<times> usize \<times> 'p)"
    and deliver :: "'p \<Rightarrow> 'm channel_packet_data \<Rightarrow> u16 \<Rightarrow> panic + 'p"
    and ack :: "'p \<Rightarrow> u16 \<Rightarrow> panic + 'p"
  assumes advance_ok: "ok config p \<Longrightarrow> ok config (advance p t)"
    and clear_ok: "ok config p \<Longrightarrow> ok config (clear p) \<and> can_send (clear p) = Inr True"
    and can_send_ok: "ok config p \<Longrightarrow> \<exists>b. can_send p = Inr b"
    and send_ok: "ok config p \<Longrightarrow> can_send p = Inr True \<Longrightarrow> msg_measurable nm m \<Longrightarrow>
      \<exists>p'. send p m = Inr p' \<and> ok config p'"
    and receive_ok: "ok config p \<Longrightarrow> \<exists>r p'. receive p = Inr (r, p') \<and> ok config p'"
    and emit_ok: "ok config p \<Longrightarrow> recent s p \<Longrightarrow> 32 \<le> channel_budget config available \<Longrightarrow>
      \<exists>pd bits p'. emit p config i s available = Inr (pd, bits, p') \<and> ok config p' \<and>
        packed nm config i available pd bits"
    and deliver_ok: "ok config p \<Longrightarrow> deliver p pd s = Inr p' \<Longrightarrow> ok config p'"
    and ack_ok: "ok config p \<Longrightarrow> ack p a = Inr p' \<Longrightarrow> ok config p'"

section \<open>The reliable channel keeps it\<close>

definition reliable_ok :: "('m, 'e) network_message \<Rightarrow> channel_config \<Rightarrow> 'm reliable \<Rightarrow> bool" where
  "reliable_ok nm config rl \<longleftrightarrow>
     cc_kind config = ReliableOrdered \<and> rl_config rl = config \<and> sender_ok nm rl \<and> receiver_ok rl"

definition reliable_recent :: "u16 \<Rightarrow> 'm reliable \<Rightarrow> bool" where
  "reliable_recent s rl \<longleftrightarrow> sequence_greater_than (s + 1) (sb_sequence (rl_sent_packets rl))"

lemma sender_ok_receiver_update [simp]:
  "sender_ok nm (rl\<lparr>rl_message_receive_queue := q\<rparr>) = sender_ok nm rl"
  "sender_ok nm (rl\<lparr>rl_message_receive_queue := q, rl_receive_message_id := i\<rparr>) = sender_ok nm rl"
  "sender_ok nm (rl\<lparr>rl_time := t\<rparr>) = sender_ok nm rl"
  by (simp_all add: sender_ok_def)

lemma receiver_ok_sender_update [simp]:
  "receiver_ok (rl\<lparr>rl_message_send_queue := q, rl_send_message_id := i\<rparr>) = receiver_ok rl"
  "receiver_ok (rl\<lparr>rl_sent_packets := sp, rl_message_send_queue := q, rl_oldest_unacked_message_id := i\<rparr>) =
     receiver_ok rl"
  "receiver_ok (rl\<lparr>rl_time := t\<rparr>) = receiver_ok rl"
  by (simp_all add: receiver_ok_def)

lemma same_receiver_ok:
  "same_receiver rl rl' \<Longrightarrow> receiver_ok rl' = receiver_ok rl" "same_receiver rl rl' \<Longrightarrow> rl_config rl' = rl_config rl"
  by (simp_all add: same_receiver_def receiver_ok_def)

lemma reliable_new_ok:
  assumes "reliable_new config t = Inr rl" "reliable_config_ok config"
  shows "reliable_ok nm config rl"
proof -
  have "rl_config rl = config" using assms(1) by (auto simp: reliable_new_def rbind_eq_Inr split: if_splits)
  then show ?thesis
    using assms new_sender(1)[OF assms(1)] new_receiver(1)[OF assms(1)]
    by (simp add: reliable_ok_def reliable_config_ok_def)
qed

lemma reliable_deliver_ok:
  assumes "reliable_ok nm config rl" "reliable_process_packet_data rl pd s = Inr rl'"
  shows "reliable_ok nm config rl'"
proof -
  have r: "receiver_ok rl" using assms(1) by (simp add: reliable_ok_def)
  have "inbox_verdict (inbox_of rl) (fst x) \<noteq> TooNew" if "x \<in> set (pd_messages pd)" for x
    using rlr.deliver_result(3)[OF r assms(2)] that by blast
  then obtain q where "reliable_process_packet_data rl pd s = Inr (rl\<lparr>rl_message_receive_queue := q\<rparr>)"
    "receiver_ok (rl\<lparr>rl_message_receive_queue := q\<rparr>)"
    by (rule process_packet_data_accepts[OF r])
  with assms show ?thesis by (auto simp: reliable_ok_def)
qed

lemma reliable_ack_ok:
  assumes "reliable_ok nm config rl" "reliable_process_ack rl a = Inr rl'"
  shows "reliable_ok nm config rl'"
proof -
  have s: "sender_ok nm rl" using assms(1) by (simp add: reliable_ok_def)
  consider "ob_packets (outbox_of rl) a = None" | ids where "ob_packets (outbox_of rl) a = Some (False, ids)"
    | ids where "ob_packets (outbox_of rl) a = Some (True, ids)"
    by (metis (full_types) option.exhaust surj_pair)
  then show ?thesis
  proof cases
    case 1
    with assms process_ack_unknown(1)[OF s] show ?thesis by simp
  next
    case 2
    obtain q old sp where *: "reliable_process_ack rl a = Inr (rl\<lparr>rl_sent_packets := sp,
        rl_message_send_queue := q, rl_oldest_unacked_message_id := old\<rparr>)"
      "sender_ok nm (rl\<lparr>rl_sent_packets := sp, rl_message_send_queue := q, rl_oldest_unacked_message_id := old\<rparr>)"
      by (rule process_ack_result[OF s 2])
    then have rl': "rl' = rl\<lparr>rl_sent_packets := sp, rl_message_send_queue := q, rl_oldest_unacked_message_id := old\<rparr>"
      using assms(2) by simp
    have "receiver_ok rl'" "rl_config rl' = config" "cc_kind config = ReliableOrdered"
      using assms(1) unfolding rl' by (simp_all add: reliable_ok_def)
    with *(2) show ?thesis by (simp only: reliable_ok_def rl')
  next
    case 3
    with assms process_ack_unknown(2)[OF s] show ?thesis by simp
  qed
qed

text \<open>The bits of an emitted packet are its size on the wire.\<close>

lemma reliable_wire_size:
  assumes "cc_kind config = ReliableOrdered" "ids \<noteq> []" "\<not> feat_serialize_check feat"
  shows "8 * cpd_wire_size feat nm config \<lparr>pd_channel_index = i, pd_messages = map (\<lambda>t. (t, the (ob_pending ob t))) ids\<rparr>
    = outbox_bits nm ob ids"
proof -
  have "8 * (\<Sum>t\<leftarrow>ids. msg_size nm (the (ob_pending ob t))) + 16 * length ids =
      (\<Sum>t\<leftarrow>ids. 8 * msg_size nm (the (ob_pending ob t)) + 16)"
    by (induction ids) auto
  then show ?thesis
    using assms by (simp add: cpd_wire_size_def outbox_bits_def header_bits check_bytes_def comp_def Let_def)
qed

lemma pending_measurable:
  "sender_ok nm rl \<Longrightarrow> ob_pending (outbox_of rl) t = Some m \<Longrightarrow> msg_measurable nm m"
  by (auto simp: outbox_of_def sender_ok_def queue_measured_def)

lemma reliable_emit_ok:
  assumes "reliable_ok nm config rl" "reliable_recent s rl" "32 \<le> channel_budget config available"
  obtains pd bits rl' where "reliable_packet_data rl i s available = Inr (pd, bits, rl')"
    "reliable_ok nm config rl'" "packed nm config i available pd bits"
proof -
  have s: "sender_ok nm rl" "rl_config rl = config" "receiver_ok rl" "cc_kind config = ReliableOrdered"
    using assms(1) by (simp_all add: reliable_ok_def)
  have room: "32 \<le> channel_budget (rl_config rl) available" using assms(3) s(2) by simp
  have fresh: "sequence_greater_than (s + 1) (ob_packet_next (outbox_of rl))"
    using assms(2) by (simp add: reliable_recent_def outbox_of_def)
  obtain pd bits rl' ids where r: "reliable_packet_data rl i s available = Inr (pd, bits, rl')"
    "sender_ok nm rl'" "same_receiver rl rl'"
    "outbox_choice (outbox_of rl) (cc_max_messages_per_packet (rl_config rl)) ids"
    "emitted nm i s (outbox_of rl) ids pd bits (outbox_of rl')"
    "bits \<le> channel_budget (rl_config rl) available"
    by (rule packet_data_result[OF s(1) room fresh])
  have "reliable_ok nm config rl'"
    using s r(2) same_receiver_ok[OF r(3)] by (simp add: reliable_ok_def)
  moreover have "packed nm config i available pd bits"
  proof (cases "ids = []")
    case True
    with r(5) show ?thesis by (simp add: emitted_def packed_def cpd_empty_def)
  next
    case False
    have "msg_measurable nm (the (ob_pending (outbox_of rl) t))" if "t \<in> set ids" for t
      using r(4) that pending_measurable[OF s(1)] by (force simp: outbox_choice_def)
    moreover have "length ids \<le> cc_max_messages_per_packet config"
      using r(4) s(2) by (simp add: outbox_choice_def)
    ultimately show ?thesis
      using False r(5,6) s(2) reliable_wire_size[OF s(4) False]
      by (auto simp: emitted_def packed_def)
  qed
  ultimately show ?thesis using that r(1) by blast
qed

interpretation rlp: processor_laws nm "reliable_ok nm" reliable_recent
    reliable_advance_time reliable_reset reliable_can_send_message "reliable_send_message nm"
    reliable_receive_message "\<lambda>rl config. reliable_packet_data rl" reliable_process_packet_data
    reliable_process_ack for nm
proof (unfold_locales, goal_cases)
  case (1 config p t)
  then show ?case by (simp add: reliable_ok_def reliable_advance_time_def)
next
  case (2 config p)
  then have "sender_ok nm p" "receiver_ok p" by (simp_all add: reliable_ok_def)
  note R = reset_sender[OF this(1)] reset_receiver(1)[OF this(2)]
  have "2 \<le> sb_capacity (rl_message_send_queue p)"
    using send_queue_okD(1)[OF sender_okD(1)[OF \<open>sender_ok nm p\<close>]] sb_windowD(3) by blast
  then have "reliable_can_send_message (reliable_reset p) = Inr True"
    using can_send_result[OF R(1)] R(2) by (simp add: outbox_of_def)
  with 2 R show ?case by (simp add: reliable_ok_def reliable_reset_def)
next
  case (3 config p)
  then show ?case using can_send_result by (auto simp: reliable_ok_def)
next
  case (4 config p m)
  then have "sender_ok nm p" by (simp add: reliable_ok_def)
  then show ?case using 4 by (rule_tac send_message_result[of nm p m]) (auto simp: reliable_ok_def)
next
  case (5 config p)
  then have "receiver_ok p" by (simp add: reliable_ok_def)
  then obtain rl' where *: "reliable_receive_message p = Inr (fst (inbox_pop (inbox_of p)), rl')" "receiver_ok rl'"
    and rl': "rl' = p\<lparr>rl_message_receive_queue := rl_message_receive_queue rl',
              rl_receive_message_id := rl_receive_message_id rl'\<rparr>"
    by (rule receive_message_refines)
  have "sender_ok nm rl'" "rl_config rl' = config"
    using 5 by (subst rl', simp add: reliable_ok_def)+
  with 5 * show ?case by (auto simp: reliable_ok_def)
next
  case (6 config p s available i)
  show ?case by (rule reliable_emit_ok[OF 6, of i]) blast
next
  case (7 config p pd s p')
  then show ?case by (rule reliable_deliver_ok)
next
  case (8 config p a p')
  then show ?case by (rule reliable_ack_ok)
qed

section \<open>The unreliable channel keeps it\<close>

definition unreliable_inv :: "('m, 'e) network_message \<Rightarrow> channel_config \<Rightarrow> 'm unreliable \<Rightarrow> bool" where
  "unreliable_inv nm config ur \<longleftrightarrow> cc_kind config = UnreliableUnordered \<and> unreliable_ok nm config ur"

lemma unreliable_wire_size:
  assumes "cc_kind config = UnreliableUnordered" "kept \<noteq> []" "\<not> feat_serialize_check feat"
  shows "8 * cpd_wire_size feat nm config \<lparr>pd_channel_index = i, pd_messages = map (Pair s) kept\<rparr>
    = 32 + (\<Sum>m\<leftarrow>kept. 8 * msg_size nm m)"
proof -
  have "8 * (\<Sum>m\<leftarrow>kept. msg_size nm m) = (\<Sum>m\<leftarrow>kept. 8 * msg_size nm m)"
    by (induction kept) auto
  then show ?thesis using assms by (simp add: cpd_wire_size_def check_bytes_def comp_def Let_def)
qed

lemma unreliable_emit_ok:
  assumes "unreliable_inv nm config ur"
  obtains pd bits ur' where "unreliable_packet_data nm ur config i s available = Inr (pd, bits, ur')"
    "unreliable_inv nm config ur'" "packed nm config i available pd bits"
proof -
  have ok: "unreliable_ok nm config ur" "cc_kind config = UnreliableUnordered"
    using assms by (simp_all add: unreliable_inv_def)
  obtain kept dropped rest ur' where r:
    "unreliable_packet_data nm ur config i s available =
       Inr (if kept = [] then cpd_empty else \<lparr>pd_channel_index = i, pd_messages = map (Pair s) kept\<rparr>,
            if kept = [] then 0 else 32 + (\<Sum>m\<leftarrow>kept. 8 * msg_size nm m), ur')"
    "unreliable_round nm (cc_max_messages_per_packet config) 32 (channel_budget config available)
       (vd_items (ur_message_send_queue ur)) kept dropped rest" "unreliable_ok nm config ur'"
    by (rule unreliable_packet_data_result[OF ok(1), of i s available])
  obtain taken where taken: "taken \<in> shuffles kept dropped" "vd_items (ur_message_send_queue ur) = taken @ rest"
    using r(2) by (auto simp: unreliable_round_def)
  have "set kept \<subseteq> set (vd_items (ur_message_send_queue ur))"
    using set_shuffles[OF taken(1)] taken(2) by auto
  then have "\<forall>m \<in> set kept. msg_measurable nm m" using ok(1) by (auto simp: unreliable_ok_def)
  then have "packed nm config i available
      (if kept = [] then cpd_empty else \<lparr>pd_channel_index = i, pd_messages = map (Pair s) kept\<rparr>)
      (if kept = [] then 0 else 32 + (\<Sum>m\<leftarrow>kept. 8 * msg_size nm m))"
    using r(2) unreliable_wire_size[OF ok(2), of kept]
    by (cases "kept = []") (auto simp: packed_def cpd_empty_def unreliable_round_def)
  with r(1,3) ok(2) show ?thesis by (intro that) (auto simp: unreliable_inv_def)
qed

interpretation urp: processor_laws nm "unreliable_inv nm" "\<lambda>_ _. True"
    unreliable_advance_time unreliable_reset unreliable_can_send_message
    "\<lambda>ur m. Inr (unreliable_send_message ur m)" "\<lambda>ur. Inr (unreliable_receive_message ur)"
    "unreliable_packet_data nm" "\<lambda>ur pd s. Inr (unreliable_process_packet_data ur pd s)"
    "\<lambda>ur a. Inr (unreliable_process_ack ur a)" for nm
proof (unfold_locales, goal_cases)
  case (2 config p)
  then have r: "unreliable_ok nm config (unreliable_reset p)" "0 < cc_message_send_queue_size config"
    using unreliable_reset_ok by (auto simp: unreliable_inv_def unreliable_ok_def)
  then have "unreliable_can_send_message (unreliable_reset p) = Inr True"
    by (simp add: unreliable_can_send) (simp add: unreliable_reset_def)
  with 2 r show ?case by (simp add: unreliable_inv_def)
next
  case (3 config p)
  then show ?case using unreliable_can_send by (auto simp: unreliable_inv_def)
next
  case (4 config p m)
  then show ?case using unreliable_send_ok by (auto simp: unreliable_inv_def)
next
  case (5 config p)
  then have "unreliable_ok nm config p" by (simp add: unreliable_inv_def)
  then show ?case using 5 by (rule_tac unreliable_receive_result[of nm config p]) (auto simp: unreliable_inv_def)
next
  case (6 config p s available i)
  show ?case by (rule unreliable_emit_ok[OF 6(1), of i s available]) blast
next
  case (7 config p pd s p')
  then show ?case using unreliable_process_result(2) by (auto simp: unreliable_inv_def)
qed (simp_all add: unreliable_inv_def unreliable_advance_time_def unreliable_process_ack_def)

section \<open>So does the dispatch\<close>

fun processor_ok :: "('m, 'e) network_message \<Rightarrow> channel_config \<Rightarrow> 'm processor \<Rightarrow> bool" where
  "processor_ok nm config (ReliableProcessor rl) \<longleftrightarrow> reliable_ok nm config rl"
| "processor_ok nm config (UnreliableProcessor ur) \<longleftrightarrow> unreliable_inv nm config ur"

fun processor_recent :: "u16 \<Rightarrow> 'm processor \<Rightarrow> bool" where
  "processor_recent s (ReliableProcessor rl) \<longleftrightarrow> reliable_recent s rl"
| "processor_recent s (UnreliableProcessor ur) \<longleftrightarrow> True"

interpretation prc: processor_laws nm "processor_ok nm" processor_recent
    processor_advance_time processor_reset processor_can_send_message "processor_send_message nm"
    processor_receive_message "processor_packet_data nm" processor_process_packet_data
    processor_process_ack for nm
proof (unfold_locales, goal_cases)
  case (1 config p t)
  then show ?case by (cases p) (simp_all add: rlp.advance_ok urp.advance_ok)
next
  case (2 config p)
  then show ?case by (cases p) (simp_all add: rlp.clear_ok urp.clear_ok)
next
  case (3 config p)
  then show ?case by (cases p) (simp_all add: rlp.can_send_ok urp.can_send_ok)
next
  case (4 config p m)
  then show ?case using rlp.send_ok urp.send_ok by (cases p) fastforce+
next
  case (5 config p)
  then show ?case
    using rlp.receive_ok[of nm config] urp.receive_ok[of nm config] by (cases p) fastforce+
next
  case (6 config p s available i)
  then show ?case
    using rlp.emit_ok[where s = s and available = available and i = i]
      urp.emit_ok[where s = s and available = available and i = i]
    by (cases p) fastforce+
next
  case (7 config p pd s p')
  then show ?case
    by (cases p) (auto simp: rbind_eq_Inr intro: rlp.deliver_ok urp.deliver_ok[OF _ refl])
next
  case (8 config p a p')
  then show ?case
    by (cases p) (auto simp: rbind_eq_Inr intro: rlp.ack_ok urp.ack_ok[OF _ refl])
qed

section \<open>The channel\<close>

text \<open>A channel made for a configuration and an index, with a processor in order; its error level
  and its counters may be anything.\<close>

definition channel_ok :: "('m, 'e) network_message \<Rightarrow> channel_config \<Rightarrow> usize \<Rightarrow> 'm channel \<Rightarrow> bool" where
  "channel_ok nm config i ch \<longleftrightarrow>
     ch_config ch = config \<and> ch_channel_index ch = i \<and> processor_ok nm config (ch_processor ch)"

definition channel_config_ok :: "channel_config \<Rightarrow> bool" where
  "channel_config_ok config \<longleftrightarrow> cc_max_messages_per_packet config \<le> 256 \<and>
     (case cc_kind config of ReliableOrdered \<Rightarrow> reliable_config_ok config
      | UnreliableUnordered \<Rightarrow> 0 < cc_message_send_queue_size config)"

lemma channel_new_ok:
  assumes "channel_new config i t = Inr ch" "channel_config_ok config"
  shows "channel_ok nm config i ch" "ch_error_level ch = ChannelNone" "ch_counters ch = \<lparr>ct_sent = 0, ct_received = 0\<rparr>"
  using assms reliable_new_ok[of config t] unreliable_new_ok[of config]
  by (auto simp: channel_new_def channel_config_ok_def channel_ok_def unreliable_inv_def rbind_eq_Inr
      split: channel_type.splits)

lemma channel_can_send_total:
  "channel_ok nm config i ch \<Longrightarrow> \<exists>b. channel_can_send_message ch = Inr b"
  using prc.can_send_ok by (auto simp: channel_ok_def channel_can_send_message_def)

lemma channel_advance_ok:
  "channel_ok nm config i ch \<Longrightarrow> channel_ok nm config i (channel_advance_time ch t)"
  by (simp add: channel_ok_def channel_advance_time_def prc.advance_ok)

lemma channel_reset_ok:
  assumes "channel_ok nm config i ch"
  shows "channel_ok nm config i (channel_reset ch)" "ch_error_level (channel_reset ch) = ChannelNone"
    "ch_counters (channel_reset ch) = \<lparr>ct_sent = 0, ct_received = 0\<rparr>"
    "channel_can_send_message (channel_reset ch) = Inr True"
  using assms prc.clear_ok[of nm config "ch_processor ch"]
  by (auto simp: channel_ok_def channel_reset_def channel_set_error_level_def channel_reset_counters_def
      channel_counters_reset_def channel_can_send_message_def Let_def)

lemma channel_emit_ok:
  assumes "channel_ok nm config i ch" "processor_recent s (ch_processor ch)"
    "32 \<le> channel_budget config available"
  obtains pd bits ch' where "channel_packet_data nm ch s available = Inr (pd, bits, ch')"
    "channel_ok nm config i ch'" "packed nm config i available pd bits"
    "ch_error_level ch' = ch_error_level ch" "ch_counters ch' = ch_counters ch"
  using assms prc.emit_ok[of nm config "ch_processor ch" s available i]
  by (force simp: channel_ok_def channel_packet_data_def)

lemma channel_deliver_ok:
  assumes "channel_ok nm config i ch" "channel_process_packet_data ch pd s = Inr ch'"
  shows "channel_ok nm config i ch'" "ch_error_level ch' = ch_error_level ch" "ch_counters ch' = ch_counters ch"
  using assms prc.deliver_ok
  by (auto simp: channel_ok_def channel_process_packet_data_def rbind_eq_Inr split: if_splits)

lemma channel_ack_ok:
  assumes "channel_ok nm config i ch" "channel_process_ack ch a = Inr ch'"
  shows "channel_ok nm config i ch'" "ch_error_level ch' = ch_error_level ch" "ch_counters ch' = ch_counters ch"
  using assms prc.ack_ok by (auto simp: channel_ok_def channel_process_ack_def rbind_eq_Inr)

section \<open>The properties of a channel\<close>

text \<open>\<open>send_message\<close> on a channel: ignored in an error state; otherwise the message is
  queued and counted when there is room, and the channel enters \<open>SendQueueFull\<close>, with nothing
  else changed, when there is none. It never panics.\<close>

theorem channel_sends:
  assumes "channel_ok nm config i ch" "msg_measurable nm m"
  shows "\<exists>room ch'. channel_can_send_message ch = Inr room \<and> channel_send_message nm ch m = Inr ch' \<and>
    channel_ok nm config i ch' \<and>
    (if ch_error_level ch \<noteq> ChannelNone then ch' = ch
     else if \<not> room then ch' = ch\<lparr>ch_error_level := SendQueueFull\<rparr>
     else processor_send_message nm (ch_processor ch) m = Inr (ch_processor ch') \<and>
       ch_error_level ch' = ChannelNone \<and>
       ch_counters ch' = (ch_counters ch)\<lparr>ct_sent := ct_sent (ch_counters ch) + 1\<rparr>)"
proof -
  obtain room where room: "channel_can_send_message ch = Inr room" using channel_can_send_total[OF assms(1)] by blast
  show ?thesis
  proof (cases "ch_error_level ch = ChannelNone \<and> room")
    case True
    then obtain p where "processor_send_message nm (ch_processor ch) m = Inr p" "processor_ok nm config p"
      using prc.send_ok[of nm config "ch_processor ch" m] assms room by (auto simp: channel_ok_def channel_can_send_message_def)
    with True room assms(1) show ?thesis
      by (intro exI[of _ True] exI) (auto simp: channel_send_message_def channel_ok_def)
  next
    case False
    with room assms(1) show ?thesis
      by (auto simp: channel_send_message_def channel_ok_def channel_set_error_level_def)
  qed
qed

text \<open>C32: an error state is final until \<open>reset\<close>: sending, receiving and incoming packets leave
  the channel as it is, the clock and acknowledgements leave its error level; \<open>reset\<close> clears
  the error and the counters and makes the channel accept messages again.\<close>

theorem channel_error_sticks:
  assumes "channel_ok nm config i ch" "ch_error_level ch \<noteq> ChannelNone"
  shows "channel_send_message nm ch m = Inr ch \<and> channel_receive_message ch = Inr (None, ch) \<and>
    channel_process_packet_data ch pd s = Inr ch \<and>
    ch_error_level (channel_advance_time ch t) = ch_error_level ch \<and>
    (channel_process_ack ch a = Inr ch' \<longrightarrow> ch_error_level ch' = ch_error_level ch) \<and>
    ch_error_level (channel_reset ch) = ChannelNone \<and>
    ch_counters (channel_reset ch) = \<lparr>ct_sent = 0, ct_received = 0\<rparr> \<and>
    channel_can_send_message (channel_reset ch) = Inr True"
  using assms channel_reset_ok[OF assms(1)] channel_ack_ok[OF assms(1)]
  by (auto simp: channel_send_message_def channel_receive_message_def channel_process_packet_data_def
      channel_advance_time_def)

text \<open>\<open>receive_message\<close> never panics, returns what the processor hands out, and counts
  exactly the messages it returns.\<close>

theorem channel_receives:
  assumes "channel_ok nm config i ch" "ch_error_level ch = ChannelNone"
  shows "\<exists>r ch'. channel_receive_message ch = Inr (r, ch') \<and> channel_ok nm config i ch' \<and>
    processor_receive_message (ch_processor ch) = Inr (r, ch_processor ch') \<and>
    ch_error_level ch' = ChannelNone \<and> ct_sent (ch_counters ch') = ct_sent (ch_counters ch) \<and>
    ct_received (ch_counters ch') = ct_received (ch_counters ch) + (if r = None then 0 else 1)"
proof -
  obtain r p where "processor_receive_message (ch_processor ch) = Inr (r, p)" "processor_ok nm config p"
    using prc.receive_ok[of nm config "ch_processor ch"] assms(1) by (auto simp: channel_ok_def)
  with assms show ?thesis by (cases r) (simp_all add: channel_receive_message_def channel_ok_def)
qed

section \<open>Witnesses\<close>

definition demo_channel :: "u64 list \<Rightarrow> u64 channel" where
  "demo_channel ms = \<lparr>ch_config = demo_unreliable_config, ch_channel_index = 0, ch_error_level = ChannelNone,
     ch_processor = UnreliableProcessor (demo_unreliable ms), ch_counters = \<lparr>ct_sent = 4, ct_received = 0\<rparr>\<rparr>"

lemma demo_channel_ok: "length ms \<le> 4 \<Longrightarrow> channel_ok test_message demo_unreliable_config 0 (demo_channel ms)"
  using demo_unreliable_ok
  by (simp add: channel_ok_def demo_channel_def unreliable_inv_def)
     (simp add: demo_unreliable_config_def channel_config_new_def)

theorem channel_sends_witness:
  "\<exists>ch'. channel_send_message test_message (demo_channel [1, 2, 3, 4]) 5 = Inr ch' \<and>
     ch_error_level ch' = SendQueueFull \<and> ct_sent (ch_counters ch') = 4"
proof -
  have "channel_can_send_message (demo_channel [1, 2, 3, 4]) = Inr False" by code_simp
  then show ?thesis
    using channel_sends[OF demo_channel_ok[of "[1, 2, 3, 4]"] test_message_measurable, of 5]
    by (auto simp: demo_channel_def)
qed

theorem channel_error_sticks_witness:
  "channel_can_send_message (channel_reset ((demo_channel [1, 2, 3, 4])\<lparr>ch_error_level := SendQueueFull\<rparr>)) = Inr True"
proof -
  have "channel_ok test_message demo_unreliable_config 0 ((demo_channel [1, 2, 3, 4])\<lparr>ch_error_level := SendQueueFull\<rparr>)"
    using demo_channel_ok[of "[1, 2, 3, 4]"] by (simp add: channel_ok_def)
  then show ?thesis using channel_error_sticks by fastforce
qed

theorem channel_receives_witness:
  "\<exists>ch'. channel_receive_message (demo_channel [1]) = Inr (None, ch') \<and> ct_received (ch_counters ch') = 0"
proof -
  have "processor_receive_message (ch_processor (demo_channel [1])) = Inr (None, ch_processor (demo_channel [1]))"
    by code_simp
  then show ?thesis
    using channel_receives[OF demo_channel_ok[of "[1]"]] by (auto simp: demo_channel_def)
qed

end
