(* ===== verification/Connection_Packets.thy ===== *)
theory Connection_Packets
  imports Connection Processor_Contract
begin

text \<open>
  What \<open>src/connection.rs\<close> promises: the bytes \<open>generate_packet\<close> writes are read back by
  \<open>process_packet\<close>, they fit the packet when the channels have budgets that do, each channel
  sees its own data only, and where the code panics instead.
\<close>

section \<open>Connections in order\<close>

definition connection_config_ok :: "connection_config \<Rightarrow> bool" where
  "connection_config_ok config \<longleftrightarrow> nc_channels config \<noteq> [] \<and> length (nc_channels config) < 65535 \<and>
     (\<forall>c \<in> set (nc_channels config). channel_config_ok c)"

fun channels_ok :: "('m, 'e) network_message \<Rightarrow> usize \<Rightarrow> channel_config list \<Rightarrow> 'm channel list \<Rightarrow> bool" where
  "channels_ok nm k [] [] \<longleftrightarrow> True"
| "channels_ok nm k (c # cs) (ch # chs) \<longleftrightarrow> channel_ok nm c k ch \<and> channels_ok nm (Suc k) cs chs"
| "channels_ok nm k _ _ \<longleftrightarrow> False"

definition connection_ok :: "('m, 'e) network_message \<Rightarrow> 'm connection \<Rightarrow> bool" where
  "connection_ok nm cn \<longleftrightarrow> connection_config_ok (cn_config cn) \<and>
     channels_ok nm 0 (nc_channels (cn_config cn)) (cn_channels cn)"

lemma channels_ok_iff:
  "channels_ok nm k cs chs \<longleftrightarrow> length chs = length cs \<and> (\<forall>i < length cs. channel_ok nm (cs ! i) (k + i) (chs ! i))"
proof (induction nm k cs chs rule: channels_ok.induct)
  case (2 nm k c cs ch chs)
  have "(\<forall>i < Suc (length cs). channel_ok nm ((c # cs) ! i) (k + i) ((ch # chs) ! i)) \<longleftrightarrow>
      channel_ok nm c k ch \<and> (\<forall>i < length cs. channel_ok nm (cs ! i) (Suc k + i) (chs ! i))"
    by (auto simp: less_Suc_eq_0_disj)
  with 2 show ?case by auto
qed simp_all

lemma connection_okD:
  assumes "connection_ok nm cn"
  shows "length (cn_channels cn) = length (nc_channels (cn_config cn))" "cn_channels cn \<noteq> []"
    "length (cn_channels cn) < 65535"
    "i < length (cn_channels cn) \<Longrightarrow> channel_ok nm (nc_channels (cn_config cn) ! i) i (cn_channels cn ! i)"
    "i < length (cn_channels cn) \<Longrightarrow> channel_config_ok (nc_channels (cn_config cn) ! i)"
  using assms by (auto simp: connection_ok_def connection_config_ok_def channels_ok_iff)

lemma connection_ok_channels:
  "connection_ok nm cn \<Longrightarrow> channels_ok nm 0 (nc_channels (cn_config cn)) chs \<Longrightarrow>
    connection_ok nm (cn\<lparr>cn_channels := chs\<rparr>)"
  by (simp add: connection_ok_def)

lemma connection_ok_update:
  "connection_ok nm cn \<Longrightarrow> i < length (cn_channels cn) \<Longrightarrow>
    channel_ok nm (nc_channels (cn_config cn) ! i) i ch \<Longrightarrow>
    connection_ok nm (cn\<lparr>cn_channels := (cn_channels cn)[i := ch]\<rparr>)"
  by (auto simp: connection_ok_def channels_ok_iff nth_list_update)

lemma channel_new_total:
  assumes "channel_config_ok config"
  obtains ch where "channel_new config i t = Inr ch" "channel_ok nm config i ch" "ch_error_level ch = ChannelNone"
proof -
  have "\<exists>ch. channel_new config i t = Inr ch"
    using assms by (cases "cc_kind config")
      (auto simp: channel_config_ok_def reliable_config_ok_def channel_new_def reliable_new_def
        unreliable_new_def sb_new_def)
  with that channel_new_ok[OF _ assms] show ?thesis by blast
qed

lemma new_channels:
  assumes "\<forall>c \<in> set cs. channel_config_ok c" "channels_ok nm 0 done chs0"
    "\<forall>ch \<in> set chs0. ch_error_level ch = ChannelNone"
  obtains chs where "rfold (\<lambda>channels (i, c). rbind (channel_new c i t) (\<lambda>ch. Inr (channels @ [ch]))) chs0
      (enumerate (length done) cs) = Inr chs" "channels_ok nm 0 (done @ cs) chs"
    "\<forall>ch \<in> set chs. ch_error_level ch = ChannelNone"
  using assms
proof (induction cs arbitrary: "done" chs0 thesis)
  case (Cons c cs)
  have "channel_config_ok c" using Cons.prems(2) by simp
  then obtain ch where ch: "channel_new c (length done) t = Inr ch" "channel_ok nm c (length done) ch"
    "ch_error_level ch = ChannelNone"
    by (rule channel_new_total)
  have "channels_ok nm 0 (done @ [c]) (chs0 @ [ch])"
    using Cons.prems(3) ch(2) by (auto simp: channels_ok_iff nth_append less_Suc_eq)
  from Cons.IH[OF _ _ this] Cons.prems(1,2,4) ch show ?case by auto
qed simp

lemma connection_new_total:
  assumes "connection_config_ok config"
  obtains cn where "connection_new config t = Inr cn" "connection_ok nm cn" "cn_config cn = config"
    "cn_error_level cn = ConnectionNone" "\<forall>ch \<in> set (cn_channels cn). ch_error_level ch = ChannelNone"
proof -
  obtain chs where "rfold (\<lambda>channels (i, c). rbind (channel_new c i t) (\<lambda>ch. Inr (channels @ [ch]))) []
      (enumerate 0 (nc_channels config)) = Inr chs" "channels_ok nm 0 (nc_channels config) chs"
    "\<forall>ch \<in> set chs. ch_error_level ch = ChannelNone"
    using assms new_channels[of "nc_channels config" nm "[]" "[]" t] by (force simp: connection_config_ok_def)
  with assms that show ?thesis by (auto simp: connection_new_def connection_ok_def connection_config_ok_def)
qed

section \<open>Packets on the wire\<close>

definition packet_wire_size ::
  "features \<Rightarrow> ('m, 'e) network_message \<Rightarrow> connection_config \<Rightarrow> 'm channel_packet_data list \<Rightarrow> usize" where
  "packet_wire_size feat nm config ds =
     (\<Sum>d\<leftarrow>ds. cpd_wire_size feat nm (nc_channels config ! pd_channel_index d) d)"

lemma serialize_channels:
  assumes nm: "msg_lawful nm" and "cur_ok c"
    and "rfold (\<lambda>w d. cpd_serialize feat nm config d w) c ds = Inr c'"
  obtains bs where "writes c c' bs" "length bs = packet_wire_size feat nm config ds"
    "\<And>rest. connection_read_channels feat nm config (length ds) (bs @ rest) = Inr (map (cpd_seen config) ds)"
  using assms(2-)
proof (induction ds arbitrary: c thesis)
  case Nil
  then show ?case by (intro Nil(1)[of "[]"]) (simp_all add: writes_Nil packet_wire_size_def)
next
  case (Cons d ds)
  note codec = msg_lawful_codec[OF nm]
  obtain c1 where c1: "cpd_serialize feat nm config d c = Inr c1"
    and rest: "rfold (\<lambda>w d. cpd_serialize feat nm config d w) c1 ds = Inr c'"
    using Cons.prems(3) by (auto simp: rbind_eq_Inr)
  obtain bs where bs: "writes c c1 bs"
    "\<And>rest. cpd_deserialize feat nm config (bs @ rest) = Inr (cpd_seen config d, rest)"
    by (rule message_codec.serialize_deserialize[OF codec Cons.prems(2) c1]) blast
  note W = writesD[OF bs(1) Cons.prems(2)]
  have size: "length bs = cpd_wire_size feat nm (nc_channels config ! pd_channel_index d) d"
    using message_codec.serialize_size[OF codec Cons.prems(2) c1] W(3,6) by linarith
  obtain bs' where bs': "writes c1 c' bs'" "length bs' = packet_wire_size feat nm config ds"
    "\<And>rest. connection_read_channels feat nm config (length ds) (bs' @ rest) = Inr (map (cpd_seen config) ds)"
    by (rule Cons.IH[OF _ W(1) rest]) blast
  show ?case
    by (rule Cons.prems(1)[of "bs @ bs'"])
      (use bs bs' size Cons.prems(2) in \<open>auto simp: packet_wire_size_def intro: writes_trans\<close>)
qed

lemma serialize_channels_fit:
  assumes nm: "msg_lawful nm" and "cur_ok c"
    and "\<forall>d \<in> set ds. cpd_valid config d \<and> (\<forall>(_, m) \<in> set (pd_messages d). msg_measurable nm m)"
    and "packet_wire_size feat nm config ds \<le> cur_room c"
  shows "\<exists>c'. rfold (\<lambda>w d. cpd_serialize feat nm config d w) c ds = Inr c'"
  using assms(2-)
proof (induction ds arbitrary: c)
  case (Cons d ds)
  note codec = msg_lawful_codec[OF nm]
  have "cpd_wire_size feat nm (nc_channels config ! pd_channel_index d) d \<le> cur_room c"
    using Cons.prems(3) by (simp add: packet_wire_size_def)
  then obtain c1 where c1: "cpd_serialize feat nm config d c = Inr c1"
    using message_codec.serialize_exact[OF codec Cons.prems(1)] Cons.prems(2) by fastforce
  obtain bs where bs: "writes c c1 bs"
    by (rule message_codec.serialize_deserialize[OF codec Cons.prems(1) c1])
  have "packet_wire_size feat nm config ds \<le> cur_room c1"
    using message_codec.serialize_size[OF codec Cons.prems(1) c1] Cons.prems(3)
    by (simp add: packet_wire_size_def)
  with Cons.IH[OF writesD(1)[OF bs Cons.prems(1)]] Cons.prems(2) c1 show ?case by simp
qed simp

text \<open>A packet: the count of its channel entries, then the entries.\<close>

lemma packet_serialize_exact:
  assumes nm: "msg_lawful nm" and ds: "length ds < 65535"
    "\<forall>d \<in> set ds. cpd_valid config d \<and> (\<forall>(_, m) \<in> set (pd_messages d). msg_measurable nm m)"
    and room: "2 + packet_wire_size feat nm config ds \<le> length dest"
  obtains n buf where "connection_packet_serialize feat nm \<lparr>cp_channel_data = ds\<rparr> config dest = Inr (n, buf)"
proof -
  let ?c = "cur_put (cur_new dest) (le_u16 (of_nat (length ds)))"
  have w: "writes (cur_new dest) ?c (le_u16 (of_nat (length ds)))" using room by (simp add: writes_def)
  note W = writesD[OF w, simplified]
  have "cur_pos ?c < CONSERVATIVE_PACKET_HEADER_BITS" by (simp add: W header_bits)
  moreover have "packet_wire_size feat nm config ds \<le> cur_room ?c" using room W(3) by simp
  then obtain c' where "rfold (\<lambda>w d. cpd_serialize feat nm config d w) ?c ds = Inr c'"
    using serialize_channels_fit[OF nm W(1) ds(2)] by blast
  moreover have "cur_write (cur_new dest) (le_u16 (of_nat (length ds))) = Inr ?c"
    using w by (simp only: cur_write_eq_Inr)
  ultimately show ?thesis
    using ds(1) that by (cases "ds = []") (auto simp: connection_packet_serialize_def)
qed

lemma packet_serialize_reads_back:
  assumes nm: "msg_lawful nm"
    and ser: "connection_packet_serialize feat nm \<lparr>cp_channel_data = ds\<rparr> config dest = Inr (n, buf)"
  shows "n = 2 + packet_wire_size feat nm config ds" "n \<le> length dest" "length buf = length dest"
    "connection_packet_deserialize feat nm config (take n buf @ rest) =
       Inr \<lparr>cp_channel_data = map (cpd_seen config) ds\<rparr>"
proof -
  obtain c where len: "length ds < 65535" and c: "writes (cur_new dest) c (le_u16 (of_nat (length ds)))"
    and tail: "if ds = [] then (n, buf) = (cur_pos c, cur_buf c)
      else \<exists>c'. rfold (\<lambda>w d. cpd_serialize feat nm config d w) c ds = Inr c' \<and> (n, buf) = (cur_pos c', cur_buf c')"
    using ser by (auto simp: connection_packet_serialize_def rbind_eq_Inr cur_write_eq_Inr split: if_splits)
  note W = writesD[OF c, simplified]
  have "\<exists>c'. rfold (\<lambda>w d. cpd_serialize feat nm config d w) c ds = Inr c' \<and> n = cur_pos c' \<and> buf = cur_buf c'"
    using tail by (cases "ds = []") auto
  then obtain c' where c': "rfold (\<lambda>w d. cpd_serialize feat nm config d w) c ds = Inr c'"
    "n = cur_pos c'" "buf = cur_buf c'" by blast
  obtain bs where bs: "writes c c' bs" "length bs = packet_wire_size feat nm config ds"
    "\<And>rest. connection_read_channels feat nm config (length ds) (bs @ rest) = Inr (map (cpd_seen config) ds)"
    by (rule serialize_channels[OF nm W(1) c'(1)]) blast
  note B = writesD[OF bs(1) W(1)]
  show n: "n = 2 + packet_wire_size feat nm config ds" using B(4) W(4) bs(2) c'(2) by simp
  show len_buf: "length buf = length dest" using B(5) W(5) c'(3) by simp
  show "n \<le> length dest" using B(1,5) W(5) c'(2) by (simp add: cur_ok_def)
  have "take n buf = le_u16 (of_nat (length ds)) @ bs"
    using B(2) W(2) c'(2,3) by (simp add: cur_written_def)
  then show "connection_packet_deserialize feat nm config (take n buf @ rest) =
       Inr \<lparr>cp_channel_data = map (cpd_seen config) ds\<rparr>"
    using bs(3)[of rest] len by (simp add: connection_packet_deserialize_def unat_u16_of_nat)
qed

section \<open>Collecting the channels' data\<close>

text \<open>One round of \<open>packet_data\<close> on a channel, for some number of bits on offer.\<close>

definition channel_emits ::
  "('m, 'e) network_message \<Rightarrow> u16 \<Rightarrow> 'm channel \<Rightarrow> 'm channel_packet_data \<times> 'm channel \<Rightarrow> bool" where
  "channel_emits nm s ch out \<longleftrightarrow>
     (\<exists>available bits. channel_packet_data nm ch s available = Inr (fst out, bits, snd out))"

abbreviation with_messages :: "('m channel_packet_data \<times> 'a) list \<Rightarrow> 'm channel_packet_data list" where
  "with_messages outs \<equiv> filter (\<lambda>pd. pd_messages pd \<noteq> []) (map fst outs)"

lemma packed_valid:
  assumes "packed nm (nc_channels config ! k) k available pd bits" "pd_messages pd \<noteq> []"
    and "connection_config_ok config" "k < length (nc_channels config)"
  shows "cpd_valid config pd" "\<forall>(_, m) \<in> set (pd_messages pd). msg_measurable nm m"
    "pd_channel_index pd = k" "bits \<le> channel_budget (nc_channels config ! k) available"
    "\<not> feat_serialize_check feat \<Longrightarrow> 8 * cpd_wire_size feat nm (nc_channels config ! pd_channel_index pd) pd = bits"
  using assms by (auto simp: packed_def cpd_valid_def connection_config_ok_def channel_config_ok_def Let_def)

text \<open>A bound in bytes on what a channel puts into a packet: its own budget, or, without one, what
  its messages can amount to.\<close>

definition uses_at_most :: "('m, 'e) network_message \<Rightarrow> channel_config \<Rightarrow> usize \<Rightarrow> bool" where
  "uses_at_most nm config b \<longleftrightarrow>
     (\<forall>i available pd bits. 32 + 8 * b < available \<longrightarrow> packed nm config i available pd bits \<longrightarrow> bits \<le> 8 * b) \<and>
     (\<forall>bytes. cc_packet_budget config = Some bytes \<longrightarrow> 4 \<le> bytes)"

lemma uses_budget: "cc_packet_budget config = Some b \<Longrightarrow> 4 \<le> b \<Longrightarrow> uses_at_most nm config b"
  by (auto simp: uses_at_most_def packed_def channel_budget_def split: if_splits)

lemma uses_at_mostD:
  assumes "uses_at_most nm config b" "32 + 8 * b < available"
  shows "32 \<le> channel_budget config available" "packed nm config i available pd bits \<Longrightarrow> bits \<le> 8 * b"
  using assms by (auto simp: uses_at_most_def channel_budget_def split: option.splits)

text \<open>When every channel has such a bound and the bounds fit, no subtraction underflows, no
  assertion fails and the data fits the accounted bits.\<close>

lemma channels_collect_result:
  assumes config: "connection_config_ok config" and plain: "\<not> feat_serialize_check feat"
    and "channels_ok nm k (drop k (nc_channels config)) chs"
    and "\<forall>ch \<in> set chs. processor_recent s (ch_processor ch)"
    and "list_all2 (uses_at_most nm) (drop k (nc_channels config)) bs"
    and "(\<Sum>b\<leftarrow>bs. 32 + 8 * b) < available"
  obtains outs where
    "connection_collect feat nm s chs available = Inr (with_messages outs, map snd outs)"
    "list_all2 (channel_emits nm s) chs outs"
    "channels_ok nm k (drop k (nc_channels config)) (map snd outs)"
    "\<forall>d \<in> set (with_messages outs). cpd_valid config d \<and> (\<forall>(_, m) \<in> set (pd_messages d). msg_measurable nm m)"
    "8 * packet_wire_size feat nm config (with_messages outs) \<le> (\<Sum>b\<leftarrow>bs. 32 + 8 * b)"
  using assms(3-)
proof (induction chs arbitrary: k bs available thesis)
  case Nil
  then show ?case by (intro Nil(1)[of "[]"]) (auto simp: packet_wire_size_def)
next
  case (Cons ch chs)
  have k: "k < length (nc_channels config)"
    using Cons.prems(2) by (cases "k < length (nc_channels config)") simp_all
  let ?c = "nc_channels config ! k"
  have drop_k: "drop k (nc_channels config) = ?c # drop (Suc k) (nc_channels config)"
    using k by (simp add: Cons_nth_drop_Suc)
  have chs: "channel_ok nm ?c k ch" "channels_ok nm (Suc k) (drop (Suc k) (nc_channels config)) chs"
    using Cons.prems(2) unfolding drop_k by simp_all
  obtain b bs' where bs: "bs = b # bs'" "uses_at_most nm ?c b"
    "list_all2 (uses_at_most nm) (drop (Suc k) (nc_channels config)) bs'"
    using Cons.prems(4) unfolding drop_k by (cases bs) auto
  have b: "32 + 8 * b + (\<Sum>b\<leftarrow>bs'. 32 + 8 * b) < available" using Cons.prems(5) bs(1) by auto
  have "32 + 8 * b < available" using b by linarith
  note uses = uses_at_mostD[OF bs(2) this]
  have recent: "processor_recent s (ch_processor ch)" "\<forall>ch \<in> set chs. processor_recent s (ch_processor ch)"
    using Cons.prems(3) by simp_all
  obtain pd bits ch' where e: "channel_packet_data nm ch s available = Inr (pd, bits, ch')"
    "channel_ok nm ?c k ch'" "packed nm ?c k available pd bits"
    by (rule channel_emit_ok[OF chs(1) recent(1) uses(1)])
  have emits: "channel_emits nm s ch (pd, ch')" using e(1) by (auto simp: channel_emits_def)
  show ?case
  proof (cases "pd_messages pd = []")
    case True
    then have bits: "bits = 0" using e(3) by (simp add: packed_def)
    obtain outs where outs: "connection_collect feat nm s chs available = Inr (with_messages outs, map snd outs)"
      "list_all2 (channel_emits nm s) chs outs"
      "channels_ok nm (Suc k) (drop (Suc k) (nc_channels config)) (map snd outs)"
      "\<forall>d \<in> set (with_messages outs). cpd_valid config d \<and> (\<forall>(_, m) \<in> set (pd_messages d). msg_measurable nm m)"
      "8 * packet_wire_size feat nm config (with_messages outs) \<le> (\<Sum>b\<leftarrow>bs'. 32 + 8 * b)"
      by (rule Cons.IH[OF _ chs(2) recent(2) bs(3), of available]) (use b in auto)
    show ?thesis
      by (rule Cons.prems(1)[of "(pd, ch') # outs"])
        (use True bits outs e(1,2) emits bs(1) in \<open>simp_all add: drop_k\<close>)
  next
    case False
    note V = packed_valid[OF e(3) False config k]
    have wire: "8 * cpd_wire_size feat nm (nc_channels config ! pd_channel_index pd) pd = bits"
      using V(5) plain by blast
    have pos: "0 < bits" using packed_positive[OF e(3)] False by blast
    have le: "bits \<le> 8 * b" by (rule uses(2)[OF e(3)])
    let ?rest = "available - 32 - bits"
    have room: "bits + 32 < available" "(\<Sum>b\<leftarrow>bs'. 32 + 8 * b) < ?rest" using b le by linarith+
    obtain outs where outs: "connection_collect feat nm s chs ?rest = Inr (with_messages outs, map snd outs)"
      "list_all2 (channel_emits nm s) chs outs"
      "channels_ok nm (Suc k) (drop (Suc k) (nc_channels config)) (map snd outs)"
      "\<forall>d \<in> set (with_messages outs). cpd_valid config d \<and> (\<forall>(_, m) \<in> set (pd_messages d). msg_measurable nm m)"
      "8 * packet_wire_size feat nm config (with_messages outs) \<le> (\<Sum>b\<leftarrow>bs'. 32 + 8 * b)"
      by (rule Cons.IH[OF _ chs(2) recent(2) bs(3) room(2)])
    have "connection_collect feat nm s (ch # chs) available =
        Inr (pd # with_messages outs, ch' # map snd outs)"
      using e(1) pos room(1) outs(1) by (simp add: header_bits)
    moreover have "8 * packet_wire_size feat nm config (pd # with_messages outs) \<le> (\<Sum>b\<leftarrow>bs. 32 + 8 * b)"
      using outs(5) wire le bs(1) by (simp add: packet_wire_size_def)
    ultimately show ?thesis
      by (intro Cons.prems(1)[of "(pd, ch') # outs"])
        (use False outs(2-4) e(2) emits V(1,2) in \<open>simp_all add: drop_k\<close>)
  qed
qed

section \<open>The properties of generate_packet\<close>

lemma generate_packet_total:
  assumes nm: "msg_lawful nm" and ok: "connection_ok nm cn" and plain: "\<not> feat_serialize_check feat"
    and recent: "\<forall>ch \<in> set (cn_channels cn). processor_recent s (ch_processor ch)"
    and uses: "list_all2 (uses_at_most nm) (nc_channels (cn_config cn)) bs"
    and room: "16 + (\<Sum>b\<leftarrow>bs. 32 + 8 * b) < 8 * length packet"
  shows "\<exists>n buffer outs.
    connection_generate_packet feat nm cn s packet = Inr (n, buffer, cn\<lparr>cn_channels := map snd outs\<rparr>) \<and>
    connection_ok nm (cn\<lparr>cn_channels := map snd outs\<rparr>) \<and>
    list_all2 (channel_emits nm s) (cn_channels cn) outs \<and>
    n \<le> length packet \<and> length buffer = length packet \<and>
    (if with_messages outs = [] then n = 0 \<and> buffer = packet
     else connection_packet_deserialize feat nm (cn_config cn) (take n buffer) =
       Inr \<lparr>cp_channel_data = map (cpd_seen (cn_config cn)) (with_messages outs)\<rparr>)"
proof -
  let ?config = "cn_config cn" and ?avail = "8 * length packet - 16"
  have config: "connection_config_ok ?config" and chs: "channels_ok nm 0 (drop 0 (nc_channels ?config)) (cn_channels cn)"
    using ok by (simp_all add: connection_ok_def)
  have avail: "(\<Sum>b\<leftarrow>bs. 32 + 8 * b) < ?avail" using room by linarith
  obtain outs where outs:
    "connection_collect feat nm s (cn_channels cn) ?avail = Inr (with_messages outs, map snd outs)"
    "list_all2 (channel_emits nm s) (cn_channels cn) outs"
    "channels_ok nm 0 (drop 0 (nc_channels ?config)) (map snd outs)"
    "\<forall>d \<in> set (with_messages outs). cpd_valid ?config d \<and> (\<forall>(_, m) \<in> set (pd_messages d). msg_measurable nm m)"
    "8 * packet_wire_size feat nm ?config (with_messages outs) \<le> (\<Sum>b\<leftarrow>bs. 32 + 8 * b)"
    by (rule channels_collect_result[OF config plain chs recent _ avail]) (use uses in auto)
  have ok': "connection_ok nm (cn\<lparr>cn_channels := map snd outs\<rparr>)"
    using connection_ok_channels[OF ok] outs(3) by simp
  note ne = connection_okD(2)[OF ok]
  have "packet \<noteq> []" "checked_sub (length packet * 8) CONSERVATIVE_PACKET_HEADER_BITS = Inr ?avail"
    using room by (auto simp: header_bits mult.commute)
  note start = this
  show ?thesis
  proof (cases "with_messages outs = []")
    case True
    have "connection_generate_packet feat nm cn s packet = Inr (0, packet, cn\<lparr>cn_channels := map snd outs\<rparr>)"
      using ne start outs(1) True by (simp add: connection_generate_packet_def)
    with True ok' outs(2) show ?thesis by force
  next
    case False
    have "length outs = length (cn_channels cn)" using outs(2) by (simp add: list_all2_lengthD)
    then have len: "length (with_messages outs) < 65535"
      using connection_okD(3)[OF ok] length_filter_le[of "\<lambda>pd. pd_messages pd \<noteq> []" "map fst outs"]
      by (simp only: length_map)
    have "2 + packet_wire_size feat nm ?config (with_messages outs) \<le> length packet"
      using outs(5) avail by linarith
    then obtain n buffer where ser: "connection_packet_serialize feat nm \<lparr>cp_channel_data = with_messages outs\<rparr>
        ?config packet = Inr (n, buffer)"
      by (rule packet_serialize_exact[OF nm len outs(4)])
    note reads = packet_serialize_reads_back[OF nm ser]
    have "connection_generate_packet feat nm cn s packet = Inr (n, buffer, cn\<lparr>cn_channels := map snd outs\<rparr>)"
      using ne start outs(1) False ser by (simp add: connection_generate_packet_def)
    with False ok' outs(2) reads(2,3) reads(4)[of "[]"] show ?thesis by force
  qed
qed

text \<open>C18: a connection whose channels have budgets of their own that fit the packet (with 16 bits
  for the packet and 32 for each channel) never panics in \<open>generate_packet\<close>. Every channel is
  asked once; what the channels gave is what the peer decodes from the bytes written.\<close>

theorem generate_packet_fits:
  assumes nm: "msg_lawful nm" and ok: "connection_ok nm cn" and plain: "\<not> feat_serialize_check feat"
    and recent: "\<forall>ch \<in> set (cn_channels cn). processor_recent s (ch_processor ch)"
    and budgets: "map cc_packet_budget (nc_channels (cn_config cn)) = map Some bs" "\<forall>b \<in> set bs. 4 \<le> b"
    and room: "16 + (\<Sum>b\<leftarrow>bs. 32 + 8 * b) < 8 * length packet"
  shows "\<exists>n buffer outs.
    connection_generate_packet feat nm cn s packet = Inr (n, buffer, cn\<lparr>cn_channels := map snd outs\<rparr>) \<and>
    connection_ok nm (cn\<lparr>cn_channels := map snd outs\<rparr>) \<and>
    list_all2 (channel_emits nm s) (cn_channels cn) outs \<and>
    n \<le> length packet \<and> length buffer = length packet \<and>
    (if with_messages outs = [] then n = 0 \<and> buffer = packet
     else connection_packet_deserialize feat nm (cn_config cn) (take n buffer) =
       Inr \<lparr>cp_channel_data = map (cpd_seen (cn_config cn)) (with_messages outs)\<rparr>)"
proof (rule generate_packet_total[OF nm ok plain recent _ room])
  have "length (nc_channels (cn_config cn)) = length bs" using arg_cong[OF budgets(1), of length] by simp
  then show "list_all2 (uses_at_most nm) (nc_channels (cn_config cn)) bs"
    using budgets by (auto simp: list_all2_conv_all_nth list_eq_iff_nth_eq intro!: uses_budget)
qed

text \<open>C19: whatever a packet was generated under: when \<open>generate_packet\<close> returns bytes, a peer with
  the same configuration decodes from them exactly what the channels gave, and goes on to
  deliver it.\<close>

theorem packet_reaches_peer:
  assumes nm: "msg_lawful nm" and gen: "connection_generate_packet feat nm cn s packet = Inr (n, buffer, cn')"
    and some: "0 < n" and peer: "cn_config peer = cn_config cn" "cn_error_level peer = ConnectionNone"
  shows "\<exists>ds. connection_collect feat nm s (cn_channels cn) (8 * length packet - 16) = Inr (ds, cn_channels cn') \<and>
    n = 2 + packet_wire_size feat nm (cn_config cn) ds \<and> n \<le> length packet \<and>
    connection_process_packet feat nm peer s' (take n buffer) =
      connection_deliver peer (map (cpd_seen (cn_config cn)) ds) s'"
proof -
  obtain ds chs where ds: "connection_collect feat nm s (cn_channels cn) (8 * length packet - 16) = Inr (ds, chs)"
    and ser: "connection_packet_serialize feat nm \<lparr>cp_channel_data = ds\<rparr> (cn_config cn) packet = Inr (n, buffer)"
    and cn': "cn' = cn\<lparr>cn_channels := chs\<rparr>"
    using gen some by (auto simp: connection_generate_packet_def rbind_eq_Inr checked_sub_eq_Inr header_bits
        mult.commute Let_def split: if_splits)
  note reads = packet_serialize_reads_back[OF nm ser]
  have "connection_packet_deserialize feat nm (cn_config cn) (take n buffer) =
      Inr \<lparr>cp_channel_data = map (cpd_seen (cn_config cn)) ds\<rparr>" using reads(4)[of "[]"] by simp
  moreover have "take n buffer \<noteq> []" using some reads(2,3) by auto
  ultimately show ?thesis using ds cn' reads(1,2) peer by (simp add: connection_process_packet_def)
qed


text \<open>The check values of the feature \<open>serialize_check\<close> are not accounted for: when they make
  the collected data larger than the packet, \<open>generate_packet\<close> panics although the bits fitted.\<close>

theorem generate_packet_check_panics:
  assumes nm: "msg_lawful nm"
    and "connection_collect feat nm s (cn_channels cn) (8 * length packet - 16) = Inr (ds, chs)"
    and "ds \<noteq> []" "length packet < 2 + packet_wire_size feat nm (cn_config cn) ds"
  shows "\<exists>p. connection_generate_packet feat nm cn s packet = Inl p"
proof (cases "connection_generate_packet feat nm cn s packet")
  case (Inr r)
  have "cn_channels cn \<noteq> []" using assms(2,3) by auto
  with Inr assms(2,3) obtain n buffer where
    "connection_packet_serialize feat nm \<lparr>cp_channel_data = ds\<rparr> (cn_config cn) packet = Inr (n, buffer)"
    by (auto simp: connection_generate_packet_def rbind_eq_Inr checked_sub_eq_Inr header_bits
        mult.commute Let_def split: if_splits)
  from packet_serialize_reads_back(1,2)[OF nm this] assms(4) show ?thesis by simp
qed simp

section \<open>The properties of process_packet\<close>

lemma channels_deliver_result:
  assumes "connection_ok nm cn" "connection_deliver cn ds s = Inr (r, cn')"
  shows "connection_ok nm cn'" "cn_config cn' = cn_config cn" "cn_error_level cn' = cn_error_level cn"
    "\<And>j. j \<notin> pd_channel_index ` set ds \<Longrightarrow> cn_channels cn' ! j = cn_channels cn ! j"
    "map ch_error_level (cn_channels cn') = map ch_error_level (cn_channels cn)"
    "r \<longleftrightarrow> (\<forall>d \<in> set ds. pd_channel_index d < length (cn_channels cn) \<longrightarrow>
       ch_error_level (cn_channels cn ! pd_channel_index d) = ChannelNone)"
proof -
  have "connection_ok nm cn' \<and> cn_config cn' = cn_config cn \<and> cn_error_level cn' = cn_error_level cn \<and>
    (\<forall>j. j \<notin> pd_channel_index ` set ds \<longrightarrow> cn_channels cn' ! j = cn_channels cn ! j) \<and>
    map ch_error_level (cn_channels cn') = map ch_error_level (cn_channels cn) \<and>
    (r \<longleftrightarrow> (\<forall>d \<in> set ds. pd_channel_index d < length (cn_channels cn) \<longrightarrow>
       ch_error_level (cn_channels cn ! pd_channel_index d) = ChannelNone))"
    using assms
  proof (induction ds arbitrary: cn)
    case (Cons d ds)
    let ?i = "pd_channel_index d"
    show ?case
    proof (cases "length (cn_channels cn) < ?i")
      case True
      with Cons.IH[OF Cons.prems(1)] Cons.prems(2) show ?thesis by auto
    next
      case False
      obtain ch where i: "?i < length (cn_channels cn)"
        and ch: "channel_process_packet_data (cn_channels cn ! ?i) d s = Inr ch"
        using Cons.prems(2) False by (auto simp: rbind_eq_Inr vec_index_eq_Inr Let_def split: if_splits)
      let ?cn = "cn\<lparr>cn_channels := (cn_channels cn)[?i := ch]\<rparr>"
      note D = channel_deliver_ok[OF connection_okD(4)[OF Cons.prems(1) i] ch]
      have ok: "connection_ok nm ?cn" by (rule connection_ok_update[OF Cons.prems(1) i D(1)])
      have lv: "map ch_error_level (cn_channels ?cn) = map ch_error_level (cn_channels cn)"
        using D(2) i by (simp add: map_update list_update_same_conv)
      have lv': "ch_error_level (cn_channels ?cn ! j) = ch_error_level (cn_channels cn ! j)" for j
        using D(2) i by (cases "j = ?i") simp_all
      show ?thesis
      proof (cases "ch_error_level ch = ChannelNone")
        case True
        then have "connection_deliver ?cn ds s = Inr (r, cn')"
          using Cons.prems(2) i ch by (simp add: Let_def)
        from Cons.IH[OF ok this] lv lv' i True D(2) show ?thesis by auto
      next
        case err: False
        then have "r = False" "cn' = ?cn" using Cons.prems(2) i ch by (auto simp: Let_def)
        with ok lv i err D(2) show ?thesis by auto
      qed
    qed
  qed auto
  then show "connection_ok nm cn'" "cn_config cn' = cn_config cn" "cn_error_level cn' = cn_error_level cn"
    "\<And>j. j \<notin> pd_channel_index ` set ds \<Longrightarrow> cn_channels cn' ! j = cn_channels cn ! j"
    "map ch_error_level (cn_channels cn') = map ch_error_level (cn_channels cn)"
    "r \<longleftrightarrow> (\<forall>d \<in> set ds. pd_channel_index d < length (cn_channels cn) \<longrightarrow>
       ch_error_level (cn_channels cn ! pd_channel_index d) = ChannelNone)" by blast+
qed


text \<open>A peer can bring the receiver down: a packet that names a channel the configuration does
  not have, or that ends early, panics, whatever else it holds; a connection in an error state
  answers false instead.\<close>

theorem process_packet_panics:
  assumes "length (nc_channels (cn_config cn)) \<le> unat i" "count \<noteq> 0"
  shows "connection_process_packet feat nm cn s (le_u16 count @ le_u16 i @ rest) =
      (if cn_error_level cn = ConnectionNone then Inl IndexOutOfBounds else Inr (False, cn)) \<and>
    connection_process_packet feat nm cn s [b] =
      (if cn_error_level cn = ConnectionNone then Inl UnwrapOnErr else Inr (False, cn))"
proof -
  obtain n where n: "unat count = Suc n" using assms(2) by (cases "unat count") (auto simp: unat_eq_0)
  have ne: "le_u16 count \<noteq> []" using length_le(1)[of count] by (cases "le_u16 count") simp_all
  have "cpd_deserialize feat nm (cn_config cn) (le_u16 i @ rest) = Inl (Panicked IndexOutOfBounds)"
    using assms(1) by (simp add: cpd_deserialize_def vec_index_def)
  then have "connection_packet_deserialize feat nm (cn_config cn) (le_u16 count @ le_u16 i @ rest) =
      Inl (Panicked IndexOutOfBounds)"
    by (simp add: connection_packet_deserialize_def n)
  moreover have "connection_packet_deserialize feat nm (cn_config cn) [b] = Inl (Panicked UnwrapOnErr)"
    by (simp add: connection_packet_deserialize_def read_u16_def read_bytes_def)
  ultimately show ?thesis using ne by (simp add: connection_process_packet_def)
qed

text \<open>The bound check of \<open>process_packet\<close> is off by one: an entry whose index is beyond the
  number of channels is skipped, one whose index equals it panics.\<close>

theorem deliver_bound_check:
  assumes "length (cn_channels cn) \<le> pd_channel_index d"
  shows "connection_deliver cn [d] s =
    (if pd_channel_index d = length (cn_channels cn) then Inl IndexOutOfBounds else Inr (True, cn))"
  using assms by (simp add: vec_index_def)

section \<open>Time and errors\<close>

lemma advance_channels_result:
  "connection_advance_channels chs t =
     (map (\<lambda>ch. channel_advance_time ch t) (takeWhile (\<lambda>ch. ch_error_level ch = ChannelNone) chs) @
      (case dropWhile (\<lambda>ch. ch_error_level ch = ChannelNone) chs of
         [] \<Rightarrow> [] | ch # rest \<Rightarrow> channel_advance_time ch t # rest),
      \<exists>ch \<in> set chs. ch_error_level ch \<noteq> ChannelNone)"
  by (induction chs) (auto simp: channel_advance_time_def split: list.splits)

text \<open>\<open>advance_time\<close> moves the clocks of the channels up to and including the first one in an
  error state and stops there: the channels after it keep their old time. The connection is in
  an error state from then on and refuses every packet, for all its channels, until \<open>reset\<close>.\<close>

theorem advance_time_stops:
  "let good = (\<lambda>ch. ch_error_level ch = ChannelNone); cn' = connection_advance_time cn t in
   cn_channels cn' = map (\<lambda>ch. channel_advance_time ch t) (takeWhile good (cn_channels cn)) @
     (case dropWhile good (cn_channels cn) of
        [] \<Rightarrow> [] | ch # later \<Rightarrow> channel_advance_time ch t # later) \<and>
   (if list_all good (cn_channels cn) then cn_error_level cn' = cn_error_level cn
    else cn_error_level cn' = ConnectionChannel \<and>
      connection_process_packet feat nm cn' s packet = Inr (False, cn'))"
  by (auto simp: connection_advance_time_def advance_channels_result connection_process_packet_def
      list_all_iff Let_def)

text \<open>\<open>reset\<close> brings a connection back: no error on it or on any channel, counters at zero,
  every channel accepts messages, and the invariant holds.\<close>

theorem connection_reset_recovers:
  assumes "connection_ok nm cn"
  shows "connection_ok nm (connection_reset cn) \<and> cn_error_level (connection_reset cn) = ConnectionNone \<and>
    (\<forall>i < length (cn_channels cn).
       ch_error_level (cn_channels (connection_reset cn) ! i) = ChannelNone \<and>
       connection_channel_counters (connection_reset cn) i = Inr \<lparr>ct_sent = 0, ct_received = 0\<rparr> \<and>
       connection_can_send_message (connection_reset cn) i = Inr True)"
proof -
  note R = channel_reset_ok[OF connection_okD(4)[OF assms]]
  have "channels_ok nm 0 (nc_channels (cn_config cn)) (map channel_reset (cn_channels cn))"
    using R(1) connection_okD(1)[OF assms] by (simp add: channels_ok_iff)
  moreover have "connection_config_ok (cn_config cn)" using assms by (simp add: connection_ok_def)
  ultimately show ?thesis
    using R by (auto simp: connection_reset_def connection_ok_def connection_channel_counters_def
        connection_can_send_message_def)
qed

section \<open>Witnesses\<close>

text \<open>Two channels, an unreliable and a reliable one, of the small configurations, with budgets of
  40 bytes each.\<close>

definition demo_connection_config :: connection_config where
  "demo_connection_config = \<lparr>nc_max_packet_size = 1024,
     nc_channels = [demo_unreliable_config\<lparr>cc_packet_budget := Some 40\<rparr>,
                    demo_reliable_config\<lparr>cc_packet_budget := Some 40\<rparr>]\<rparr>"

definition demo_connection :: "u64 connection" where
  "demo_connection = (case rbind (connection_new demo_connection_config (f64_of_int 0)) (\<lambda>cn.
       rbind (connection_send_message test_message cn 0 7) (\<lambda>cn.
       connection_send_message test_message cn 1 8)) of
     Inr cn \<Rightarrow> cn | Inl _ \<Rightarrow> \<lparr>cn_config = demo_connection_config, cn_channels = [], cn_error_level = ReadPacketFailed\<rparr>)"

definition plain_features :: features where
  "plain_features = \<lparr>feat_serialize_check = False, feat_soak_debugging_asserts = False\<rparr>"

lemma demo_connection_config_ok: "connection_config_ok demo_connection_config"
proof -
  have "(4 :: nat) dvd 65536" by simp
  then show ?thesis
    by (simp add: connection_config_ok_def demo_connection_config_def channel_config_ok_def reliable_config_ok_def
        demo_unreliable_config_def demo_reliable_config_def channel_config_new_def)
qed

lemma send_message_ok:
  assumes "connection_ok nm cn" "i < length (cn_channels cn)" "msg_measurable nm m"
  obtains cn' where "connection_send_message nm cn i m = Inr cn'" "connection_ok nm cn'"
    "length (cn_channels cn') = length (cn_channels cn)"
proof -
  note ch = connection_okD(4)[OF assms(1,2)]
  obtain room ch' where "channel_can_send_message (cn_channels cn ! i) = Inr room"
    using channel_can_send_total[OF ch] by blast
  moreover have "\<exists>ch'. channel_send_message nm (cn_channels cn ! i) m = Inr ch' \<and>
      channel_ok nm (nc_channels (cn_config cn) ! i) i ch'"
    using ch assms(3) prc.send_ok[of nm "nc_channels (cn_config cn) ! i" "ch_processor (cn_channels cn ! i)" m] calculation
    by (cases room) (auto simp: channel_send_message_def channel_ok_def channel_can_send_message_def
        channel_set_error_level_def)
  ultimately show ?thesis
    using that connection_ok_update[OF assms(1,2)] assms(2) by (auto simp: connection_send_message_def)
qed

lemma demo_connection_ok:
  "connection_ok test_message demo_connection" "length (cn_channels demo_connection) = 2"
proof -
  obtain cn where cn: "connection_new demo_connection_config (f64_of_int 0) = Inr cn"
    "connection_ok test_message cn" "cn_config cn = demo_connection_config"
    by (rule connection_new_total[OF demo_connection_config_ok])
  have len: "length (cn_channels cn) = 2"
    using connection_okD(1)[OF cn(2)] cn(3) by (simp add: demo_connection_config_def)
  obtain cn1 where cn1: "connection_send_message test_message cn 0 7 = Inr cn1"
    "connection_ok test_message cn1" "length (cn_channels cn1) = 2"
    by (rule send_message_ok[OF cn(2) _ test_message_measurable, of 0 7]) (use len in auto)
  obtain cn2 where cn2: "connection_send_message test_message cn1 1 8 = Inr cn2"
    "connection_ok test_message cn2" "length (cn_channels cn2) = 2"
    by (rule send_message_ok[OF cn1(2) _ test_message_measurable, of 1 8]) (use cn1(3) in auto)
  have "demo_connection = cn2" using cn(1) cn1(1) cn2(1) by (simp add: demo_connection_def)
  with cn2 show "connection_ok test_message demo_connection" "length (cn_channels demo_connection) = 2" by simp_all
qed

lemma demo_connection_facts:
  "cn_config demo_connection = demo_connection_config"
  "list_all (\<lambda>ch. processor_recent 0 (ch_processor ch)) (cn_channels demo_connection)"
  "cn_error_level demo_connection = ConnectionNone"
  "map cc_packet_budget (nc_channels demo_connection_config) = map Some [40, 40]"
  by code_simp+

lemma demo_packet_run:
  "case connection_generate_packet plain_features test_message demo_connection 0 (replicate 100 0) of
     Inl _ \<Rightarrow> False | Inr (n, buffer, cn) \<Rightarrow> n = 28"
  by code_simp

lemma plain_features_simps [simp]:
  "\<not> feat_serialize_check plain_features" "\<not> feat_soak_debugging_asserts plain_features"
  by (simp_all add: plain_features_def)

theorem generate_packet_fits_witness:
  "\<exists>n buffer (outs :: (u64 channel_packet_data \<times> u64 channel) list). connection_generate_packet plain_features test_message demo_connection 0 (replicate 100 0) =
     Inr (n, buffer, demo_connection\<lparr>cn_channels := map snd outs\<rparr>) \<and> length buffer = 100"
proof -
  have recent: "\<forall>ch \<in> set (cn_channels demo_connection). processor_recent 0 (ch_processor ch)"
    using demo_connection_facts(2) by (simp add: list_all_iff)
  have budgets: "map cc_packet_budget (nc_channels (cn_config demo_connection)) = map Some [40, 40]"
    by (simp only: demo_connection_facts)
  have four: "\<forall>b \<in> set [40, 40 :: nat]. 4 \<le> b" by simp
  have "16 + (\<Sum>b\<leftarrow>[40, 40]. 32 + 8 * b) < 8 * length (replicate 100 (0 :: u8))" by simp
  from generate_packet_fits[OF test_message_lawful demo_connection_ok(1) plain_features_simps(1) recent budgets four this]
  show ?thesis by (simp only: length_replicate) blast
qed

theorem packet_reaches_peer_witness:
  "\<exists>ds n buffer cn'. connection_generate_packet plain_features test_message demo_connection 0 (replicate 100 0) =
     Inr (n, buffer, cn') \<and>
     connection_process_packet plain_features test_message demo_connection 0 (take n buffer) =
       connection_deliver demo_connection (map (cpd_seen demo_connection_config) ds) 0"
proof -
  obtain n buffer cn' where r: "connection_generate_packet plain_features test_message demo_connection 0
      (replicate 100 0) = Inr (n, buffer, cn')" "0 < n"
    using demo_packet_run by (auto split: sum.splits)
  show ?thesis
    using packet_reaches_peer[OF test_message_lawful r refl demo_connection_facts(3), of 0] r(1)
    by (auto simp: demo_connection_facts(1))
qed

text \<open>One unreliable channel without a budget and one message of eight bytes: fifteen bytes have
  room for the 96 bits of the message but not for the 32 of the channel header.\<close>

definition demo_single :: "u64 connection" where
  "demo_single = \<lparr>cn_config = \<lparr>nc_max_packet_size = 15, nc_channels = [demo_unreliable_config]\<rparr>,
     cn_channels = [demo_channel [1]], cn_error_level = ConnectionNone\<rparr>"



theorem process_packet_panics_witness:
  "connection_process_packet plain_features test_message demo_connection 0 (le_u16 1 @ le_u16 2 @ [1, 0]) =
     Inl IndexOutOfBounds"
  using process_packet_panics[of demo_connection 2 1 plain_features test_message 0 "[1, 0]" 0]
  by (simp add: demo_connection_facts demo_connection_config_def)

theorem deliver_bound_check_witness:
  "connection_deliver demo_connection [\<lparr>pd_channel_index = 2, pd_messages = []\<rparr>] 0 = Inl IndexOutOfBounds"
  using deliver_bound_check[of demo_connection "\<lparr>pd_channel_index = 2, pd_messages = []\<rparr>" 0]
  by (simp add: demo_connection_ok(2))

theorem connection_reset_recovers_witness:
  "connection_can_send_message (connection_reset demo_connection) 1 = Inr True"
  using connection_reset_recovers[OF demo_connection_ok(1)] demo_connection_ok(2) by simp

text \<open>The check values of the feature \<open>serialize_check\<close> are not part of the accounting either:
  two messages of eight bytes fit 26 bytes without them, and with them the same call panics.\<close>

definition demo_double :: "u64 connection" where
  "demo_double = \<lparr>cn_config = \<lparr>nc_max_packet_size = 27, nc_channels = [demo_unreliable_config]\<rparr>,
     cn_channels = [demo_channel [1, 2]], cn_error_level = ConnectionNone\<rparr>"

theorem generate_packet_check_panics_witness:
  "(\<exists>p. connection_generate_packet demo_features test_message demo_double 0 (replicate 27 0) = Inl p) \<and>
   (\<exists>r. connection_generate_packet plain_features test_message demo_double 0 (replicate 27 0) = Inr r)"
proof
  have run: "connection_collect demo_features test_message 0 (cn_channels demo_double)
      (8 * length (replicate 27 (0 :: u8)) - 16) =
      Inr ([\<lparr>pd_channel_index = 0, pd_messages = [(0, 1), (0, 2)]\<rparr>], [demo_channel []])"
    by code_simp
  have "packet_wire_size demo_features test_message (cn_config demo_double)
      [\<lparr>pd_channel_index = 0, pd_messages = [(0, 1), (0, 2)]\<rparr>] = 28" by code_simp
  then show "\<exists>p. connection_generate_packet demo_features test_message demo_double 0 (replicate 27 0) = Inl p"
    by (intro generate_packet_check_panics[OF test_message_lawful run]) simp_all
  have "case connection_generate_packet plain_features test_message demo_double 0 (replicate 27 0) of
      Inl _ \<Rightarrow> False | Inr r \<Rightarrow> True" by code_simp
  then show "\<exists>r. connection_generate_packet plain_features test_message demo_double 0 (replicate 27 0) = Inr r"
    by (auto split: sum.splits)
qed

end
