(* ===== verification/Connection_Channels.thy ===== *)
theory Connection_Channels
  imports Delivery Connection_Packets
begin

text \<open>
  What the operations of \<open>src/connection.rs\<close> do to each of the channels of a connection, and what
  that means for the links of \<open>Delivery\<close> the channel is an end of: in one direction it is the sender
  of a link, in the other the receiver of another.
\<close>

section \<open>A link whose ends also work in the other direction\<close>

text \<open>An end of a link may change as long as the half that belongs to the link does not.\<close>

lemma link_sender_frame:
  assumes inv: "link_inv nm l" and s: "sender_ok nm s" "outbox_of s = outbox_of (lk_sender l)"
  shows "link_inv nm (l\<lparr>lk_sender := s\<rparr>)" (is "link_inv nm ?l")
proof -
  have I: "sender_inv nm l" "receiver_inv l" "packets_inv l" "records_inv l"
    using inv by (auto simp: link_inv_def)
  have arr: "arrived ?l k = arrived l k" for k by (simp add: arrived_def)
  have "sender_inv nm ?l" by (rule sender_inv_frame[OF I(1)]) (simp_all add: s arr)
  moreover have "receiver_inv ?l" by (rule receiver_inv_frame[OF I(2)]) (use receiver_invD(1)[OF I(2)] in simp_all)
  moreover have "packets_inv ?l"
    by (rule packets_inv_frame[OF I(3)]) (use packets_invD(1)[OF I(3)] in \<open>simp_all add: arr\<close>)
  moreover have "records_inv ?l" by (rule records_inv_frame[OF I(4)]) (simp_all add: s)
  ultimately show ?thesis by (simp add: link_inv_def)
qed

lemma link_receiver_frame:
  assumes inv: "link_inv nm l" and r: "receiver_ok r" "inbox_of r = inbox_of (lk_receiver l)"
  shows "link_inv nm (l\<lparr>lk_receiver := r\<rparr>)" (is "link_inv nm ?l")
proof -
  have I: "sender_inv nm l" "receiver_inv l" "packets_inv l" "records_inv l"
    using inv by (auto simp: link_inv_def)
  have arr: "arrived ?l k = arrived l k" for k by (simp add: arrived_def r)
  have "sender_inv nm ?l" by (rule sender_inv_frame[OF I(1)]) (simp_all add: arr sender_invD(1)[OF I(1)])
  moreover have "receiver_inv ?l" by (rule receiver_inv_frame[OF I(2)]) (simp_all add: r)
  moreover have "packets_inv ?l"
    by (rule packets_inv_frame[OF I(3)]) (use packets_invD(1)[OF I(3)] in \<open>simp_all add: arr\<close>)
  moreover have "records_inv ?l" by (rule records_inv_frame[OF I(4)]) simp_all
  ultimately show ?thesis by (simp add: link_inv_def)
qed

text \<open>A packet without messages for the channel is delivered by doing nothing; and a delivery that
  is not answered need not be remembered.\<close>

lemma link_deliver_empty:
  assumes inv: "link_inv nm l" and n: "n < length (lk_packets l)" "pd_messages (fst (lk_packets l ! n)) = []"
  shows "link_inv nm (l\<lparr>lk_delivered := insert n (lk_delivered l)\<rparr>)" (is "link_inv nm ?l")
proof -
  have I: "sender_inv nm l" "receiver_inv l" "packets_inv l" "records_inv l"
    using inv by (auto simp: link_inv_def)
  have arr: "arrived ?l k = arrived l k" for k by (simp add: arrived_def)
  have "sender_inv nm ?l" by (rule sender_inv_frame[OF I(1)]) (simp_all add: sender_invD(1)[OF I(1)] arr)
  moreover have "receiver_inv ?l" by (rule receiver_inv_frame[OF I(2)]) (simp_all add: receiver_invD(1)[OF I(2)])
  moreover have "packets_inv ?l" using I(3) n by (auto simp: packets_inv_def arr)
  moreover have "records_inv ?l" by (rule records_inv_frame[OF I(4)]) simp_all
  ultimately show ?thesis by (simp add: link_inv_def)
qed

lemma link_forget_delivery:
  assumes inv: "link_inv nm (l\<lparr>lk_delivered := D\<rparr>)" and sub: "lk_acked l \<subseteq> D'" "D' \<subseteq> D"
  shows "link_inv nm (l\<lparr>lk_delivered := D'\<rparr>)" (is "link_inv nm ?l")
proof -
  let ?old = "l\<lparr>lk_delivered := D\<rparr>"
  have I: "sender_inv nm ?old" "receiver_inv ?old" "packets_inv ?old" "records_inv ?old"
    using inv by (auto simp: link_inv_def)
  have arr: "arrived (l\<lparr>lk_delivered := X\<rparr>) k = arrived l k" for k X by (simp add: arrived_def)
  have ok: "sender_ok nm (lk_sender l)" "receiver_ok (lk_receiver l)"
    using sender_invD(1)[OF I(1)] receiver_invD(1)[OF I(2)] by simp_all
  have "sender_inv nm ?l" by (rule sender_inv_frame[OF I(1)]) (simp_all add: arr ok)
  moreover have "receiver_inv ?l"
    by (rule receiver_inv_frame[OF I(2)]) (simp_all add: ok)
  moreover have "packets_inv ?l"
  proof (rule packets_invI)
    note P = packets_invD[OF I(3), simplified]
    show "lk_acked ?l \<subseteq> lk_delivered ?l" using sub(1) by simp
    show "n < length (lk_packets ?l)" if "n \<in> lk_delivered ?l" for n using P(2)[of n] that sub(2) by auto
    show "snd (lk_packets ?l ! n) \<le> length (lk_sent ?l)" if "n < length (lk_packets ?l)" for n
      using P(3)[of n] that by simp
    show "\<exists>k. carries (lk_sent ?l) (snd (lk_packets ?l ! n)) k x"
      if "n < length (lk_packets ?l)" "x \<in> set (pd_messages (fst (lk_packets ?l ! n)))" for n x
      using P(4)[of n x] that by simp
    show "arrived ?l k" if "n \<in> lk_delivered ?l" "x \<in> set (pd_messages (fst (lk_packets ?l ! n)))"
      "carries (lk_sent ?l) (snd (lk_packets ?l ! n)) k x" for n x k
      using P(5)[of n x k] that sub(2) by (auto simp: arr)
  qed
  moreover have "records_inv ?l" by (rule records_inv_frame[OF I(4)]) simp_all
  ultimately show ?thesis by (simp add: link_inv_def)
qed

text \<open>What each operation leaves alone.\<close>

lemma receiver_view_sender_update [simp]:
  "outbox_of (rl\<lparr>rl_message_receive_queue := q\<rparr>) = outbox_of rl"
  "outbox_of (rl\<lparr>rl_message_receive_queue := q, rl_receive_message_id := i\<rparr>) = outbox_of rl"
  by (simp_all add: outbox_of_def)

lemma deliver_keeps_outbox:
  assumes "reliable_ok nm config rl" "reliable_process_packet_data rl pd s = Inr rl'"
  shows "sender_ok nm rl'" "outbox_of rl' = outbox_of rl"
proof -
  have r: "receiver_ok rl" "sender_ok nm rl" using assms(1) by (simp_all add: reliable_ok_def)
  have "inbox_verdict (inbox_of rl) (fst x) \<noteq> TooNew" if "x \<in> set (pd_messages pd)" for x
    using rlr.deliver_result(3)[OF r(1) assms(2)] that by blast
  then obtain q where "reliable_process_packet_data rl pd s = Inr (rl\<lparr>rl_message_receive_queue := q\<rparr>)"
    by (rule process_packet_data_accepts[OF r(1)])
  with assms(2) r show "sender_ok nm rl'" "outbox_of rl' = outbox_of rl" by auto
qed

lemma receive_keeps_outbox:
  assumes "reliable_ok nm config rl" "reliable_receive_message rl = Inr (x, rl')"
  shows "sender_ok nm rl'" "outbox_of rl' = outbox_of rl"
proof -
  have r: "receiver_ok rl" "sender_ok nm rl" using assms(1) by (simp_all add: reliable_ok_def)
  obtain q i where "rl' = rl\<lparr>rl_message_receive_queue := q, rl_receive_message_id := i\<rparr>"
    using receive_message_refines[OF r(1)] assms(2) by (metis Inr_inject snd_conv)
  with r show "sender_ok nm rl'" "outbox_of rl' = outbox_of rl" by simp_all
qed

lemma same_inbox: "same_receiver rl rl' \<Longrightarrow> receiver_ok rl' = receiver_ok rl \<and> inbox_of rl' = inbox_of rl"
  by (simp add: same_receiver_def receiver_ok_def inbox_of_def)

lemma send_keeps_inbox:
  assumes "reliable_send_message nm rl m = Inr rl'"
  shows "receiver_ok rl' = receiver_ok rl" "inbox_of rl' = inbox_of rl"
  using assms by (auto simp: reliable_send_message_def rbind_eq_Inr receiver_ok_def inbox_of_def split: if_splits)

lemma emit_keeps_inbox:
  assumes "reliable_ok nm config rl" "reliable_recent s rl" "32 \<le> channel_budget config available"
    and "reliable_packet_data rl i s available = Inr (pd, bits, rl')"
  shows "receiver_ok rl'" "inbox_of rl' = inbox_of rl"
proof -
  have ok: "sender_ok nm rl" "32 \<le> channel_budget (rl_config rl) available" "receiver_ok rl"
    "sequence_greater_than (s + 1) (ob_packet_next (outbox_of rl))"
    using assms(1-3) by (simp_all add: reliable_ok_def reliable_recent_def outbox_of_def)
  show "receiver_ok rl'" "inbox_of rl' = inbox_of rl"
    using packet_data_result[OF ok(1,2,4), of i] assms(4) same_inbox ok(3) by (metis Inr_inject prod.inject)+
qed

lemma ack_keeps_inbox:
  assumes "reliable_ok nm config rl" "reliable_process_ack rl a = Inr rl'"
  shows "receiver_ok rl'" "inbox_of rl' = inbox_of rl"
proof -
  show "receiver_ok rl'" using reliable_ack_ok[OF assms] by (simp add: reliable_ok_def)
  have s: "sender_ok nm rl" using assms(1) by (simp add: reliable_ok_def)
  have "rl' = rl \<or> (\<exists>sp q old. rl' = rl\<lparr>rl_sent_packets := sp, rl_message_send_queue := q, rl_oldest_unacked_message_id := old\<rparr>)"
  proof (cases "ob_packets (outbox_of rl) a")
    case None
    with process_ack_unknown(1)[OF s] assms(2) show ?thesis by simp
  next
    case (Some p)
    obtain acked ids where p: "p = (acked, ids)" by (cases p)
    show ?thesis
    proof (cases acked)
      case True
      with process_ack_unknown(2)[OF s] Some p assms(2) show ?thesis by simp
    next
      case False
      with Some p have "ob_packets (outbox_of rl) a = Some (False, ids)" by simp
      from process_ack_result[OF s this] assms(2) show ?thesis by (metis Inr_inject)
    qed
  qed
  then show "inbox_of rl' = inbox_of rl" by (auto simp: inbox_of_def)
qed

section \<open>What the operations of a connection do to its channels\<close>

definition reliable_channel :: "connection_config \<Rightarrow> nat \<Rightarrow> bool" where
  "reliable_channel config i \<longleftrightarrow> i < length (nc_channels config) \<and> cc_kind (nc_channels config ! i) = ReliableOrdered"

definition reliable_of :: "'m connection \<Rightarrow> nat \<Rightarrow> 'm reliable" where
  "reliable_of cn i = (case ch_processor (cn_channels cn ! i) of ReliableProcessor rl \<Rightarrow> rl | UnreliableProcessor _ \<Rightarrow> undefined)"

lemma reliable_ofD:
  assumes "connection_ok nm cn" "reliable_channel (cn_config cn) i"
  shows "i < length (cn_channels cn)" "ch_processor (cn_channels cn ! i) = ReliableProcessor (reliable_of cn i)"
    "reliable_ok nm (nc_channels (cn_config cn) ! i) (reliable_of cn i)"
proof -
  show i: "i < length (cn_channels cn)" using assms connection_okD(1)[OF assms(1)] by (simp add: reliable_channel_def)
  have ok: "processor_ok nm (nc_channels (cn_config cn) ! i) (ch_processor (cn_channels cn ! i))"
    using connection_okD(4)[OF assms(1) i] by (simp add: channel_ok_def)
  then show p: "ch_processor (cn_channels cn ! i) = ReliableProcessor (reliable_of cn i)"
    using assms(2) by (cases "ch_processor (cn_channels cn ! i)") (auto simp: reliable_of_def reliable_channel_def unreliable_inv_def)
  show "reliable_ok nm (nc_channels (cn_config cn) ! i) (reliable_of cn i)" using ok by (simp add: p)
qed

text \<open>\<open>packet_data\<close> on any channel, whatever room it is offered: with too little room a reliable
  channel that has something to send panics.\<close>

lemma reliable_packet_data_cases:
  assumes "reliable_ok nm config rl" "reliable_packet_data rl i s available = Inr (pd, bits, rl')"
  shows "32 \<le> channel_budget config available \<or> pd = cpd_empty \<and> bits = 0 \<and> rl' = rl"
proof (cases "32 \<le> channel_budget config available")
  case False
  have ok: "sender_ok nm rl" "rl_config rl = config" "0 < sb_capacity (rl_message_receive_queue rl)"
    using assms(1) sb_windowD(3) by (force simp: reliable_ok_def receiver_ok_def receive_queue_ok_def)+
  have "\<not> reliable_has_messages_to_send rl"
    using packet_data_overflows[OF ok(1) _ _ ok(3), of available i s] False ok(2) assms(2) by auto
  then show ?thesis using silent_packet_data[of rl i s available] assms(2) by simp
qed simp

lemma channel_packet_data_packed:
  assumes ok: "channel_ok nm config i ch" and recent: "processor_recent s (ch_processor ch)"
    and r: "channel_packet_data nm ch s available = Inr (pd, bits, ch')"
  shows "channel_ok nm config i ch'" "packed nm config i available pd bits"
proof -
  have "channel_ok nm config i ch' \<and> packed nm config i available pd bits"
  proof (cases "ch_processor ch")
    case (ReliableProcessor rl)
    then obtain rl' where rl': "reliable_packet_data rl i s available = Inr (pd, bits, rl')"
      and ch': "ch' = ch\<lparr>ch_processor := ReliableProcessor rl'\<rparr>"
      using r ok by (auto simp: channel_packet_data_def channel_ok_def rbind_eq_Inr)
    have rl: "reliable_ok nm config rl" using ok ReliableProcessor by (simp add: channel_ok_def)
    from reliable_packet_data_cases[OF rl rl']
    show ?thesis
    proof
      assume "32 \<le> channel_budget config available"
      then show ?thesis using channel_emit_ok[OF ok recent] r by (metis Inr_inject prod.inject)
    next
      assume "pd = cpd_empty \<and> bits = 0 \<and> rl' = rl"
      then show ?thesis using ok ReliableProcessor by (simp add: ch' channel_ok_def packed_def cpd_empty_def)
    qed
  next
    case (UnreliableProcessor ur)
    then obtain ur' where ur': "unreliable_packet_data nm ur config i s available = Inr (pd, bits, ur')"
      and ch': "ch' = ch\<lparr>ch_processor := UnreliableProcessor ur'\<rparr>"
      using r ok by (auto simp: channel_packet_data_def channel_ok_def rbind_eq_Inr)
    have ur: "unreliable_inv nm config ur" using ok UnreliableProcessor by (simp add: channel_ok_def)
    obtain pd2 bits2 ur2 where "unreliable_packet_data nm ur config i s available = Inr (pd2, bits2, ur2)"
      "unreliable_inv nm config ur2" "packed nm config i available pd2 bits2"
      by (rule unreliable_emit_ok[OF ur, of i s available])
    with ur' ok show ?thesis by (simp add: ch' channel_ok_def)
  qed
  then show "channel_ok nm config i ch'" "packed nm config i available pd bits" by blast+
qed

text \<open>The rounds of \<open>generate_packet\<close>, and the entries of the packet.\<close>

lemma collect_rounds:
  assumes "connection_collect feat nm s chs available = Inr (ds, chs')"
  obtains outs where "length outs = length chs"
    "\<And>j. j < length chs \<Longrightarrow> \<exists>left. channel_packet_data nm (chs ! j) s left = Inr (outs ! j)"
    "ds = map fst (filter (\<lambda>(pd, bits, ch). 0 < bits) outs)" "chs' = map (snd \<circ> snd) outs"
  using assms
proof (induction chs arbitrary: available ds chs' thesis)
  case (Cons ch chs)
  obtain pd bits ch1 where one: "channel_packet_data nm ch s available = Inr (pd, bits, ch1)"
    using Cons.prems(2) by (auto simp: rbind_eq_Inr)
  obtain left ds1 chs1 where rest: "connection_collect feat nm s chs left = Inr (ds1, chs1)"
    and ds: "ds = (if 0 < bits then pd # ds1 else ds1)" "chs' = ch1 # chs1"
    using Cons.prems(2) one by (cases "0 < bits") (auto simp: rbind_eq_Inr split: if_splits)
  obtain outs where outs: "length outs = length chs"
    "\<And>j. j < length chs \<Longrightarrow> \<exists>left. channel_packet_data nm (chs ! j) s left = Inr (outs ! j)"
    "ds1 = map fst (filter (\<lambda>(pd, bits, ch). 0 < bits) outs)" "chs1 = map (snd \<circ> snd) outs"
    using Cons.IH[OF _ rest] by blast
  show ?case
  proof (rule Cons.prems(1))
    show "\<exists>left. channel_packet_data nm ((ch # chs) ! j) s left = Inr (((pd, bits, ch1) # outs) ! j)"
      if "j < length (ch # chs)" for j
      using one outs(2) that by (cases j) auto
  qed (use outs ds in simp_all)
qed simp

definition entry_of :: "nat \<Rightarrow> 'm channel_packet_data list \<Rightarrow> 'm channel_packet_data" where
  "entry_of i ds = (case find (\<lambda>d. pd_channel_index d = i) ds of None \<Rightarrow> cpd_empty | Some d \<Rightarrow> d)"

lemma entry_of_unique:
  assumes "distinct (map pd_channel_index ds)" "d \<in> set ds" "pd_channel_index d = i"
  shows "entry_of i ds = d"
  using assms by (induction ds) (auto simp: entry_of_def)

lemma entry_of_none: "i \<notin> pd_channel_index ` set ds \<Longrightarrow> entry_of i ds = cpd_empty"
  by (induction ds) (auto simp: entry_of_def)

text \<open>The entries of a collected packet: one for each channel that gave something, in order.\<close>

lemma collected_entries:
  assumes "length outs = n" "\<forall>j < n. \<exists>available. packed nm (c j) (k + j) available (fst (outs ! j)) (fst (snd (outs ! j)))"
    and "ds = map fst (filter (\<lambda>(pd, bits, ch). 0 < bits) outs)"
  shows "distinct (map pd_channel_index ds)" "pd_channel_index ` set ds \<subseteq> {k..<k + n}"
    "\<And>d. d \<in> set ds \<Longrightarrow> pd_messages d \<noteq> []"
    "\<And>j. j < n \<Longrightarrow> entry_of (k + j) ds = fst (outs ! j)"
proof -
  have "distinct (map pd_channel_index ds) \<and> pd_channel_index ` set ds \<subseteq> {k..<k + n} \<and>
    (\<forall>d \<in> set ds. pd_messages d \<noteq> []) \<and> (\<forall>j < n. entry_of (k + j) ds = fst (outs ! j))"
    using assms
  proof (induction outs arbitrary: n k c ds)
    case (Cons out outs)
    obtain pd bits ch where out: "out = (pd, bits, ch)" by (cases out)
    obtain m where n: "n = Suc m" "length outs = m" using Cons.prems(1) by (cases n) auto
    define ds1 where "ds1 = map fst (filter (\<lambda>(pd, bits, ch). 0 < bits) outs)"
    have ds: "ds = (if 0 < bits then pd # ds1 else ds1)" using Cons.prems(3) by (simp add: out ds1_def)
    obtain available where p0: "packed nm (c 0) k available pd bits"
      using Cons.prems(2)[rule_format, of 0] n by (auto simp: out)
    have pd: "0 < bits \<longleftrightarrow> pd_messages pd \<noteq> []" "pd_messages pd \<noteq> [] \<Longrightarrow> pd_channel_index pd = k"
      "pd_messages pd = [] \<Longrightarrow> pd = cpd_empty"
      using p0 packed_positive[OF p0] by (simp_all add: packed_def)
    have "\<forall>j < m. \<exists>available. packed nm (c (Suc j)) (Suc k + j) available (fst (outs ! j)) (fst (snd (outs ! j)))"
    proof (intro allI impI)
      fix j assume "j < m"
      with Cons.prems(2)[rule_format, of "Suc j"] n
      show "\<exists>available. packed nm (c (Suc j)) (Suc k + j) available (fst (outs ! j)) (fst (snd (outs ! j)))" by simp
    qed
    from Cons.IH[OF n(2) this ds1_def]
    have IH: "distinct (map pd_channel_index ds1)" "pd_channel_index ` set ds1 \<subseteq> {Suc k..<Suc k + m}"
      "\<forall>d \<in> set ds1. pd_messages d \<noteq> []" "\<forall>j < m. entry_of (Suc k + j) ds1 = fst (outs ! j)" by blast+
    have k: "k \<notin> pd_channel_index ` set ds1" using IH(2) by auto
    have "entry_of (k + j) ds = fst ((out # outs) ! j)" if "j < n" for j
    proof (cases j)
      case 0
      then show ?thesis
        using pd k entry_of_none[OF k] by (cases "0 < bits") (auto simp: ds out entry_of_def)
    next
      case (Suc i)
      then have "entry_of (k + j) ds1 = fst (outs ! i)" using IH(4) that n by simp
      then show ?thesis using Suc pd by (cases "0 < bits") (auto simp: ds entry_of_def)
    qed
    moreover have "distinct (map pd_channel_index ds)" "pd_channel_index ` set ds \<subseteq> {k..<k + n}"
      "\<forall>d \<in> set ds. pd_messages d \<noteq> []"
      using IH(1-3) k pd n by (auto simp: ds)
    ultimately show ?case by blast
  qed simp
  then show "distinct (map pd_channel_index ds)" "pd_channel_index ` set ds \<subseteq> {k..<k + n}"
    "\<And>d. d \<in> set ds \<Longrightarrow> pd_messages d \<noteq> []"
    "\<And>j. j < n \<Longrightarrow> entry_of (k + j) ds = fst (outs ! j)" by blast+
qed

text \<open>What the bytes of a packet say.\<close>

definition read_packet ::
  "features \<Rightarrow> ('m, 'e) network_message \<Rightarrow> connection_config \<Rightarrow> u8 list \<Rightarrow> 'm channel_packet_data list" where
  "read_packet feat nm config bytes =
     (case connection_packet_deserialize feat nm config bytes of Inr packet \<Rightarrow> cp_channel_data packet | Inl _ \<Rightarrow> [])"

definition packet_readable ::
  "features \<Rightarrow> ('m, 'e) network_message \<Rightarrow> connection_config \<Rightarrow> u8 list \<Rightarrow> bool" where
  "packet_readable feat nm config bytes \<longleftrightarrow> bytes \<noteq> [] \<and>
     connection_packet_deserialize feat nm config bytes = Inr \<lparr>cp_channel_data = read_packet feat nm config bytes\<rparr> \<and>
     distinct (map pd_channel_index (read_packet feat nm config bytes)) \<and>
     pd_channel_index ` set (read_packet feat nm config bytes) \<subseteq> {..<length (nc_channels config)}"

lemma cpd_seen_index: "pd_messages d \<noteq> [] \<Longrightarrow> pd_channel_index (cpd_seen config d) = pd_channel_index d"
  by (simp add: cpd_seen_def split: channel_type.splits)

lemma cpd_seen_empty [simp]: "cpd_seen config cpd_empty = cpd_empty"
  by (simp add: cpd_seen_def cpd_empty_def)

lemma entry_of_seen:
  assumes "\<And>d. d \<in> set ds \<Longrightarrow> pd_messages d \<noteq> []"
  shows "entry_of i (map (cpd_seen config) ds) = cpd_seen config (entry_of i ds)"
  using assms by (induction ds) (auto simp: entry_of_def cpd_seen_index)

lemma generate_rounds:
  assumes nm: "msg_lawful nm" and ok: "connection_ok nm cn"
    and recent: "\<forall>ch \<in> set (cn_channels cn). processor_recent s (ch_processor ch)"
    and gen: "connection_generate_packet feat nm cn s packet = Inr (written, buffer, cn')"
  shows "connection_ok nm cn'" "cn_config cn' = cn_config cn"
    "0 < written \<Longrightarrow> packet_readable feat nm (cn_config cn) (take written buffer)"
    "j < length (cn_channels cn) \<Longrightarrow> \<exists>available pd bits.
       channel_packet_data nm (cn_channels cn ! j) s available = Inr (pd, bits, cn_channels cn' ! j) \<and>
       (if 0 < written then entry_of j (read_packet feat nm (cn_config cn) (take written buffer)) = cpd_seen (cn_config cn) pd
        else pd_messages pd = [])"
proof -
  let ?n = "length (cn_channels cn)" and ?config = "cn_config cn"
  obtain ds chs where col: "connection_collect feat nm s (cn_channels cn) (8 * length packet - 16) = Inr (ds, chs)"
    and cn': "cn' = cn\<lparr>cn_channels := chs\<rparr>"
    and ser: "if ds = [] then written = 0
      else connection_packet_serialize feat nm \<lparr>cp_channel_data = ds\<rparr> ?config packet = Inr (written, buffer)"
    using gen connection_okD(2)[OF ok]
    by (auto simp: connection_generate_packet_def rbind_eq_Inr checked_sub_eq_Inr header_bits
        mult.commute Let_def expect_eq_Inr split: if_splits)
  obtain outs where outs: "length outs = ?n"
    "\<And>j. j < ?n \<Longrightarrow> \<exists>left. channel_packet_data nm (cn_channels cn ! j) s left = Inr (outs ! j)"
    "ds = map fst (filter (\<lambda>(pd, bits, ch). 0 < bits) outs)" "chs = map (snd \<circ> snd) outs"
    using collect_rounds[OF col] by blast
  have round: "channel_ok nm (nc_channels ?config ! j) j (chs ! j) \<and>
      (\<exists>left. packed nm (nc_channels ?config ! j) j left (fst (outs ! j)) (fst (snd (outs ! j))) \<and>
         channel_packet_data nm (cn_channels cn ! j) s left = Inr (fst (outs ! j), fst (snd (outs ! j)), chs ! j))"
    if j: "j < ?n" for j
  proof -
    obtain left where left: "channel_packet_data nm (cn_channels cn ! j) s left = Inr (outs ! j)" using outs(2)[OF j] by blast
    obtain pd bits ch where out: "outs ! j = (pd, bits, ch)" by (cases "outs ! j")
    have "processor_recent s (ch_processor (cn_channels cn ! j))" using recent j by simp
    from channel_packet_data_packed[OF connection_okD(4)[OF ok j] this left[unfolded out]] left
    show ?thesis using out j outs(1,4) by auto
  qed
  have len: "?n = length (nc_channels ?config)" by (rule connection_okD(1)[OF ok])
  have "channels_ok nm 0 (nc_channels ?config) chs"
    using round outs(1,4) len by (simp add: channels_ok_iff)
  then show "connection_ok nm cn'" "cn_config cn' = ?config"
    using connection_ok_channels[OF ok] by (simp_all add: cn')
  have "\<forall>j < ?n. \<exists>left. packed nm (nc_channels ?config ! j) (0 + j) left (fst (outs ! j)) (fst (snd (outs ! j)))"
    using round by auto
  note E = collected_entries[OF outs(1) this outs(3)]
  have pos: "0 < written \<longleftrightarrow> ds \<noteq> []" 
  proof (cases "ds = []")
    case False
    then have "connection_packet_serialize feat nm \<lparr>cp_channel_data = ds\<rparr> ?config packet = Inr (written, buffer)"
      using ser by simp
    from packet_serialize_reads_back(1)[OF nm this] False show ?thesis by simp
  qed (use ser in simp)
  have read: "connection_packet_deserialize feat nm ?config (take written buffer) =
      Inr \<lparr>cp_channel_data = map (cpd_seen ?config) ds\<rparr>" "take written buffer \<noteq> []" if "0 < written"
  proof -
    have "connection_packet_serialize feat nm \<lparr>cp_channel_data = ds\<rparr> ?config packet = Inr (written, buffer)"
      using ser pos that by simp
    note R = packet_serialize_reads_back[OF nm this]
    show "connection_packet_deserialize feat nm ?config (take written buffer) =
      Inr \<lparr>cp_channel_data = map (cpd_seen ?config) ds\<rparr>" using R(4)[of "[]"] by simp
    show "take written buffer \<noteq> []" using R(2,3) that by auto
  qed
  have seen: "map pd_channel_index (map (cpd_seen ?config) ds) = map pd_channel_index ds"
    using E(3) by (auto simp: cpd_seen_index)
  have "distinct (map pd_channel_index (map (cpd_seen ?config) ds))" unfolding seen by (rule E(1))
  note seen = seen this
  show "packet_readable feat nm ?config (take written buffer)" if "0 < written"
  proof -
    have "pd_channel_index ` set (map (cpd_seen ?config) ds) = pd_channel_index ` set ds"
      using arg_cong[OF seen(1), of set] by (simp only: set_map)
    with read[OF that] seen E(1,2) len show ?thesis by (auto simp: packet_readable_def read_packet_def)
  qed
  show "\<exists>available pd bits.
       channel_packet_data nm (cn_channels cn ! j) s available = Inr (pd, bits, cn_channels cn' ! j) \<and>
       (if 0 < written then entry_of j (read_packet feat nm ?config (take written buffer)) = cpd_seen ?config pd
        else pd_messages pd = [])" if j: "j < ?n"
  proof -
    obtain left where left: "packed nm (nc_channels ?config ! j) j left (fst (outs ! j)) (fst (snd (outs ! j)))"
      "channel_packet_data nm (cn_channels cn ! j) s left = Inr (fst (outs ! j), fst (snd (outs ! j)), chs ! j)"
      using round[OF j] by blast
    have entry: "entry_of j ds = fst (outs ! j)" using E(4)[OF j] by simp
    have "if 0 < written then entry_of j (read_packet feat nm ?config (take written buffer)) = cpd_seen ?config (fst (outs ! j))
        else pd_messages (fst (outs ! j)) = []"
    proof (cases "0 < written")
      case True
      then have "read_packet feat nm ?config (take written buffer) = map (cpd_seen ?config) ds"
        using read(1) by (simp add: read_packet_def)
      with True entry entry_of_seen[OF E(3)] show ?thesis by simp
    next
      case False
      then have "ds = []" using pos by simp
      then have "fst (outs ! j) = cpd_empty" using entry by (simp add: entry_of_def)
      with False show ?thesis by (simp add: cpd_empty_def)
    qed
    with left(2) show ?thesis
      by (intro exI[of _ left] exI[of _ "fst (outs ! j)"] exI[of _ "fst (snd (outs ! j))"]) (simp add: cn')
  qed
qed

lemma deliver_rounds:
  assumes "distinct (map pd_channel_index ds)" "connection_deliver cn ds s = Inr (r, cn')"
    and "pd_channel_index ` set ds \<subseteq> {..<length (cn_channels cn)}"
  shows "length (cn_channels cn') = length (cn_channels cn)"
    "j < length (cn_channels cn) \<Longrightarrow> cn_channels cn' ! j = cn_channels cn ! j \<and> (r \<longrightarrow> j \<notin> pd_channel_index ` set ds) \<or>
       channel_process_packet_data (cn_channels cn ! j) (entry_of j ds) s = Inr (cn_channels cn' ! j) \<and>
       (r \<longrightarrow> ch_error_level (cn_channels cn ! j) = ChannelNone)"
proof -
  have "length (cn_channels cn') = length (cn_channels cn) \<and>
    (j \<notin> pd_channel_index ` set ds \<longrightarrow> cn_channels cn' ! j = cn_channels cn ! j) \<and>
    (j < length (cn_channels cn) \<longrightarrow> cn_channels cn' ! j = cn_channels cn ! j \<and> (r \<longrightarrow> j \<notin> pd_channel_index ` set ds) \<or>
       channel_process_packet_data (cn_channels cn ! j) (entry_of j ds) s = Inr (cn_channels cn' ! j) \<and>
       (r \<longrightarrow> ch_error_level (cn_channels cn ! j) = ChannelNone))"
    using assms
  proof (induction ds arbitrary: cn)
    case (Cons d ds)
    let ?i = "pd_channel_index d"
    have i: "?i < length (cn_channels cn)" using Cons.prems(3) by simp
    obtain ch where ch: "channel_process_packet_data (cn_channels cn ! ?i) d s = Inr ch"
      using Cons.prems(2) i by (auto simp: rbind_eq_Inr)
    let ?cn = "cn\<lparr>cn_channels := (cn_channels cn)[?i := ch]\<rparr>"
    have lv: "ch_error_level ch = ch_error_level (cn_channels cn ! ?i)"
      using ch by (auto simp: channel_process_packet_data_def rbind_eq_Inr split: if_splits)
    have other: "entry_of j (d # ds) = entry_of j ds" if "j \<noteq> ?i" using that by (simp add: entry_of_def)
    have self: "entry_of ?i (d # ds) = d" by (simp add: entry_of_def)
    show ?case
    proof (cases "ch_error_level ch = ChannelNone")
      case False
      then have "r = False" "cn' = ?cn" using Cons.prems(2) i ch by (auto simp: Let_def)
      with ch self show ?thesis by (cases "j = ?i") auto
    next
      case True
      then have rest: "connection_deliver ?cn ds s = Inr (r, cn')" using Cons.prems(2) i ch by (simp add: Let_def)
      have "?i \<notin> pd_channel_index ` set ds" using Cons.prems(1) by auto
      with Cons.IH[OF _ rest] Cons.prems(1,3) ch self other True lv
      show ?thesis
        by (cases "j = ?i") auto
    qed
  qed auto
  then show "length (cn_channels cn') = length (cn_channels cn)"
    "j < length (cn_channels cn) \<Longrightarrow> cn_channels cn' ! j = cn_channels cn ! j \<and> (r \<longrightarrow> j \<notin> pd_channel_index ` set ds) \<or>
       channel_process_packet_data (cn_channels cn ! j) (entry_of j ds) s = Inr (cn_channels cn' ! j) \<and>
       (r \<longrightarrow> ch_error_level (cn_channels cn ! j) = ChannelNone)" by blast+
qed

subsection \<open>The effect on a reliable channel\<close>

lemma reliable_of_eq: "ch_processor (cn_channels cn ! i) = ReliableProcessor rl \<Longrightarrow> reliable_of cn i = rl"
  by (simp add: reliable_of_def)

lemma reliable_ofE:
  assumes "connection_ok nm cn" "reliable_channel (cn_config cn) i"
  obtains rl where "i < length (cn_channels cn)" "ch_processor (cn_channels cn ! i) = ReliableProcessor rl"
    "reliable_of cn i = rl" "reliable_ok nm (nc_channels (cn_config cn) ! i) rl"
  using reliable_ofD[OF assms] by blast

lemma advance_channels_rounds:
  "length (fst (connection_advance_channels chs t)) = length chs \<and>
   (\<forall>j < length chs. fst (connection_advance_channels chs t) ! j \<in> {chs ! j, channel_advance_time (chs ! j) t})"
proof (induction chs)
  case (Cons ch chs)
  then show ?case
    by (auto simp: Let_def case_prod_unfold nth_Cons channel_advance_time_def split: nat.split)
qed simp

lemma advance_effect:
  assumes ok: "connection_ok nm cn" and i: "reliable_channel (cn_config cn) i"
  shows "reliable_of (connection_advance_time cn t) i \<in> {reliable_of cn i, reliable_advance_time (reliable_of cn i) t}"
proof -
  obtain rl where rl: "i < length (cn_channels cn)" "ch_processor (cn_channels cn ! i) = ReliableProcessor rl"
    "reliable_of cn i = rl" by (rule reliable_ofE[OF ok i])
  have "cn_channels (connection_advance_time cn t) ! i \<in> {cn_channels cn ! i, channel_advance_time (cn_channels cn ! i) t}"
    using advance_channels_rounds[of "cn_channels cn" t] rl(1)
    by (simp add: connection_advance_time_def case_prod_unfold Let_def)
  then have "reliable_of (connection_advance_time cn t) i \<in> {rl, reliable_advance_time rl t}"
    using rl(2) by (auto simp: channel_advance_time_def intro!: reliable_of_eq)
  with rl(3) show ?thesis by simp
qed

lemma connection_advance_ok:
  assumes "connection_ok nm cn"
  shows "connection_ok nm (connection_advance_time cn t)" "cn_config (connection_advance_time cn t) = cn_config cn"
proof -
  show "cn_config (connection_advance_time cn t) = cn_config cn"
    by (simp add: connection_advance_time_def case_prod_unfold Let_def)
  have "channel_ok nm (nc_channels (cn_config cn) ! j) j (fst (connection_advance_channels (cn_channels cn) t) ! j)"
    if "j < length (cn_channels cn)" for j
    using advance_channels_rounds[of "cn_channels cn" t] connection_okD(4)[OF assms that] channel_advance_ok that
    by force
  then show "connection_ok nm (connection_advance_time cn t)"
    using assms advance_channels_rounds[of "cn_channels cn" t] connection_okD(1)[OF assms]
    by (simp add: connection_ok_def channels_ok_iff connection_advance_time_def case_prod_unfold Let_def)
qed

lemma ack_rounds:
  "connection_ack_channels chs a = Inr chs' \<longleftrightarrow>
     length chs' = length chs \<and> (\<forall>j < length chs. channel_process_ack (chs ! j) a = Inr (chs' ! j))"
proof (induction chs arbitrary: chs')
  case (Cons ch chs)
  show ?case
  proof (cases chs')
    case (Cons ch1 chs1)
    have "(\<forall>j < Suc (length chs). channel_process_ack ((ch # chs) ! j) a = Inr ((ch1 # chs1) ! j)) \<longleftrightarrow>
        channel_process_ack ch a = Inr ch1 \<and> (\<forall>j < length chs. channel_process_ack (chs ! j) a = Inr (chs1 ! j))"
      by (auto simp: less_Suc_eq_0_disj)
    with Cons.IH[of chs1] Cons show ?thesis by (auto simp: rbind_eq_Inr)
  qed (auto simp: rbind_eq_Inr)
qed auto

text \<open>A method that replaces channel \<open>i\<close> only.\<close>

lemma reliable_of_update:
  assumes "i < length (cn_channels cn)"
  shows "reliable_of (cn\<lparr>cn_channels := (cn_channels cn)[i := ch]\<rparr>) j =
    (if j = i then (case ch_processor ch of ReliableProcessor rl \<Rightarrow> rl | UnreliableProcessor _ \<Rightarrow> undefined)
     else reliable_of cn j)"
  using assms by (simp add: reliable_of_def)

text \<open>Whether \<open>send_message\<close> takes the message, or drops it and leaves the channel in an error state.\<close>

definition connection_takes :: "'m connection \<Rightarrow> nat \<Rightarrow> bool" where
  "connection_takes cn i \<longleftrightarrow> ch_error_level (cn_channels cn ! i) = ChannelNone \<and>
     channel_can_send_message (cn_channels cn ! i) = Inr True"

lemma channel_sends_cases:
  assumes ok: "channel_ok nm config i ch" and m: "msg_measurable nm m" and r: "channel_send_message nm ch m = Inr ch'"
  shows "channel_ok nm config i ch'"
    "\<not> (ch_error_level ch = ChannelNone \<and> channel_can_send_message ch = Inr True) \<Longrightarrow> ch_processor ch' = ch_processor ch"
    "ch_error_level ch = ChannelNone \<Longrightarrow> channel_can_send_message ch = Inr True \<Longrightarrow>
       processor_send_message nm (ch_processor ch) m = Inr (ch_processor ch')"
proof -
  obtain room where room: "channel_can_send_message ch = Inr room" using channel_can_send_total[OF ok] by blast
  show "\<not> (ch_error_level ch = ChannelNone \<and> channel_can_send_message ch = Inr True) \<Longrightarrow> ch_processor ch' = ch_processor ch"
    using r room by (auto simp: channel_send_message_def channel_set_error_level_def split: if_splits)
  show send: "ch_error_level ch = ChannelNone \<Longrightarrow> channel_can_send_message ch = Inr True \<Longrightarrow>
      processor_send_message nm (ch_processor ch) m = Inr (ch_processor ch')"
    using r by (auto simp: channel_send_message_def rbind_eq_Inr)
  show "channel_ok nm config i ch'"
  proof (cases "ch_error_level ch = ChannelNone \<and> room")
    case True
    then have "processor_ok nm config (ch_processor ch')"
      using prc.send_ok[of nm config "ch_processor ch" m] ok m room send
      by (auto simp: channel_ok_def channel_can_send_message_def)
    with True r room ok show ?thesis by (auto simp: channel_send_message_def channel_ok_def rbind_eq_Inr)
  next
    case False
    with r room ok show ?thesis
      by (auto simp: channel_send_message_def channel_set_error_level_def channel_ok_def split: if_splits)
  qed
qed

lemma send_effect:
  assumes ok: "connection_ok nm cn" and m: "msg_measurable nm m"
    and r: "connection_send_message nm cn i m = Inr cn'"
  shows "connection_ok nm cn'" "cn_config cn' = cn_config cn"
    "reliable_channel (cn_config cn) j \<Longrightarrow> j \<noteq> i \<or> \<not> connection_takes cn i \<Longrightarrow> reliable_of cn' j = reliable_of cn j"
    "reliable_channel (cn_config cn) i \<Longrightarrow> connection_takes cn i \<Longrightarrow>
       reliable_can_send_message (reliable_of cn i) = Inr True \<and>
       reliable_send_message nm (reliable_of cn i) m = Inr (reliable_of cn' i)"
proof -
  obtain ch where i: "i < length (cn_channels cn)" and ch: "channel_send_message nm (cn_channels cn ! i) m = Inr ch"
    and cn': "cn' = cn\<lparr>cn_channels := (cn_channels cn)[i := ch]\<rparr>"
    using r by (auto simp: connection_send_message_def rbind_eq_Inr vec_index_eq_Inr)
  note sends = channel_sends_cases[OF connection_okD(4)[OF ok i] m ch]
  show "connection_ok nm cn'" "cn_config cn' = cn_config cn"
    using connection_ok_update[OF ok i sends(1)] by (simp_all add: cn')
  show "reliable_of cn' j = reliable_of cn j"
    if j: "reliable_channel (cn_config cn) j" and other: "j \<noteq> i \<or> \<not> connection_takes cn i"
  proof -
    obtain rl where rl: "ch_processor (cn_channels cn ! j) = ReliableProcessor rl" "reliable_of cn j = rl"
      by (rule reliable_ofE[OF ok j])
    with other sends(2) i show ?thesis
      by (cases "j = i") (simp_all add: cn' reliable_of_update connection_takes_def)
  qed
  show "reliable_can_send_message (reliable_of cn i) = Inr True \<and>
       reliable_send_message nm (reliable_of cn i) m = Inr (reliable_of cn' i)"
    if j: "reliable_channel (cn_config cn) i" and takes: "connection_takes cn i"
  proof -
    obtain rl where rl: "ch_processor (cn_channels cn ! i) = ReliableProcessor rl" "reliable_of cn i = rl"
      by (rule reliable_ofE[OF ok j])
    with takes sends(3) i show ?thesis
      by (auto simp: cn' reliable_of_update connection_takes_def channel_can_send_message_def rbind_eq_Inr
          dest!: sym[where t = "ch_processor ch"])
  qed
qed

lemma receive_effect:
  assumes ok: "connection_ok nm cn" and r: "connection_receive_message cn i = Inr (x, cn')"
  shows "connection_ok nm cn'" "cn_config cn' = cn_config cn"
    "reliable_channel (cn_config cn) j \<Longrightarrow> j \<noteq> i \<Longrightarrow> reliable_of cn' j = reliable_of cn j"
    "reliable_channel (cn_config cn) i \<Longrightarrow>
       x = None \<and> reliable_of cn' i = reliable_of cn i \<or> reliable_receive_message (reliable_of cn i) = Inr (x, reliable_of cn' i)"
proof -
  obtain ch where i: "i < length (cn_channels cn)" and ch: "channel_receive_message (cn_channels cn ! i) = Inr (x, ch)"
    and cn': "cn' = cn\<lparr>cn_channels := (cn_channels cn)[i := ch]\<rparr>"
    using r by (auto simp: connection_receive_message_def rbind_eq_Inr vec_index_eq_Inr)
  have p: "ch_config ch = ch_config (cn_channels cn ! i) \<and> ch_channel_index ch = ch_channel_index (cn_channels cn ! i) \<and>
      (x = None \<and> ch = cn_channels cn ! i \<or>
       processor_receive_message (ch_processor (cn_channels cn ! i)) = Inr (x, ch_processor ch))"
    using ch by (auto simp: channel_receive_message_def rbind_eq_Inr split: if_splits option.splits)
  have "channel_ok nm (nc_channels (cn_config cn) ! i) i ch"
    using p prc.receive_ok[of nm "nc_channels (cn_config cn) ! i" "ch_processor (cn_channels cn ! i)"] connection_okD(4)[OF ok i]
    by (auto simp: channel_ok_def)
  then show "connection_ok nm cn'" "cn_config cn' = cn_config cn"
    using connection_ok_update[OF ok i] by (simp_all add: cn')
  show "reliable_of cn' j = reliable_of cn j" if "j \<noteq> i"
    using that i by (simp add: cn' reliable_of_update)
  show "x = None \<and> reliable_of cn' i = reliable_of cn i \<or> reliable_receive_message (reliable_of cn i) = Inr (x, reliable_of cn' i)"
    if j: "reliable_channel (cn_config cn) i"
  proof -
    obtain rl where rl: "ch_processor (cn_channels cn ! i) = ReliableProcessor rl" "reliable_of cn i = rl"
      by (rule reliable_ofE[OF ok j])
    with p i show ?thesis
      by (auto simp: cn' reliable_of_update rbind_eq_Inr dest!: sym[where t = "ch_processor ch"])
  qed
qed

text \<open>One acknowledgement, and one packet.\<close>

lemma ack_effect:
  assumes ok: "connection_ok nm cn" and r: "connection_process_acks cn [a] = Inr cn'"
  shows "connection_ok nm cn'" "cn_config cn' = cn_config cn"
    "reliable_channel (cn_config cn) j \<Longrightarrow> reliable_process_ack (reliable_of cn j) a = Inr (reliable_of cn' j)"
proof -
  obtain chs where chs: "connection_ack_channels (cn_channels cn) a = Inr chs" and cn': "cn' = cn\<lparr>cn_channels := chs\<rparr>"
    using r by (auto simp: connection_process_acks_def rbind_eq_Inr)
  have len: "length chs = length (cn_channels cn)"
    and one: "\<And>j. j < length (cn_channels cn) \<Longrightarrow> channel_process_ack (cn_channels cn ! j) a = Inr (chs ! j)"
    using chs by (simp_all add: ack_rounds)
  have "channels_ok nm 0 (nc_channels (cn_config cn)) chs"
    using channel_ack_ok(1)[OF connection_okD(4)[OF ok] one] len connection_okD(1)[OF ok]
    by (simp add: channels_ok_iff)
  then show "connection_ok nm cn'" "cn_config cn' = cn_config cn"
    using connection_ok_channels[OF ok] by (simp_all add: cn')
  show "reliable_process_ack (reliable_of cn j) a = Inr (reliable_of cn' j)" if k: "reliable_channel (cn_config cn) j"
  proof -
    obtain rl where rl: "j < length (cn_channels cn)" "ch_processor (cn_channels cn ! j) = ReliableProcessor rl"
      "reliable_of cn j = rl" by (rule reliable_ofE[OF ok k])
    with one[OF rl(1)] show ?thesis
      by (auto simp: cn' channel_process_ack_def rbind_eq_Inr
          dest!: sym[where t = "chs ! j"] intro!: reliable_of_eq[symmetric])
  qed
qed

lemma process_effect:
  assumes ok: "connection_ok nm cn" and bytes: "packet_readable feat nm (cn_config cn) bytes"
    and r: "connection_process_packet feat nm cn s bytes = Inr (answer, cn')"
  shows "connection_ok nm cn'" "cn_config cn' = cn_config cn"
    "reliable_channel (cn_config cn) j \<Longrightarrow>
       reliable_of cn' j = reliable_of cn j \<and>
         (answer \<longrightarrow> pd_messages (entry_of j (read_packet feat nm (cn_config cn) bytes)) = []) \<or>
       reliable_process_packet_data (reliable_of cn j) (entry_of j (read_packet feat nm (cn_config cn) bytes)) s =
         Inr (reliable_of cn' j)"
proof -
  let ?ds = "read_packet feat nm (cn_config cn) bytes"
  have all: "connection_ok nm cn' \<and> cn_config cn' = cn_config cn \<and> (reliable_channel (cn_config cn) j \<longrightarrow>
       reliable_of cn' j = reliable_of cn j \<and> (answer \<longrightarrow> pd_messages (entry_of j ?ds) = []) \<or>
       reliable_process_packet_data (reliable_of cn j) (entry_of j ?ds) s = Inr (reliable_of cn' j))"
  proof (cases "cn_error_level cn = ConnectionNone")
    case True
    then have d: "connection_deliver cn ?ds s = Inr (answer, cn')"
      using r bytes by (auto simp: connection_process_packet_def packet_readable_def)
    have idx: "distinct (map pd_channel_index ?ds)" "pd_channel_index ` set ?ds \<subseteq> {..<length (cn_channels cn)}"
      using bytes connection_okD(1)[OF ok] by (simp_all add: packet_readable_def)
    note D = deliver_rounds[OF idx(1) d idx(2)]
    show ?thesis
    proof (intro conjI impI)
      assume j: "reliable_channel (cn_config cn) j"
      obtain rl where J: "j < length (cn_channels cn)" "ch_processor (cn_channels cn ! j) = ReliableProcessor rl"
        "reliable_of cn j = rl" by (rule reliable_ofE[OF ok j])
      from D(2)[OF J(1)]
      show "reliable_of cn' j = reliable_of cn j \<and> (answer \<longrightarrow> pd_messages (entry_of j ?ds) = []) \<or>
          reliable_process_packet_data (reliable_of cn j) (entry_of j ?ds) s = Inr (reliable_of cn' j)"
      proof
        assume "cn_channels cn' ! j = cn_channels cn ! j \<and> (answer \<longrightarrow> j \<notin> pd_channel_index ` set ?ds)"
        then show ?thesis using entry_of_none[of j ?ds] J(2,3) reliable_of_eq[of cn' j rl] by (auto simp: cpd_empty_def)
      next
        assume "channel_process_packet_data (cn_channels cn ! j) (entry_of j ?ds) s = Inr (cn_channels cn' ! j) \<and>
          (answer \<longrightarrow> ch_error_level (cn_channels cn ! j) = ChannelNone)"
        then show ?thesis using J(2,3) reliable_of_eq[of cn' j]
          by (cases "ch_error_level (cn_channels cn ! j) = ChannelNone")
            (auto simp: channel_process_packet_data_def rbind_eq_Inr dest!: sym[where t = "cn_channels cn' ! j"])
      qed
    qed (use channels_deliver_result(1,2)[OF ok d] in simp_all)
  next
    case False
    then show ?thesis using r ok by (simp add: connection_process_packet_def)
  qed
  then show "connection_ok nm cn'" "cn_config cn' = cn_config cn"
    "reliable_channel (cn_config cn) j \<Longrightarrow> reliable_of cn' j = reliable_of cn j \<and>
       (answer \<longrightarrow> pd_messages (entry_of j ?ds) = []) \<or>
       reliable_process_packet_data (reliable_of cn j) (entry_of j ?ds) s = Inr (reliable_of cn' j)" by blast+
qed

lemma processors_recent:
  assumes ok: "connection_ok nm cn"
    and recent: "\<forall>i. reliable_channel (cn_config cn) i \<longrightarrow> reliable_recent s (reliable_of cn i)"
  shows "\<forall>ch \<in> set (cn_channels cn). processor_recent s (ch_processor ch)"
proof
  fix ch assume "ch \<in> set (cn_channels cn)"
  then obtain i where i: "i < length (cn_channels cn)" "ch = cn_channels cn ! i" by (metis in_set_conv_nth)
  show "processor_recent s (ch_processor ch)"
  proof (cases "ch_processor ch")
    case (ReliableProcessor rl)
    then have "reliable_channel (cn_config cn) i"
      using connection_okD(1)[OF ok] connection_okD(4)[OF ok i(1)] i
      by (simp add: reliable_channel_def channel_ok_def reliable_ok_def)
    with recent ReliableProcessor i show ?thesis using reliable_of_eq[of cn i rl] by fastforce
  qed simp
qed

text \<open>Writing a packet: what the channel gives, as the peer will read it.\<close>

lemma generate_effect:
  assumes nm: "msg_lawful nm" and ok: "connection_ok nm cn"
    and recent: "\<forall>i. reliable_channel (cn_config cn) i \<longrightarrow> reliable_recent s (reliable_of cn i)"
    and gen: "connection_generate_packet feat nm cn s packet = Inr (written, buffer, cn')"
  shows "connection_ok nm cn'" "cn_config cn' = cn_config cn"
    "0 < written \<Longrightarrow> packet_readable feat nm (cn_config cn) (take written buffer)"
    "reliable_channel (cn_config cn) j \<Longrightarrow> \<exists>available pd bits.
       reliable_packet_data (reliable_of cn j) j s available = Inr (pd, bits, reliable_of cn' j) \<and>
       (if 0 < written then entry_of j (read_packet feat nm (cn_config cn) (take written buffer)) = pd
        else pd_messages pd = [])"
proof -
  note G = generate_rounds[OF nm ok processors_recent[OF ok recent] gen]
  show "connection_ok nm cn'" "cn_config cn' = cn_config cn"
    "0 < written \<Longrightarrow> packet_readable feat nm (cn_config cn) (take written buffer)"
    using G(1-3) by blast+
  assume j: "reliable_channel (cn_config cn) j"
  obtain rl where J: "j < length (cn_channels cn)" "ch_processor (cn_channels cn ! j) = ReliableProcessor rl"
    "reliable_of cn j = rl" by (rule reliable_ofE[OF ok j])
  obtain available pd bits where pd: "channel_packet_data nm (cn_channels cn ! j) s available = Inr (pd, bits, cn_channels cn' ! j)"
    "if 0 < written then entry_of j (read_packet feat nm (cn_config cn) (take written buffer)) = cpd_seen (cn_config cn) pd
        else pd_messages pd = []"
    using G(4)[OF J(1)] by blast
  have "channel_ok nm (nc_channels (cn_config cn) ! j) j (cn_channels cn ! j)" by (rule connection_okD(4)[OF ok J(1)])
  then have rl: "reliable_packet_data (reliable_of cn j) j s available = Inr (pd, bits, reliable_of cn' j)"
    using pd(1) J(2,3) by (auto simp: channel_packet_data_def channel_ok_def rbind_eq_Inr
        dest!: sym[where t = "cn_channels cn' ! j"] intro!: reliable_of_eq[symmetric])
  moreover have "cpd_seen (cn_config cn) pd = pd"
  proof -
    have "packed nm (nc_channels (cn_config cn) ! j) j available pd bits"
      by (rule channel_packet_data_packed(2)[OF _ _ pd(1)])
        (use connection_okD(4)[OF ok J(1)] recent[rule_format, OF j] J(2,3) in simp_all)
    then show ?thesis using j by (auto simp: cpd_seen_def packed_def reliable_channel_def split: if_splits)
  qed
  ultimately show "\<exists>available pd bits.
       reliable_packet_data (reliable_of cn j) j s available = Inr (pd, bits, reliable_of cn' j) \<and>
       (if 0 < written then entry_of j (read_packet feat nm (cn_config cn) (take written buffer)) = pd
        else pd_messages pd = [])"
    using pd(2) by (intro exI[of _ available] exI[of _ pd] exI[of _ bits]) simp
qed

section \<open>Every operation keeps a connection well formed\<close>

lemma process_acks_Cons:
  "connection_process_acks cn (a # as) = rbind (connection_process_acks cn [a]) (\<lambda>cn. connection_process_acks cn as)"
  by (simp add: connection_process_acks_def rbind_assoc)

lemma acks_keep_ok:
  assumes "connection_ok nm cn" "connection_process_acks cn as = Inr cn'"
  shows "connection_ok nm cn'"
  using assms
proof (induction as arbitrary: cn)
  case (Cons a as)
  obtain cn1 where "connection_process_acks cn [a] = Inr cn1" "connection_process_acks cn1 as = Inr cn'"
    using Cons.prems(2) unfolding process_acks_Cons[of _ _ as] rbind_eq_Inr by blast
  with Cons.IH ack_effect(1)[OF Cons.prems(1)] show ?case by blast
qed (simp add: connection_process_acks_def)

text \<open>C7: A connection is well formed when it has the channels of its configuration, each with its
  index, its configuration and a processor of its kind whose queues are in order. \<open>new\<close> makes such a
  connection, every operation keeps it so, with packets of any content, and on a well formed
  connection sending and receiving on a channel it has never panic.\<close>

theorem connection_stays_well_formed:
  assumes nm: "msg_lawful nm" and ok: "connection_ok nm cn"
  shows "(connection_config_ok config \<longrightarrow>
       (\<exists>cn0. connection_new config t = Inr cn0 \<and> cn_config cn0 = config \<and> connection_ok nm cn0)) \<and>
    connection_ok nm (connection_advance_time cn t) \<and> connection_ok nm (connection_reset cn) \<and>
    (i < length (cn_channels cn) \<longrightarrow> msg_measurable nm m \<longrightarrow>
      (\<exists>cn'. connection_send_message nm cn i m = Inr cn' \<and> connection_ok nm cn')) \<and>
    (i < length (cn_channels cn) \<longrightarrow>
      (\<exists>r cn'. connection_receive_message cn i = Inr (r, cn') \<and> connection_ok nm cn')) \<and>
    (connection_process_acks cn as = Inr cn1 \<longrightarrow> connection_ok nm cn1) \<and>
    (connection_process_packet feat nm cn s bytes = Inr (answer, cn2) \<longrightarrow> connection_ok nm cn2) \<and>
    ((\<forall>ch \<in> set (cn_channels cn). processor_recent s (ch_processor ch)) \<longrightarrow>
      connection_generate_packet feat nm cn s packet = Inr (written, buffer, cn3) \<longrightarrow> connection_ok nm cn3)"
proof (intro conjI impI)
  assume "connection_config_ok config"
  then obtain cn0 where "connection_new config t = Inr cn0" "connection_ok nm cn0" "cn_config cn0 = config"
    by (rule connection_new_total[of config t nm])
  then show "\<exists>cn0. connection_new config t = Inr cn0 \<and> cn_config cn0 = config \<and> connection_ok nm cn0" by blast
next
  have "channels_ok nm 0 (nc_channels (cn_config cn)) (map channel_reset (cn_channels cn))"
    using channel_reset_ok(1)[OF connection_okD(4)[OF ok]] connection_okD(1)[OF ok] by (simp add: channels_ok_iff)
  then show "connection_ok nm (connection_reset cn)" using ok by (simp add: connection_ok_def connection_reset_def)
next
  assume "i < length (cn_channels cn)" "msg_measurable nm m"
  then show "\<exists>cn'. connection_send_message nm cn i m = Inr cn' \<and> connection_ok nm cn'"
    using send_message_ok[OF ok, of i m] by blast
next
  assume i: "i < length (cn_channels cn)"
  have "\<exists>r. channel_receive_message (cn_channels cn ! i) = Inr r"
    using prc.receive_ok[of nm "nc_channels (cn_config cn) ! i" "ch_processor (cn_channels cn ! i)"] connection_okD(4)[OF ok i]
    by (auto simp: channel_ok_def channel_receive_message_def split: option.splits)
  then obtain r ch where "channel_receive_message (cn_channels cn ! i) = Inr (r, ch)" by auto
  then have "connection_receive_message cn i = Inr (r, cn\<lparr>cn_channels := (cn_channels cn)[i := ch]\<rparr>)"
    using i by (simp add: connection_receive_message_def)
  then show "\<exists>r cn'. connection_receive_message cn i = Inr (r, cn') \<and> connection_ok nm cn'"
    using receive_effect(1)[OF ok] by blast
next
  assume "connection_process_packet feat nm cn s bytes = Inr (answer, cn2)"
  then show "connection_ok nm cn2"
    using ok channels_deliver_result(1)[OF ok]
    by (auto simp: connection_process_packet_def rbind_eq_Inr split: if_splits)
qed (use acks_keep_ok[OF ok] connection_advance_ok(1)[OF ok] generate_rounds(1)[OF nm ok] in blast)+

theorem connection_stays_well_formed_witness:
  "connection_ok test_message (connection_reset demo_connection) \<and>
   (\<exists>cn. connection_send_message test_message demo_connection 1 9 = Inr cn \<and> connection_ok test_message cn)"
  using connection_stays_well_formed[OF test_message_lawful demo_connection_ok(1)] demo_connection_ok(2)
    test_message_measurable by (metis one_less_numeral_iff semiring_norm(76))

end
