(* ===== verification/Session.thy ===== *)
theory Session
  imports Connection_Channels
begin

text \<open>
  Two connections end to end. Both send and receive, all their channels share one stream of
  packets in each direction, and a network loses, duplicates, delays and reorders the packets.
  The steps are the operations of \<open>src/connection.rs\<close> on both ends, the packets are the bytes
  \<open>generate_packet\<close> wrote. Each reliable channel, in each direction, is a link of \<open>Delivery\<close>, so
  the promise of the channel carries over to the connection.

  The steps have the conditions of \<open>Delivery\<close> on the numbers, now for every reliable channel of
  the connection: no channel stays silent for half the range of the packet numbers that all of
  them share, no packet arrives so late that half the range of message ids has passed, and an
  acknowledgement is reported once and in time.
\<close>

section \<open>The system\<close>

text \<open>The history of one direction: the bytes of every packet with the number of messages each
  channel had been given before it; what each channel was given and has handed out.\<close>

record 'm traffic =
  tf_packets :: "(u8 list \<times> (nat \<Rightarrow> nat)) list"
  tf_sent :: "nat \<Rightarrow> 'm list"
  tf_received :: "nat \<Rightarrow> 'm list"
  tf_recorded :: "nat \<Rightarrow> nat"                    \<comment> \<open>after the last packet with messages of the channel\<close>
  tf_delivered :: "nat set"
  tf_acked :: "nat set"

text \<open>The two ends are \<open>True\<close> and \<open>False\<close>; \<open>ss_traffic S s\<close> is what goes from \<open>s\<close> to \<open>\<not> s\<close>.\<close>

record 'm session =
  ss_conn :: "bool \<Rightarrow> 'm connection"
  ss_traffic :: "bool \<Rightarrow> 'm traffic"

definition packet_bytes :: "'m traffic \<Rightarrow> nat \<Rightarrow> u8 list" where
  "packet_bytes tf n = fst (tf_packets tf ! n)"

definition traffic_open :: "connection_config \<Rightarrow> 'm traffic \<Rightarrow> bool" where
  "traffic_open config tf \<longleftrightarrow>
     (\<forall>i. reliable_channel config i \<longrightarrow> length (tf_packets tf) + 1 < tf_recorded tf i + 32768)"

definition packet_fresh :: "connection_config \<Rightarrow> 'm traffic \<Rightarrow> nat \<Rightarrow> bool" where
  "packet_fresh config tf n \<longleftrightarrow> n < length (tf_packets tf) \<and> packet_bytes tf n \<noteq> [] \<and>
     (\<forall>i. reliable_channel config i \<longrightarrow> length (tf_received tf i) < snd (tf_packets tf ! n) i + 16384)"

definition packet_ackable :: "connection_config \<Rightarrow> 'm traffic \<Rightarrow> nat \<Rightarrow> bool" where
  "packet_ackable config tf n \<longleftrightarrow> n \<in> tf_delivered tf \<and> n \<notin> tf_acked tf \<and>
     (\<forall>i. reliable_channel config i \<longrightarrow> tf_recorded tf i \<le> n + 32768 \<and> n < tf_recorded tf i + 32768 \<and>
        length (tf_sent tf i) < snd (tf_packets tf ! n) i + 32768)"

definition traffic_emit ::
  "features \<Rightarrow> ('m, 'e) network_message \<Rightarrow> connection_config \<Rightarrow> u8 list \<Rightarrow> 'm traffic \<Rightarrow> 'm traffic" where
  "traffic_emit feat nm config bytes tf =
     tf\<lparr>tf_packets := tf_packets tf @ [(bytes, \<lambda>i. length (tf_sent tf i))],
        tf_recorded := (\<lambda>i. if pd_messages (entry_of i (read_packet feat nm config bytes)) = []
                            then tf_recorded tf i else length (tf_packets tf) + 1)\<rparr>"

text \<open>An empty packet is not sent: \<open>client.rs\<close> and \<open>server.rs\<close> use its number again, the tests of
  \<open>connection.rs\<close> skip the number, which is on record as a packet without bytes. Only a delivery that
  \<open>process_packet\<close> answers with true is acknowledged.\<close>

inductive session_step ::
  "features \<Rightarrow> ('m, 'e) network_message \<Rightarrow> connection_config \<Rightarrow> 'm session \<Rightarrow> 'm session \<Rightarrow> bool"
  for feat nm config where
  Time: "session_step feat nm config S
     (S\<lparr>ss_conn := (ss_conn S)(s := connection_advance_time (ss_conn S s) t)\<rparr>)"
| Send: "msg_measurable nm m \<Longrightarrow> connection_send_message nm (ss_conn S s) i m = Inr c \<Longrightarrow>
    tf' = (if connection_takes (ss_conn S s) i
           then (ss_traffic S s)\<lparr>tf_sent := (tf_sent (ss_traffic S s))(i := tf_sent (ss_traffic S s) i @ [m])\<rparr>
           else ss_traffic S s) \<Longrightarrow>
    session_step feat nm config S (S\<lparr>ss_conn := (ss_conn S)(s := c), ss_traffic := (ss_traffic S)(s := tf')\<rparr>)"
| Emit: "traffic_open config (ss_traffic S s) \<Longrightarrow>
    connection_generate_packet feat nm (ss_conn S s) (of_nat (length (tf_packets (ss_traffic S s)))) packet =
      Inr (written, buffer, c) \<Longrightarrow>
    tf' = (if 0 < written then traffic_emit feat nm config (take written buffer) (ss_traffic S s) else ss_traffic S s) \<Longrightarrow>
    session_step feat nm config S (S\<lparr>ss_conn := (ss_conn S)(s := c), ss_traffic := (ss_traffic S)(s := tf')\<rparr>)"
| Skip: "traffic_open config (ss_traffic S s) \<Longrightarrow>
    session_step feat nm config S
      (S\<lparr>ss_traffic := (ss_traffic S)(s := traffic_emit feat nm config [] (ss_traffic S s))\<rparr>)"
| Deliver: "packet_fresh config (ss_traffic S s) n \<Longrightarrow>
    connection_process_packet feat nm (ss_conn S (\<not> s)) (of_nat n) (packet_bytes (ss_traffic S s) n) = Inr (answer, c) \<Longrightarrow>
    tf' = (if answer then (ss_traffic S s)\<lparr>tf_delivered := insert n (tf_delivered (ss_traffic S s))\<rparr> else ss_traffic S s) \<Longrightarrow>
    session_step feat nm config S (S\<lparr>ss_conn := (ss_conn S)(\<not> s := c), ss_traffic := (ss_traffic S)(s := tf')\<rparr>)"
| Receive: "connection_receive_message (ss_conn S (\<not> s)) i = Inr (r, c) \<Longrightarrow>
    tf' = (ss_traffic S s)\<lparr>tf_received := (tf_received (ss_traffic S s))
             (i := tf_received (ss_traffic S s) i @ (case r of None \<Rightarrow> [] | Some (_, m) \<Rightarrow> [m]))\<rparr> \<Longrightarrow>
    session_step feat nm config S (S\<lparr>ss_conn := (ss_conn S)(\<not> s := c), ss_traffic := (ss_traffic S)(s := tf')\<rparr>)"
| Acks: "distinct ns \<Longrightarrow> \<forall>n \<in> set ns. packet_ackable config (ss_traffic S s) n \<Longrightarrow>
    connection_process_acks (ss_conn S s) (map of_nat ns) = Inr c \<Longrightarrow>
    tf' = (ss_traffic S s)\<lparr>tf_acked := set ns \<union> tf_acked (ss_traffic S s)\<rparr> \<Longrightarrow>
    session_step feat nm config S (S\<lparr>ss_conn := (ss_conn S)(s := c), ss_traffic := (ss_traffic S)(s := tf')\<rparr>)"

definition no_traffic :: "'m traffic" where
  "no_traffic = \<lparr>tf_packets = [], tf_sent = (\<lambda>_. []), tf_received = (\<lambda>_. []), tf_recorded = (\<lambda>_. 0),
     tf_delivered = {}, tf_acked = {}\<rparr>"

text \<open>Both ends start as \<open>new\<close> makes them, with the same configuration.\<close>

inductive session_reachable ::
  "features \<Rightarrow> ('m, 'e) network_message \<Rightarrow> connection_config \<Rightarrow> 'm session \<Rightarrow> bool"
  for feat nm config where
  start: "connection_config_ok config \<Longrightarrow> (\<And>s. connection_new config (t s) = Inr (c s)) \<Longrightarrow>
    session_reachable feat nm config \<lparr>ss_conn = c, ss_traffic = (\<lambda>_. no_traffic)\<rparr>"
| step: "session_reachable feat nm config S \<Longrightarrow> session_step feat nm config S S' \<Longrightarrow>
    session_reachable feat nm config S'"

section \<open>The invariant\<close>

definition link_of ::
  "features \<Rightarrow> ('m, 'e) network_message \<Rightarrow> connection_config \<Rightarrow> 'm connection \<Rightarrow> 'm connection
     \<Rightarrow> 'm traffic \<Rightarrow> nat \<Rightarrow> 'm link" where
  "link_of feat nm config cs cr tf i =
     \<lparr>lk_sender = reliable_of cs i, lk_receiver = reliable_of cr i,
      lk_sent = tf_sent tf i, lk_received = tf_received tf i,
      lk_packets = map (\<lambda>(bytes, before). (entry_of i (read_packet feat nm config bytes), before i)) (tf_packets tf),
      lk_recorded = tf_recorded tf i, lk_delivered = tf_delivered tf, lk_acked = tf_acked tf\<rparr>"

definition direction_inv ::
  "features \<Rightarrow> ('m, 'e) network_message \<Rightarrow> connection_config \<Rightarrow> 'm connection \<Rightarrow> 'm connection \<Rightarrow> 'm traffic \<Rightarrow> bool" where
  "direction_inv feat nm config cs cr tf \<longleftrightarrow>
     (\<forall>p \<in> set (tf_packets tf). fst p \<noteq> [] \<longrightarrow> packet_readable feat nm config (fst p)) \<and>
     (\<forall>i. reliable_channel config i \<longrightarrow> link_inv nm (link_of feat nm config cs cr tf i))"

definition end_inv :: "('m, 'e) network_message \<Rightarrow> connection_config \<Rightarrow> 'm connection \<Rightarrow> bool" where
  "end_inv nm config c \<longleftrightarrow> connection_ok nm c \<and> cn_config c = config \<and>
     (\<forall>i. reliable_channel config i \<longrightarrow>
        ob_size (outbox_of (reliable_of c i)) = cc_message_send_queue_size (nc_channels config ! i) \<and>
        ib_size (inbox_of (reliable_of c i)) = cc_message_receive_queue_size (nc_channels config ! i))"

definition session_inv ::
  "features \<Rightarrow> ('m, 'e) network_message \<Rightarrow> connection_config \<Rightarrow> 'm session \<Rightarrow> bool" where
  "session_inv feat nm config S \<longleftrightarrow>
     (\<forall>s. end_inv nm config (ss_conn S s) \<and>
        direction_inv feat nm config (ss_conn S s) (ss_conn S (\<not> s)) (ss_traffic S s))"

lemma end_invD:
  assumes "end_inv nm config c" "reliable_channel config i"
  shows "connection_ok nm c" "cn_config c = config" "reliable_ok nm (nc_channels config ! i) (reliable_of c i)"
    "sender_ok nm (reliable_of c i)" "receiver_ok (reliable_of c i)"
proof -
  show c: "connection_ok nm c" "cn_config c = config" using assms(1) by (simp_all add: end_inv_def)
  then show "reliable_ok nm (nc_channels config ! i) (reliable_of c i)"
    using reliable_ofD(3)[of nm c i] assms(2) by simp
  then show "sender_ok nm (reliable_of c i)" "receiver_ok (reliable_of c i)" by (simp_all add: reliable_ok_def)
qed

lemma link_of_simps [simp]:
  "lk_sender (link_of feat nm config cs cr tf i) = reliable_of cs i"
  "lk_receiver (link_of feat nm config cs cr tf i) = reliable_of cr i"
  "lk_sent (link_of feat nm config cs cr tf i) = tf_sent tf i"
  "lk_received (link_of feat nm config cs cr tf i) = tf_received tf i"
  "length (lk_packets (link_of feat nm config cs cr tf i)) = length (tf_packets tf)"
  "lk_recorded (link_of feat nm config cs cr tf i) = tf_recorded tf i"
  "lk_delivered (link_of feat nm config cs cr tf i) = tf_delivered tf"
  "lk_acked (link_of feat nm config cs cr tf i) = tf_acked tf"
  by (simp_all add: link_of_def)

lemma link_of_packet [simp]:
  "n < length (tf_packets tf) \<Longrightarrow> lk_packets (link_of feat nm config cs cr tf i) ! n =
     (entry_of i (read_packet feat nm config (packet_bytes tf n)), snd (tf_packets tf ! n) i)"
  by (simp add: link_of_def packet_bytes_def case_prod_unfold)

lemma direction_invD:
  assumes "direction_inv feat nm config cs cr tf"
  shows "n < length (tf_packets tf) \<Longrightarrow> packet_bytes tf n \<noteq> [] \<Longrightarrow> packet_readable feat nm config (packet_bytes tf n)"
    "reliable_channel config i \<Longrightarrow> link_inv nm (link_of feat nm config cs cr tf i)"
  using assms by (simp_all add: direction_inv_def packet_bytes_def)

lemma session_invD:
  assumes "session_inv feat nm config S"
  shows "end_inv nm config (ss_conn S s)"
    "direction_inv feat nm config (ss_conn S s) (ss_conn S (\<not> s)) (ss_traffic S s)"
    "direction_inv feat nm config (ss_conn S (\<not> s)) (ss_conn S s) (ss_traffic S (\<not> s))"
  using assms[unfolded session_inv_def, rule_format, of s] assms[unfolded session_inv_def, rule_format, of "\<not> s"]
  by simp_all

lemma session_update:
  assumes "session_inv feat nm config S" "end_inv nm config c"
    and "direction_inv feat nm config c (ss_conn S (\<not> s)) tf" "direction_inv feat nm config (ss_conn S (\<not> s)) c tg"
  shows "session_inv feat nm config
    (S\<lparr>ss_conn := (ss_conn S)(s := c), ss_traffic := (ss_traffic S)(s := tf, \<not> s := tg)\<rparr>)"
  using assms unfolding session_inv_def by (cases s) (auto simp: all_bool_eq)

lemma direction_sender_frame:
  assumes "direction_inv feat nm config cs cr tf"
    and "\<And>i. reliable_channel config i \<Longrightarrow> sender_ok nm (reliable_of c i) \<and>
      outbox_of (reliable_of c i) = outbox_of (reliable_of cs i)"
  shows "direction_inv feat nm config c cr tf"
proof -
  have "link_of feat nm config c cr tf i = (link_of feat nm config cs cr tf i)\<lparr>lk_sender := reliable_of c i\<rparr>" for i
    by (simp add: link_of_def)
  with assms show ?thesis by (auto simp: direction_inv_def intro!: link_sender_frame)
qed

lemma direction_receiver_frame:
  assumes "direction_inv feat nm config cs cr tf"
    and "\<And>i. reliable_channel config i \<Longrightarrow> receiver_ok (reliable_of c i) \<and>
      inbox_of (reliable_of c i) = inbox_of (reliable_of cr i)"
  shows "direction_inv feat nm config cs c tf"
proof -
  have "link_of feat nm config cs c tf i = (link_of feat nm config cs cr tf i)\<lparr>lk_receiver := reliable_of c i\<rparr>" for i
    by (simp add: link_of_def)
  with assms show ?thesis by (auto simp: direction_inv_def intro!: link_receiver_frame)
qed

text \<open>An operation of the sending half of an end, and one of its receiving half.\<close>

lemma session_sender:
  assumes inv: "session_inv feat nm config S" and c: "end_inv nm config c"
    and tf: "direction_inv feat nm config c (ss_conn S (\<not> s)) tf"
    and frame: "\<And>i. reliable_channel config i \<Longrightarrow> inbox_of (reliable_of c i) = inbox_of (reliable_of (ss_conn S s) i)"
  shows "session_inv feat nm config (S\<lparr>ss_conn := (ss_conn S)(s := c), ss_traffic := (ss_traffic S)(s := tf)\<rparr>)"
proof -
  have "direction_inv feat nm config (ss_conn S (\<not> s)) c (ss_traffic S (\<not> s))"
    by (rule direction_receiver_frame[OF session_invD(3)[OF inv]]) (use frame end_invD(5)[OF c] in simp)
  from session_update[OF inv c tf this] show ?thesis by (simp add: fun_upd_twist fun_upd_idem)
qed

lemma session_receiver:
  assumes inv: "session_inv feat nm config S" and c: "end_inv nm config c"
    and tf: "direction_inv feat nm config (ss_conn S s) c tf"
    and frame: "\<And>i. reliable_channel config i \<Longrightarrow> outbox_of (reliable_of c i) = outbox_of (reliable_of (ss_conn S (\<not> s)) i)"
  shows "session_inv feat nm config (S\<lparr>ss_conn := (ss_conn S)(\<not> s := c), ss_traffic := (ss_traffic S)(s := tf)\<rparr>)"
proof -
  have "direction_inv feat nm config c (ss_conn S s) (ss_traffic S (\<not> s))"
    by (rule direction_sender_frame[OF session_invD(3)[OF inv]]) (use frame end_invD(4)[OF c] in simp)
  then have "direction_inv feat nm config c (ss_conn S (\<not> (\<not> s))) (ss_traffic S (\<not> s))" by simp
  from session_update[OF inv c this] tf show ?thesis by (simp add: fun_upd_twist fun_upd_idem)
qed

section \<open>Every step keeps the invariant\<close>

lemma end_inv_frame:
  assumes "end_inv nm config c" "connection_ok nm c'" "cn_config c' = cn_config c"
    and "\<And>i. reliable_channel config i \<Longrightarrow> ob_size (outbox_of (reliable_of c' i)) = ob_size (outbox_of (reliable_of c i)) \<and>
      ib_size (inbox_of (reliable_of c' i)) = ib_size (inbox_of (reliable_of c i))"
  shows "end_inv nm config c'"
  using assms by (simp add: end_inv_def)

lemma session_time:
  assumes inv: "session_inv feat nm config S"
  shows "session_inv feat nm config (S\<lparr>ss_conn := (ss_conn S)(s := connection_advance_time (ss_conn S s) t)\<rparr>)"
proof -
  let ?c = "ss_conn S s" and ?c' = "connection_advance_time (ss_conn S s) t"
  have I: "end_inv nm config ?c" "direction_inv feat nm config ?c (ss_conn S (\<not> s)) (ss_traffic S s)"
    using inv by (simp_all add: session_inv_def)
  have ok: "connection_ok nm ?c" "cn_config ?c = config" using I(1) by (simp_all add: end_inv_def)
  have same: "outbox_of (reliable_of ?c' i) = outbox_of (reliable_of ?c i) \<and>
      inbox_of (reliable_of ?c' i) = inbox_of (reliable_of ?c i)" if "reliable_channel config i" for i
    using advance_effect[OF ok(1), of i t] that ok(2) by auto
  have c': "end_inv nm config ?c'"
    by (rule end_inv_frame[OF I(1) connection_advance_ok[OF ok(1)]]) (use same in simp)
  have "direction_inv feat nm config ?c' (ss_conn S (\<not> s)) (ss_traffic S s)"
    by (rule direction_sender_frame[OF I(2)]) (use same end_invD(4)[OF c'] in simp)
  from session_sender[OF inv c' this] same show ?thesis by simp
qed

lemma session_send:
  assumes inv: "session_inv feat nm config S" and m: "msg_measurable nm m"
    and r: "connection_send_message nm (ss_conn S s) i m = Inr c"
    and tf: "tf' = (if connection_takes (ss_conn S s) i
           then (ss_traffic S s)\<lparr>tf_sent := (tf_sent (ss_traffic S s))(i := tf_sent (ss_traffic S s) i @ [m])\<rparr>
           else ss_traffic S s)"
  shows "session_inv feat nm config (S\<lparr>ss_conn := (ss_conn S)(s := c), ss_traffic := (ss_traffic S)(s := tf')\<rparr>)"
proof -
  let ?c = "ss_conn S s" and ?tf = "ss_traffic S s"
  let ?l = "link_of feat nm config ?c (ss_conn S (\<not> s)) ?tf"
  have I: "end_inv nm config ?c" "direction_inv feat nm config ?c (ss_conn S (\<not> s)) ?tf"
    using inv by (simp_all add: session_inv_def)
  have ok: "connection_ok nm ?c" "cn_config ?c = config" using I(1) by (simp_all add: end_inv_def)
  note E = send_effect[OF ok(1) m r, unfolded ok(2)]
  have size: "ob_size (outbox_of (reliable_of c j)) = ob_size (outbox_of (reliable_of ?c j)) \<and>
      inbox_of (reliable_of c j) = inbox_of (reliable_of ?c j)" if j: "reliable_channel config j" for j
    using E(3)[OF j] E(4) j send_size[OF end_invD(4)[OF I(1) j], of m] send_keeps_inbox(2)[of nm "reliable_of ?c j" m]
    by (cases "j = i \<and> connection_takes ?c i") auto
  have c: "end_inv nm config c" by (rule end_inv_frame[OF I(1) E(1)]) (use E(2) ok(2) size in simp_all)
  have link: "link_inv nm (link_of feat nm config c (ss_conn S (\<not> s)) tf' j)" if j: "reliable_channel config j" for j
  proof (cases "j = i \<and> connection_takes ?c i")
    case True
    have "link_inv nm ((?l j)\<lparr>lk_sender := reliable_of c j, lk_sent := lk_sent (?l j) @ [m]\<rparr>)"
      by (rule send_keeps[OF direction_invD(2)[OF I(2) j]]) (use E(4) j True in auto)
    moreover have "link_of feat nm config c (ss_conn S (\<not> s)) tf' j =
        (?l j)\<lparr>lk_sender := reliable_of c j, lk_sent := lk_sent (?l j) @ [m]\<rparr>"
      using True by (simp add: link_of_def tf)
    ultimately show ?thesis by simp
  next
    case False
    then have "reliable_of c j = reliable_of ?c j" using E(3)[OF j] by blast
    then have "link_of feat nm config c (ss_conn S (\<not> s)) tf' j = ?l j"
      using False by (auto simp: link_of_def tf)
    then show ?thesis using direction_invD(2)[OF I(2) j] by simp
  qed
  have "tf_packets tf' = tf_packets ?tf" by (simp add: tf)
  with link I(2) have "direction_inv feat nm config c (ss_conn S (\<not> s)) tf'" by (simp add: direction_inv_def)
  from session_sender[OF inv c this] size show ?thesis by simp
qed

lemma session_receive:
  assumes inv: "session_inv feat nm config S"
    and r: "connection_receive_message (ss_conn S (\<not> s)) i = Inr (x, c)"
    and tf: "tf' = (ss_traffic S s)\<lparr>tf_received := (tf_received (ss_traffic S s))
             (i := tf_received (ss_traffic S s) i @ (case x of None \<Rightarrow> [] | Some (_, m) \<Rightarrow> [m]))\<rparr>"
  shows "session_inv feat nm config (S\<lparr>ss_conn := (ss_conn S)(\<not> s := c), ss_traffic := (ss_traffic S)(s := tf')\<rparr>)"
proof -
  let ?c = "ss_conn S (\<not> s)" and ?tf = "ss_traffic S s"
  let ?l = "link_of feat nm config (ss_conn S s) ?c ?tf"
  have I: "end_inv nm config ?c" "direction_inv feat nm config (ss_conn S s) ?c ?tf"
    using inv by (simp_all add: session_inv_def)
  have ok: "connection_ok nm ?c" "cn_config ?c = config" using I(1) by (simp_all add: end_inv_def)
  note E = receive_effect[OF ok(1) r, unfolded ok(2)]
  have size: "ib_size (inbox_of (reliable_of c j)) = ib_size (inbox_of (reliable_of ?c j)) \<and>
      outbox_of (reliable_of c j) = outbox_of (reliable_of ?c j)" if j: "reliable_channel config j" for j
  proof (cases "j = i \<and> reliable_receive_message (reliable_of ?c j) = Inr (x, reliable_of c j)")
    case True
    then show ?thesis
      using receive_size[OF end_invD(5)[OF I(1) j]] receive_keeps_outbox(2)[OF end_invD(3)[OF I(1) j]] by blast
  next
    case False
    then have "reliable_of c j = reliable_of ?c j" using E(3)[of j] E(4) j by blast
    then show ?thesis by simp
  qed
  have c: "end_inv nm config c" by (rule end_inv_frame[OF I(1) E(1)]) (use E(2) ok(2) size in simp_all)
  have link: "link_inv nm (link_of feat nm config (ss_conn S s) c tf' j)" if j: "reliable_channel config j" for j
  proof (cases "j = i \<and> reliable_receive_message (reliable_of ?c j) = Inr (x, reliable_of c j)")
    case True
    note L = direction_invD(2)[OF I(2) j]
    show ?thesis
    proof (cases x)
      case None
      have "link_inv nm ((?l j)\<lparr>lk_receiver := reliable_of c j\<rparr>)"
        by (rule poll_keeps[OF L]) (use True None in auto)
      then show ?thesis using True None by (simp add: link_of_def tf)
    next
      case (Some p)
      obtain k m where p: "p = (k, m)" by (cases p)
      have "link_inv nm ((?l j)\<lparr>lk_receiver := reliable_of c j, lk_received := lk_received (?l j) @ [m]\<rparr>)"
        by (rule receive_keeps[OF L, of k]) (use True Some p in auto)
      then show ?thesis using True Some p by (simp add: link_of_def tf)
    qed
  next
    case False
    then have "reliable_of c j = reliable_of ?c j" "j \<noteq> i \<or> x = None" using E(3)[of j] E(4) j by blast+
    then have "link_of feat nm config (ss_conn S s) c tf' j = ?l j" by (auto simp: link_of_def tf)
    then show ?thesis using direction_invD(2)[OF I(2) j] by simp
  qed
  have "tf_packets tf' = tf_packets ?tf" by (simp add: tf)
  with link I(2) have "direction_inv feat nm config (ss_conn S s) c tf'" by (simp add: direction_inv_def)
  from session_receiver[OF inv c this] size show ?thesis by simp
qed

text \<open>A packet is written: every reliable channel adds its entry to its link.\<close>

lemma link_recent:
  assumes "link_inv nm l" "length (lk_packets l) + 1 < lk_recorded l + 32768"
  shows "reliable_recent (of_nat (length (lk_packets l))) (lk_sender l)"
proof -
  have rec: "ob_packet_next (outbox_of (lk_sender l)) = of_nat (lk_recorded l)" "lk_recorded l \<le> length (lk_packets l)"
    using assms(1) by (simp_all add: link_inv_def records_inv_def Let_def)
  have "sequence_greater_than (of_nat (length (lk_packets l) + 1)) (of_nat (lk_recorded l))"
    using sequence_order_near[of "length (lk_packets l) + 1" "lk_recorded l"] assms(2) rec(2) by simp
  then show ?thesis using rec(1) by (simp add: reliable_recent_def outbox_of_def add.commute)
qed

lemma session_recent:
  assumes "session_inv feat nm config S" "traffic_open config (ss_traffic S s)" "reliable_channel config i"
  shows "reliable_recent (of_nat (length (tf_packets (ss_traffic S s)))) (reliable_of (ss_conn S s) i)"
  using link_recent[OF direction_invD(2)[OF session_invD(2)[OF assms(1), of s] assms(3)]] assms(2,3)
  by (simp add: traffic_open_def)

text \<open>What \<open>packet_data\<close> does to a link, whatever room it was offered.\<close>

lemma link_emits:
  assumes inv: "link_inv nm l" and ok: "reliable_ok nm config (lk_sender l)"
    and n: "n = length (lk_packets l)" "n + 1 < lk_recorded l + 32768"
    and s: "reliable_packet_data (lk_sender l) i (of_nat n) available = Inr (pd, bits, s)"
  shows "link_inv nm (l\<lparr>lk_sender := s, lk_packets := lk_packets l @ [(pd, length (lk_sent l))],
       lk_recorded := (if pd_messages pd = [] then lk_recorded l else n + 1)\<rparr>)"
    "ob_size (outbox_of s) = ob_size (outbox_of (lk_sender l))" "sender_ok nm s" "receiver_ok s"
    "inbox_of s = inbox_of (lk_sender l)" "pd_messages pd = [] \<Longrightarrow> outbox_of s = outbox_of (lk_sender l)"
proof -
  have rl: "rl_config (lk_sender l) = config" "sender_ok nm (lk_sender l)" "receiver_ok (lk_sender l)"
    using ok by (simp_all add: reliable_ok_def)
  have recent: "reliable_recent (of_nat n) (lk_sender l)" using link_recent[OF inv] n by simp
  have "link_inv nm (l\<lparr>lk_sender := s, lk_packets := lk_packets l @ [(pd, length (lk_sent l))],
       lk_recorded := (if pd_messages pd = [] then lk_recorded l else n + 1)\<rparr>) \<and>
     ob_size (outbox_of s) = ob_size (outbox_of (lk_sender l)) \<and> sender_ok nm s \<and> receiver_ok s \<and>
     inbox_of s = inbox_of (lk_sender l) \<and> (pd_messages pd = [] \<longrightarrow> outbox_of s = outbox_of (lk_sender l))"
  proof (cases "32 \<le> channel_budget config available")
    case True
    then have room: "32 \<le> channel_budget (rl_config (lk_sender l)) available" using rl by simp
    have keeps: "link_inv nm (l\<lparr>lk_sender := s, lk_packets := lk_packets l @ [(pd, length (lk_sent l))],
       lk_recorded := (if pd_messages pd = [] then lk_recorded l else n + 1)\<rparr>)"
      by (rule emit_keeps[OF inv n room s])
    then have "sender_ok nm s" using sender_invD(1) by (fastforce simp: link_inv_def)
    moreover have "outbox_of s = outbox_of (lk_sender l)" if "pd_messages pd = []"
      using rls.emit_chooses[OF rl(2) room, of "of_nat n" i] recent s that
      by (auto simp: reliable_recent_def outbox_of_def emitted_def split: if_splits)
    ultimately show ?thesis
      using keeps emit_size[OF inv n room s] emit_keeps_inbox[OF ok recent True s] by blast
  next
    case False
    then have e: "pd_messages pd = []" "s = lk_sender l"
      using reliable_packet_data_cases[OF ok s] by (auto simp: cpd_empty_def)
    have "link_inv nm (l\<lparr>lk_sender := s, lk_packets := lk_packets l @ [(pd, length (lk_sent l))]\<rparr>)"
      by (rule emit_silent_keeps[OF inv]) (use n rl e in simp_all)
    then show ?thesis using e rl by simp
  qed
  then show "link_inv nm (l\<lparr>lk_sender := s, lk_packets := lk_packets l @ [(pd, length (lk_sent l))],
       lk_recorded := (if pd_messages pd = [] then lk_recorded l else n + 1)\<rparr>)"
    "ob_size (outbox_of s) = ob_size (outbox_of (lk_sender l))" "sender_ok nm s" "receiver_ok s"
    "inbox_of s = inbox_of (lk_sender l)" "pd_messages pd = [] \<Longrightarrow> outbox_of s = outbox_of (lk_sender l)" by blast+
qed

lemma session_emit:
  assumes nm: "msg_lawful nm" and inv: "session_inv feat nm config S" and opn: "traffic_open config (ss_traffic S s)"
    and gen: "connection_generate_packet feat nm (ss_conn S s) (of_nat (length (tf_packets (ss_traffic S s)))) packet =
      Inr (written, buffer, c)"
    and tf: "tf' = (if 0 < written then traffic_emit feat nm config (take written buffer) (ss_traffic S s) else ss_traffic S s)"
  shows "session_inv feat nm config (S\<lparr>ss_conn := (ss_conn S)(s := c), ss_traffic := (ss_traffic S)(s := tf')\<rparr>)"
proof -
  let ?c = "ss_conn S s" and ?tf = "ss_traffic S s"
  let ?l = "link_of feat nm config ?c (ss_conn S (\<not> s)) ?tf"
  let ?entry = "\<lambda>i. entry_of i (read_packet feat nm config (take written buffer))"
  note I = session_invD(1,2)[OF inv, of s]
  have ok: "connection_ok nm ?c" "cn_config ?c = config" using I(1) by (simp_all add: end_inv_def)
  have near: "length (lk_packets (?l i)) + 1 < lk_recorded (?l i) + 32768" if "reliable_channel config i" for i
    using opn that by (simp add: traffic_open_def)
  have recent: "\<forall>i. reliable_channel (cn_config ?c) i \<longrightarrow>
      reliable_recent (of_nat (length (tf_packets ?tf))) (reliable_of ?c i)"
    using session_recent[OF inv opn] ok(2) by simp
  note E = generate_effect[OF nm ok(1) recent gen, unfolded ok(2)]
  have one: "\<exists>available pd bits. reliable_packet_data (reliable_of ?c j) j (of_nat (length (tf_packets ?tf))) available =
       Inr (pd, bits, reliable_of c j) \<and> (if 0 < written then ?entry j = pd else pd_messages pd = [])"
    if "reliable_channel config j" for j
    using E(4)[OF that] by blast
  have keeps: "ob_size (outbox_of (reliable_of c j)) = ob_size (outbox_of (reliable_of ?c j)) \<and>
      inbox_of (reliable_of c j) = inbox_of (reliable_of ?c j) \<and>
      link_inv nm (link_of feat nm config c (ss_conn S (\<not> s)) tf' j)" if j: "reliable_channel config j" for j
  proof -
    obtain available pd bits where pd: "reliable_packet_data (lk_sender (?l j)) j (of_nat (length (tf_packets ?tf))) available =
       Inr (pd, bits, reliable_of c j)" "if 0 < written then ?entry j = pd else pd_messages pd = []"
      using one[OF j] by auto
    note L = direction_invD(2)[OF I(2) j]
    have rl: "reliable_ok nm (nc_channels config ! j) (lk_sender (?l j))" using end_invD(3)[OF I(1) j] by simp
    note K = link_emits[OF L rl _ _ pd(1)]
    have len: "length (tf_packets ?tf) = length (lk_packets (?l j))" by simp
    note K = K[OF len near[OF j, folded len]]
    have "link_inv nm (link_of feat nm config c (ss_conn S (\<not> s)) tf' j)"
    proof (cases "0 < written")
      case True
      then have "link_of feat nm config c (ss_conn S (\<not> s)) tf' j =
          (?l j)\<lparr>lk_sender := reliable_of c j, lk_packets := lk_packets (?l j) @ [(pd, length (lk_sent (?l j)))],
             lk_recorded := (if pd_messages pd = [] then lk_recorded (?l j) else length (tf_packets ?tf) + 1)\<rparr>"
        using pd(2) by (simp add: link_of_def tf traffic_emit_def)
      with K(1) show ?thesis by simp
    next
      case False
      then have "link_of feat nm config c (ss_conn S (\<not> s)) tf' j = (?l j)\<lparr>lk_sender := reliable_of c j\<rparr>"
        by (simp add: link_of_def tf)
      moreover have "link_inv nm ((?l j)\<lparr>lk_sender := reliable_of c j\<rparr>)"
        by (rule link_sender_frame[OF L K(3) K(6)]) (use False pd(2) in simp)
      ultimately show ?thesis by simp
    qed
    with K show ?thesis by simp
  qed
  have c: "end_inv nm config c" by (rule end_inv_frame[OF I(1) E(1)]) (use E(2) ok(2) keeps in simp_all)
  have "\<forall>p \<in> set (tf_packets tf'). fst p \<noteq> [] \<longrightarrow> packet_readable feat nm config (fst p)"
    using I(2) E(3) by (auto simp: direction_inv_def tf traffic_emit_def)
  with keeps have "direction_inv feat nm config c (ss_conn S (\<not> s)) tf'" by (simp add: direction_inv_def)
  from session_sender[OF inv c this] keeps show ?thesis by simp
qed

text \<open>A number is skipped.\<close>

lemma read_packet_Nil [simp]: "read_packet feat nm config [] = []"
  by (simp add: read_packet_def connection_packet_deserialize_def read_u16_def read_bytes_def)

lemma session_skip:
  assumes inv: "session_inv feat nm config S" and opn: "traffic_open config (ss_traffic S s)"
  shows "session_inv feat nm config (S\<lparr>ss_traffic := (ss_traffic S)(s := traffic_emit feat nm config [] (ss_traffic S s))\<rparr>)"
proof -
  let ?tf = "ss_traffic S s" and ?tf' = "traffic_emit feat nm config [] (ss_traffic S s)"
  note I = session_invD(1,2)[OF inv, of s]
  have none: "pd_messages (entry_of i (read_packet feat nm config [])) = []" for i
    by (simp add: entry_of_def cpd_empty_def)
  have "link_inv nm (link_of feat nm config (ss_conn S s) (ss_conn S (\<not> s)) ?tf' i)" if i: "reliable_channel config i" for i
  proof -
    let ?l = "link_of feat nm config (ss_conn S s) (ss_conn S (\<not> s)) ?tf i"
    have "link_inv nm (?l\<lparr>lk_sender := lk_sender ?l,
        lk_packets := lk_packets ?l @ [(entry_of i (read_packet feat nm config []), length (lk_sent ?l))]\<rparr>)"
      by (rule emit_silent_keeps[OF direction_invD(2)[OF I(2) i]])
        (use opn i end_invD(4)[OF I(1) i] none in \<open>simp_all add: traffic_open_def\<close>)
    then show ?thesis using none by (simp add: link_of_def traffic_emit_def)
  qed
  with I(2) have "direction_inv feat nm config (ss_conn S s) (ss_conn S (\<not> s)) ?tf'"
    by (simp add: direction_inv_def) (simp add: traffic_emit_def)
  from session_sender[OF inv I(1) this] show ?thesis by simp
qed

text \<open>A packet arrives.\<close>

lemma link_delivers:
  assumes inv: "link_inv nm l" and n: "n < length (lk_packets l)" "lk_packets l ! n = (pd, base)"
    and fresh: "length (lk_received l) < base + 16384" and ok: "reliable_ok nm config (lk_receiver l)"
    and r: "r = lk_receiver l \<and> (answer \<longrightarrow> pd_messages pd = []) \<or>
      reliable_process_packet_data (lk_receiver l) pd (of_nat n) = Inr r"
  shows "link_inv nm (l\<lparr>lk_receiver := r,
      lk_delivered := (if answer then insert n (lk_delivered l) else lk_delivered l)\<rparr>)"
    "outbox_of r = outbox_of (lk_receiver l)" "ib_size (inbox_of r) = ib_size (inbox_of (lk_receiver l))"
proof -
  have "link_inv nm (l\<lparr>lk_receiver := r, lk_delivered := (if answer then insert n (lk_delivered l) else lk_delivered l)\<rparr>) \<and>
      outbox_of r = outbox_of (lk_receiver l) \<and> ib_size (inbox_of r) = ib_size (inbox_of (lk_receiver l))"
    using r
  proof
    assume same: "r = lk_receiver l \<and> (answer \<longrightarrow> pd_messages pd = [])"
    then have "link_inv nm (l\<lparr>lk_delivered := (if answer then insert n (lk_delivered l) else lk_delivered l)\<rparr>)"
      using link_deliver_empty[OF inv n(1)] inv n(2) by (cases answer) simp_all
    with same show ?thesis by simp
  next
    assume d: "reliable_process_packet_data (lk_receiver l) pd (of_nat n) = Inr r"
    let ?l = "l\<lparr>lk_receiver := r\<rparr>"
    have k: "link_inv nm (?l\<lparr>lk_delivered := insert n (lk_delivered l)\<rparr>)"
      using deliver_keeps[OF inv n fresh d] by simp
    moreover have "lk_acked ?l \<subseteq> lk_delivered l"
      using inv packets_invD(1)[of l] by (simp add: link_inv_def)
    ultimately have "link_inv nm (?l\<lparr>lk_delivered := lk_delivered l\<rparr>)" by (rule link_forget_delivery) blast
    with k have "link_inv nm (?l\<lparr>lk_delivered := (if answer then insert n (lk_delivered l) else lk_delivered l)\<rparr>)"
      by (cases answer) simp_all
    moreover have "receiver_ok (lk_receiver l)" using ok by (simp add: reliable_ok_def)
    ultimately show ?thesis using deliver_keeps_outbox(2)[OF ok d] deliver_size[OF _ d] by simp
  qed
  then show "link_inv nm (l\<lparr>lk_receiver := r, lk_delivered := (if answer then insert n (lk_delivered l) else lk_delivered l)\<rparr>)"
    "outbox_of r = outbox_of (lk_receiver l)" "ib_size (inbox_of r) = ib_size (inbox_of (lk_receiver l))" by blast+
qed

lemma session_deliver:
  assumes inv: "session_inv feat nm config S" and fresh: "packet_fresh config (ss_traffic S s) n"
    and r: "connection_process_packet feat nm (ss_conn S (\<not> s)) (of_nat n) (packet_bytes (ss_traffic S s) n) = Inr (answer, c)"
    and tf: "tf' = (if answer then (ss_traffic S s)\<lparr>tf_delivered := insert n (tf_delivered (ss_traffic S s))\<rparr> else ss_traffic S s)"
  shows "session_inv feat nm config (S\<lparr>ss_conn := (ss_conn S)(\<not> s := c), ss_traffic := (ss_traffic S)(s := tf')\<rparr>)"
proof -
  let ?c = "ss_conn S (\<not> s)" and ?tf = "ss_traffic S s"
  let ?l = "link_of feat nm config (ss_conn S s) ?c ?tf"
  let ?entry = "\<lambda>i. entry_of i (read_packet feat nm config (packet_bytes ?tf n))"
  have I: "end_inv nm config ?c" "direction_inv feat nm config (ss_conn S s) ?c ?tf"
    using session_invD[OF inv] by blast+
  have ok: "connection_ok nm ?c" "cn_config ?c = config" using I(1) by (simp_all add: end_inv_def)
  have n: "n < length (tf_packets ?tf)" "packet_bytes ?tf n \<noteq> []" using fresh by (simp_all add: packet_fresh_def)
  note E = process_effect[OF ok(1), unfolded ok(2), OF direction_invD(1)[OF I(2) n(1,2)] r]
  have keeps: "link_inv nm (link_of feat nm config (ss_conn S s) c tf' j) \<and>
      outbox_of (reliable_of c j) = outbox_of (reliable_of ?c j) \<and>
      ib_size (inbox_of (reliable_of c j)) = ib_size (inbox_of (reliable_of ?c j))" if j: "reliable_channel config j" for j
  proof -
    have len: "n < length (lk_packets (?l j))" using n by simp
    have pd: "lk_packets (?l j) ! n = (?entry j, snd (tf_packets ?tf ! n) j)" using n by simp
    have late: "length (lk_received (?l j)) < snd (tf_packets ?tf ! n) j + 16384"
      using fresh j by (simp add: packet_fresh_def)
    have rl: "reliable_ok nm (nc_channels config ! j) (lk_receiver (?l j))" using end_invD(3)[OF I(1) j] by simp
    have "reliable_of c j = lk_receiver (?l j) \<and> (answer \<longrightarrow> pd_messages (?entry j) = []) \<or>
        reliable_process_packet_data (lk_receiver (?l j)) (?entry j) (of_nat n) = Inr (reliable_of c j)"
      using E(3)[OF j] by simp
    note K = link_delivers[OF direction_invD(2)[OF I(2) j] len pd late rl this]
    have "link_of feat nm config (ss_conn S s) c tf' j = (?l j)\<lparr>lk_receiver := reliable_of c j,
        lk_delivered := (if answer then insert n (lk_delivered (?l j)) else lk_delivered (?l j))\<rparr>"
      by (simp add: link_of_def tf)
    with K show ?thesis by simp
  qed
  have c: "end_inv nm config c" by (rule end_inv_frame[OF I(1) E(1)]) (use E(2) ok(2) keeps in simp_all)
  have "tf_packets tf' = tf_packets ?tf" by (simp add: tf)
  with keeps I(2) have "direction_inv feat nm config (ss_conn S s) c tf'" by (simp add: direction_inv_def)
  from session_receiver[OF inv c this] keeps show ?thesis by simp
qed

text \<open>Acknowledgements, one at a time.\<close>

lemma session_ack:
  assumes inv: "session_inv feat nm config S" and n: "packet_ackable config (ss_traffic S s) n"
    and r: "connection_process_acks (ss_conn S s) [of_nat n] = Inr c"
    and tf: "tf' = (ss_traffic S s)\<lparr>tf_acked := insert n (tf_acked (ss_traffic S s))\<rparr>"
  shows "session_inv feat nm config (S\<lparr>ss_conn := (ss_conn S)(s := c), ss_traffic := (ss_traffic S)(s := tf')\<rparr>)"
proof -
  let ?c = "ss_conn S s" and ?tf = "ss_traffic S s"
  let ?l = "link_of feat nm config ?c (ss_conn S (\<not> s)) ?tf"
  note I = session_invD(1,2)[OF inv, of s]
  have ok: "connection_ok nm ?c" "cn_config ?c = config" using I(1) by (simp_all add: end_inv_def)
  note E = ack_effect[OF ok(1) r, unfolded ok(2)]
  have keeps: "link_inv nm (link_of feat nm config c (ss_conn S (\<not> s)) tf' j) \<and>
      inbox_of (reliable_of c j) = inbox_of (reliable_of ?c j) \<and>
      ob_size (outbox_of (reliable_of c j)) = ob_size (outbox_of (reliable_of ?c j))" if j: "reliable_channel config j" for j
  proof -
    note L = direction_invD(2)[OF I(2) j]
    have "n < length (tf_packets ?tf)"
      using packets_invD(2)[of "?l j" n] L n by (simp add: link_inv_def packet_ackable_def)
    then have "link_inv nm ((?l j)\<lparr>lk_sender := reliable_of c j, lk_acked := insert n (lk_acked (?l j))\<rparr>)"
      using n j E(3)[OF j] by (intro ack_keeps[OF L]) (simp_all add: packet_ackable_def)
    moreover have "link_of feat nm config c (ss_conn S (\<not> s)) tf' j =
        (?l j)\<lparr>lk_sender := reliable_of c j, lk_acked := insert n (lk_acked (?l j))\<rparr>"
      by (simp add: link_of_def tf)
    ultimately show ?thesis
      using ack_keeps_inbox(2)[OF end_invD(3)[OF I(1) j] E(3)[OF j]] ack_size[OF end_invD(4)[OF I(1) j] E(3)[OF j]] by simp
  qed
  have c: "end_inv nm config c" by (rule end_inv_frame[OF I(1) E(1)]) (use E(2) ok(2) keeps in simp_all)
  have "tf_packets tf' = tf_packets ?tf" by (simp add: tf)
  with keeps I(2) have "direction_inv feat nm config c (ss_conn S (\<not> s)) tf'" by (simp add: direction_inv_def)
  from session_sender[OF inv c this] keeps show ?thesis by simp
qed

lemma session_acks:
  assumes "session_inv feat nm config S" "distinct ns" "\<forall>n \<in> set ns. packet_ackable config (ss_traffic S s) n"
    and "connection_process_acks (ss_conn S s) (map of_nat ns) = Inr c"
    and "tf' = (ss_traffic S s)\<lparr>tf_acked := set ns \<union> tf_acked (ss_traffic S s)\<rparr>"
  shows "session_inv feat nm config (S\<lparr>ss_conn := (ss_conn S)(s := c), ss_traffic := (ss_traffic S)(s := tf')\<rparr>)"
  using assms
proof (induction ns arbitrary: S)
  case Nil
  then have "c = ss_conn S s" "tf' = ss_traffic S s" by (simp_all add: connection_process_acks_def)
  with Nil show ?case by simp
next
  case (Cons n ns)
  obtain c1 where c1: "connection_process_acks (ss_conn S s) [of_nat n] = Inr c1"
    and rest: "connection_process_acks c1 (map of_nat ns) = Inr c"
    using Cons.prems(4) unfolding list.map process_acks_Cons[of _ _ "map of_nat ns"] by (auto simp: rbind_eq_Inr)
  let ?tf1 = "(ss_traffic S s)\<lparr>tf_acked := insert n (tf_acked (ss_traffic S s))\<rparr>"
  let ?S1 = "S\<lparr>ss_conn := (ss_conn S)(s := c1), ss_traffic := (ss_traffic S)(s := ?tf1)\<rparr>"
  have "session_inv feat nm config (?S1\<lparr>ss_conn := (ss_conn ?S1)(s := c), ss_traffic := (ss_traffic ?S1)(s := tf')\<rparr>)"
  proof (rule Cons.IH)
    show "session_inv feat nm config ?S1"
      by (rule session_ack[OF Cons.prems(1) _ c1 refl]) (use Cons.prems(3) in simp)
    show "\<forall>n \<in> set ns. packet_ackable config (ss_traffic ?S1 s) n"
      using Cons.prems(2,3) by (auto simp: packet_ackable_def)
  qed (use Cons.prems(2,5) rest in simp_all)
  moreover have "?S1\<lparr>ss_conn := (ss_conn ?S1)(s := c), ss_traffic := (ss_traffic ?S1)(s := tf')\<rparr> =
      S\<lparr>ss_conn := (ss_conn S)(s := c), ss_traffic := (ss_traffic S)(s := tf')\<rparr>"
    by (cases S) (simp only: session.simps fun_upd_upd)
  ultimately show ?case by (simp only:)
qed

lemma session_step_keeps:
  assumes "msg_lawful nm" "session_step feat nm config S S'" "session_inv feat nm config S"
  shows "session_inv feat nm config S'"
  using assms(2)
proof cases
  case (Time s t)
  with session_time[OF assms(3)] show ?thesis by simp
next
  case (Send m s i c tf')
  with session_send[OF assms(3) Send(2-4)] show ?thesis by simp
next
  case (Emit s packet written buffer c tf')
  with session_emit[OF assms(1,3) Emit(2-4)] show ?thesis by simp
next
  case (Skip s)
  with session_skip[OF assms(3) Skip(2)] show ?thesis by simp
next
  case (Deliver s n answer c tf')
  with session_deliver[OF assms(3) Deliver(2-4)] show ?thesis by simp
next
  case (Receive s i r c tf')
  with session_receive[OF assms(3) Receive(2,3)] show ?thesis by simp
next
  case (Acks ns s c tf')
  with session_acks[OF assms(3) Acks(2-5)] show ?thesis by simp
qed

section \<open>The invariant holds at the start\<close>

lemma new_channels_nth:
  assumes "rfold (\<lambda>channels (i, c). rbind (channel_new c i t) (\<lambda>ch. Inr (channels @ [ch]))) done (enumerate k cs) = Inr chs"
  shows "\<exists>new. chs = done @ new \<and> length new = length cs \<and>
    (\<forall>i < length cs. channel_new (cs ! i) (k + i) t = Inr (new ! i))"
  using assms
proof (induction cs arbitrary: k "done")
  case (Cons c cs)
  obtain ch where ch: "channel_new c k t = Inr ch"
    and rest: "rfold (\<lambda>channels (i, c). rbind (channel_new c i t) (\<lambda>ch. Inr (channels @ [ch]))) (done @ [ch])
      (enumerate (Suc k) cs) = Inr chs"
    using Cons.prems by (auto simp: rbind_eq_Inr)
  from Cons.IH[OF rest] obtain new where new: "chs = (done @ [ch]) @ new" "length new = length cs"
    "\<forall>i < length cs. channel_new (cs ! i) (Suc k + i) t = Inr (new ! i)" by blast
  have "channel_new ((c # cs) ! i) (k + i) t = Inr ((ch # new) ! i)" if "i < length (c # cs)" for i
    using ch new(3) that by (cases i) simp_all
  with new(1,2) show ?case by (intro exI[of _ "ch # new"]) simp
qed simp

lemma connection_new_reliable:
  assumes "connection_new config t = Inr c" "reliable_channel config i"
  shows "reliable_new (nc_channels config ! i) t = Inr (reliable_of c i)"
proof -
  obtain chs where chs: "rfold (\<lambda>channels (i, c). rbind (channel_new c i t) (\<lambda>ch. Inr (channels @ [ch]))) []
      (enumerate 0 (nc_channels config)) = Inr chs" and c: "cn_channels c = chs"
    using assms(1) by (auto simp: connection_new_def rbind_eq_Inr split: if_splits)
  have "channel_new (nc_channels config ! i) i t = Inr (chs ! i)"
    using new_channels_nth[OF chs] assms(2) by (auto simp: reliable_channel_def)
  then show ?thesis
    using assms(2) c by (auto simp: channel_new_def reliable_channel_def rbind_eq_Inr
        dest!: sym[where t = "cn_channels c ! i"] intro!: reliable_of_eq[symmetric])
qed

lemma session_start_inv:
  assumes config: "connection_config_ok config" and new: "\<And>s. connection_new config (t s) = Inr (c s)"
  shows "session_inv feat nm config \<lparr>ss_conn = c, ss_traffic = (\<lambda>_. no_traffic)\<rparr>"
proof -
  have ok: "connection_ok nm (c s) \<and> cn_config (c s) = config" for s
    using connection_new_total[OF config, of "t s" nm] new[of s] by auto
  have rl: "reliable_new (nc_channels config ! i) (t s) = Inr (reliable_of (c s) i)" "reliable_config_ok (nc_channels config ! i)"
    if i: "reliable_channel config i" for s i
  proof -
    show "reliable_new (nc_channels config ! i) (t s) = Inr (reliable_of (c s) i)"
      by (rule connection_new_reliable[OF new i])
    have "nc_channels config ! i \<in> set (nc_channels config)" using i by (simp add: reliable_channel_def)
    then have "channel_config_ok (nc_channels config ! i)" using config by (simp add: connection_config_ok_def)
    then show "reliable_config_ok (nc_channels config ! i)" using i by (simp add: channel_config_ok_def reliable_channel_def)
  qed
  have "end_inv nm config (c s)" for s
    unfolding end_inv_def
    using ok[of s] new_sender(2)[OF rl(1)] new_receiver(2)[OF rl(1)] rl(2) by (simp add: reliable_config_ok_def)
  moreover have "link_inv nm (link_of feat nm config (c s) (c (\<not> s)) no_traffic i)" if "reliable_channel config i" for s i
    using link_start_inv[OF rl(2)[OF that] rl(2)[OF that] rl(1)[OF that] rl(1)[OF that]]
    by (simp add: link_of_def link_start_def no_traffic_def)
  then have "direction_inv feat nm config (c s) (c (\<not> s)) no_traffic" for s
    by (simp add: direction_inv_def) (simp add: no_traffic_def)
  ultimately show ?thesis by (simp add: session_inv_def)
qed

lemma session_reachable_inv:
  assumes "msg_lawful nm" "session_reachable feat nm config S"
  shows "session_inv feat nm config S"
  using assms(2) by induction (auto intro: session_start_inv session_step_keeps[OF assms(1)])

lemma session_link:
  assumes "msg_lawful nm" "session_reachable feat nm config S" "reliable_channel config i"
  shows "link_inv nm (link_of feat nm config (ss_conn S s) (ss_conn S (\<not> s)) (ss_traffic S s) i)"
  using session_invD(2)[OF session_reachable_inv[OF assms(1,2)]] assms(3) by (rule direction_invD(2))

section \<open>The promise of the connection\<close>

lemma session_prefix:
  assumes "session_inv feat nm config S" "reliable_channel config i"
  shows "prefix (tf_received (ss_traffic S s) i) (tf_sent (ss_traffic S s) i)"
proof -
  have "receiver_inv (link_of feat nm config (ss_conn S s) (ss_conn S (\<not> s)) (ss_traffic S s) i)"
    using direction_invD(2)[OF session_invD(2)[OF assms(1)] assms(2)] by (simp add: link_inv_def)
  from receiver_invD(5)[OF this] show ?thesis by (metis link_of_simps(3,4) take_is_prefix)
qed

text \<open>C1: Two connections that exchange packets in both directions: on every reliable channel, in both
  directions, the messages \<open>receive_message\<close> has returned are a prefix of the messages
  \<open>send_message\<close> has taken, whatever the network loses, duplicates, delays or reorders and
  whatever the other channels do.\<close>

theorem session_in_order:
  assumes "msg_lawful nm" "session_reachable feat nm config S" "reliable_channel config i"
  shows "prefix (tf_received (ss_traffic S s) i) (tf_sent (ss_traffic S s) i)"
  by (rule session_prefix[OF session_reachable_inv[OF assms(1,2)] assms(3)])

text \<open>C2: No message given to a reliable channel is dropped: it has been handed out, waits in the
  peer's receive queue, or is in the send queue and will be sent again.\<close>

theorem session_keeps_every_message:
  assumes "msg_lawful nm" "session_reachable feat nm config S" "reliable_channel config i"
    and "k < length (tf_sent (ss_traffic S s) i)"
  shows "k < length (tf_received (ss_traffic S s) i) \<or>
    ib_pending (inbox_of (reliable_of (ss_conn S (\<not> s)) i)) (of_nat k) = Some (tf_sent (ss_traffic S s) i ! k) \<or>
    ob_pending (outbox_of (reliable_of (ss_conn S s) i)) (of_nat k) = Some (tf_sent (ss_traffic S s) i ! k)"
  using link_keeps_message[OF session_link[OF assms(1-3), of s], of k] assms(4) by simp

section \<open>Nothing panics\<close>

lemma ack_total:
  assumes ok: "connection_ok nm cn"
    and all: "\<And>i. reliable_channel (cn_config cn) i \<Longrightarrow> \<exists>rl. reliable_process_ack (reliable_of cn i) a = Inr rl"
  shows "\<exists>cn'. connection_process_acks cn [a] = Inr cn'"
proof -
  have "\<exists>ch. channel_process_ack (cn_channels cn ! i) a = Inr ch" if i: "i < length (cn_channels cn)" for i
  proof (cases "ch_processor (cn_channels cn ! i)")
    case (ReliableProcessor rl)
    then have "reliable_channel (cn_config cn) i"
      using connection_okD(1)[OF ok] connection_okD(4)[OF ok i] i
      by (simp add: reliable_channel_def channel_ok_def reliable_ok_def)
    from all[OF this] ReliableProcessor show ?thesis by (auto simp: channel_process_ack_def reliable_of_eq)
  qed (simp add: channel_process_ack_def)
  then obtain f where "\<forall>i < length (cn_channels cn). channel_process_ack (cn_channels cn ! i) a = Inr (f i)" by metis
  then have "connection_ack_channels (cn_channels cn) a = Inr (map f [0..<length (cn_channels cn)])"
    by (simp add: ack_rounds)
  then show ?thesis by (simp add: connection_process_acks_def)
qed

lemma acks_total:
  assumes "session_inv feat nm config S"
    and "distinct ns" "\<forall>n \<in> set ns. packet_ackable config (ss_traffic S s) n"
  shows "\<exists>c. connection_process_acks (ss_conn S s) (map of_nat ns) = Inr c"
  using assms
proof (induction ns arbitrary: S)
  case Nil
  then show ?case by (simp add: connection_process_acks_def)
next
  case (Cons n ns)
  note I = session_invD(1,2)[OF Cons.prems(1), of s]
  have ok: "connection_ok nm (ss_conn S s)" "cn_config (ss_conn S s) = config" using I(1) by (simp_all add: end_inv_def)
  have n: "packet_ackable config (ss_traffic S s) n" using Cons.prems(3) by simp
  have "\<exists>rl. reliable_process_ack (reliable_of (ss_conn S s) i) (of_nat n) = Inr rl" if "reliable_channel config i" for i
    using link_acks_never_panic[OF direction_invD(2)[OF I(2) that], of n] n that by (simp add: packet_ackable_def)
  then obtain c1 where c1: "connection_process_acks (ss_conn S s) [of_nat n] = Inr c1"
    using ack_total[OF ok(1)] ok(2) by blast
  let ?S1 = "S\<lparr>ss_conn := (ss_conn S)(s := c1), ss_traffic := (ss_traffic S)
      (s := (ss_traffic S s)\<lparr>tf_acked := insert n (tf_acked (ss_traffic S s))\<rparr>)\<rparr>"
  have "\<exists>c. connection_process_acks (ss_conn ?S1 s) (map of_nat ns) = Inr c"
  proof (rule Cons.IH[OF session_ack[OF Cons.prems(1) n c1 refl]])
    show "\<forall>n \<in> set ns. packet_ackable config (ss_traffic ?S1 s) n"
      using Cons.prems(2,3) by (auto simp: packet_ackable_def)
  qed (use Cons.prems(2) in simp)
  then show ?case unfolding list.map process_acks_Cons[of _ _ "map of_nat ns"] by (simp add: c1)
qed


lemma deliver_total:
  assumes "distinct (map pd_channel_index ds)"
    and "\<And>d. d \<in> set ds \<Longrightarrow> pd_channel_index d < length (cn_channels cn) \<and>
      (\<exists>ch. channel_process_packet_data (cn_channels cn ! pd_channel_index d) d s = Inr ch)"
  shows "\<exists>r. connection_deliver cn ds s = Inr r"
  using assms
proof (induction ds arbitrary: cn)
  case (Cons d ds)
  let ?i = "pd_channel_index d"
  obtain ch where i: "?i < length (cn_channels cn)" and ch: "channel_process_packet_data (cn_channels cn ! ?i) d s = Inr ch"
    using Cons.prems(2)[of d] by auto
  let ?cn = "cn\<lparr>cn_channels := (cn_channels cn)[?i := ch]\<rparr>"
  have "\<exists>r. connection_deliver ?cn ds s = Inr r"
  proof (rule Cons.IH)
    fix e assume e: "e \<in> set ds"
    have "?i \<notin> pd_channel_index ` set ds" using Cons.prems(1) by simp
    with e have "pd_channel_index e \<noteq> ?i" by (metis image_eqI)
    with Cons.prems(2)[of e] e show "pd_channel_index e < length (cn_channels ?cn) \<and>
        (\<exists>ch. channel_process_packet_data (cn_channels ?cn ! pd_channel_index e) e s = Inr ch)" by auto
  qed (use Cons.prems(1) in simp)
  with i ch show ?case by (auto simp: Let_def)
qed auto

text \<open>A receiver that has taken everything the channel had for it.\<close>

definition drained :: "connection_config \<Rightarrow> 'm connection \<Rightarrow> nat \<Rightarrow> bool" where
  "drained config c i \<longleftrightarrow>
     cc_message_send_queue_size (nc_channels config ! i) \<le> cc_message_receive_queue_size (nc_channels config ! i) \<and>
     (case connection_receive_message c i of Inr (None, _) \<Rightarrow> True | _ \<Rightarrow> False)"

lemma drained_reliable:
  assumes ok: "connection_ok nm c" and i: "reliable_channel (cn_config c) i" and d: "drained config c i"
    and none: "ch_error_level (cn_channels c ! i) = ChannelNone"
  shows "\<exists>rl. reliable_receive_message (reliable_of c i) = Inr (None, rl)"
proof -
  obtain rl where rl: "i < length (cn_channels c)" "ch_processor (cn_channels c ! i) = ReliableProcessor rl" "reliable_of c i = rl"
    by (rule reliable_ofE[OF ok i])
  with d none show ?thesis
    by (cases "reliable_receive_message rl")
      (auto simp: drained_def connection_receive_message_def channel_receive_message_def
        split: option.splits prod.splits)
qed

lemma packets_total:
  assumes inv: "session_inv feat nm config S"
    and fresh: "packet_fresh config (ss_traffic S s) n"
    and drained: "\<forall>i. reliable_channel config i \<longrightarrow> drained config (ss_conn S (\<not> s)) i"
  shows "\<exists>answer c. connection_process_packet feat nm (ss_conn S (\<not> s)) (of_nat n) (packet_bytes (ss_traffic S s) n) =
    Inr (answer, c)"
proof -
  let ?c = "ss_conn S (\<not> s)" and ?tf = "ss_traffic S s"
  let ?ds = "read_packet feat nm config (packet_bytes ?tf n)"
  have I: "end_inv nm config ?c" "end_inv nm config (ss_conn S s)" "direction_inv feat nm config (ss_conn S s) ?c ?tf"
    using session_invD[OF inv] by blast+
  have ok: "connection_ok nm ?c" "cn_config ?c = config" using I(1) by (simp_all add: end_inv_def)
  have n: "n < length (tf_packets ?tf)" "packet_bytes ?tf n \<noteq> []" using fresh by (simp_all add: packet_fresh_def)
  note P = direction_invD(1)[OF I(3) n(1,2), unfolded packet_readable_def]
  have "pd_channel_index d < length (cn_channels ?c) \<and>
      (\<exists>ch. channel_process_packet_data (cn_channels ?c ! pd_channel_index d) d (of_nat n) = Inr ch)" if d: "d \<in> set ?ds" for d
  proof
    let ?i = "pd_channel_index d"
    show i: "?i < length (cn_channels ?c)" using P d connection_okD(1)[OF ok(1)] ok(2) by auto
    show "\<exists>ch. channel_process_packet_data (cn_channels ?c ! ?i) d (of_nat n) = Inr ch"
    proof (cases "ch_processor (cn_channels ?c ! ?i)")
      case (ReliableProcessor rl)
      then have rc: "reliable_channel config ?i"
        using connection_okD(1)[OF ok(1)] connection_okD(4)[OF ok(1) i] ok(2) i
        by (simp add: reliable_channel_def channel_ok_def reliable_ok_def)
      let ?l = "link_of feat nm config (ss_conn S s) ?c ?tf ?i"
      have entry: "entry_of ?i ?ds = d" by (rule entry_of_unique) (use P d in auto)
      have "\<exists>rl'. reliable_process_packet_data (reliable_of ?c ?i) d (of_nat n) = Inr rl'"
        if none: "ch_error_level (cn_channels ?c ! ?i) = ChannelNone"
      proof -
        obtain rl0 where "reliable_receive_message (lk_receiver ?l) = Inr (None, rl0)"
          using drained_reliable[OF ok(1) _ _ none] rc ok(2) drained by auto
        moreover have "ob_size (outbox_of (lk_sender ?l)) \<le> ib_size (inbox_of (lk_receiver ?l))"
          using I(1,2) rc drained by (simp add: end_inv_def drained_def)
        ultimately have "\<exists>r. reliable_process_packet_data (lk_receiver ?l) (entry_of ?i ?ds) (of_nat n) = Inr r"
          using deliver_drained[OF direction_invD(2)[OF I(3) rc] _ _ _ link_of_packet[OF n(1)]] n fresh rc
          by (simp add: packet_fresh_def)
        then show ?thesis by (simp add: entry)
      qed
      with ReliableProcessor show ?thesis by (auto simp: channel_process_packet_data_def reliable_of_eq)
    qed (simp add: channel_process_packet_data_def)
  qed
  from deliver_total[OF _ this] P show ?thesis
    using ok(2) by (cases "cn_error_level ?c = ConnectionNone") (auto simp: connection_process_packet_def)
qed

text \<open>C3: As long as the application drains its reliable channels before a packet arrives, and their
  receive queues are at least as large as the send queues, no packet of the peer makes
  \<open>process_packet\<close> panic: it is decoded, every entry finds its channel, and every message is inside
  the window or stale.\<close>

theorem session_packets_never_panic:
  assumes nm: "msg_lawful nm" and S: "session_reachable feat nm config S"
    and fresh: "packet_fresh config (ss_traffic S s) n"
    and drained: "\<forall>i. reliable_channel config i \<longrightarrow> drained config (ss_conn S (\<not> s)) i"
  shows "\<exists>answer c. connection_process_packet feat nm (ss_conn S (\<not> s)) (of_nat n) (packet_bytes (ss_traffic S s) n) =
    Inr (answer, c)"
  by (rule packets_total[OF session_reachable_inv[OF nm S] fresh drained])

text \<open>C5: As soon as a packet with the message a drained reliable channel is waiting for has been
  processed, \<open>receive_message\<close> returns that message.\<close>

theorem session_makes_progress:
  assumes nm: "msg_lawful nm" and S: "session_reachable feat nm config S" and i: "reliable_channel config i"
    and fresh: "packet_fresh config (ss_traffic S s) n" and drained: "drained config (ss_conn S (\<not> s)) i"
    and carries: "(of_nat (length (tf_received (ss_traffic S s) i)), m)
       \<in> set (pd_messages (entry_of i (read_packet feat nm config (packet_bytes (ss_traffic S s) n))))"
    and r: "connection_process_packet feat nm (ss_conn S (\<not> s)) (of_nat n) (packet_bytes (ss_traffic S s) n) = Inr (True, c)"
  shows "\<exists>c'. connection_receive_message c i =
    Inr (Some (of_nat (length (tf_received (ss_traffic S s) i)),
      tf_sent (ss_traffic S s) i ! length (tf_received (ss_traffic S s) i)), c')"
proof -
  let ?c = "ss_conn S (\<not> s)" and ?tf = "ss_traffic S s"
  let ?ds = "read_packet feat nm config (packet_bytes ?tf n)"
  let ?l = "link_of feat nm config (ss_conn S s) ?c ?tf i"
  note inv = session_reachable_inv[OF nm S]
  have I: "end_inv nm config ?c" "end_inv nm config (ss_conn S s)" "direction_inv feat nm config (ss_conn S s) ?c ?tf"
    using session_invD[OF inv] by blast+
  have ok: "connection_ok nm ?c" "cn_config ?c = config" using I(1) by (simp_all add: end_inv_def)
  have n: "n < length (tf_packets ?tf)" "packet_bytes ?tf n \<noteq> []" using fresh by (simp_all add: packet_fresh_def)
  note P = direction_invD(1)[OF I(3) n(1,2), unfolded packet_readable_def]
  have d: "connection_deliver ?c ?ds (of_nat n) = Inr (True, c)"
    using r P ok(2) by (auto simp: connection_process_packet_def split: if_splits)
  have idx: "distinct (map pd_channel_index ?ds)" "pd_channel_index ` set ?ds \<subseteq> {..<length (cn_channels ?c)}"
    using P connection_okD(1)[OF ok(1)] ok(2) by simp_all
  obtain rl where rl: "i < length (cn_channels ?c)" "ch_processor (cn_channels ?c ! i) = ReliableProcessor rl"
    "reliable_of ?c i = rl" using reliable_ofE[OF ok(1), of i] i ok(2) by auto
  have "i \<in> pd_channel_index ` set ?ds"
  proof (rule ccontr)
    assume "i \<notin> pd_channel_index ` set ?ds"
    from entry_of_none[OF this] carries show False by (simp add: cpd_empty_def)
  qed
  then have p: "channel_process_packet_data (cn_channels ?c ! i) (entry_of i ?ds) (of_nat n) = Inr (cn_channels c ! i)"
    and none: "ch_error_level (cn_channels ?c ! i) = ChannelNone"
    using deliver_rounds(2)[OF idx(1) d idx(2) rl(1)] by auto
  obtain rl' where rl': "reliable_process_packet_data rl (entry_of i ?ds) (of_nat n) = Inr rl'"
    "cn_channels c ! i = (cn_channels ?c ! i)\<lparr>ch_processor := ReliableProcessor rl'\<rparr>"
    using p none rl(2) by (auto simp: channel_process_packet_data_def rbind_eq_Inr)
  obtain rl0 where "reliable_receive_message (lk_receiver ?l) = Inr (None, rl0)"
    using drained_reliable[OF ok(1) _ drained none] i ok(2) by auto
  moreover have "ob_size (outbox_of (lk_sender ?l)) \<le> ib_size (inbox_of (lk_receiver ?l))"
    using I(1,2) i drained by (simp add: end_inv_def drained_def)
  ultimately have "\<exists>rl2. reliable_receive_message rl' =
      Inr (Some (of_nat (length (tf_received ?tf i)), tf_sent ?tf i ! length (tf_received ?tf i)), rl2)"
    using link_makes_progress[OF direction_invD(2)[OF I(3) i] _ _ _ link_of_packet[OF n(1)]] n fresh i carries rl' rl(3)
    by (auto simp: packet_fresh_def)
  then show ?thesis
    using rl(1) rl'(2) none deliver_rounds(1)[OF idx(1) d idx(2)]
    by (auto simp: connection_receive_message_def channel_receive_message_def)
qed

section \<open>A concrete run\<close>

text \<open>Two ends with an unreliable channel 0 and a reliable channel 1; one sends a message on each.\<close>

definition demo_or :: "panic + u64 connection \<Rightarrow> u64 connection" where
  "demo_or r = (case r of Inr c \<Rightarrow> c | Inl _ \<Rightarrow> demo_connection)"

definition runs :: "'a + 'b \<Rightarrow> bool" where
  "runs r = (case r of Inl _ \<Rightarrow> False | Inr _ \<Rightarrow> True)"

lemma demo_or_runs: "runs r \<Longrightarrow> r = Inr (demo_or r)"
  by (auto simp: runs_def demo_or_def split: sum.splits)

definition demo_idle :: "u64 connection" where
  "demo_idle = demo_or (connection_new demo_connection_config (f64_of_int 0))"

definition demo_sending_one :: "u64 connection" where
  "demo_sending_one = demo_or (connection_send_message test_message demo_idle 0 7)"

definition demo_busy :: "u64 connection" where
  "demo_busy = demo_or (connection_send_message test_message demo_sending_one 1 8)"

definition demo_wire :: "u8 list" where
  "demo_wire = [2, 0, 0, 0, 1, 0, 7, 0, 0, 0, 0, 0, 0, 0, 1, 0, 1, 0, 0, 0, 8, 0, 0, 0, 0, 0, 0, 0]"

definition demo_arrived :: "u64 connection" where
  "demo_arrived = demo_or (map_sum id snd (connection_process_packet plain_features test_message demo_idle 0 demo_wire))"

definition demo_taken :: "u64 connection" where
  "demo_taken = demo_or (map_sum id snd (connection_receive_message demo_arrived 1))"

lemma demo_idle_new: "connection_new demo_connection_config (f64_of_int 0) = Inr demo_idle"
proof -
  obtain c :: "u64 connection" where "connection_new demo_connection_config (f64_of_int 0) = Inr c"
    by (rule connection_new_total[OF demo_connection_config_ok])
  then show ?thesis by (simp add: demo_idle_def demo_or_def)
qed

lemma demo_sends:
  "connection_send_message test_message demo_idle 0 7 = Inr demo_sending_one" "connection_takes demo_idle 0"
  "connection_send_message test_message demo_sending_one 1 8 = Inr demo_busy" "connection_takes demo_sending_one 1"
proof -
  have "runs (connection_send_message test_message demo_idle 0 7)" by code_simp
  then show "connection_send_message test_message demo_idle 0 7 = Inr demo_sending_one"
    unfolding demo_sending_one_def by (rule demo_or_runs)
  have "runs (connection_send_message test_message demo_sending_one 1 8)" by code_simp
  then show "connection_send_message test_message demo_sending_one 1 8 = Inr demo_busy"
    unfolding demo_busy_def by (rule demo_or_runs)
  show "connection_takes demo_idle 0" "connection_takes demo_sending_one 1" by code_simp+
qed

definition demo_written :: "u64 connection" where
  "demo_written = demo_or (map_sum id (snd \<circ> snd)
     (connection_generate_packet plain_features test_message demo_busy 0 (replicate 40 0)))"

lemma demo_generates:
  obtains buffer where "connection_generate_packet plain_features test_message demo_busy 0 (replicate 40 0) =
    Inr (28, buffer, demo_written)" "take 28 buffer = demo_wire"
proof -
  have "case connection_generate_packet plain_features test_message demo_busy 0 (replicate 40 0) of
      Inl _ \<Rightarrow> False | Inr (written, buffer, c) \<Rightarrow> written = 28 \<and> take 28 buffer = demo_wire" by code_simp
  then show ?thesis using that
    by (cases "connection_generate_packet plain_features test_message demo_busy 0 (replicate 40 0)")
      (auto simp: demo_written_def demo_or_def)
qed

lemma demo_arrives: "connection_process_packet plain_features test_message demo_idle 0 demo_wire = Inr (True, demo_arrived)"
proof -
  have "map_sum id fst (connection_process_packet plain_features test_message demo_idle 0 demo_wire) = Inr True" by code_simp
  then show ?thesis
    by (cases "connection_process_packet plain_features test_message demo_idle 0 demo_wire") (auto simp: demo_arrived_def demo_or_def)
qed

lemma demo_takes: "connection_receive_message demo_arrived 1 = Inr (Some (0, 8), demo_taken)"
proof -
  have "map_sum id fst (connection_receive_message demo_arrived 1) = Inr (Some (0, 8))" by code_simp
  then show ?thesis
    by (cases "connection_receive_message demo_arrived 1") (auto simp: demo_taken_def demo_or_def)
qed

lemma demo_waits: "case connection_receive_message demo_idle 1 of Inr (None, _) \<Rightarrow> True | _ \<Rightarrow> False"
  by code_simp

lemma demo_wire_entries:
  "pd_messages (entry_of 0 (read_packet plain_features test_message demo_connection_config demo_wire)) = [(0, 7)]"
  "pd_messages (entry_of 1 (read_packet plain_features test_message demo_connection_config demo_wire)) = [(0, 8)]"
  by code_simp+

lemma demo_reliable_channel: "reliable_channel demo_connection_config i \<longleftrightarrow> i = 1"
  by (auto simp: reliable_channel_def demo_connection_config_def demo_unreliable_config_def demo_reliable_config_def
      channel_config_new_def less_Suc_eq)

text \<open>The states of the run: \<open>True\<close> sends, the packet is written, it arrives, the message is taken.\<close>

definition demo_session :: "u64 connection \<Rightarrow> u64 connection \<Rightarrow> u64 traffic \<Rightarrow> u64 session" where
  "demo_session a b tf = \<lparr>ss_conn = (\<lambda>s. if s then a else b), ss_traffic = (\<lambda>s. if s then tf else no_traffic)\<rparr>"

lemma demo_session_simps [simp]:
  "ss_conn (demo_session a b tf) True = a" "ss_conn (demo_session a b tf) False = b"
  "ss_traffic (demo_session a b tf) True = tf" "ss_traffic (demo_session a b tf) False = no_traffic"
  "(demo_session a b tf)\<lparr>ss_conn := (ss_conn (demo_session a b tf))(True := c),
     ss_traffic := (ss_traffic (demo_session a b tf))(True := tf')\<rparr> = demo_session c b tf'"
  "(demo_session a b tf)\<lparr>ss_conn := (ss_conn (demo_session a b tf))(False := c),
     ss_traffic := (ss_traffic (demo_session a b tf))(True := tf')\<rparr> = demo_session a c tf'"
  by (auto simp: demo_session_def fun_eq_iff)

definition demo_tf_one :: "u64 traffic" where
  "demo_tf_one = no_traffic\<lparr>tf_sent := (\<lambda>_. [])(0 := [7])\<rparr>"

definition demo_tf_sent :: "u64 traffic" where
  "demo_tf_sent = demo_tf_one\<lparr>tf_sent := (tf_sent demo_tf_one)(1 := [8])\<rparr>"

definition demo_tf_written :: "u64 traffic" where
  "demo_tf_written = traffic_emit plain_features test_message demo_connection_config demo_wire demo_tf_sent"

definition demo_tf_arrived :: "u64 traffic" where
  "demo_tf_arrived = demo_tf_written\<lparr>tf_delivered := {0}\<rparr>"

definition demo_tf_taken :: "u64 traffic" where
  "demo_tf_taken = demo_tf_arrived\<lparr>tf_received := (\<lambda>_. [])(1 := [8])\<rparr>"

abbreviation demo_session_reachable :: "u64 session \<Rightarrow> bool" where
  "demo_session_reachable \<equiv> session_reachable plain_features test_message demo_connection_config"

lemmas demo_traffic_defs = demo_tf_taken_def demo_tf_arrived_def demo_tf_written_def demo_tf_sent_def demo_tf_one_def
  traffic_emit_def no_traffic_def

lemma demo_traffic_facts:
  "tf_packets demo_tf_written = [(demo_wire, \<lambda>i. length (tf_sent demo_tf_sent i))]"
  "tf_recorded demo_tf_written 1 = 1" "tf_sent demo_tf_written 1 = [8]" "tf_received demo_tf_written 1 = []"
  "tf_delivered demo_tf_written = {}" "tf_acked demo_tf_written = {}" "tf_sent demo_tf_sent 1 = [8]"
  using demo_wire_entries by (simp_all add: demo_traffic_defs)

lemma demo_packet_fresh: "packet_fresh demo_connection_config demo_tf_written 0"
  using demo_traffic_facts by (simp add: packet_fresh_def packet_bytes_def demo_reliable_channel demo_wire_def)

lemma demo_session_sent: "demo_session_reachable (demo_session demo_busy demo_idle demo_tf_sent)"
proof -
  have "demo_session_reachable \<lparr>ss_conn = (\<lambda>_. demo_idle), ss_traffic = (\<lambda>_. no_traffic)\<rparr>"
    by (rule session_reachable.start[OF demo_connection_config_ok demo_idle_new])
  then have start: "demo_session_reachable (demo_session demo_idle demo_idle no_traffic)"
    by (simp add: demo_session_def)
  have "session_step plain_features test_message demo_connection_config (demo_session demo_idle demo_idle no_traffic)
      (demo_session demo_sending_one demo_idle demo_tf_one)"
    using session_step.Send[OF test_message_measurable,
        of "demo_session demo_idle demo_idle no_traffic" True 0 7 demo_sending_one demo_tf_one plain_features demo_connection_config]
      demo_sends(1,2)
    by (simp add: demo_tf_one_def) (simp add: no_traffic_def)
  with start have one: "demo_session_reachable (demo_session demo_sending_one demo_idle demo_tf_one)"
    by (rule session_reachable.step)
  have "session_step plain_features test_message demo_connection_config (demo_session demo_sending_one demo_idle demo_tf_one)
      (demo_session demo_busy demo_idle demo_tf_sent)"
    using session_step.Send[OF test_message_measurable,
        of "demo_session demo_sending_one demo_idle demo_tf_one" True 1 8 demo_busy demo_tf_sent plain_features demo_connection_config]
      demo_sends(3,4)
    by (simp add: demo_tf_sent_def) (simp add: demo_tf_one_def no_traffic_def)
  with one show ?thesis by (rule session_reachable.step)
qed

lemma demo_session_written: "demo_session_reachable (demo_session demo_written demo_idle demo_tf_written)"
proof -
  obtain buffer where g: "connection_generate_packet plain_features test_message demo_busy 0 (replicate 40 0) =
    Inr (28, buffer, demo_written)" "take 28 buffer = demo_wire" by (rule demo_generates)
  have tf: "tf_packets demo_tf_sent = []" "traffic_open demo_connection_config demo_tf_sent"
    by (simp_all add: demo_tf_sent_def demo_tf_one_def no_traffic_def traffic_open_def)
  have "session_step plain_features test_message demo_connection_config (demo_session demo_busy demo_idle demo_tf_sent)
      (demo_session demo_written demo_idle demo_tf_written)"
    using session_step.Emit[of demo_connection_config "demo_session demo_busy demo_idle demo_tf_sent" True
        plain_features test_message "replicate 40 0" 28 buffer demo_written demo_tf_written] g tf
    by (simp add: demo_tf_written_def)
  with demo_session_sent show ?thesis by (rule session_reachable.step)
qed

lemma demo_session_arrived: "demo_session_reachable (demo_session demo_written demo_arrived demo_tf_arrived)"
proof -
  have "session_step plain_features test_message demo_connection_config (demo_session demo_written demo_idle demo_tf_written)
      (demo_session demo_written demo_arrived demo_tf_arrived)"
    using session_step.Deliver[of demo_connection_config "demo_session demo_written demo_idle demo_tf_written" True
        0 plain_features test_message True demo_arrived demo_tf_arrived] demo_packet_fresh demo_arrives demo_traffic_facts
    by (simp add: packet_bytes_def demo_tf_arrived_def)
  with demo_session_written show ?thesis by (rule session_reachable.step)
qed

lemma demo_session_taken: "demo_session_reachable (demo_session demo_written demo_taken demo_tf_taken)"
proof -
  have "session_step plain_features test_message demo_connection_config (demo_session demo_written demo_arrived demo_tf_arrived)
      (demo_session demo_written demo_taken demo_tf_taken)"
    using session_step.Receive[of "demo_session demo_written demo_arrived demo_tf_arrived" True 1 "Some (0, 8)"
        demo_taken demo_tf_taken plain_features test_message demo_connection_config] demo_takes
    by (simp add: demo_traffic_defs)
  with demo_session_arrived show ?thesis by (rule session_reachable.step)
qed

lemma demo_drained: "drained demo_connection_config demo_idle 1"
  using demo_waits by (simp add: drained_def demo_connection_config_def demo_reliable_config_def channel_config_new_def)

theorem session_in_order_witness:
  "prefix (tf_received demo_tf_taken 1) (tf_sent demo_tf_taken 1) \<and> tf_received demo_tf_taken 1 = [8]"
  using session_in_order[OF test_message_lawful demo_session_taken, of 1 True]
  by (simp add: demo_reliable_channel) (simp add: demo_traffic_defs)

theorem session_keeps_every_message_witness:
  "ib_pending (inbox_of (reliable_of demo_idle 1)) 0 = Some 8 \<or> ob_pending (outbox_of (reliable_of demo_written 1)) 0 = Some 8"
  using session_keeps_every_message[OF test_message_lawful demo_session_written, of 1 0 True] demo_traffic_facts
  by (simp add: demo_reliable_channel)


theorem session_packets_never_panic_witness:
  "\<exists>answer c. connection_process_packet plain_features test_message demo_idle 0 demo_wire = Inr (answer, c)"
  using session_packets_never_panic[OF test_message_lawful demo_session_written, of True 0]
    demo_packet_fresh demo_drained demo_traffic_facts
  by (simp add: demo_reliable_channel packet_bytes_def)

theorem session_makes_progress_witness: "\<exists>c. connection_receive_message demo_arrived 1 = Inr (Some (0, 8), c)"
  using session_makes_progress[OF test_message_lawful demo_session_written, of 1 True 0 8 demo_arrived]
    demo_packet_fresh demo_drained demo_traffic_facts demo_arrives demo_wire_entries
  by (simp add: demo_reliable_channel packet_bytes_def)

end
