(* ===== verification/Session_Counters.thy ===== *)
theory Session_Counters
  imports Session
begin

text \<open>
  What the operations of \<open>src/connection.rs\<close> leave alone, and what the counters of a channel
  (\<open>ChannelCounters\<close> of \<open>src/channel.rs\<close>) count over a whole session of two connections: the
  messages the channel has taken and the messages it has handed out.
\<close>

section \<open>Error levels and counters under each operation\<close>

text \<open>Everything but the processors.\<close>

definition levels :: "'m connection \<Rightarrow> connection_error_level \<times> (channel_error_level \<times> channel_counters) list" where
  "levels cn = (cn_error_level cn, map (\<lambda>ch. (ch_error_level ch, ch_counters ch)) (cn_channels cn))"

definition counters :: "'m connection \<Rightarrow> nat \<Rightarrow> channel_counters" where
  "counters cn i = ch_counters (cn_channels cn ! i)"

text \<open>No error level is set.\<close>

definition calm :: "'m connection \<Rightarrow> bool" where
  "calm cn \<longleftrightarrow> cn_error_level cn = ConnectionNone \<and> (\<forall>ch \<in> set (cn_channels cn). ch_error_level ch = ChannelNone)"

lemma levels_same:
  assumes "levels cn' = levels cn"
  shows "length (cn_channels cn') = length (cn_channels cn)" "calm cn' = calm cn"
    "i < length (cn_channels cn) \<Longrightarrow> counters cn' i = counters cn i"
proof -
  have m: "map (\<lambda>ch. (ch_error_level ch, ch_counters ch)) (cn_channels cn') =
      map (\<lambda>ch. (ch_error_level ch, ch_counters ch)) (cn_channels cn)"
    and e: "cn_error_level cn' = cn_error_level cn"
    using assms by (simp_all add: levels_def)
  show len: "length (cn_channels cn') = length (cn_channels cn)" by (rule map_eq_imp_length_eq[OF m])
  have one: "ch_error_level (cn_channels cn' ! i) = ch_error_level (cn_channels cn ! i) \<and>
      ch_counters (cn_channels cn' ! i) = ch_counters (cn_channels cn ! i)" if "i < length (cn_channels cn)" for i
    using arg_cong[OF m, of "\<lambda>xs. xs ! i"] that len by simp
  then show "i < length (cn_channels cn) \<Longrightarrow> counters cn' i = counters cn i" by (simp add: counters_def)
  show "calm cn' = calm cn" using one len e by (auto simp: calm_def all_set_conv_all_nth)
qed

lemma collect_levels:
  "connection_collect feat nm s chs available = Inr (ds, chs') \<Longrightarrow>
    map (\<lambda>ch. (ch_error_level ch, ch_counters ch)) chs' = map (\<lambda>ch. (ch_error_level ch, ch_counters ch)) chs"
  by (induction chs arbitrary: available ds chs')
    (auto simp: rbind_eq_Inr channel_packet_data_def split: if_splits)

lemma generate_levels:
  "connection_generate_packet feat nm cn s packet = Inr (written, buffer, cn') \<Longrightarrow> levels cn' = levels cn"
  by (auto simp: connection_generate_packet_def rbind_eq_Inr levels_def Let_def expect_eq_Inr dest!: collect_levels
      split: if_splits)

lemma deliver_levels:
  "connection_deliver cn ds s = Inr (answer, cn') \<Longrightarrow> levels cn' = levels cn"
proof (induction ds arbitrary: cn)
  case (Cons d ds)
  let ?i = "pd_channel_index d"
  show ?case
  proof (cases "length (cn_channels cn) < ?i")
    case False
    obtain ch where i: "?i < length (cn_channels cn)" and ch: "channel_process_packet_data (cn_channels cn ! ?i) d s = Inr ch"
      using Cons.prems False by (auto simp: rbind_eq_Inr vec_index_eq_Inr)
    let ?cn = "cn\<lparr>cn_channels := (cn_channels cn)[?i := ch]\<rparr>"
    have "ch_error_level ch = ch_error_level (cn_channels cn ! ?i) \<and> ch_counters ch = ch_counters (cn_channels cn ! ?i)"
      using ch by (auto simp: channel_process_packet_data_def rbind_eq_Inr split: if_splits)
    then have "levels ?cn = levels cn" using i by (simp add: levels_def map_update list_update_same_conv)
    with Cons.IH[of ?cn] Cons.prems False i ch show ?thesis by (auto simp: Let_def split: if_splits)
  qed (use Cons in auto)
qed simp

lemma process_levels:
  "connection_process_packet feat nm cn s bytes = Inr (answer, cn') \<Longrightarrow> levels cn' = levels cn"
  by (auto simp: connection_process_packet_def rbind_eq_Inr dest: deliver_levels split: if_splits)

lemma ack_levels:
  assumes "connection_process_acks cn [a] = Inr cn'"
  shows "levels cn' = levels cn"
proof -
  obtain chs where chs: "connection_ack_channels (cn_channels cn) a = Inr chs" and cn': "cn' = cn\<lparr>cn_channels := chs\<rparr>"
    using assms by (auto simp: connection_process_acks_def rbind_eq_Inr)
  then have len: "length chs = length (cn_channels cn)"
    and one: "\<And>j. j < length (cn_channels cn) \<Longrightarrow> channel_process_ack (cn_channels cn ! j) a = Inr (chs ! j)"
    by (simp_all add: ack_rounds)
  have "ch_error_level (chs ! j) = ch_error_level (cn_channels cn ! j) \<and> ch_counters (chs ! j) = ch_counters (cn_channels cn ! j)"
    if "j < length (cn_channels cn)" for j
    using one[OF that] by (auto simp: channel_process_ack_def rbind_eq_Inr dest!: sym[where t = "chs ! j"])
  then have "map (\<lambda>ch. (ch_error_level ch, ch_counters ch)) chs =
      map (\<lambda>ch. (ch_error_level ch, ch_counters ch)) (cn_channels cn)"
    using len by (intro nth_equalityI) simp_all
  then show ?thesis by (simp add: levels_def cn')
qed

lemma acks_levels: "connection_process_acks cn as = Inr cn' \<Longrightarrow> levels cn' = levels cn"
proof (induction as arbitrary: cn)
  case (Cons a as)
  obtain cn1 where "connection_process_acks cn [a] = Inr cn1" "connection_process_acks cn1 as = Inr cn'"
    using Cons.prems unfolding process_acks_Cons[of _ _ as] rbind_eq_Inr by blast
  with Cons.IH ack_levels show ?case by metis
qed (simp add: connection_process_acks_def)

lemma advance_channels_levels:
  "map (\<lambda>ch. (ch_error_level ch, ch_counters ch)) (fst (connection_advance_channels chs t)) =
     map (\<lambda>ch. (ch_error_level ch, ch_counters ch)) chs \<and>
   ((\<forall>ch \<in> set chs. ch_error_level ch = ChannelNone) \<longrightarrow> \<not> snd (connection_advance_channels chs t))"
  by (induction chs) (auto simp: Let_def case_prod_unfold channel_advance_time_def)

lemma advance_levels:
  "counters (connection_advance_time cn t) i = counters cn i \<or> length (cn_channels cn) \<le> i"
  "calm cn \<Longrightarrow> levels (connection_advance_time cn t) = levels cn"
proof -
  have m: "map (\<lambda>ch. (ch_error_level ch, ch_counters ch)) (cn_channels (connection_advance_time cn t)) =
      map (\<lambda>ch. (ch_error_level ch, ch_counters ch)) (cn_channels cn)"
    using advance_channels_levels[of "cn_channels cn" t]
    by (simp add: connection_advance_time_def Let_def case_prod_unfold)
  then show "counters (connection_advance_time cn t) i = counters cn i \<or> length (cn_channels cn) \<le> i"
    by (auto simp: list_eq_iff_nth_eq counters_def not_le)
  show "levels (connection_advance_time cn t) = levels cn" if "calm cn"
    using that m advance_channels_levels[of "cn_channels cn" t]
    by (simp add: levels_def calm_def connection_advance_time_def Let_def case_prod_unfold)
qed

lemma send_counters:
  assumes "connection_send_message nm cn i m = Inr cn'"
  shows "length (cn_channels cn') = length (cn_channels cn)" "i < length (cn_channels cn)"
    "counters cn' j = (if j = i \<and> connection_takes cn i
       then (counters cn j)\<lparr>ct_sent := ct_sent (counters cn j) + 1\<rparr> else counters cn j)"
    "calm cn \<Longrightarrow> connection_takes cn i \<Longrightarrow> calm cn'"
proof -
  obtain ch where i: "i < length (cn_channels cn)" and ch: "channel_send_message nm (cn_channels cn ! i) m = Inr ch"
    and cn': "cn' = cn\<lparr>cn_channels := (cn_channels cn)[i := ch]\<rparr>"
    using assms by (auto simp: connection_send_message_def rbind_eq_Inr vec_index_eq_Inr)
  show "length (cn_channels cn') = length (cn_channels cn)" "i < length (cn_channels cn)" using i by (simp_all add: cn')
  have "ch_counters ch = (if connection_takes cn i
      then (counters cn i)\<lparr>ct_sent := ct_sent (counters cn i) + 1\<rparr> else counters cn i) \<and>
      (connection_takes cn i \<longrightarrow> ch_error_level ch = ChannelNone)"
  proof (cases "connection_takes cn i")
    case True
    with ch show ?thesis
      by (auto simp: channel_send_message_def rbind_eq_Inr connection_takes_def counters_def)
  next
    case False
    then have "ch_error_level (cn_channels cn ! i) \<noteq> ChannelNone \<or>
        channel_can_send_message (cn_channels cn ! i) \<noteq> Inr True" by (simp add: connection_takes_def)
    with ch False show ?thesis
      by (cases "channel_can_send_message (cn_channels cn ! i)")
        (auto simp: channel_send_message_def counters_def channel_set_error_level_def split: if_splits)
  qed
  then have "ch_counters ch = (if connection_takes cn i
      then (counters cn i)\<lparr>ct_sent := ct_sent (counters cn i) + 1\<rparr> else counters cn i)"
    and lv: "connection_takes cn i \<Longrightarrow> ch_error_level ch = ChannelNone" by blast+
  then show "counters cn' j = (if j = i \<and> connection_takes cn i
       then (counters cn j)\<lparr>ct_sent := ct_sent (counters cn j) + 1\<rparr> else counters cn j)"
    using i by (cases "j = i") (simp_all add: cn' counters_def)
  show "calm cn'" if "calm cn" "connection_takes cn i"
    using that lv by (auto simp: calm_def cn' dest!: set_update_subset_insert[THEN subsetD])
qed

lemma receive_counters:
  assumes "connection_receive_message cn i = Inr (x, cn')"
  shows "length (cn_channels cn') = length (cn_channels cn)" "i < length (cn_channels cn)"
    "counters cn' j = (if j = i \<and> x \<noteq> None
       then (counters cn j)\<lparr>ct_received := ct_received (counters cn j) + 1\<rparr> else counters cn j)"
    "calm cn \<Longrightarrow> calm cn'"
proof -
  obtain ch where i: "i < length (cn_channels cn)" and ch: "channel_receive_message (cn_channels cn ! i) = Inr (x, ch)"
    and cn': "cn' = cn\<lparr>cn_channels := (cn_channels cn)[i := ch]\<rparr>"
    using assms by (auto simp: connection_receive_message_def rbind_eq_Inr vec_index_eq_Inr)
  show "length (cn_channels cn') = length (cn_channels cn)" "i < length (cn_channels cn)" using i by (simp_all add: cn')
  have "ch_counters ch = (if x \<noteq> None
      then (counters cn i)\<lparr>ct_received := ct_received (counters cn i) + 1\<rparr> else counters cn i)"
    and lv: "ch_error_level ch = ch_error_level (cn_channels cn ! i)"
    using ch by (auto simp: channel_receive_message_def rbind_eq_Inr counters_def split: if_splits option.splits)
  then show "counters cn' j = (if j = i \<and> x \<noteq> None
       then (counters cn j)\<lparr>ct_received := ct_received (counters cn j) + 1\<rparr> else counters cn j)"
    using i by (cases "j = i") (simp_all add: cn' counters_def)
  show "calm cn'" if "calm cn"
    using that lv i by (auto simp: calm_def cn' dest!: set_update_subset_insert[THEN subsetD])
qed

section \<open>Over a session\<close>

definition counted :: "connection_config \<Rightarrow> 'm session \<Rightarrow> bool" where
  "counted config S \<longleftrightarrow> (\<forall>s. length (cn_channels (ss_conn S s)) = length (nc_channels config)) \<and>
     (\<forall>s. \<forall>i < length (nc_channels config).
        ct_sent (counters (ss_conn S s) i) = length (tf_sent (ss_traffic S s) i) \<and>
        ct_received (counters (ss_conn S (\<not> s)) i) = length (tf_received (ss_traffic S s) i))"

text \<open>An end changes without its counters.\<close>

lemma counted_frame:
  assumes S: "counted config S"
    and c: "length (cn_channels c) = length (cn_channels (ss_conn S s))"
      "\<And>i. i < length (cn_channels c) \<Longrightarrow> counters c i = counters (ss_conn S s) i"
    and tf: "\<And>i. tf_sent tf i = tf_sent (ss_traffic S r) i" "\<And>i. tf_received tf i = tf_received (ss_traffic S r) i"
  shows "counted config (S\<lparr>ss_conn := (ss_conn S)(s := c), ss_traffic := (ss_traffic S)(r := tf)\<rparr>)"
  using assms unfolding counted_def by (cases s; cases r) (simp_all add: all_bool_eq)

lemma counted_step:
  assumes S: "counted config S" and step: "session_step feat nm config S S'"
  shows "counted config S'"
  using step
proof cases
  case (Time s t)
  have "length (cn_channels (connection_advance_time (ss_conn S s) t)) = length (cn_channels (ss_conn S s))"
    using advance_channels_rounds[of "cn_channels (ss_conn S s)" t]
    by (simp add: connection_advance_time_def Let_def case_prod_unfold)
  moreover have "counters (connection_advance_time (ss_conn S s) t) i = counters (ss_conn S s) i"
    if "i < length (cn_channels (connection_advance_time (ss_conn S s) t))" for i
    using that calculation advance_levels(1)[of "ss_conn S s" t i] by simp
  ultimately show ?thesis
    using counted_frame[OF S, of "connection_advance_time (ss_conn S s) t" s "ss_traffic S s" s] Time by simp
next
  case (Send m s i c tf')
  note C = send_counters[OF Send(3)]
  have i: "i < length (nc_channels config)" using C(2) S by (simp add: counted_def)
  show ?thesis
    using S C(1,3) i unfolding Send(1,4) counted_def by (cases s) (auto simp: all_bool_eq)
next
  case (Emit s packet written buffer c tf')
  note L = levels_same[OF generate_levels[OF Emit(3)]]
  show ?thesis unfolding Emit(1)
    by (rule counted_frame[OF S L(1)]) (use L Emit(4) in \<open>simp_all add: traffic_emit_def\<close>)
next
  case (Skip s)
  have "counted config (S\<lparr>ss_conn := (ss_conn S)(s := ss_conn S s),
      ss_traffic := (ss_traffic S)(s := traffic_emit feat nm config [] (ss_traffic S s))\<rparr>)"
    by (rule counted_frame[OF S]) (simp_all add: traffic_emit_def)
  then show ?thesis using Skip(1) by simp
next
  case (Deliver s n answer c tf')
  note L = levels_same[OF process_levels[OF Deliver(3)]]
  show ?thesis unfolding Deliver(1)
    by (rule counted_frame[OF S L(1)]) (use L Deliver(4) in simp_all)
next
  case (Receive s i r c tf')
  note C = receive_counters[OF Receive(2)]
  have i: "i < length (nc_channels config)" using C(2) S by (simp add: counted_def)
  show ?thesis
    using S C(1,3) i unfolding Receive(1,3) counted_def by (cases s; cases r) (auto simp: all_bool_eq)
next
  case (Acks ns s c tf')
  note L = levels_same[OF acks_levels[OF Acks(4)]]
  show ?thesis unfolding Acks(1)
    by (rule counted_frame[OF S L(1)]) (use L Acks(5) in simp_all)
qed

lemma connection_new_counters:
  assumes "connection_new config t = Inr c"
  shows "length (cn_channels c) = length (nc_channels config)" "calm c"
    "i < length (nc_channels config) \<Longrightarrow> counters c i = \<lparr>ct_sent = 0, ct_received = 0\<rparr>"
proof -
  obtain chs where chs: "rfold (\<lambda>channels (i, c). rbind (channel_new c i t) (\<lambda>ch. Inr (channels @ [ch]))) []
      (enumerate 0 (nc_channels config)) = Inr chs" and c: "cn_channels c = chs" "cn_error_level c = ConnectionNone"
    using assms by (auto simp: connection_new_def rbind_eq_Inr split: if_splits)
  note N = new_channels_nth[OF chs]
  have len: "length chs = length (nc_channels config)" using N by auto
  have one: "ch_error_level (chs ! i) = ChannelNone \<and> ch_counters (chs ! i) = \<lparr>ct_sent = 0, ct_received = 0\<rparr>"
    if "i < length (nc_channels config)" for i
  proof -
    have "channel_new (nc_channels config ! i) i t = Inr (chs ! i)" using N that by auto
    then show ?thesis by (auto simp: channel_new_def rbind_eq_Inr dest!: sym[where t = "chs ! i"])
  qed
  show "length (cn_channels c) = length (nc_channels config)" using len c by simp
  show "calm c" using one len c by (auto simp: calm_def in_set_conv_nth)
  show "i < length (nc_channels config) \<Longrightarrow> counters c i = \<lparr>ct_sent = 0, ct_received = 0\<rparr>"
    using one c by (simp add: counters_def)
qed

lemma counted_reachable:
  assumes "session_reachable feat nm config S"
  shows "counted config S"
  using assms
proof induction
  case (start t c)
  have "length (cn_channels (c s)) = length (nc_channels config) \<and>
      (\<forall>i < length (nc_channels config). counters (c s) i = \<lparr>ct_sent = 0, ct_received = 0\<rparr>)" for s
    using connection_new_counters[OF start(2)] by blast
  then show ?case by (simp add: counted_def no_traffic_def)
next
  case (step S S')
  then show ?case using counted_step by blast
qed

text \<open>C8: The counters of a channel are exact, reliable or not: \<open>sent\<close> is the number of messages it has
  taken from its application and \<open>received\<close> the number it has handed out, whatever was refused,
  retransmitted, duplicated or lost in between.\<close>

theorem session_counters:
  assumes "session_reachable feat nm config S" "i < length (nc_channels config)"
  shows "\<exists>ct. connection_channel_counters (ss_conn S s) i = Inr ct \<and>
    ct_sent ct = length (tf_sent (ss_traffic S s) i) \<and>
    ct_received ct = length (tf_received (ss_traffic S (\<not> s)) i)"
proof -
  have C: "length (cn_channels (ss_conn S s)) = length (nc_channels config)"
    "ct_sent (counters (ss_conn S s) i) = length (tf_sent (ss_traffic S s) i)"
    "ct_received (counters (ss_conn S (\<not> \<not> s)) i) = length (tf_received (ss_traffic S (\<not> s)) i)"
    using counted_reachable[OF assms(1)] assms(2) unfolding counted_def by blast+
  then show ?thesis using assms(2) by (simp add: connection_channel_counters_def counters_def)
qed

theorem session_counters_witness:
  "\<exists>ct. connection_channel_counters demo_taken 1 = Inr ct \<and> ct_received ct = 1"
  using session_counters[OF demo_session_taken, of 1 False]
  by (auto simp: demo_connection_config_def demo_traffic_defs)

end
