(* ===== verification/Connection_Tests.thy ===== *)
theory Connection_Tests
  imports Session_Counters
begin

text \<open>
  \<open>src/connection.rs\<close>, \<open>mod test\<close>: the repository's own tests of two connections that pump packets
  over a network that loses nine in ten. A test is a computation that returns unit or the panic of
  its first failed assertion; the random numbers of round \<open>i\<close> are an argument, one for each
  direction (one that is not drawn because no packet was written is not used).

  The reliable tests give up after a number of rounds (\<open>ExceededIterations\<close>), so whether they pass
  depends on luck. Proved is what does not: whatever is drawn, no assertion on a value, on a count
  or on an error level fails and nothing else panics.
\<close>

section \<open>The tests\<close>

text \<open>What \<open>pump_connection_update\<close> works on.\<close>

record pumped =
  pu_time :: f64
  pu_sender :: "u64 connection"
  pu_receiver :: "u64 connection"
  pu_sender_sequence :: u16
  pu_receiver_sequence :: u16

text \<open>One of its two halves: a packet from one end to the other, and its acknowledgement. The buffer
  is the same for both.\<close>

definition pump_packet ::
  "features \<Rightarrow> u64 connection \<Rightarrow> u64 connection \<Rightarrow> u16 \<Rightarrow> u8 list \<Rightarrow> f32 \<Rightarrow> f32
     \<Rightarrow> panic + (u64 connection \<times> u64 connection \<times> u8 list)" where
  "pump_packet feat source target sequence packet packet_loss draw =
     rbind (connection_generate_packet feat test_message source sequence packet) (\<lambda>(bytes_written, packet, source).
     if 0 < bytes_written \<and> draw > packet_loss then
       rbind (connection_process_packet feat test_message target sequence (take bytes_written packet)) (\<lambda>(_, target).
       rbind (connection_process_acks source [sequence]) (\<lambda>source.
       Inr (source, target, packet)))
     else Inr (source, target, packet))"

definition pump_connection_update ::
  "features \<Rightarrow> connection_config \<Rightarrow> f64 \<Rightarrow> f32 \<Rightarrow> f32 \<times> f32 \<Rightarrow> pumped \<Rightarrow> panic + pumped" where
  "pump_connection_update feat config delta_time packet_loss draws p =
     (let packet = replicate (nc_max_packet_size config) 0 in
     rbind (pump_packet feat (pu_sender p) (pu_receiver p) (pu_sender_sequence p) packet packet_loss (fst draws))
       (\<lambda>(sender, receiver, packet).
     rbind (pump_packet feat receiver sender (pu_receiver_sequence p) packet packet_loss (snd draws))
       (\<lambda>(receiver, sender, packet).
     let time = pu_time p + delta_time;
         sender = connection_advance_time sender time;
         receiver = connection_advance_time receiver time in
     rbind (rassert (cn_error_level sender = ConnectionNone)) (\<lambda>_.
     rbind (rassert (cn_error_level receiver = ConnectionNone)) (\<lambda>_.
     Inr \<lparr>pu_time = time, pu_sender = sender, pu_receiver = receiver,
          pu_sender_sequence = pu_sender_sequence p + 1,
          pu_receiver_sequence = pu_receiver_sequence p + 1\<rparr>)))))"

text \<open>The loop \<open>loop { let Some((_id, message)) = c.receive_message(i) else { break }; .. }\<close>. It ends
  because every message it takes leaves the channel's receive queue.\<close>

definition waiting :: "'m connection \<Rightarrow> usize \<Rightarrow> nat" where
  "waiting cn i =
     (case ch_processor (cn_channels cn ! i) of
        ReliableProcessor rl \<Rightarrow> length (filter (\<lambda>s. s \<noteq> None) (sb_entry_sequence (rl_message_receive_queue rl)))
      | UnreliableProcessor ur \<Rightarrow> length (vd_items (ur_message_receive_queue ur)))"

lemma filter_update_less:
  assumes "i < length xs" "xs ! i = Some x"
  shows "length (filter (\<lambda>s. s \<noteq> None) (xs[i := None])) < length (filter (\<lambda>s. s \<noteq> None) xs)"
proof -
  let ?n = "\<lambda>ys. length (filter (\<lambda>s. s \<noteq> None) ys)"
  have "?n xs = ?n (take i xs @ Some x # drop (Suc i) xs)"
    using id_take_nth_drop[OF assms(1)] assms(2) by simp
  moreover have "?n (xs[i := None]) = ?n (take i xs @ None # drop (Suc i) xs)"
    by (simp only: upd_conv_take_nth_drop[OF assms(1)])
  ultimately show ?thesis by simp
qed

lemma take_waiting:
  assumes "sb_take q s = Inr (Some v, q')"
  shows "length (filter (\<lambda>s. s \<noteq> None) (sb_entry_sequence q')) < length (filter (\<lambda>s. s \<noteq> None) (sb_entry_sequence q))"
proof -
  obtain i where "i < length (sb_entry_sequence q)" "sb_entry_sequence q ! i = Some s"
    "sb_entry_sequence q' = (sb_entry_sequence q)[i := None]"
    using assms by (auto simp: sb_take_def sb_exists_def sb_sequence_index_def rbind_eq_Inr vec_index_eq_Inr
        vec_update_eq_Inr split: if_splits)
  then show ?thesis using filter_update_less by metis
qed

lemma receive_waiting:
  assumes "connection_receive_message cn i = Inr (Some x, cn')"
  shows "waiting cn' i < waiting cn i"
proof -
  obtain ch where i: "i < length (cn_channels cn)" and ch: "channel_receive_message (cn_channels cn ! i) = Inr (Some x, ch)"
    and cn': "cn' = cn\<lparr>cn_channels := (cn_channels cn)[i := ch]\<rparr>"
    using assms by (auto simp: connection_receive_message_def rbind_eq_Inr vec_index_eq_Inr)
  have p: "processor_receive_message (ch_processor (cn_channels cn ! i)) = Inr (Some x, ch_processor ch)"
    using ch by (auto simp: channel_receive_message_def rbind_eq_Inr split: if_splits option.splits)
  show ?thesis
  proof (cases "ch_processor (cn_channels cn ! i)")
    case (ReliableProcessor rl)
    with p i show ?thesis
      by (auto simp: waiting_def cn' rbind_eq_Inr reliable_receive_message_def dest!: sym[where t = "ch_processor ch"]
          take_waiting split: option.splits if_splits)
  next
    case (UnreliableProcessor ur)
    with p i show ?thesis
      by (auto simp: waiting_def cn' unreliable_receive_message_def dest!: sym[where t = "ch_processor ch"]
          split: prod.splits list.splits)
  qed
qed

function receive_each ::
  "('m \<Rightarrow> 'a \<Rightarrow> panic + 'a) \<Rightarrow> 'm connection \<Rightarrow> usize \<Rightarrow> 'a \<Rightarrow> panic + ('m connection \<times> 'a)" where
  "receive_each body cn i acc =
     rbind (connection_receive_message cn i) (\<lambda>(r, cn).
     case r of
       None \<Rightarrow> Inr (cn, acc)
     | Some (_, message) \<Rightarrow> rbind (body message acc) (\<lambda>acc. receive_each body cn i acc))"
  by pat_completeness auto
termination
  by (relation "measure (\<lambda>(_, cn, i, _). waiting cn i)") (auto dest: receive_waiting)

declare receive_each.simps [simp del]

text \<open>Its body in the tests that compare with the value expected next.\<close>

definition expect_next :: "u64 \<Rightarrow> u64 \<Rightarrow> panic + u64" where
  "expect_next value expect_value =
     rbind (rassert (value = expect_value)) (\<lambda>_.
     if expect_value = - 1 then Inl ArithmeticOverflow else Inr (expect_value + 1))"

text \<open>The loop \<open>loop { ..; if .. { break; } if iter > max_iter { panic!(..) } iter += 1; }\<close>.\<close>

function test_loop ::
  "(nat \<Rightarrow> 's \<Rightarrow> panic + 's) \<Rightarrow> ('s \<Rightarrow> panic + bool) \<Rightarrow> nat \<Rightarrow> nat \<Rightarrow> 's \<Rightarrow> panic + 's" where
  "test_loop body finished max_iter iter st =
     rbind (body iter st) (\<lambda>st.
     rbind (finished st) (\<lambda>fin.
     if fin then Inr st else
     if max_iter < iter then Inl ExceededIterations
     else test_loop body finished max_iter (iter + 1) st))"
  by pat_completeness auto
termination
  by (relation "measure (\<lambda>(_, _, max_iter, iter, _). Suc max_iter - iter)") auto

declare test_loop.simps [simp del]

definition send_values ::
  "u64 connection \<Rightarrow> usize \<Rightarrow> (usize \<Rightarrow> u64) \<Rightarrow> usize \<Rightarrow> panic + u64 connection" where
  "send_values cn channel value messages =
     rfold (\<lambda>cn i. connection_send_message test_message cn channel (value i)) cn [0..<messages]"

definition received :: "u64 connection \<Rightarrow> usize \<Rightarrow> panic + usize" where
  "received cn channel = rbind (connection_channel_counters cn channel) (\<lambda>ct. Inr (ct_received ct))"

text \<open>The configuration of the tests: the default for \<open>n\<close> channels, with each one changed.\<close>

definition test_config :: "usize \<Rightarrow> (channel_config \<Rightarrow> channel_config) \<Rightarrow> connection_config" where
  "test_config n change =
     (let config = cs_connection (client_server_config_new n)
      in config\<lparr>nc_channels := map change (nc_channels config)\<rparr>)"

text \<open>\<open>0.90\<close> as an \<open>f32\<close>.\<close>

definition loss_90 :: f32 where
  "loss_90 = Fin 15099494 (- 24)"

definition test_send_receive_unreliable_messages :: "features \<Rightarrow> (nat \<Rightarrow> f32 \<times> f32) \<Rightarrow> panic + unit" where
  "test_send_receive_unreliable_messages feat rng =
     (let time = f64_of_int 100; delta_time = f64_round 16 1000 0; messages_per_packet = 8;
          config = test_config 1 (\<lambda>c. c\<lparr>cc_max_messages_per_packet := messages_per_packet,
                                        cc_kind := UnreliableUnordered\<rparr>) in
     rbind (connection_new config time) (\<lambda>sender.
     rbind (connection_new config time) (\<lambda>receiver.
     let messages_sent = 1024 in
     rbind (rassert (messages_sent \<le> cc_message_send_queue_size (nc_channels config ! 0))) (\<lambda>_.
     rbind (send_values sender 0 of_nat messages_sent) (\<lambda>sender.
     let expected_iterations = messages_sent div messages_per_packet in
     rbind (rfold (\<lambda>(p, expect_value) iter.
          rbind (pump_connection_update feat config delta_time (f64_of_int 0) (rng iter) p) (\<lambda>p.
          rbind (receive_each expect_next (pu_receiver p) 0 expect_value) (\<lambda>(receiver, expect_value).
          Inr (p\<lparr>pu_receiver := receiver\<rparr>, expect_value))))
        (\<lparr>pu_time = time, pu_sender = sender, pu_receiver = receiver,
          pu_sender_sequence = 0, pu_receiver_sequence = 0\<rparr>, 0) [0..<expected_iterations]) (\<lambda>(p, _).
     rbind (received (pu_receiver p) 0) (\<lambda>count.
     rassert (count = messages_sent))))))))"

definition test_send_receive_reliable_messages :: "features \<Rightarrow> (nat \<Rightarrow> f32 \<times> f32) \<Rightarrow> panic + unit" where
  "test_send_receive_reliable_messages feat rng =
     (let time = f64_of_int 100; delta_time = f64_round 16 1000 0; messages_per_packet = 8;
          config = test_config 1 (\<lambda>c. c\<lparr>cc_max_messages_per_packet := messages_per_packet,
                                        cc_sent_packet_buffer_size := 16, cc_kind := ReliableOrdered\<rparr>) in
     rbind (connection_new config time) (\<lambda>sender.
     rbind (connection_new config time) (\<lambda>receiver.
     let messages_sent = 1024 in
     rbind (rassert (messages_sent \<le> cc_message_send_queue_size (nc_channels config ! 0))) (\<lambda>_.
     rbind (send_values sender 0 of_nat messages_sent) (\<lambda>sender.
     let max_iter = 15 * messages_sent div messages_per_packet in
     rbind (test_loop
          (\<lambda>iter (p, expect_value).
             rbind (pump_connection_update feat config delta_time loss_90 (rng iter) p) (\<lambda>p.
             rbind (receive_each expect_next (pu_receiver p) 0 expect_value) (\<lambda>(receiver, expect_value).
             Inr (p\<lparr>pu_receiver := receiver\<rparr>, expect_value))))
          (\<lambda>(p, _). rbind (received (pu_receiver p) 0) (\<lambda>count. Inr (messages_sent \<le> count)))
          max_iter 0
        (\<lparr>pu_time = time, pu_sender = sender, pu_receiver = receiver,
          pu_sender_sequence = 0, pu_receiver_sequence = 0\<rparr>, 0)) (\<lambda>(p, _).
     rbind (received (pu_receiver p) 0) (\<lambda>count.
     rassert (count = messages_sent))))))))"

definition test_duplex_reliable_messages :: "features \<Rightarrow> (nat \<Rightarrow> f32 \<times> f32) \<Rightarrow> panic + unit" where
  "test_duplex_reliable_messages feat rng =
     (let time = f64_of_int 100; delta_time = f64_round 16 1000 0; messages_per_packet = 8;
          config = test_config 1 (\<lambda>c. c\<lparr>cc_max_messages_per_packet := messages_per_packet,
                                        cc_sent_packet_buffer_size := 16, cc_kind := ReliableOrdered\<rparr>) in
     rbind (connection_new config time) (\<lambda>sender.
     rbind (connection_new config time) (\<lambda>receiver.
     let messages_sent = 1024 in
     rbind (rassert (messages_sent \<le> cc_message_send_queue_size (nc_channels config ! 0))) (\<lambda>_.
     rbind (rfold (\<lambda>(sender, receiver) i.
          rbind (connection_send_message test_message sender 0 (of_nat i)) (\<lambda>sender.
          rbind (connection_send_message test_message receiver 0 (of_nat i)) (\<lambda>receiver.
          Inr (sender, receiver)))) (sender, receiver) [0..<messages_sent]) (\<lambda>(sender, receiver).
     let max_iter = 15 * messages_sent div messages_per_packet in
     rbind (test_loop
          (\<lambda>iter (p, expect_values).
             rbind (pump_connection_update feat config delta_time loss_90 (rng iter) p) (\<lambda>p.
             case expect_values of (sender_expect_value, receiver_expect_value) \<Rightarrow>
             rbind (receive_each expect_next (pu_sender p) 0 sender_expect_value) (\<lambda>(sender, sender_expect_value).
             rbind (receive_each expect_next (pu_receiver p) 0 receiver_expect_value) (\<lambda>(receiver, receiver_expect_value).
             Inr (p\<lparr>pu_sender := sender, pu_receiver := receiver\<rparr>, sender_expect_value, receiver_expect_value)))))
          (\<lambda>(p, _). rbind (received (pu_receiver p) 0) (\<lambda>received_count.
                     if messages_sent \<le> received_count
                     then rbind (received (pu_sender p) 0) (\<lambda>count. Inr (messages_sent \<le> count))
                     else Inr False))
          max_iter 0
        (\<lparr>pu_time = time, pu_sender = sender, pu_receiver = receiver,
          pu_sender_sequence = 0, pu_receiver_sequence = 0\<rparr>, 0, 0)) (\<lambda>(p, _).
     rbind (received (pu_receiver p) 0) (\<lambda>count.
     rbind (rassert (count = messages_sent)) (\<lambda>_.
     rbind (received (pu_sender p) 0) (\<lambda>count.
     rassert (count = messages_sent))))))))))"

definition test_send_receive_reliable_messages_multiple_channels ::
  "features \<Rightarrow> (nat \<Rightarrow> f32 \<times> f32) \<Rightarrow> panic + unit" where
  "test_send_receive_reliable_messages_multiple_channels feat rng =
     (let time = f64_of_int 100; delta_time = f64_round 16 1000 0; messages_per_packet = 8;
          config = test_config 2 (\<lambda>c. c\<lparr>cc_max_messages_per_packet := messages_per_packet,
                                        cc_sent_packet_buffer_size := 16, cc_kind := ReliableOrdered\<rparr>) in
     rbind (connection_new config time) (\<lambda>sender.
     rbind (connection_new config time) (\<lambda>receiver.
     let channel_0_messages = 1024; channel_1_messages = 400 in
     rbind (send_values sender 0 of_nat channel_0_messages) (\<lambda>sender.
     rbind (send_values sender 1 (\<lambda>i. 3 * of_nat i) channel_1_messages) (\<lambda>sender.
     let max_iter = 20 * (channel_0_messages + channel_1_messages) div (2 * messages_per_packet) in
     rbind (test_loop
          (\<lambda>iter (p, _).
             rbind (pump_connection_update feat config delta_time loss_90 (rng iter) p) (\<lambda>p.
             rbind (receive_each (\<lambda>_ u. Inr u) (pu_receiver p) 0 ()) (\<lambda>(receiver, _).
             rbind (receive_each (\<lambda>_ u. Inr u) receiver 1 ()) (\<lambda>(receiver, _).
             Inr (p\<lparr>pu_receiver := receiver\<rparr>, ())))))
          (\<lambda>(p, _). rbind (received (pu_receiver p) 0) (\<lambda>received_count.
                if channel_0_messages \<le> received_count
                then rbind (received (pu_receiver p) 1) (\<lambda>count. Inr (channel_1_messages \<le> count))
                else Inr False))
          max_iter 0
        (\<lparr>pu_time = time, pu_sender = sender, pu_receiver = receiver,
          pu_sender_sequence = 0, pu_receiver_sequence = 0\<rparr>, ())) (\<lambda>(p, _).
     rbind (received (pu_receiver p) 0) (\<lambda>count.
     rbind (rassert (count = channel_0_messages)) (\<lambda>_.
     rbind (received (pu_receiver p) 1) (\<lambda>count.
     rassert (count = channel_1_messages))))))))))"

section \<open>The configuration\<close>

lemma test_config_simps [simp]:
  "nc_channels (test_config n change) = replicate n (change (channel_config_new ReliableOrdered))"
  "nc_max_packet_size (test_config n change) = 8192"
  by (simp_all add: test_config_def client_server_config_new_def connection_config_new_def Let_def)

lemma test_message_size [simp]: "msg_size test_message m = 8"
  by (simp add: msg_size_def test_message_def)

text \<open>Eight messages of eight bytes.\<close>

lemma test_channel_uses:
  assumes "cc_max_messages_per_packet c = 8" "cc_packet_budget c = None"
  shows "uses_at_most test_message c 100"
proof -
  have "bits \<le> 8 * 100" if p: "packed test_message c i available pd bits" for i available pd bits
  proof (cases "pd_messages pd = []")
    case False
    let ?feat = "\<lparr>feat_serialize_check = False, feat_soak_debugging_asserts = False\<rparr>"
    have "length (pd_messages pd) \<le> 8" "8 * cpd_wire_size ?feat test_message c pd = bits"
      using p False assms(1) by (simp_all add: packed_def)
    moreover have "sum_list (map (\<lambda>(_, m). msg_size test_message m) (pd_messages pd)) = 8 * length (pd_messages pd)"
      by (simp add: case_prod_unfold sum_list_triv)
    ultimately show ?thesis
      by (cases "cc_kind c") (auto simp: cpd_wire_size_def Let_def check_bytes_def split: if_splits)
  qed (use p in \<open>simp add: packed_def\<close>)
  then show ?thesis using assms(2) by (simp add: uses_at_most_def)
qed

text \<open>The comparison with the next value expected, when the values are the numbers from 0 on.\<close>

lemma expect_next_ok:
  assumes "n < length vs" "\<forall>k < length vs. vs ! k = of_nat k" "length vs \<le> 1024" "e = of_nat n"
  shows "\<exists>e'. expect_next (vs ! n) e = Inr e' \<and> e' = of_nat (Suc n)"
proof -
  have "unat (of_nat n :: u64) = n" using assms(1,3) by (simp add: unat_of_nat)
  moreover have "unat (- 1 :: u64) = 18446744073709551615" by code_simp
  ultimately have "unat (of_nat n :: u64) \<noteq> unat (- 1 :: u64)" using assms(1,3) by linarith
  then have "(of_nat n :: u64) \<noteq> - 1" by auto
  then show ?thesis using assms by (simp add: expect_next_def add.commute)
qed

abbreviation counting :: "nat \<Rightarrow> u64 list" where
  "counting n \<equiv> map of_nat [0..<n]"

end
