(* ===== verification/Reliable_Tests.thy ===== *)
theory Reliable_Tests
  imports Connection_Tests
begin

text \<open>
  The three tests of \<open>src/connection.rs\<close> on reliable channels. Their two connections are a session
  (\<open>Session.thy\<close>), a pumped packet is a few steps of it, and what the session invariant says of both
  ends carries through the rounds: no step panics, every message received is the next one sent, and
  the counters agree.
\<close>

section \<open>One operation in a session that is being tested\<close>

text \<open>A receive queue without the message its channel waits for.\<close>

definition quiet :: "'m connection \<Rightarrow> nat \<Rightarrow> bool" where
  "quiet cn i \<longleftrightarrow> ib_pending (inbox_of (reliable_of cn i)) (ib_next (inbox_of (reliable_of cn i))) = None"

lemma receive_on_calm:
  assumes ok: "connection_ok nm cn" and i: "reliable_channel (cn_config cn) i" and calm: "calm cn"
  obtains cn' where "connection_receive_message cn i = Inr (fst (inbox_pop (inbox_of (reliable_of cn i))), cn')"
    "inbox_of (reliable_of cn' i) = snd (inbox_pop (inbox_of (reliable_of cn i)))"
proof -
  obtain rl where rl: "i < length (cn_channels cn)" "ch_processor (cn_channels cn ! i) = ReliableProcessor rl"
    "reliable_of cn i = rl" "reliable_ok nm (nc_channels (cn_config cn) ! i) rl" by (rule reliable_ofE[OF ok i])
  have none: "ch_error_level (cn_channels cn ! i) = ChannelNone" using calm rl(1) by (simp add: calm_def)
  have "receiver_ok rl" using rl(4) by (simp add: reliable_ok_def)
  then obtain rl' where rl': "reliable_receive_message rl = Inr (fst (inbox_pop (inbox_of rl)), rl')"
    "inbox_of rl' = snd (inbox_pop (inbox_of rl))" by (rule receive_message_refines)
  obtain ch where ch: "channel_receive_message (cn_channels cn ! i) = Inr (fst (inbox_pop (inbox_of rl)), ch)"
    "ch_processor ch = ReliableProcessor rl'"
    using none rl(2) rl'(1) by (cases "fst (inbox_pop (inbox_of rl))") (auto simp: channel_receive_message_def)
  let ?cn = "cn\<lparr>cn_channels := (cn_channels cn)[i := ch]\<rparr>"
  have "connection_receive_message cn i = Inr (fst (inbox_pop (inbox_of rl)), ?cn)"
    using rl(1) ch(1) by (simp add: connection_receive_message_def)
  moreover have "reliable_of ?cn i = rl'" using rl(1) ch(2) by (simp add: reliable_of_update)
  ultimately show ?thesis using that[of ?cn] rl(3) rl'(2) by simp
qed

lemma quiet_drained:
  assumes "connection_ok nm cn" "reliable_channel (cn_config cn) i" "calm cn" "quiet cn i"
    and "cc_message_send_queue_size (nc_channels (cn_config cn) ! i) \<le> cc_message_receive_queue_size (nc_channels (cn_config cn) ! i)"
  shows "drained (cn_config cn) cn i"
proof -
  obtain cn' where "connection_receive_message cn i = Inr (fst (inbox_pop (inbox_of (reliable_of cn i))), cn')"
    by (rule receive_on_calm[OF assms(1-3)])
  moreover have "fst (inbox_pop (inbox_of (reliable_of cn i))) = None"
    using assms(4) by (simp add: quiet_def inbox_pop_def)
  ultimately show ?thesis using assms(5) by (simp add: drained_def)
qed

lemma generate_keeps_inbox:
  assumes nm: "msg_lawful nm" and ok: "connection_ok nm cn"
    and recent: "\<forall>i. reliable_channel (cn_config cn) i \<longrightarrow> reliable_recent s (reliable_of cn i)"
    and gen: "connection_generate_packet feat nm cn s packet = Inr (written, buffer, cn')"
    and i: "reliable_channel (cn_config cn) i"
  shows "inbox_of (reliable_of cn' i) = inbox_of (reliable_of cn i)"
proof -
  obtain available pd bits where r: "reliable_packet_data (reliable_of cn i) i s available = Inr (pd, bits, reliable_of cn' i)"
    using generate_effect(4)[OF nm ok recent gen i] by blast
  note rl = reliable_ofD(3)[OF ok i]
  from reliable_packet_data_cases[OF rl r] emit_keeps_inbox(2)[OF rl recent[rule_format, OF i] _ r] show ?thesis by auto
qed

lemma advance_keeps_inbox:
  assumes "connection_ok nm cn" "reliable_channel (cn_config cn) i"
  shows "inbox_of (reliable_of (connection_advance_time cn t) i) = inbox_of (reliable_of cn i)"
  using advance_effect[OF assms, of t] by auto

lemma process_answers_calm:
  assumes "connection_process_packet feat nm cn s bytes = Inr (answer, cn')" "calm cn"
  shows "answer"
proof -
  have "answer" if "connection_deliver cn ds s = Inr (answer, cn')" "calm cn" for ds cn
    using that
  proof (induction ds arbitrary: cn)
    case (Cons d ds)
    let ?i = "pd_channel_index d"
    show ?case
    proof (cases "length (cn_channels cn) < ?i")
      case True
      with Cons show ?thesis by simp
    next
      case False
      obtain ch where i: "?i < length (cn_channels cn)" and ch: "channel_process_packet_data (cn_channels cn ! ?i) d s = Inr ch"
        using Cons.prems(1) False by (auto simp: rbind_eq_Inr vec_index_eq_Inr)
      have none: "ch_error_level (cn_channels cn ! ?i) = ChannelNone" using Cons.prems(2) i by (simp add: calm_def)
      then have lv: "ch_error_level ch = ChannelNone" using ch by (auto simp: channel_process_packet_data_def rbind_eq_Inr)
      let ?cn = "cn\<lparr>cn_channels := (cn_channels cn)[?i := ch]\<rparr>"
      have "connection_deliver ?cn ds s = Inr (answer, cn')"
        using Cons.prems(1) False i ch lv by (simp add: Let_def)
      moreover have "calm ?cn" using Cons.prems(2) lv by (auto simp: calm_def dest!: set_update_subset_insert[THEN subsetD])
      ultimately show ?thesis by (rule Cons.IH)
    qed
  qed simp
  moreover obtain ds where "connection_deliver cn ds s = Inr (answer, cn')"
    using assms by (auto simp: connection_process_packet_def calm_def rbind_eq_Inr split: if_splits)
  ultimately show ?thesis using assms(2) by blast
qed

text \<open>What the tests configure, as far as the proofs need it, and what they send.\<close>

definition lossy_setting :: "features \<Rightarrow> connection_config \<Rightarrow> (bool \<Rightarrow> nat \<Rightarrow> u64 list) \<Rightarrow> bool" where
  "lossy_setting feat config given \<longleftrightarrow> \<not> feat_serialize_check feat \<and> connection_config_ok config \<and>
     nc_max_packet_size config = 8192 \<and> length (nc_channels config) \<le> 2 \<and>
     (\<forall>c \<in> set (nc_channels config). cc_kind c = ReliableOrdered \<and> uses_at_most test_message c 100 \<and>
        cc_message_send_queue_size c \<le> cc_message_receive_queue_size c) \<and>
     (\<forall>s i. length (given s i) \<le> 1024)"

definition testing :: "features \<Rightarrow> connection_config \<Rightarrow> (bool \<Rightarrow> nat \<Rightarrow> u64 list) \<Rightarrow> u64 session \<Rightarrow> bool" where
  "testing feat config given S \<longleftrightarrow> session_inv feat test_message config S \<and> counted config S \<and>
     (\<forall>s. calm (ss_conn S s)) \<and> (\<forall>s. tf_sent (ss_traffic S s) = given s)"

lemma testingD:
  assumes "testing feat config given S"
  shows "session_inv feat test_message config S" "counted config S" "calm (ss_conn S s)"
    "tf_sent (ss_traffic S s) = given s" "connection_ok test_message (ss_conn S s)" "cn_config (ss_conn S s) = config"
  using assms session_invD(1)[of feat test_message config S s] by (simp_all add: testing_def end_inv_def)

lemma lossy_settingD:
  assumes "lossy_setting feat config given"
  shows "\<not> feat_serialize_check feat" "connection_config_ok config" "nc_max_packet_size config = 8192"
    "length (given s i) \<le> 1024" "reliable_channel config i \<longleftrightarrow> i < length (nc_channels config)"
    "reliable_channel config 0"
    "reliable_channel config i \<Longrightarrow>
      cc_message_send_queue_size (nc_channels config ! i) \<le> cc_message_receive_queue_size (nc_channels config ! i)"
    "list_all2 (uses_at_most test_message) (nc_channels config) (map (\<lambda>_. 100) (nc_channels config))"
    "16 + (\<Sum>b\<leftarrow>map (\<lambda>_. 100) (nc_channels config). 32 + 8 * b) < (8 * 8192 :: nat)"
proof -
  note A = assms[unfolded lossy_setting_def]
  show "\<not> feat_serialize_check feat" "connection_config_ok config" "nc_max_packet_size config = 8192"
    "length (given s i) \<le> 1024" using A by blast+
  show rc: "reliable_channel config i \<longleftrightarrow> i < length (nc_channels config)" for i
    using A by (auto simp: reliable_channel_def)
  then show "reliable_channel config 0" using A by (simp add: connection_config_ok_def)
  show "reliable_channel config i \<Longrightarrow>
      cc_message_send_queue_size (nc_channels config ! i) \<le> cc_message_receive_queue_size (nc_channels config ! i)"
    using A rc by simp
  show "list_all2 (uses_at_most test_message) (nc_channels config) (map (\<lambda>_. 100) (nc_channels config))"
    using A by (simp add: list_all2_conv_all_nth)
  have "length (nc_channels config) \<le> 2" using A by blast
  then show "16 + (\<Sum>b\<leftarrow>map (\<lambda>_. 100) (nc_channels config). 32 + 8 * b) < (8 * 8192 :: nat)"
    by (simp add: sum_list_triv comp_def)
qed

text \<open>A step of the session keeps all that, if the ends stay calm.\<close>

lemma testing_step:
  assumes S: "testing feat config given S" and step: "session_step feat test_message config S S'"
    and calm: "\<And>s. calm (ss_conn S' s)" and sent: "\<And>s. tf_sent (ss_traffic S' s) = tf_sent (ss_traffic S s)"
  shows "testing feat config given S'"
  using testingD[OF S] session_step_keeps[OF test_message_lawful step] counted_step[OF _ step] calm sent
  by (simp add: testing_def)

text \<open>What has been received is bounded by what was sent, and so are the packet numbers.\<close>

lemma testing_bounds:
  assumes S: "testing feat config given S" and l: "lossy_setting feat config given"
    and i: "reliable_channel config i"
  shows "length (tf_received (ss_traffic S s) i) \<le> 1024" "prefix (tf_received (ss_traffic S s) i) (given s i)"
    "tf_recorded (ss_traffic S s) i \<le> length (tf_packets (ss_traffic S s))"
    "tf_acked (ss_traffic S s) \<subseteq> {..<length (tf_packets (ss_traffic S s))}"
proof -
  show p: "prefix (tf_received (ss_traffic S s) i) (given s i)"
    using session_prefix[OF testingD(1)[OF S] i, of s] testingD(4)[OF S, of s] by simp
  then show "length (tf_received (ss_traffic S s) i) \<le> 1024"
    using prefix_length_le[OF p] lossy_settingD(4)[OF l, of s i] by simp
  let ?l = "link_of feat test_message config (ss_conn S s) (ss_conn S (\<not> s)) (ss_traffic S s) i"
  have inv: "packets_inv ?l" "records_inv ?l"
    using direction_invD(2)[OF session_invD(2)[OF testingD(1)[OF S]] i, of s] by (simp_all add: link_inv_def)
  show "tf_recorded (ss_traffic S s) i \<le> length (tf_packets (ss_traffic S s))"
    using inv(2) by (simp add: records_inv_def Let_def)
  show "tf_acked (ss_traffic S s) \<subseteq> {..<length (tf_packets (ss_traffic S s))}"
    using packets_invD(1)[OF inv(1)] packets_invD(2)[OF inv(1)] by auto
qed

section \<open>A packet is pumped\<close>

lemma testing_open:
  assumes S: "testing feat config given S" and k: "length (tf_packets (ss_traffic S s)) < 4000"
  shows "traffic_open config (ss_traffic S s)"
    "\<forall>i. reliable_channel config i \<longrightarrow>
       reliable_recent (of_nat (length (tf_packets (ss_traffic S s)))) (reliable_of (ss_conn S s) i)"
proof -
  show "traffic_open config (ss_traffic S s)" using k by (simp add: traffic_open_def)
  then show "\<forall>i. reliable_channel config i \<longrightarrow>
       reliable_recent (of_nat (length (tf_packets (ss_traffic S s)))) (reliable_of (ss_conn S s) i)"
    using session_recent[OF testingD(1)[OF S]] by blast
qed

text \<open>Writing it, or skipping its number.\<close>

lemma pump_generates:
  assumes l: "lossy_setting feat config given" and S: "testing feat config given S"
    and k: "length (tf_packets (ss_traffic S s)) = k" "k < 4000" and packet: "length packet = 8192"
  obtains n buffer S' where
    "connection_generate_packet feat test_message (ss_conn S s) (of_nat k) packet = Inr (n, buffer, ss_conn S' s)"
    "length buffer = 8192" "testing feat config given S'" "ss_conn S' (\<not> s) = ss_conn S (\<not> s)"
    "ss_traffic S' = (ss_traffic S)
       (s := traffic_emit feat test_message config (if 0 < n then take n buffer else []) (ss_traffic S s))"
    "\<forall>i. reliable_channel config i \<longrightarrow> inbox_of (reliable_of (ss_conn S' s) i) = inbox_of (reliable_of (ss_conn S s) i)"
proof -
  let ?c = "ss_conn S s"
  note O = testing_open[OF S, of s, unfolded k(1), OF k(2)]
  note L = lossy_settingD[OF l] and ok = testingD(5,6)[OF S, of s]
  have recent: "\<forall>ch \<in> set (cn_channels ?c). processor_recent (of_nat k) (ch_processor ch)"
    by (rule processors_recent[OF ok(1)]) (use O(2) ok(2) in simp)
  have uses: "list_all2 (uses_at_most test_message) (nc_channels (cn_config ?c)) (map (\<lambda>_. 100) (nc_channels config))"
    using L(8) ok(2) by simp
  obtain n buffer c where gen: "connection_generate_packet feat test_message ?c (of_nat k) packet = Inr (n, buffer, c)"
    and len: "length buffer = 8192"
    using generate_packet_total[OF test_message_lawful ok(1) L(1) recent uses, of packet] L(9) packet by auto
  let ?tf = "if 0 < n then traffic_emit feat test_message config (take n buffer) (ss_traffic S s) else ss_traffic S s"
  let ?S1 = "S\<lparr>ss_conn := (ss_conn S)(s := c), ss_traffic := (ss_traffic S)(s := ?tf)\<rparr>"
  have step: "session_step feat test_message config S ?S1"
    by (rule session_step.Emit[OF O(1)]) (use gen k in simp_all)
  have calm: "calm c" using levels_same(2)[OF generate_levels[OF gen]] testingD(3)[OF S] by simp
  have S1: "testing feat config given ?S1"
    by (rule testing_step[OF S step]) (use calm testingD(3)[OF S] in \<open>auto simp: traffic_emit_def\<close>)
  have inbox: "\<forall>i. reliable_channel config i \<longrightarrow> inbox_of (reliable_of c i) = inbox_of (reliable_of ?c i)"
    using generate_keeps_inbox[OF test_message_lawful ok(1) _ gen] O(2) ok(2) by simp
  show ?thesis
  proof (cases "0 < n")
    case True
    show ?thesis by (rule that[of n buffer ?S1]) (use True gen len S1 inbox in \<open>simp_all\<close>)
  next
    case False
    let ?S2 = "?S1\<lparr>ss_traffic := (ss_traffic ?S1)(s := traffic_emit feat test_message config [] (ss_traffic ?S1 s))\<rparr>"
    have "session_step feat test_message config ?S1 ?S2"
      by (rule session_step.Skip) (use O(1) False in simp)
    then have "testing feat config given ?S2"
      by (rule testing_step[OF S1]) (use testingD(3)[OF S1] in \<open>auto simp: traffic_emit_def\<close>)
    then show ?thesis
      by (intro that[of n buffer ?S2]) (use False gen len inbox in \<open>simp_all\<close>)
  qed
qed

lemma pump_packet_ok:
  assumes l: "lossy_setting feat config given" and S: "testing feat config given S"
    and k: "length (tf_packets (ss_traffic S s)) = k" "k < 4000" and packet: "length packet = 8192"
    and quiet: "\<forall>i. reliable_channel config i \<longrightarrow> quiet (ss_conn S (\<not> s)) i"
  obtains packet' S' where
    "pump_packet feat (ss_conn S s) (ss_conn S (\<not> s)) (of_nat k) packet packet_loss draw =
       Inr (ss_conn S' s, ss_conn S' (\<not> s), packet')"
    "length packet' = 8192" "testing feat config given S'" "length (tf_packets (ss_traffic S' s)) = Suc k"
    "ss_traffic S' (\<not> s) = ss_traffic S (\<not> s)" "tf_received (ss_traffic S' s) = tf_received (ss_traffic S s)"
    "\<forall>i. reliable_channel config i \<longrightarrow> inbox_of (reliable_of (ss_conn S' s) i) = inbox_of (reliable_of (ss_conn S s) i)"
proof -
  obtain n buffer S1 where gen: "connection_generate_packet feat test_message (ss_conn S s) (of_nat k) packet =
      Inr (n, buffer, ss_conn S1 s)" and len: "length buffer = 8192" and S1: "testing feat config given S1"
    and other: "ss_conn S1 (\<not> s) = ss_conn S (\<not> s)"
    and traffic: "ss_traffic S1 = (ss_traffic S)
       (s := traffic_emit feat test_message config (if 0 < n then take n buffer else []) (ss_traffic S s))"
    and inbox: "\<forall>i. reliable_channel config i \<longrightarrow>
       inbox_of (reliable_of (ss_conn S1 s) i) = inbox_of (reliable_of (ss_conn S s) i)"
    by (rule pump_generates[OF l S k packet])
  let ?tf = "ss_traffic S1 s"
  have tf: "length (tf_packets ?tf) = Suc k" "tf_received ?tf = tf_received (ss_traffic S s)"
    "ss_traffic S1 (\<not> s) = ss_traffic S (\<not> s)"
    using k(1) by (simp_all add: traffic traffic_emit_def)
  show ?thesis
  proof (cases "0 < n \<and> draw > packet_loss")
    case False
    then have "pump_packet feat (ss_conn S s) (ss_conn S (\<not> s)) (of_nat k) packet packet_loss draw =
       Inr (ss_conn S1 s, ss_conn S1 (\<not> s), buffer)"
      using gen other by (simp add: pump_packet_def del: de_Morgan_conj)
    then show ?thesis by (rule that[OF _ len S1 tf(1,3,2) inbox])
  next
    case True
    have bytes: "packet_bytes ?tf k = take n buffer" "take n buffer \<noteq> []"
      "snd (tf_packets ?tf ! k) = (\<lambda>i. length (given s i))"
      using True k(1) len testingD(4)[OF S, of s] by (auto simp: traffic packet_bytes_def traffic_emit_def)
    note B = testing_bounds[OF S1 l]
    note L = lossy_settingD[OF l]
    have "length (tf_received ?tf i) < x + 16384" if "reliable_channel config i" for i x
      using B(1)[OF that, of s] by simp
    then have fresh: "packet_fresh config ?tf k"
      using tf(1) bytes(1,2) by (simp add: packet_fresh_def)
    have drained: "\<forall>i. reliable_channel config i \<longrightarrow> drained config (ss_conn S1 (\<not> s)) i"
    proof (intro allI impI)
      fix i assume i: "reliable_channel config i"
      have "quiet (ss_conn S1 (\<not> s)) i" using quiet i other by simp
      from quiet_drained[OF testingD(5)[OF S1] _ testingD(3)[OF S1] this] L(7)[OF i] i
      show "drained config (ss_conn S1 (\<not> s)) i" by (simp add: testingD(6)[OF S1])
    qed
    obtain answer d where d: "connection_process_packet feat test_message (ss_conn S1 (\<not> s)) (of_nat k) (take n buffer) = Inr (answer, d)"
      using packets_total[OF testingD(1)[OF S1] fresh drained] bytes(1) by auto
    have answer: "answer" by (rule process_answers_calm[OF d testingD(3)[OF S1]])
    let ?S2 = "S1\<lparr>ss_conn := (ss_conn S1)(\<not> s := d),
        ss_traffic := (ss_traffic S1)(s := ?tf\<lparr>tf_delivered := insert k (tf_delivered ?tf)\<rparr>)\<rparr>"
    have "session_step feat test_message config S1 ?S2"
      using session_step.Deliver[OF fresh d[folded bytes(1)] refl] answer by simp
    then have S2: "testing feat config given ?S2"
      by (rule testing_step[OF S1])
        (use levels_same(2)[OF process_levels[OF d]] testingD(3)[OF S1] in \<open>auto\<close>)
    let ?tf2 = "ss_traffic ?S2 s"
    have "k \<notin> tf_acked (ss_traffic S s)" using testing_bounds(4)[OF S l L(6), of s] k(1) by auto
    then have "k \<notin> tf_acked ?tf2" by (simp add: traffic traffic_emit_def)
    moreover have "tf_recorded ?tf2 i \<le> Suc k" if "reliable_channel config i" for i
      using testing_bounds(3)[OF S2 l that, of s] tf(1) by simp
    moreover have "tf_sent ?tf2 = given s" using testingD(4)[OF S2, of s] .
    moreover have "length (given s i) < length (given s i) + 32768" for i by simp
    ultimately have ackable: "packet_ackable config ?tf2 k"
      using k(2) bytes(3) unfolding packet_ackable_def by fastforce
    then obtain c where c: "connection_process_acks (ss_conn ?S2 s) [of_nat k] = Inr c"
      using acks_total[OF testingD(1)[OF S2], of "[k]" s] by auto
    let ?S3 = "?S2\<lparr>ss_conn := (ss_conn ?S2)(s := c),
        ss_traffic := (ss_traffic ?S2)(s := ?tf2\<lparr>tf_acked := set [k] \<union> tf_acked ?tf2\<rparr>)\<rparr>"
    have "session_step feat test_message config ?S2 ?S3"
      by (rule session_step.Acks[of "[k]"]) (use ackable c in simp_all)
    then have S3: "testing feat config given ?S3"
      by (rule testing_step[OF S2])
        (use levels_same(2)[OF ack_levels[OF c]] testingD(3)[OF S2, of s] testingD(3)[OF S2, of "\<not> s"]
          testingD(3)[OF S1] in \<open>auto\<close>)
    have "pump_packet feat (ss_conn S s) (ss_conn S (\<not> s)) (of_nat k) packet packet_loss draw =
       Inr (ss_conn ?S3 s, ss_conn ?S3 (\<not> s), buffer)"
      using True gen d c by (simp add: pump_packet_def other)
    moreover have "inbox_of (reliable_of c i) = inbox_of (reliable_of (ss_conn S s) i)" if i: "reliable_channel config i" for i
    proof -
      have "reliable_channel (cn_config (ss_conn ?S2 s)) i" using i testingD(6)[OF S2, of s] by simp
      note E = ack_effect(3)[OF testingD(5)[OF S2] c this]
      have "reliable_ok test_message (nc_channels config ! i) (reliable_of (ss_conn ?S2 s) i)"
        using reliable_ofD(3)[OF testingD(5)[OF S2, of s]] testingD(6)[OF S2, of s] i by simp
      from ack_keeps_inbox(2)[OF this E] inbox i show ?thesis by simp
    qed
    ultimately show ?thesis
      by (intro that[of ?S3 buffer]) (use len S3 tf in simp_all)
  qed
qed

section \<open>A round of the tests\<close>

text \<open>Between the rounds: the ends of the session are the ones of the test, \<open>k\<close> numbers have been used in
  each direction, and every receive queue is drained.\<close>

definition pumping ::
  "features \<Rightarrow> connection_config \<Rightarrow> (bool \<Rightarrow> nat \<Rightarrow> u64 list) \<Rightarrow> nat \<Rightarrow> pumped \<Rightarrow> u64 session \<Rightarrow> bool" where
  "pumping feat config given k p S \<longleftrightarrow> testing feat config given S \<and>
     ss_conn S True = pu_sender p \<and> ss_conn S False = pu_receiver p \<and>
     pu_sender_sequence p = of_nat k \<and> pu_receiver_sequence p = of_nat k \<and>
     (\<forall>s. length (tf_packets (ss_traffic S s)) = k)"

definition all_quiet :: "connection_config \<Rightarrow> u64 session \<Rightarrow> bool" where
  "all_quiet config S \<longleftrightarrow> (\<forall>s i. reliable_channel config i \<longrightarrow> quiet (ss_conn S s) i)"

lemma testing_advance:
  assumes S: "testing feat config given S"
  shows "testing feat config given (S\<lparr>ss_conn := (ss_conn S)(s := connection_advance_time (ss_conn S s) t)\<rparr>)"
  by (rule testing_step[OF S session_step.Time])
    (use levels_same(2)[OF advance_levels(2)[OF testingD(3)[OF S]]] testingD(3)[OF S] in \<open>auto\<close>)

lemma pump_ok:
  assumes l: "lossy_setting feat config given" and P: "pumping feat config given k p S" "k < 4000"
    and quiet: "all_quiet config S"
  obtains p' S' where "pump_connection_update feat config delta_time packet_loss draws p = Inr p'"
    "pumping feat config given (Suc k) p' S'"
    "\<And>s. tf_received (ss_traffic S' s) = tf_received (ss_traffic S s)"
proof -
  have S: "testing feat config given S" and ends: "ss_conn S True = pu_sender p" "ss_conn S False = pu_receiver p"
    and seq: "pu_sender_sequence p = of_nat k" "pu_receiver_sequence p = of_nat k"
    and k: "\<And>s. length (tf_packets (ss_traffic S s)) = k"
    using P(1) by (auto simp: pumping_def)
  have packet: "length (replicate (nc_max_packet_size config) 0 :: u8 list) = 8192"
    using lossy_settingD(3)[OF l] by simp
  have q: "\<forall>i. reliable_channel config i \<longrightarrow> quiet (ss_conn S (\<not> True)) i" using quiet by (simp add: all_quiet_def)
  obtain packet1 S1 where one: "pump_packet feat (ss_conn S True) (ss_conn S (\<not> True)) (of_nat k)
      (replicate (nc_max_packet_size config) 0) packet_loss (fst draws) = Inr (ss_conn S1 True, ss_conn S1 (\<not> True), packet1)"
    "length packet1 = 8192" "testing feat config given S1" "length (tf_packets (ss_traffic S1 True)) = Suc k"
    "ss_traffic S1 (\<not> True) = ss_traffic S (\<not> True)" "tf_received (ss_traffic S1 True) = tf_received (ss_traffic S True)"
    "\<forall>i. reliable_channel config i \<longrightarrow> inbox_of (reliable_of (ss_conn S1 True) i) = inbox_of (reliable_of (ss_conn S True) i)"
    by (rule pump_packet_ok[OF l S k P(2) packet q])
  have k1: "length (tf_packets (ss_traffic S1 False)) = k" using one(5) k by simp
  have q1: "\<forall>i. reliable_channel config i \<longrightarrow> quiet (ss_conn S1 (\<not> False)) i"
    using quiet one(7) by (simp add: all_quiet_def quiet_def)
  obtain packet2 S2 where two: "pump_packet feat (ss_conn S1 False) (ss_conn S1 (\<not> False)) (of_nat k)
      packet1 packet_loss (snd draws) = Inr (ss_conn S2 False, ss_conn S2 (\<not> False), packet2)"
    "testing feat config given S2" "length (tf_packets (ss_traffic S2 False)) = Suc k"
    "ss_traffic S2 (\<not> False) = ss_traffic S1 (\<not> False)" "tf_received (ss_traffic S2 False) = tf_received (ss_traffic S1 False)"
    by (rule pump_packet_ok[OF l one(3) k1 P(2) one(2) q1])
  let ?t = "pu_time p + delta_time"
  let ?S3 = "S2\<lparr>ss_conn := (ss_conn S2)(True := connection_advance_time (ss_conn S2 True) ?t)\<rparr>"
  let ?S4 = "?S3\<lparr>ss_conn := (ss_conn ?S3)(False := connection_advance_time (ss_conn ?S3 False) ?t)\<rparr>"
  have S4: "testing feat config given ?S4" by (rule testing_advance[OF testing_advance[OF two(2)]])
  have calm: "cn_error_level (connection_advance_time (ss_conn S2 True) ?t) = ConnectionNone"
    "cn_error_level (connection_advance_time (ss_conn S2 False) ?t) = ConnectionNone"
    using testingD(3)[OF S4, of True] testingD(3)[OF S4, of False] by (simp_all add: calm_def)
  let ?p' = "\<lparr>pu_time = ?t, pu_sender = ss_conn ?S4 True, pu_receiver = ss_conn ?S4 False,
      pu_sender_sequence = of_nat (Suc k), pu_receiver_sequence = of_nat (Suc k)\<rparr>"
  have "pump_connection_update feat config delta_time packet_loss draws p = Inr ?p'"
    using one(1) two(1) calm ends seq
    by (simp add: pump_connection_update_def Let_def add.commute)
  moreover have "length (tf_packets (ss_traffic ?S4 s)) = Suc k \<and>
      tf_received (ss_traffic ?S4 s) = tf_received (ss_traffic S s)" for s
    using one(4-6) two(3-5) by (cases s) simp_all
  ultimately show ?thesis using S4 by (intro that[of ?p' ?S4]) (auto simp: pumping_def)
qed

text \<open>The loop that receives, on one channel of one end.\<close>

definition follows :: "('m \<Rightarrow> 'a \<Rightarrow> panic + 'a) \<Rightarrow> 'm list \<Rightarrow> (nat \<Rightarrow> 'a \<Rightarrow> bool) \<Rightarrow> bool" where
  "follows body vs acc_ok \<longleftrightarrow> (\<forall>n acc. n < length vs \<longrightarrow> acc_ok n acc \<longrightarrow>
     (\<exists>acc'. body (vs ! n) acc = Inr acc' \<and> acc_ok (Suc n) acc'))"

definition receives_on :: "connection_config \<Rightarrow> bool \<Rightarrow> nat \<Rightarrow> u64 session \<Rightarrow> u64 session \<Rightarrow> bool" where
  "receives_on config s i S S' \<longleftrightarrow> ss_conn S' s = ss_conn S s \<and> ss_traffic S' (\<not> s) = ss_traffic S (\<not> s) \<and>
     tf_packets (ss_traffic S' s) = tf_packets (ss_traffic S s) \<and>
     (\<forall>j. j \<noteq> i \<longrightarrow> tf_received (ss_traffic S' s) j = tf_received (ss_traffic S s) j) \<and>
     (\<forall>j. reliable_channel config j \<longrightarrow> j \<noteq> i \<longrightarrow> reliable_of (ss_conn S' (\<not> s)) j = reliable_of (ss_conn S (\<not> s)) j)"

lemma receives_on_trans:
  "receives_on config s i S S1 \<Longrightarrow> receives_on config s i S1 S2 \<Longrightarrow> receives_on config s i S S2"
  by (simp add: receives_on_def)

lemma receive_each_ok:
  assumes l: "lossy_setting feat config given" and i: "reliable_channel config i"
    and body: "follows body (given s i) acc_ok"
    and S: "testing feat config given S" and acc: "acc_ok (length (tf_received (ss_traffic S s) i)) acc"
  shows "\<exists>S' acc'. receive_each body (ss_conn S (\<not> s)) i acc = Inr (ss_conn S' (\<not> s), acc') \<and>
    testing feat config given S' \<and> acc_ok (length (tf_received (ss_traffic S' s) i)) acc' \<and>
    quiet (ss_conn S' (\<not> s)) i \<and> receives_on config s i S S'"
  using S acc
proof (induction "waiting (ss_conn S (\<not> s)) i" arbitrary: S acc rule: less_induct)
  case less
  note S = less.prems(1)
  let ?c = "ss_conn S (\<not> s)" and ?tf = "ss_traffic S s"
  have i': "reliable_channel (cn_config ?c) i" using i testingD(6)[OF S] by simp
  obtain c where r: "connection_receive_message ?c i = Inr (fst (inbox_pop (inbox_of (reliable_of ?c i))), c)"
    and ib: "inbox_of (reliable_of c i) = snd (inbox_pop (inbox_of (reliable_of ?c i)))"
    by (rule receive_on_calm[OF testingD(5)[OF S] i' testingD(3)[OF S]])
  define x where "x = fst (inbox_pop (inbox_of (reliable_of ?c i)))"
  note r = r[folded x_def]
  let ?S1 = "S\<lparr>ss_conn := (ss_conn S)(\<not> s := c), ss_traffic := (ss_traffic S)(s := ?tf\<lparr>tf_received := (tf_received ?tf)
      (i := tf_received ?tf i @ (case x of None \<Rightarrow> [] | Some (_, m) \<Rightarrow> [m]))\<rparr>)\<rparr>"
  have "session_step feat test_message config S ?S1" by (rule session_step.Receive[OF r refl])
  then have S1: "testing feat config given ?S1"
    by (rule testing_step[OF S]) (use receive_counters(4)[OF r] testingD(3)[OF S] in \<open>auto\<close>)
  have others: "reliable_of c j = reliable_of ?c j" if "reliable_channel config j" "j \<noteq> i" for j
    using receive_effect(3)[OF testingD(5)[OF S] r _ that(2)] that(1) testingD(6)[OF S] by simp
  have one: "receives_on config s i S ?S1" using others by (simp add: receives_on_def)
  show ?case
  proof (cases x)
    case None
    then have "quiet ?c i" by (simp add: x_def quiet_def inbox_pop_def split: option.splits)
    then have "quiet c i" using ib by (simp add: quiet_def inbox_pop_def)
    moreover have "receive_each body ?c i acc = Inr (c, acc)" using r None by (subst receive_each.simps) simp
    ultimately show ?thesis
      using None S1 less.prems(2) one by (intro exI[of _ ?S1] exI[of _ acc]) simp
  next
    case (Some y)
    obtain k m where y: "y = (k, m)" by (cases y)
    let ?n = "length (tf_received ?tf i)"
    have "prefix (tf_received ?tf i @ [m]) (given s i)"
      using testing_bounds(2)[OF S1 l i, of s] Some y by simp
    then have m: "?n < length (given s i)" "m = given s i ! ?n" by (auto simp: prefix_def nth_append)
    obtain acc1 where acc1: "body m acc = Inr acc1" "acc_ok (Suc ?n) acc1"
      using body m less.prems(2) unfolding follows_def by blast
    have "waiting (ss_conn ?S1 (\<not> s)) i < waiting ?c i" using receive_waiting[of ?c i "(k, m)"] r Some y by simp
    moreover have "acc_ok (length (tf_received (ss_traffic ?S1 s) i)) acc1" using acc1(2) Some y by simp
    ultimately obtain S2 acc2 where S2: "receive_each body (ss_conn ?S1 (\<not> s)) i acc1 = Inr (ss_conn S2 (\<not> s), acc2)"
      "testing feat config given S2" "acc_ok (length (tf_received (ss_traffic S2 s) i)) acc2"
      "quiet (ss_conn S2 (\<not> s)) i" "receives_on config s i ?S1 S2"
      using less.hyps[OF _ S1] by blast
    have "receive_each body ?c i acc = Inr (ss_conn S2 (\<not> s), acc2)"
      using r Some y acc1(1) S2(1) by (subst receive_each.simps) simp
    then show ?thesis
      using S2(2-4) receives_on_trans[OF one S2(5)] by (intro exI[of _ S2] exI[of _ acc2]) simp
  qed
qed

section \<open>Rounds\<close>

lemma test_loop_rule:
  assumes "I iter st" "iter \<le> Suc max_iter"
    and "\<And>iter st. iter \<le> Suc max_iter \<Longrightarrow> I iter st \<Longrightarrow>
      \<exists>st' b. body iter st = Inr st' \<and> I (Suc iter) st' \<and> finished st' = Inr b"
  shows "test_loop body finished max_iter iter st = Inl ExceededIterations \<or>
    (\<exists>st' n. test_loop body finished max_iter iter st = Inr st' \<and> I n st' \<and> finished st' = Inr True)"
  using assms(1,2)
proof (induction "Suc max_iter - iter" arbitrary: iter st rule: less_induct)
  case less
  obtain st' b where r: "body iter st = Inr st'" "I (Suc iter) st'" "finished st' = Inr b"
    using assms(3)[OF less.prems(2,1)] by blast
  show ?case
  proof (cases "b \<or> max_iter < iter")
    case True
    then show ?thesis using r by (subst (1 2) test_loop.simps) (cases b; auto)
  next
    case False
    then have "test_loop body finished max_iter iter st = test_loop body finished max_iter (Suc iter) st'"
      using r by (subst test_loop.simps) simp
    moreover have "Suc max_iter - Suc iter < Suc max_iter - iter" "Suc iter \<le> Suc max_iter"
      using False by (auto simp: not_less Suc_diff_le)
    ultimately show ?thesis using less.hyps[OF _ r(2)] by simp
  qed
qed

section \<open>Sending\<close>

text \<open>While messages are given to ends that have not sent a packet yet: nothing has arrived, nothing has
  been acknowledged.\<close>

definition sending :: "features \<Rightarrow> connection_config \<Rightarrow> (bool \<Rightarrow> nat \<Rightarrow> u64 list) \<Rightarrow> u64 session \<Rightarrow> bool" where
  "sending feat config given S \<longleftrightarrow> testing feat config given S \<and> all_quiet config S \<and>
     (\<forall>s. tf_packets (ss_traffic S s) = [] \<and> tf_received (ss_traffic S s) = (\<lambda>_. [])) \<and>
     (\<forall>s i. reliable_channel config i \<longrightarrow> ob_oldest (outbox_of (reliable_of (ss_conn S s) i)) = 0)"

lemma nothing_sent_quiet:
  assumes S: "testing feat config given S" and i: "reliable_channel config i" "given s i = []"
  shows "quiet (ss_conn S (\<not> s)) i"
proof (rule ccontr)
  let ?r = "reliable_of (ss_conn S (\<not> s)) i"
  assume "\<not> quiet (ss_conn S (\<not> s)) i"
  then obtain m where m: "ib_pending (inbox_of ?r) (ib_next (inbox_of ?r)) = Some m" by (auto simp: quiet_def)
  have "receiver_inv (link_of feat test_message config (ss_conn S s) (ss_conn S (\<not> s)) (ss_traffic S s) i)"
    using direction_invD(2)[OF session_invD(2)[OF testingD(1)[OF S], of s] i(1)] by (simp add: link_inv_def)
  from receiver_invD(6)[OF this] m testingD(4)[OF S, of s] i(2) show False by (auto simp: names_def)
qed

lemma sending_start:
  assumes config: "connection_config_ok config" and new: "\<And>s. connection_new config t = Inr (c s)"
  shows "sending feat config (\<lambda>_ _. []) \<lparr>ss_conn = c, ss_traffic = (\<lambda>_. no_traffic)\<rparr>" (is "sending _ _ _ ?S")
proof -
  have inv: "session_inv feat test_message config ?S" by (rule session_start_inv[OF config new])
  have "counted config ?S" by (rule counted_reachable[OF session_reachable.start[OF config new]])
  with inv have S: "testing feat config (\<lambda>_ _. []) ?S"
    using connection_new_counters(2)[OF new] by (simp add: testing_def no_traffic_def)
  have "ob_oldest (outbox_of (reliable_of (c s) i)) = 0" if "reliable_channel config i" for s i
    using connection_new_reliable[OF new that, of s]
    by (auto simp: reliable_new_def rbind_eq_Inr outbox_of_def split: if_splits
        dest!: sym[where t = "reliable_of (c s) i"])
  moreover have "quiet (c s) i" if "reliable_channel config i" for s i
    using nothing_sent_quiet[OF S that, of "\<not> s"] by simp
  ultimately show ?thesis using S by (simp add: sending_def all_quiet_def no_traffic_def)
qed

lemma sending_send:
  assumes S: "sending feat config given S" and i: "reliable_channel config i"
    and room: "length (given s i) < cc_message_send_queue_size (nc_channels config ! i)"
  obtains S' where "connection_send_message test_message (ss_conn S s) i m = Inr (ss_conn S' s)"
    "sending feat config (given(s := (given s)(i := given s i @ [m]))) S'" "ss_conn S' (\<not> s) = ss_conn S (\<not> s)"
proof -
  have T: "testing feat config given S" and q: "all_quiet config S"
    and z: "\<And>s. tf_packets (ss_traffic S s) = []" "\<And>s. tf_received (ss_traffic S s) = (\<lambda>_. [])"
    and old: "\<And>s i. reliable_channel config i \<Longrightarrow> ob_oldest (outbox_of (reliable_of (ss_conn S s) i)) = 0"
    using S by (auto simp: sending_def)
  let ?c = "ss_conn S s"
  note ok = testingD(5,6)[OF T, of s]
  have ii: "i < length (cn_channels ?c)" using reliable_ofD(1)[OF ok(1)] i ok(2) by simp
  obtain rl where rl: "ch_processor (cn_channels ?c ! i) = ReliableProcessor rl" "reliable_of ?c i = rl"
    "reliable_ok test_message (nc_channels config ! i) rl" using reliable_ofE[OF ok(1), of i] i ok(2) by metis
  have sok: "sender_ok test_message rl" using rl(3) by (simp add: reliable_ok_def)
  have "end_inv test_message config ?c" by (rule session_invD(1)[OF testingD(1)[OF T]])
  then have size: "ob_size (outbox_of rl) = cc_message_send_queue_size (nc_channels config ! i)"
    using i unfolding rl(2)[symmetric] by (simp add: end_inv_def)
  have small: "ob_size (outbox_of rl) \<le> 16384" using rls.view_ok[OF sok] by (simp add: outbox_ok_def)
  have "sender_inv test_message (link_of feat test_message config ?c (ss_conn S (\<not> s)) (ss_traffic S s) i)"
    using direction_invD(2)[OF session_invD(2)[OF testingD(1)[OF T]] i] by (simp add: link_inv_def)
  from sender_invD(3)[OF this] have "ob_next (outbox_of rl) = of_nat (length (given s i))"
    using testingD(4)[OF T, of s] rl(2) by simp
  then have "unat (ob_next (outbox_of rl) - ob_oldest (outbox_of rl)) = length (given s i)"
    using old[OF i, of s] rl(2) room size small by (simp add: unat_u16_of_nat)
  then have can: "reliable_can_send_message rl = Inr True" using rls.can_send_room[OF sok] room size by simp
  then have takes: "connection_takes ?c i"
    using testingD(3)[OF T, of s] ii rl(1) by (simp add: connection_takes_def calm_def channel_can_send_message_def)
  obtain c where c: "connection_send_message test_message ?c i m = Inr c"
    by (rule send_message_ok[OF ok(1) ii test_message_measurable])
  let ?tf = "(ss_traffic S s)\<lparr>tf_sent := (tf_sent (ss_traffic S s))(i := tf_sent (ss_traffic S s) i @ [m])\<rparr>"
  let ?S' = "S\<lparr>ss_conn := (ss_conn S)(s := c), ss_traffic := (ss_traffic S)(s := ?tf)\<rparr>"
  have step: "session_step feat test_message config S ?S'"
    by (rule session_step.Send[OF test_message_measurable c]) (simp add: takes)
  have calm: "calm c" by (rule send_counters(4)[OF c testingD(3)[OF T] takes])
  let ?given = "given(s := (given s)(i := given s i @ [m]))"
  have T': "testing feat config ?given ?S'"
    using session_step_keeps[OF test_message_lawful step testingD(1)[OF T]] counted_step[OF testingD(2)[OF T] step] calm
      testingD(3,4)[OF T] by (simp add: testing_def)
  note E = send_effect[OF ok(1) test_message_measurable c, unfolded ok(2)]
  have "inbox_of (reliable_of c j) = inbox_of (reliable_of ?c j) \<and> ob_oldest (outbox_of (reliable_of c j)) = 0"
    if j: "reliable_channel config j" for j
  proof (cases "j = i")
    case True
    have s: "reliable_send_message test_message rl m = Inr (reliable_of c i)" using E(4)[OF i takes] rl(2) by simp
    have "outbox_of (reliable_of c i) = outbox_add (outbox_of rl) m"
      using rls.send_adds[OF sok can test_message_measurable, of m] s by auto
    then show ?thesis
      using True send_keeps_inbox(2)[OF s] rl(2) old[OF i, of s] by (simp add: outbox_add_def)
  next
    case False
    then show ?thesis using E(3)[OF j] old[OF j, of s] by simp
  qed
  then have "all_quiet config ?S'" "\<forall>r j. reliable_channel config j \<longrightarrow> ob_oldest (outbox_of (reliable_of (ss_conn ?S' r) j)) = 0"
    using q old by (simp_all add: all_quiet_def quiet_def)
  with T' z have "sending feat config ?given ?S'" by (simp add: sending_def)
  then show ?thesis by (intro that[of ?S']) (simp_all add: c)
qed

lemma send_values_ok:
  assumes S: "sending feat config given S" and i: "reliable_channel config i" "given s i = []"
    and room: "messages \<le> cc_message_send_queue_size (nc_channels config ! i)"
  obtains S' where "send_values (ss_conn S s) i f messages = Inr (ss_conn S' s)"
    "sending feat config (given(s := (given s)(i := map f [0..<messages]))) S'" "ss_conn S' (\<not> s) = ss_conn S (\<not> s)"
proof -
  let ?given = "\<lambda>n. given(s := (given s)(i := map f [0..<n]))"
  let ?I = "\<lambda>n cn. \<exists>S'. sending feat config (?given n) S' \<and> ss_conn S' s = cn \<and> ss_conn S' (\<not> s) = ss_conn S (\<not> s)"
  have "\<exists>cn. rfold (\<lambda>cn i'. connection_send_message test_message cn i (f i')) (ss_conn S s) [0..<messages] = Inr cn \<and>
      ?I messages cn"
  proof (rule rfold_upt)
    have "?given 0 = given" using i(2) by (simp add: fun_upd_idem)
    then show "?I 0 (ss_conn S s)" using S by auto
  next
    fix n cn assume n: "n < messages" and I: "?I n cn"
    then obtain S1 where S1: "sending feat config (?given n) S1" "ss_conn S1 s = cn" "ss_conn S1 (\<not> s) = ss_conn S (\<not> s)"
      by blast
    have "length (?given n s i) < cc_message_send_queue_size (nc_channels config ! i)" using n room by simp
    then obtain S2 where S2: "connection_send_message test_message (ss_conn S1 s) i (f n) = Inr (ss_conn S2 s)"
      "sending feat config ((?given n)(s := (?given n s)(i := ?given n s i @ [f n]))) S2"
      "ss_conn S2 (\<not> s) = ss_conn S1 (\<not> s)"
      by (rule sending_send[OF S1(1) i(1)])
    have "(?given n)(s := (?given n s)(i := ?given n s i @ [f n])) = ?given (Suc n)" by simp
    with S1 S2 show "\<exists>cn'. connection_send_message test_message cn i (f n) = Inr cn' \<and> ?I (Suc n) cn'"
      by (intro exI[of _ "ss_conn S2 s"]) auto
  qed simp
  with that show ?thesis by (auto simp: send_values_def)
qed

abbreviation reliable_test_channel :: channel_config where
  "reliable_test_channel \<equiv> (channel_config_new ReliableOrdered)\<lparr>cc_max_messages_per_packet := 8,
     cc_sent_packet_buffer_size := 16, cc_kind := ReliableOrdered\<rparr>"

abbreviation reliable_test_config :: "usize \<Rightarrow> connection_config" where
  "reliable_test_config n \<equiv> test_config n (\<lambda>c. c\<lparr>cc_max_messages_per_packet := 8, cc_sent_packet_buffer_size := 16,
     cc_kind := ReliableOrdered\<rparr>)"

lemma reliable_test_channel_ok: "channel_config_ok reliable_test_channel"
proof -
  have "(1024 :: nat) dvd 65536" "(16 :: nat) dvd 65536"
    by (rule dvdI[of _ _ 64], simp) (rule dvdI[of _ _ 4096], simp)
  then show ?thesis by (simp add: channel_config_ok_def reliable_config_ok_def channel_config_new_def)
qed

lemma reliable_test_setting:
  assumes "\<not> feat_serialize_check feat" "n \<in> {1, 2}" "\<forall>s i. length (given s i) \<le> 1024"
  shows "lossy_setting feat (reliable_test_config n) given" "connection_config_ok (reliable_test_config n)"
    "reliable_channel (reliable_test_config n) i \<longleftrightarrow> i < n"
    "i < n \<Longrightarrow> cc_message_send_queue_size (nc_channels (reliable_test_config n) ! i) = 1024"
proof -
  have "uses_at_most test_message reliable_test_channel 100"
    by (rule test_channel_uses) (simp_all add: channel_config_new_def)
  moreover show ok: "connection_config_ok (reliable_test_config n)"
    using reliable_test_channel_ok assms(2) by (auto simp: connection_config_ok_def)
  ultimately show "lossy_setting feat (reliable_test_config n) given"
    using assms by (auto simp: lossy_setting_def) (simp_all add: channel_config_new_def)
  show "reliable_channel (reliable_test_config n) i \<longleftrightarrow> i < n" by (auto simp: reliable_channel_def)
  show "i < n \<Longrightarrow> cc_message_send_queue_size (nc_channels (reliable_test_config n) ! i) = 1024"
    by (simp add: channel_config_new_def)
qed

section \<open>The reliable tests\<close>

definition between ::
  "features \<Rightarrow> connection_config \<Rightarrow> (bool \<Rightarrow> nat \<Rightarrow> u64 list) \<Rightarrow> nat \<Rightarrow> pumped \<Rightarrow> u64 session \<Rightarrow> bool" where
  "between feat config given k p S \<longleftrightarrow> pumping feat config given k p S \<and> all_quiet config S"

lemma sending_between:
  assumes "sending feat config given S"
  shows "between feat config given 0 \<lparr>pu_time = t, pu_sender = ss_conn S True, pu_receiver = ss_conn S False,
    pu_sender_sequence = 0, pu_receiver_sequence = 0\<rparr> S"
  using assms by (simp add: between_def pumping_def sending_def)

lemma received_count:
  assumes "testing feat config given S" "i < length (nc_channels config)"
  shows "received (ss_conn S (\<not> s)) i = Inr (length (tf_received (ss_traffic S s) i))"
  using testingD(2)[OF assms(1)] assms(2)
  by (simp add: counted_def received_def connection_channel_counters_def counters_def)

text \<open>A pump, and the receiving of one end on its channel 0 in between.\<close>

lemma between_pump:
  assumes l: "lossy_setting feat config given" and B: "between feat config given k p S" and k: "k < 4000"
  obtains p' S' where "pump_connection_update feat config delta_time packet_loss draws p = Inr p'"
    "pumping feat config given (Suc k) p' S'" "\<And>s. tf_received (ss_traffic S' s) = tf_received (ss_traffic S s)"
  using pump_ok[OF l _ k, of p S] B unfolding between_def by metis

lemma pumping_receive:
  assumes l: "lossy_setting feat config given" and i: "reliable_channel config i"
    and body: "follows body (given s i) acc_ok"
    and P: "pumping feat config given k p S" and acc: "acc_ok (length (tf_received (ss_traffic S s) i)) acc"
  obtains c S' acc' where
    "receive_each body (if s then pu_receiver p else pu_sender p) i acc = Inr (c, acc')"
    "pumping feat config given k (if s then p\<lparr>pu_receiver := c\<rparr> else p\<lparr>pu_sender := c\<rparr>) S'"
    "acc_ok (length (tf_received (ss_traffic S' s) i)) acc'" "quiet (ss_conn S' (\<not> s)) i"
    "receives_on config s i S S'"
proof -
  have S: "testing feat config given S" using P by (simp add: pumping_def)
  have e: "(if s then pu_receiver p else pu_sender p) = ss_conn S (\<not> s)" using P by (simp add: pumping_def)
  obtain S' acc' where R: "receive_each body (ss_conn S (\<not> s)) i acc = Inr (ss_conn S' (\<not> s), acc')"
    "testing feat config given S'" "acc_ok (length (tf_received (ss_traffic S' s) i)) acc'"
    "quiet (ss_conn S' (\<not> s)) i" "receives_on config s i S S'"
    using receive_each_ok[OF l i body S, where acc = acc] acc by blast
  have "length (tf_packets (ss_traffic S' r)) = k" for r
    using R(5) P by (cases "r = s") (auto simp: pumping_def receives_on_def)
  then have "pumping feat config given k (if s then p\<lparr>pu_receiver := ss_conn S' (\<not> s)\<rparr>
      else p\<lparr>pu_sender := ss_conn S' (\<not> s)\<rparr>) S'"
    using P R(2,5) by (cases s) (simp_all add: pumping_def receives_on_def)
  from that[OF R(1)[folded e] this R(3-5)] show ?thesis .
qed

lemmas receiver_receives = pumping_receive[where s = True, simplified]
lemmas sender_receives = pumping_receive[where s = False, simplified]

lemma follows_counting: "follows expect_next (counting 1024) (\<lambda>n e. e = of_nat n)"
  unfolding follows_def
proof (intro allI impI)
  fix n and e :: u64
  assume n: "n < length (counting 1024)" "e = of_nat n"
  show "\<exists>e'. expect_next (counting 1024 ! n) e = Inr e' \<and> e' = of_nat (Suc n)"
    by (rule expect_next_ok[OF n(1) _ _ n(2)]) simp_all
qed

lemma follows_skip: "follows (\<lambda>_ u. Inr u) vs (\<lambda>_ _. True)"
  by (simp add: follows_def)

text \<open>The loop, for whatever is received in a round.\<close>

lemma lossy_loop:
  assumes l: "lossy_setting feat config given" and max: "max_iter < 3999"
    and start: "between feat config given 0 p0 S0" "X (\<lambda>s. tf_received (ss_traffic S0 s)) x0"
    and round: "\<And>k p S x. pumping feat config given k p S \<Longrightarrow> X (\<lambda>s. tf_received (ss_traffic S s)) x \<Longrightarrow>
      \<exists>p' x' S'. recv p x = Inr (p', x') \<and> between feat config given k p' S' \<and>
        X (\<lambda>s. tf_received (ss_traffic S' s)) x'"
    and fin: "\<And>k p S x. between feat config given k p S \<Longrightarrow> \<exists>b. finished (p, x) = Inr b"
  shows "test_loop (\<lambda>iter (p, x). rbind (pump_connection_update feat config delta_time packet_loss (rng iter) p) (\<lambda>p. recv p x))
      finished max_iter 0 (p0, x0) = Inl ExceededIterations \<or>
    (\<exists>k p S x. test_loop (\<lambda>iter (p, x). rbind (pump_connection_update feat config delta_time packet_loss (rng iter) p) (\<lambda>p. recv p x))
      finished max_iter 0 (p0, x0) = Inr (p, x) \<and> finished (p, x) = Inr True \<and>
      between feat config given k p S \<and> X (\<lambda>s. tf_received (ss_traffic S s)) x)" (is "?loop = _ \<or> _")
proof -
  let ?body = "\<lambda>iter (p, x). rbind (pump_connection_update feat config delta_time packet_loss (rng iter) p) (\<lambda>p. recv p x)"
  let ?I = "\<lambda>k (p, x). \<exists>S. between feat config given k p S \<and> X (\<lambda>s. tf_received (ss_traffic S s)) x"
  have "?loop = Inl ExceededIterations \<or> (\<exists>st n. ?loop = Inr st \<and> ?I n st \<and> finished st = Inr True)"
  proof (rule test_loop_rule)
    fix iter st assume iter: "iter \<le> Suc max_iter" and I: "?I iter st"
    obtain p x where st: "st = (p, x)" by (cases st)
    obtain S where S: "between feat config given iter p S" "X (\<lambda>s. tf_received (ss_traffic S s)) x"
      using I st by auto
    have "iter < 4000" using iter max by simp
    then obtain p1 S1 where P: "pump_connection_update feat config delta_time packet_loss (rng iter) p = Inr p1"
      "pumping feat config given (Suc iter) p1 S1" "\<And>s. tf_received (ss_traffic S1 s) = tf_received (ss_traffic S s)"
      by (rule between_pump[OF l S(1)]) blast
    have "X (\<lambda>s. tf_received (ss_traffic S1 s)) x" using S(2) P(3) by simp
    from round[OF P(2) this] obtain p2 x2 S2 where R: "recv p1 x = Inr (p2, x2)" "between feat config given (Suc iter) p2 S2"
      "X (\<lambda>s. tf_received (ss_traffic S2 s)) x2" by blast
    with P(1) fin[OF R(2), of x2] st
    show "\<exists>st' b. ?body iter st = Inr st' \<and> ?I (Suc iter) st' \<and> finished st' = Inr b" by auto
  qed (use start in auto)
  then show ?thesis by auto
qed

lemma between_count:
  assumes l: "lossy_setting feat config given" and B: "between feat config given k p S" and i: "reliable_channel config i"
  shows "received (pu_receiver p) i = Inr (length (tf_received (ss_traffic S True) i))"
    "received (pu_sender p) i = Inr (length (tf_received (ss_traffic S False) i))"
    "length (tf_received (ss_traffic S s) i) \<le> length (given s i)"
proof -
  have S: "testing feat config given S" "pu_receiver p = ss_conn S False" "pu_sender p = ss_conn S True"
    using B by (simp_all add: between_def pumping_def)
  have "i < length (nc_channels config)" using i by (simp add: reliable_channel_def)
  then show "received (pu_receiver p) i = Inr (length (tf_received (ss_traffic S True) i))"
    "received (pu_sender p) i = Inr (length (tf_received (ss_traffic S False) i))"
    using received_count[OF S(1), of i True] received_count[OF S(1), of i False] S(2,3) by simp_all
  show "length (tf_received (ss_traffic S s) i) \<le> length (given s i)"
    by (rule prefix_length_le[OF testing_bounds(2)[OF S(1) l i]])
qed

lemma lossy_result:
  assumes "lossy_setting feat config given" "max_iter < 3999"
    and "between feat config given 0 p0 S0" "X (\<lambda>s. tf_received (ss_traffic S0 s)) x0"
    and "\<And>k p S x. pumping feat config given k p S \<Longrightarrow> X (\<lambda>s. tf_received (ss_traffic S s)) x \<Longrightarrow>
      \<exists>p' x' S'. recv p x = Inr (p', x') \<and> between feat config given k p' S' \<and>
        X (\<lambda>s. tf_received (ss_traffic S' s)) x'"
    and "\<And>k p S x. between feat config given k p S \<Longrightarrow> \<exists>b. finished (p, x) = Inr b \<and> (b \<longrightarrow> after (p, x) = Inr ())"
  shows "rbind (test_loop (\<lambda>iter (p, x). rbind (pump_connection_update feat config delta_time packet_loss (rng iter) p) (\<lambda>p. recv p x))
      finished max_iter 0 (p0, x0)) after \<in> {Inr (), Inl ExceededIterations}"
proof -
  define loop where "loop = test_loop
    (\<lambda>iter (p, x). rbind (pump_connection_update feat config delta_time packet_loss (rng iter) p) (\<lambda>p. recv p x))
    finished max_iter 0 (p0, x0)"
  have "loop = Inl ExceededIterations \<or> (\<exists>k p S x. loop = Inr (p, x) \<and> finished (p, x) = Inr True \<and>
      between feat config given k p S \<and> X (\<lambda>s. tf_received (ss_traffic S s)) x)"
    unfolding loop_def by (rule lossy_loop[where X = X, OF assms(1-4)]) (use assms(5,6) in \<open>blast+\<close>)
  then consider "loop = Inl ExceededIterations" | k p S x where "loop = Inr (p, x)" "finished (p, x) = Inr True"
    "between feat config given k p S" by blast
  then have "rbind loop after \<in> {Inr (), Inl ExceededIterations}"
  proof cases
    case 1
    then show ?thesis by simp
  next
    case 2
    then show ?thesis using assms(6)[OF 2(3), of x] by auto
  qed
  then show ?thesis by (simp only: loop_def)
qed

lemma quiet_if:
  assumes P: "pumping feat config given k p S" and on: "receives_on config s i S0 S" "reliable_channel config j"
  shows "j \<noteq> i \<Longrightarrow> quiet (ss_conn S0 (\<not> s)) j \<Longrightarrow> quiet (ss_conn S (\<not> s)) j"
    "quiet (ss_conn S0 s) j \<Longrightarrow> quiet (ss_conn S s) j"
    "given r j = [] \<Longrightarrow> quiet (ss_conn S (\<not> r)) j"
  using P on nothing_sent_quiet[of feat config given S j r] by (simp_all add: receives_on_def quiet_def pumping_def)

lemma reliable_test_result:
  assumes plain: "\<not> feat_serialize_check feat"
  shows "test_send_receive_reliable_messages feat rng \<in> {Inr (), Inl ExceededIterations}"
proof -
  let ?config = "reliable_test_config 1"
  let ?none = "\<lambda>(_ :: bool) (_ :: nat). [] :: u64 list"
  define given where "given = ?none(True := (?none True)(0 := counting 1024))"
  have g: "given True 0 = counting 1024" "given False i = []" for i by (simp_all add: given_def)
  have "\<forall>s i. length (given s i) \<le> 1024" by (simp add: given_def)
  note C = reliable_test_setting[OF plain insertI1 this]
  have rc: "reliable_channel ?config 0" using C(3) by simp
  obtain c :: "u64 connection" where new: "connection_new ?config (f64_of_int 100) = Inr c"
    by (rule connection_new_total[OF C(2)])
  have start: "sending feat ?config ?none \<lparr>ss_conn = (\<lambda>_. c), ss_traffic = (\<lambda>_. no_traffic)\<rparr>" (is "sending _ _ _ ?S0")
    by (rule sending_start[OF C(2) new])
  obtain S1 where send: "send_values c 0 of_nat 1024 = Inr (ss_conn S1 True)" and S1: "sending feat ?config given S1"
    and c1: "ss_conn S1 False = c"
    using send_values_ok[OF start, where i = 0 and s = True and messages = 1024 and f = of_nat] C(3,4)
    unfolding given_def by auto
  let ?p0 = "\<lparr>pu_time = f64_of_int 100, pu_sender = ss_conn S1 True, pu_receiver = c,
          pu_sender_sequence = 0, pu_receiver_sequence = 0\<rparr>"
  let ?recv = "\<lambda>p e. rbind (receive_each expect_next (pu_receiver p) 0 e) (\<lambda>(receiver, e).
             Inr (p\<lparr>pu_receiver := receiver\<rparr>, e))"
  let ?finished = "\<lambda>(p, _ :: u64). rbind (received (pu_receiver p) 0) (\<lambda>count. Inr (1024 \<le> count))"
  let ?after = "\<lambda>(p, _ :: u64). rbind (received (pu_receiver p) 0) (\<lambda>count. rassert (count = 1024))"
  let ?X = "\<lambda>recd e. e = (of_nat (length (recd True (0 :: nat))) :: u64)"
  have B0: "between feat ?config given 0 ?p0 S1" using sending_between[OF S1] c1 by simp
  have X0: "?X (\<lambda>s. tf_received (ss_traffic S1 s)) 0" using S1 by (simp add: sending_def)
  have round: "\<exists>p' e' S'. ?recv p e = Inr (p', e') \<and> between feat ?config given k p' S' \<and>
        ?X (\<lambda>s. tf_received (ss_traffic S' s)) e'"
    if P: "pumping feat ?config given k p S" and e: "?X (\<lambda>s. tf_received (ss_traffic S s)) e" for k p S e
  proof -
    obtain d S' e' where R: "receive_each expect_next (pu_receiver p) 0 e = Inr (d, e')"
      "pumping feat ?config given k (p\<lparr>pu_receiver := d\<rparr>) S'"
      "e' = of_nat (length (tf_received (ss_traffic S' True) 0))" "quiet (ss_conn S' False) 0"
      "receives_on ?config True 0 S S'"
      by (rule receiver_receives[OF C(1) rc follows_counting[folded g(1)] P e])
    have "all_quiet ?config S'"
      using R(4) quiet_if(3)[OF R(2,5), of 0 False] g(2) C(3) by (auto simp: all_quiet_def all_bool_eq)
    with R show ?thesis by (intro exI[of _ "p\<lparr>pu_receiver := d\<rparr>"] exI[of _ e'] exI[of _ S']) (simp add: between_def)
  qed
  have after: "\<exists>b. ?finished (p, x) = Inr b \<and> (b \<longrightarrow> ?after (p, x) = Inr ())" if "between feat ?config given k p S" for k p S x
    using between_count(1)[OF C(1) that rc] between_count(3)[OF C(1) that rc, of True] g by (auto dest: le_antisym)
  have "rbind (test_loop (\<lambda>iter (p, e). rbind (pump_connection_update feat ?config (f64_round 16 1000 0) loss_90 (rng iter) p)
      (\<lambda>p. ?recv p e)) ?finished 1920 0 (?p0, 0)) ?after \<in> {Inr (), Inl ExceededIterations}"
    by (rule lossy_result[where X = ?X and recv = ?recv and finished = ?finished and after = ?after, OF C(1) _ B0 X0 round after]) simp
  then show ?thesis
    using C(4) new send by (simp add: test_send_receive_reliable_messages_def Let_def)
qed

text \<open>Both ends send.\<close>

definition duplex_given :: "nat \<Rightarrow> bool \<Rightarrow> nat \<Rightarrow> u64 list" where
  "duplex_given n = (\<lambda>_ i. if i = 0 then counting n else [])"

lemma duplex_sends:
  assumes S: "sending feat config (duplex_given 0) S" and i: "reliable_channel config 0"
    and room: "messages \<le> cc_message_send_queue_size (nc_channels config ! 0)"
  obtains S' where "rfold (\<lambda>(sender, receiver) i.
          rbind (connection_send_message test_message sender 0 (of_nat i)) (\<lambda>sender.
          rbind (connection_send_message test_message receiver 0 (of_nat i)) (\<lambda>receiver.
          Inr (sender, receiver)))) (ss_conn S True, ss_conn S False) [0..<messages] = Inr (ss_conn S' True, ss_conn S' False)"
    "sending feat config (duplex_given messages) S'"
proof -
  let ?send = "\<lambda>(sender, receiver) i.
          rbind (connection_send_message test_message sender 0 (of_nat i)) (\<lambda>sender.
          rbind (connection_send_message test_message receiver 0 (of_nat i)) (\<lambda>receiver.
          Inr (sender, receiver)))"
  let ?I = "\<lambda>n st. \<exists>S'. sending feat config (duplex_given n) S' \<and> st = (ss_conn S' True, ss_conn S' False)"
  have "\<exists>st. rfold ?send (ss_conn S True, ss_conn S False) [0..<messages] = Inr st \<and> ?I messages st"
  proof (rule rfold_upt)
    show "?I 0 (ss_conn S True, ss_conn S False)" using S by auto
  next
    fix n st assume n: "n < messages" and I: "?I n st"
    then obtain S1 where S1: "sending feat config (duplex_given n) S1" "st = (ss_conn S1 True, ss_conn S1 False)" by blast
    let ?g1 = "(duplex_given n)(True := (duplex_given n True)(0 := duplex_given n True 0 @ [of_nat n]))"
    let ?g2 = "?g1(False := (?g1 False)(0 := ?g1 False 0 @ [of_nat n]))"
    have room1: "length (duplex_given n True 0) < cc_message_send_queue_size (nc_channels config ! 0)"
      "length (?g1 False 0) < cc_message_send_queue_size (nc_channels config ! 0)"
      using n room by (simp_all add: duplex_given_def)
    obtain S2 where S2: "connection_send_message test_message (ss_conn S1 True) 0 (of_nat n) = Inr (ss_conn S2 True)"
      "sending feat config ?g1 S2" "ss_conn S2 (\<not> True) = ss_conn S1 (\<not> True)"
      by (rule sending_send[OF S1(1) i room1(1)])
    obtain S3 where S3: "connection_send_message test_message (ss_conn S2 False) 0 (of_nat n) = Inr (ss_conn S3 False)"
      "sending feat config ?g2 S3" "ss_conn S3 (\<not> False) = ss_conn S2 (\<not> False)"
      by (rule sending_send[OF S2(2) i room1(2)])
    have "?g2 = duplex_given (Suc n)" by (auto simp: duplex_given_def fun_eq_iff)
    then show "\<exists>st'. ?send st n = Inr st' \<and> ?I (Suc n) st'"
      using S1(2) S2 S3 by (intro exI[of _ "(ss_conn S3 True, ss_conn S3 False)"]) auto
  qed simp
  with that show ?thesis by auto
qed

lemma duplex_test_result:
  assumes plain: "\<not> feat_serialize_check feat"
  shows "test_duplex_reliable_messages feat rng \<in> {Inr (), Inl ExceededIterations}"
proof -
  let ?config = "reliable_test_config 1" and ?given = "duplex_given 1024"
  have g: "?given s 0 = counting 1024" for s by (simp add: duplex_given_def)
  have "\<forall>s i. length (?given s i) \<le> 1024" by (simp add: duplex_given_def)
  note C = reliable_test_setting[OF plain insertI1 this]
  have rc: "reliable_channel ?config 0" and rc': "reliable_channel ?config i \<Longrightarrow> i = 0" for i using C(3) by simp_all
  obtain c :: "u64 connection" where new: "connection_new ?config (f64_of_int 100) = Inr c"
    by (rule connection_new_total[OF C(2)])
  have z: "duplex_given 0 = (\<lambda>_ _. [])" by (simp add: duplex_given_def fun_eq_iff)
  have start: "sending feat ?config (duplex_given 0) \<lparr>ss_conn = (\<lambda>_. c), ss_traffic = (\<lambda>_. no_traffic)\<rparr>"
    unfolding z by (rule sending_start[OF C(2) new])
  obtain S1 where send: "rfold (\<lambda>(sender, receiver) i.
          rbind (connection_send_message test_message sender 0 (of_nat i)) (\<lambda>sender.
          rbind (connection_send_message test_message receiver 0 (of_nat i)) (\<lambda>receiver.
          Inr (sender, receiver)))) (c, c) [0..<1024] = Inr (ss_conn S1 True, ss_conn S1 False)"
    and S1: "sending feat ?config ?given S1"
    by (rule duplex_sends[OF start rc, where messages = 1024]) (use C(4) in simp_all)
  let ?p0 = "\<lparr>pu_time = f64_of_int 100, pu_sender = ss_conn S1 True, pu_receiver = ss_conn S1 False,
          pu_sender_sequence = 0, pu_receiver_sequence = 0\<rparr>"
  let ?recv = "\<lambda>p x. case x of (sender_expect_value, receiver_expect_value) \<Rightarrow>
      rbind (receive_each expect_next (pu_sender p) 0 sender_expect_value) (\<lambda>(sender, sender_expect_value).
      rbind (receive_each expect_next (pu_receiver p) 0 receiver_expect_value) (\<lambda>(receiver, receiver_expect_value).
      Inr (p\<lparr>pu_sender := sender, pu_receiver := receiver\<rparr>, sender_expect_value, receiver_expect_value)))"
  let ?finished = "\<lambda>(p, _ :: u64 \<times> u64). rbind (received (pu_receiver p) 0) (\<lambda>received_count.
      if 1024 \<le> received_count then rbind (received (pu_sender p) 0) (\<lambda>count. Inr (1024 \<le> count)) else Inr False)"
  let ?after = "\<lambda>(p, _ :: u64 \<times> u64). rbind (received (pu_receiver p) 0) (\<lambda>count.
      rbind (rassert (count = 1024)) (\<lambda>_. rbind (received (pu_sender p) 0) (\<lambda>count. rassert (count = 1024))))"
  let ?X = "\<lambda>recd e. e = (of_nat (length (recd False (0 :: nat))) :: u64, of_nat (length (recd True (0 :: nat))) :: u64)"
  have B0: "between feat ?config ?given 0 ?p0 S1" by (rule sending_between[OF S1])
  have X0: "?X (\<lambda>s. tf_received (ss_traffic S1 s)) (0, 0)" using S1 by (simp add: sending_def)
  have round: "\<exists>p' e' S'. ?recv p e = Inr (p', e') \<and> between feat ?config ?given k p' S' \<and>
        ?X (\<lambda>s. tf_received (ss_traffic S' s)) e'"
    if P: "pumping feat ?config ?given k p S" and e: "?X (\<lambda>s. tf_received (ss_traffic S s)) e" for k p S e
  proof -
    obtain d S' e' where R: "receive_each expect_next (pu_sender p) 0 (fst e) = Inr (d, e')"
      "pumping feat ?config ?given k (p\<lparr>pu_sender := d\<rparr>) S'"
      "e' = of_nat (length (tf_received (ss_traffic S' False) 0))" "quiet (ss_conn S' True) 0"
      "receives_on ?config False 0 S S'"
      by (rule sender_receives[OF C(1) rc follows_counting[folded g(1)[of False]] P, where acc = "fst e"]) (use e in simp)
    have e2: "snd e = of_nat (length (tf_received (ss_traffic S' True) 0))"
      using e R(5) by (simp add: receives_on_def)
    obtain d2 S2 e3 where R2: "receive_each expect_next (pu_receiver p) 0 (snd e) = Inr (d2, e3)"
      "pumping feat ?config ?given k (p\<lparr>pu_sender := d, pu_receiver := d2\<rparr>) S2"
      "e3 = of_nat (length (tf_received (ss_traffic S2 True) 0))" "quiet (ss_conn S2 False) 0"
      "receives_on ?config True 0 S' S2"
      by (rule receiver_receives[OF C(1) rc follows_counting[folded g(1)[of True]] R(2) e2]) simp
    have "all_quiet ?config S2"
      using R2(4) quiet_if(2)[OF R2(2,5) rc] R(4) rc' by (auto simp: all_quiet_def all_bool_eq)
    with R R2 show ?thesis
      by (intro exI[of _ "p\<lparr>pu_sender := d, pu_receiver := d2\<rparr>"] exI[of _ "(e', e3)"] exI[of _ S2])
        (cases e, simp add: between_def receives_on_def)
  qed
  have after: "\<exists>b. ?finished (p, x) = Inr b \<and> (b \<longrightarrow> ?after (p, x) = Inr ())" if "between feat ?config ?given k p S" for k p S x
    using between_count(1,2)[OF C(1) that rc] between_count(3)[OF C(1) that rc, of True]
      between_count(3)[OF C(1) that rc, of False] g by (auto dest: le_antisym)
  have "rbind (test_loop (\<lambda>iter (p, e). rbind (pump_connection_update feat ?config (f64_round 16 1000 0) loss_90 (rng iter) p)
      (\<lambda>p. ?recv p e)) ?finished 1920 0 (?p0, 0, 0)) ?after \<in> {Inr (), Inl ExceededIterations}"
    by (rule lossy_result[where X = ?X and recv = ?recv and finished = ?finished and after = ?after, OF C(1) _ B0 X0 round after]) simp
  then show ?thesis
    using C(4) new send by (simp add: test_duplex_reliable_messages_def Let_def)
qed

lemma multiple_channels_test_result:
  assumes plain: "\<not> feat_serialize_check feat"
  shows "test_send_receive_reliable_messages_multiple_channels feat rng \<in> {Inr (), Inl ExceededIterations}"
proof -
  let ?config = "reliable_test_config 2"
  let ?none = "\<lambda>(_ :: bool) (_ :: nat). [] :: u64 list"
  let ?triple = "map (\<lambda>i. 3 * of_nat i) [0..<400] :: u64 list"
  define given0 where "given0 = ?none(True := (?none True)(0 := counting 1024))"
  define given where "given = given0(True := (given0 True)(1 := ?triple))"
  have g: "length (given True 0) = 1024" "length (given True 1) = 400" "given False i = []" "given0 True 1 = []" for i
    by (simp_all add: given_def given0_def)
  have "\<forall>s i. length (given s i) \<le> 1024" by (simp add: given_def given0_def)
  note C = reliable_test_setting[OF plain insertI2[OF singletonI] this]
  have rc: "reliable_channel ?config 0" "reliable_channel ?config 1" using C(3) by simp_all
  have room: "1024 \<le> cc_message_send_queue_size (nc_channels ?config ! 0)"
    "400 \<le> cc_message_send_queue_size (nc_channels ?config ! 1)" using C(4)[of 0] C(4)[of 1] by simp_all
  obtain c :: "u64 connection" where new: "connection_new ?config (f64_of_int 100) = Inr c"
    by (rule connection_new_total[OF C(2)])
  have start: "sending feat ?config ?none \<lparr>ss_conn = (\<lambda>_. c), ss_traffic = (\<lambda>_. no_traffic)\<rparr>" (is "sending _ _ _ ?S0")
    by (rule sending_start[OF C(2) new])
  obtain S0 where send0: "send_values c 0 of_nat 1024 = Inr (ss_conn S0 True)" and S0: "sending feat ?config given0 S0"
    and c0: "ss_conn S0 False = c"
    by (rule send_values_ok[OF start rc(1) _ room(1), where s = True and f = of_nat]) (simp_all add: given0_def)
  obtain S1 where send1: "send_values (ss_conn S0 True) 1 (\<lambda>i. 3 * of_nat i) 400 = Inr (ss_conn S1 True)"
    and S1: "sending feat ?config given S1" and c1: "ss_conn S1 False = c"
    by (rule send_values_ok[OF S0 rc(2) g(4) room(2), where f = "\<lambda>i. 3 * of_nat i"]) (simp_all add: given_def c0)
  let ?p0 = "\<lparr>pu_time = f64_of_int 100, pu_sender = ss_conn S1 True, pu_receiver = c,
          pu_sender_sequence = 0, pu_receiver_sequence = 0\<rparr>"
  let ?recv = "\<lambda>p (_ :: unit). rbind (receive_each (\<lambda>_ u. Inr u) (pu_receiver p) 0 ()) (\<lambda>(receiver, _).
      rbind (receive_each (\<lambda>_ u. Inr u) receiver 1 ()) (\<lambda>(receiver, _).
      Inr (p\<lparr>pu_receiver := receiver\<rparr>, ())))"
  let ?finished = "\<lambda>(p, _ :: unit). rbind (received (pu_receiver p) 0) (\<lambda>received_count.
      if 1024 \<le> received_count then rbind (received (pu_receiver p) 1) (\<lambda>count. Inr (400 \<le> count)) else Inr False)"
  let ?after = "\<lambda>(p, _ :: unit). rbind (received (pu_receiver p) 0) (\<lambda>count.
      rbind (rassert (count = 1024)) (\<lambda>_. rbind (received (pu_receiver p) 1) (\<lambda>count. rassert (count = 400))))"
  have B0: "between feat ?config given 0 ?p0 S1" using sending_between[OF S1] c1 by simp
  have round: "\<exists>p' e' S'. ?recv p e = Inr (p', e') \<and> between feat ?config given k p' S' \<and> True"
    if P: "pumping feat ?config given k p S" for k p S e
  proof -
    obtain d S' u where R: "receive_each (\<lambda>_ u. Inr u) (pu_receiver p) 0 () = Inr (d, u)"
      "pumping feat ?config given k (p\<lparr>pu_receiver := d\<rparr>) S'" "quiet (ss_conn S' False) 0"
      by (rule receiver_receives[OF C(1) rc(1) follows_skip P, where acc = "()"]) simp_all
    obtain d2 S2 u2 where R2: "receive_each (\<lambda>_ u. Inr u) d 1 () = Inr (d2, u2)"
      "pumping feat ?config given k (p\<lparr>pu_receiver := d2\<rparr>) S2" "quiet (ss_conn S2 False) 1"
      "receives_on ?config True 1 S' S2"
      by (rule receiver_receives[OF C(1) rc(2) follows_skip R(2), where acc = "()"]) simp_all
    have "quiet (ss_conn S2 False) 0" using quiet_if(1)[OF R2(2,4) rc(1)] R(3) by simp
    then have "all_quiet ?config S2"
      using R2(3) quiet_if(3)[OF R2(2,4), of _ False] g(3) C(3)
      by (auto simp: all_quiet_def all_bool_eq less_Suc_eq numeral_2_eq_2)
    with R R2 show ?thesis
      by (intro exI[of _ "p\<lparr>pu_receiver := d2\<rparr>"] exI[of _ "()"] exI[of _ S2]) (simp add: between_def)
  qed
  have after: "\<exists>b. ?finished (p, x) = Inr b \<and> (b \<longrightarrow> ?after (p, x) = Inr ())" if "between feat ?config given k p S" for k p S x
    using between_count(1)[OF C(1) that rc(1)] between_count(1)[OF C(1) that rc(2)]
      between_count(3)[OF C(1) that rc(1), of True] between_count(3)[OF C(1) that rc(2), of True] g
    by (auto dest: le_antisym)
  have "rbind (test_loop (\<lambda>iter (p, e). rbind (pump_connection_update feat ?config (f64_round 16 1000 0) loss_90 (rng iter) p)
      (\<lambda>p. ?recv p e)) ?finished 1780 0 (?p0, ())) ?after \<in> {Inr (), Inl ExceededIterations}"
    by (rule lossy_result[where X = "\<lambda>_ _. True" and recv = ?recv and finished = ?finished and after = ?after,
          OF C(1) _ B0 TrueI round after]) simp
  then show ?thesis
    using new send0 send1 by (simp add: test_send_receive_reliable_messages_multiple_channels_def Let_def)
qed

text \<open>C9: Whatever is drawn for the loss of nine packets in ten, a reliable test passes or gives up after its
  rounds: no assertion on a value, a count or an error level fails, and no operation of either
  connection panics, in up to 1922 rounds of both directions, with one channel or two.\<close>

theorem reliable_tests_never_fail:
  assumes "\<not> feat_serialize_check feat"
  shows "test_send_receive_reliable_messages feat rng \<in> {Inr (), Inl ExceededIterations} \<and>
    test_duplex_reliable_messages feat rng \<in> {Inr (), Inl ExceededIterations} \<and>
    test_send_receive_reliable_messages_multiple_channels feat rng \<in> {Inr (), Inl ExceededIterations}"
  using reliable_test_result[OF assms] duplex_test_result[OF assms] multiple_channels_test_result[OF assms] by blast

theorem reliable_tests_never_fail_witness:
  "test_duplex_reliable_messages plain_features (\<lambda>k. (Fin (int (k mod 10)) (- 3), Fin 0 0)) \<in> {Inr (), Inl ExceededIterations}"
  using reliable_tests_never_fail[of plain_features "\<lambda>k. (Fin (int (k mod 10)) (- 3), Fin 0 0)"] by simp

end
