(* ===== verification/Unreliable_Test.thy ===== *)
theory Unreliable_Test
  imports Connection_Tests
begin

text \<open>
  The test of \<open>src/connection.rs\<close> on an unreliable channel. With one such channel a connection is
  no more than two queues and two counters, so its rounds are computed: eight messages go out in
  every packet, and the test passes exactly when every packet arrives. The loss it asks for is \<open>0.0\<close>,
  and a packet is taken to arrive when \<open>random::<f32>() > packet_loss\<close>: a draw of zero loses it.
\<close>

section \<open>The connection of the test\<close>

abbreviation unreliable_test_channel :: channel_config where
  "unreliable_test_channel \<equiv> (channel_config_new ReliableOrdered)\<lparr>cc_max_messages_per_packet := 8, cc_kind := UnreliableUnordered\<rparr>"

abbreviation unreliable_test_config :: connection_config where
  "unreliable_test_config \<equiv> test_config 1 (\<lambda>c. c\<lparr>cc_max_messages_per_packet := 8, cc_kind := UnreliableUnordered\<rparr>)"

text \<open>An end with its counters, what it has to send and what it has not handed out yet.\<close>

definition unreliable_end :: "nat \<Rightarrow> nat \<Rightarrow> u64 list \<Rightarrow> (u16 \<times> u64) list \<Rightarrow> u64 connection" where
  "unreliable_end sent recvd out inb =
     \<lparr>cn_config = unreliable_test_config,
      cn_channels = [\<lparr>ch_config = unreliable_test_channel, ch_channel_index = 0, ch_error_level = ChannelNone,
        ch_processor = UnreliableProcessor
          \<lparr>ur_message_send_queue = \<lparr>vd_items = out, vd_capacity = 1024\<rparr>,
           ur_message_receive_queue = \<lparr>vd_items = inb, vd_capacity = 1024\<rparr>\<rparr>,
        ch_counters = \<lparr>ct_sent = sent, ct_received = recvd\<rparr>\<rparr>],
      cn_error_level = ConnectionNone\<rparr>"

lemma unreliable_end_new: "connection_new unreliable_test_config t = Inr (unreliable_end 0 0 [] [])"
  by (simp add: connection_new_def unreliable_end_def channel_new_def unreliable_new_def
      vd_with_capacity_def channel_config_new_def)

lemma unreliable_end_send:
  assumes "length out < 1024"
  shows "connection_send_message test_message (unreliable_end sent recvd out inb) 0 m =
    Inr (unreliable_end (sent + 1) recvd (out @ [m]) inb)"
  using assms
  by (simp add: connection_send_message_def unreliable_end_def channel_send_message_def channel_can_send_message_def
      unreliable_can_send_message_def unreliable_send_message_def vd_push_back_def Let_def)

lemma unreliable_end_receive:
  "connection_receive_message (unreliable_end sent recvd out []) 0 = Inr (None, unreliable_end sent recvd out [])"
  "connection_receive_message (unreliable_end sent recvd out (x # inb)) 0 = Inr (Some x, unreliable_end sent (recvd + 1) out inb)"
  by (simp_all add: connection_receive_message_def unreliable_end_def channel_receive_message_def
      unreliable_receive_message_def)

lemma unreliable_end_same:
  "connection_advance_time (unreliable_end sent recvd out inb) t = unreliable_end sent recvd out inb"
  "connection_process_acks (unreliable_end sent recvd out inb) [a] = Inr (unreliable_end sent recvd out inb)"
  "received (unreliable_end sent recvd out inb) 0 = Inr recvd"
  "cn_error_level (unreliable_end sent recvd out inb) = ConnectionNone"
  by (simp_all add: connection_advance_time_def connection_process_acks_def unreliable_end_def channel_advance_time_def
      unreliable_advance_time_def channel_process_ack_def unreliable_process_ack_def received_def
      connection_channel_counters_def Let_def)

section \<open>A packet\<close>

lemma full_round:
  assumes "unreliable_round test_message 8 32 available q kept dropped rest" "1000 < available"
  shows "kept = take 8 q" "rest = drop 8 q"
proof -
  have len: "length kept \<le> 8" and few: "\<forall>m \<in> set dropped. available < 32 + 64 * length kept + 64"
    and more: "rest = [] \<or> length kept = 8 \<or> available < 32 + 64 * length kept + 32"
    using assms(1) by (auto simp: unreliable_round_def sum_list_triv mult.commute)
  have "dropped = []"
  proof (rule ccontr)
    assume "dropped \<noteq> []"
    with few have "available < 32 + 64 * length kept + 64" by (cases dropped) auto
    with len assms(2) show False by linarith
  qed
  then have q: "q = kept @ rest" using assms(1) by (auto simp: unreliable_round_def)
  have "rest = [] \<or> length kept = 8" using more len assms(2) by linarith
  with q len show "kept = take 8 q" "rest = drop 8 q" by auto
qed

lemma unreliable_end_collect:
  assumes "out \<noteq> []" "length out \<le> 1024"
  shows "connection_collect feat test_message s (cn_channels (unreliable_end sent recvd out [])) 65520 =
    Inr ([\<lparr>pd_channel_index = 0, pd_messages = map (Pair s) (take 8 out)\<rparr>],
      cn_channels (unreliable_end sent recvd (drop 8 out) []))"
proof -
  let ?ur = "\<lparr>ur_message_send_queue = \<lparr>vd_items = out, vd_capacity = 1024\<rparr>,
     ur_message_receive_queue = \<lparr>vd_items = [], vd_capacity = 1024\<rparr>\<rparr> :: u64 unreliable"
  have ok: "unreliable_ok test_message unreliable_test_channel ?ur"
    using assms(2) by (simp add: unreliable_ok_def channel_config_new_def test_message_measurable)
  obtain kept dropped rest ur' where r: "unreliable_packet_data test_message ?ur unreliable_test_channel 0 s 65520 =
       Inr (if kept = [] then cpd_empty else \<lparr>pd_channel_index = 0, pd_messages = map (Pair s) kept\<rparr>,
            if kept = [] then 0 else 32 + sum_list (map (\<lambda>m. 8 * msg_size test_message m) kept), ur')"
    and round: "unreliable_round test_message (cc_max_messages_per_packet unreliable_test_channel) 32
       (channel_budget unreliable_test_channel 65520) (vd_items (ur_message_send_queue ?ur)) kept dropped rest"
    and ur': "vd_items (ur_message_send_queue ur') = rest" "ur_message_receive_queue ur' = ur_message_receive_queue ?ur"
    "unreliable_ok test_message unreliable_test_channel ur'"
    by (rule unreliable_packet_data_result[OF ok, of 0 s 65520]) blast
  have "channel_budget unreliable_test_channel 65520 = 65520" by (simp add: channel_budget_def channel_config_new_def)
  with round have kept: "kept = take 8 out" "rest = drop 8 out"
    using full_round[of 65520 out kept dropped rest] by simp_all
  have "kept \<noteq> []" using kept assms(1) by simp
  have "vd_capacity (ur_message_send_queue ur') = 1024" using ur'(3) by (simp add: unreliable_ok_def channel_config_new_def)
  then have "ur' = ?ur\<lparr>ur_message_send_queue := \<lparr>vd_items = drop 8 out, vd_capacity = 1024\<rparr>\<rparr>"
    using ur'(1,2) kept(2) by (cases ur'; cases "ur_message_send_queue ur'") simp
  moreover have "4 * min (length out) 8 < 4091" by (simp add: min_def)
  moreover have "sum_list (map (\<lambda>m. 8 * msg_size test_message m) kept) = 64 * length kept" by (simp add: sum_list_triv)
  ultimately show ?thesis
    using r \<open>kept \<noteq> []\<close> kept(1)
    by (simp add: unreliable_end_def channel_packet_data_def checked_sub_def header_bits)
qed

lemma unreliable_end_ok:
  assumes "length out \<le> 1024" "length inb \<le> 1024"
  shows "cn_config (unreliable_end sent recvd out inb) = unreliable_test_config"
    "cn_channels (unreliable_end sent recvd out inb) \<noteq> []"
    "(unreliable_end sent recvd out inb)\<lparr>cn_channels := cn_channels (unreliable_end sent' recvd' out' inb')\<rparr> =
      unreliable_end sent' recvd' out' inb'"
  by (simp_all add: unreliable_end_def)

text \<open>What is in the packet is what the other end's queue gains.\<close>

lemma unreliable_end_deliver:
  assumes "ms \<noteq> []" "length ms \<le> 8"
  shows "connection_deliver (unreliable_end sent recvd out [])
      (map (cpd_seen unreliable_test_config) [\<lparr>pd_channel_index = 0, pd_messages = map (Pair s) ms\<rparr>]) s =
    Inr (True, unreliable_end sent recvd out (map (Pair s) ms))"
proof -
  let ?q = "\<lparr>vd_items = [], vd_capacity = 1024\<rparr> :: (u16 \<times> u64) vec_deque"
  have "foldl (\<lambda>q (_, message). if length (vd_items q) < vd_capacity q then vd_push_back q (s, message) else q) ?q
      (map (Pair 0) ms) = ?q\<lparr>vd_items := map (Pair s) ms\<rparr>"
    using push_while_room[of ?q s "map (Pair 0) ms"] assms(2) by (simp add: comp_def)
  then show ?thesis using assms(1)
    by (simp add: unreliable_end_def cpd_seen_def channel_process_packet_data_def
        unreliable_process_packet_data_def comp_def)
qed

lemma unreliable_end_packet:
  assumes plain: "\<not> feat_serialize_check feat" and out: "out \<noteq> []" "length out \<le> 1024" and packet: "length packet = 8192"
  obtains n buffer where
    "connection_generate_packet feat test_message (unreliable_end sent recvd out []) s packet =
       Inr (n, buffer, unreliable_end sent recvd (drop 8 out) [])" "0 < n" "length buffer = 8192"
    "\<And>sent' recvd' out'. connection_process_packet feat test_message (unreliable_end sent' recvd' out' []) s (take n buffer) =
       Inr (True, unreliable_end sent' recvd' out' (map (Pair s) (take 8 out)))"
proof -
  let ?c = "unreliable_end sent recvd out []"
  let ?d = "\<lparr>pd_channel_index = 0, pd_messages = map (Pair s) (take 8 out)\<rparr>"
  note C = unreliable_end_collect[OF out, of feat s sent recvd]
  have ne: "take 8 out \<noteq> []" "packet \<noteq> []" using out packet by auto
  have "sum_list (map (\<lambda>(_, m). msg_size test_message m) (pd_messages ?d)) = 8 * min (length out) 8"
    by (simp add: case_prod_unfold sum_list_triv comp_def)
  then have "2 + packet_wire_size feat test_message unreliable_test_config [?d] \<le> length packet"
    using plain packet by (simp add: packet_wire_size_def cpd_wire_size_def check_bytes_def Let_def min_def)
  moreover have "\<forall>d \<in> set [?d]. cpd_valid unreliable_test_config d \<and> (\<forall>(_, m) \<in> set (pd_messages d). msg_measurable test_message m)"
    using ne by (simp add: cpd_valid_def test_message_measurable)
  ultimately obtain n buffer where ser: "connection_packet_serialize feat test_message \<lparr>cp_channel_data = [?d]\<rparr>
      unreliable_test_config packet = Inr (n, buffer)"
    using packet_serialize_exact[OF test_message_lawful, of "[?d]" unreliable_test_config feat packet] by auto
  note R = packet_serialize_reads_back[OF test_message_lawful ser]
  have gen: "connection_generate_packet feat test_message ?c s packet = Inr (n, buffer, unreliable_end sent recvd (drop 8 out) [])"
    using ne ser C packet
    by (simp add: connection_generate_packet_def unreliable_end_ok[OF out(2)] header_bits checked_sub_def Let_def)
  have "0 < n" using R(1) by simp
  moreover have "connection_process_packet feat test_message (unreliable_end sent' recvd' out' []) s (take n buffer) =
       Inr (True, unreliable_end sent' recvd' out' (map (Pair s) (take 8 out)))" for sent' recvd' out'
  proof -
    let ?p = "unreliable_end sent' recvd' out' []"
    have peer: "cn_config ?p = cn_config ?c" "cn_error_level ?p = ConnectionNone" by (simp_all add: unreliable_end_def)
    obtain ds where ds: "connection_collect feat test_message s (cn_channels ?c) (8 * length packet - 16) =
        Inr (ds, cn_channels (unreliable_end sent recvd (drop 8 out) []))"
      "connection_process_packet feat test_message ?p s (take n buffer) = connection_deliver ?p (map (cpd_seen (cn_config ?c)) ds) s"
      using packet_reaches_peer[OF test_message_lawful gen \<open>0 < n\<close> peer, of s] by blast
    have "ds = [?d]" using ds(1) C packet by simp
    with ds(2) unreliable_end_deliver[OF ne(1), of sent' recvd' out' s] show ?thesis
      by (simp add: unreliable_end_ok[OF out(2)])
  qed
  ultimately show ?thesis using gen R(3) packet that by simp
qed

lemma unreliable_end_nothing:
  assumes "length packet = 8192"
  shows "connection_generate_packet feat test_message (unreliable_end sent recvd [] inb) s packet =
    Inr (0, packet, unreliable_end sent recvd [] inb)"
proof -
  have "packet \<noteq> []" using assms by auto
  then show ?thesis using assms
    by (simp add: connection_generate_packet_def unreliable_end_def header_bits checked_sub_def Let_def
        channel_packet_data_def unreliable_packet_data_def cpd_empty_def)
qed

section \<open>A round\<close>

text \<open>After \<open>n\<close> packets of the sender, \<open>m\<close> messages of which have arrived and been compared.\<close>

definition test_state :: "nat \<Rightarrow> nat \<Rightarrow> pumped \<times> u64 \<Rightarrow> bool" where
  "test_state n m st \<longleftrightarrow> pu_sender (fst st) = unreliable_end 1024 0 (drop (8 * n) (counting 1024)) [] \<and>
     pu_receiver (fst st) = unreliable_end 0 m [] [] \<and> snd st = of_nat m"

definition test_round ::
  "features \<Rightarrow> f64 \<Rightarrow> (nat \<Rightarrow> f32 \<times> f32) \<Rightarrow> pumped \<times> u64 \<Rightarrow> nat \<Rightarrow> panic + (pumped \<times> u64)" where
  "test_round feat delta_time rng = (\<lambda>(p, expect_value) iter.
     rbind (pump_connection_update feat unreliable_test_config delta_time (f64_of_int 0) (rng iter) p) (\<lambda>p.
     rbind (receive_each expect_next (pu_receiver p) 0 expect_value) (\<lambda>(receiver, expect_value).
     Inr (p\<lparr>pu_receiver := receiver\<rparr>, expect_value))))"

lemma of_nat_u64_eq: "m < 2048 \<Longrightarrow> n < 2048 \<Longrightarrow> (of_nat m :: u64) = of_nat n \<longleftrightarrow> m = n"
proof -
  assume "m < 2048" "n < 2048"
  then have "unat (of_nat m :: u64) = m" "unat (of_nat n :: u64) = n" by (simp_all add: unat_of_nat)
  then show ?thesis by metis
qed

lemma receive_expected:
  assumes "n + k \<le> 1024"
  shows "receive_each expect_next (unreliable_end sent recvd out (map (Pair s) (map of_nat [n..<n + k]))) 0 (of_nat n) =
    Inr (unreliable_end sent (recvd + k) out [], of_nat (n + k))"
  using assms
proof (induction k arbitrary: n recvd)
  case 0
  show ?case by (subst receive_each.simps) (simp add: unreliable_end_receive)
next
  case (Suc k)
  have up: "[n..<n + Suc k] = n # [Suc n..<Suc n + k]" by (simp add: upt_conv_Cons)
  have "expect_next (of_nat n) (of_nat n) = Inr (of_nat (Suc n))"
    using expect_next_ok[of n "counting 1024" "of_nat n"] Suc.prems by simp
  then show ?case
    using Suc.IH[of "Suc n" "Suc recvd"] Suc.prems unfolding up
    by (subst receive_each.simps) (simp add: unreliable_end_receive)
qed

lemma receive_unexpected:
  assumes "v \<noteq> e"
  shows "receive_each expect_next (unreliable_end sent recvd out ((s, v) # inb)) 0 e = Inl AssertionFailed"
  using assms by (subst receive_each.simps) (simp add: unreliable_end_receive expect_next_def rassert_def)

lemma pump_answers:
  assumes "pu_sender p = s0" "pu_receiver p = r0"
    and "pump_packet feat s0 r0 (pu_sender_sequence p) (replicate 8192 0) loss (fst draws) =
      Inr (unreliable_end a b out inb, unreliable_end 0 c [] inb', packet)" "length packet = 8192"
  shows "\<exists>p'. pump_connection_update feat unreliable_test_config delta_time loss draws p = Inr p' \<and>
    pu_sender p' = unreliable_end a b out inb \<and> pu_receiver p' = unreliable_end 0 c [] inb'"
proof -
  have "pump_packet feat (unreliable_end 0 c [] inb') (unreliable_end a b out inb) (pu_receiver_sequence p) packet loss (snd draws) =
      Inr (unreliable_end 0 c [] inb', unreliable_end a b out inb, packet)"
    by (simp add: pump_packet_def unreliable_end_nothing[OF assms(4)])
  then show ?thesis
    using assms(1-3) by (simp add: pump_connection_update_def unreliable_end_same)
qed

lemma test_round_result:
  assumes plain: "\<not> feat_serialize_check feat" and st: "test_state n m st" and n: "n < 128" "m \<le> 8 * n"
  shows "if f64_of_int 0 < fst (rng n) then
      if m = 8 * n then \<exists>st'. test_round feat delta_time rng st n = Inr st' \<and> test_state (Suc n) (m + 8) st'
      else test_round feat delta_time rng st n = Inl AssertionFailed
    else \<exists>st'. test_round feat delta_time rng st n = Inr st' \<and> test_state (Suc n) m st'"
proof -
  let ?out = "drop (8 * n) (counting 1024)" and ?s = "pu_sender_sequence (fst st)"
  obtain p e where p: "st = (p, e)" "pu_sender p = unreliable_end 1024 0 ?out []" "pu_receiver p = unreliable_end 0 m [] []"
    "e = of_nat m" using st by (cases st) (auto simp: test_state_def)
  have out: "?out \<noteq> []" "length ?out \<le> 1024" using n by simp_all
  obtain k buffer where g:
    "connection_generate_packet feat test_message (unreliable_end 1024 0 ?out []) ?s (replicate 8192 0) =
       Inr (k, buffer, unreliable_end 1024 0 (drop 8 ?out) [])" "0 < k" "length buffer = 8192"
    "\<And>sent' recvd' out'. connection_process_packet feat test_message (unreliable_end sent' recvd' out' []) ?s (take k buffer) =
       Inr (True, unreliable_end sent' recvd' out' (map (Pair ?s) (take 8 ?out)))"
    by (rule unreliable_end_packet[OF plain out length_replicate, of 1024 0 ?s 0]) blast
  have rest: "drop 8 ?out = drop (8 * Suc n) (counting 1024)" by (simp add: add.commute)
  have got: "take 8 ?out = map of_nat [8 * n..<8 * n + 8]"
    using n by (simp add: drop_map take_map)
  show ?thesis
  proof (cases "f64_of_int 0 < fst (rng n)")
    case False
    then have "pump_packet feat (unreliable_end 1024 0 ?out []) (unreliable_end 0 m [] []) ?s (replicate 8192 0)
        (f64_of_int 0) (fst (rng n)) = Inr (unreliable_end 1024 0 (drop 8 ?out) [], unreliable_end 0 m [] [], buffer)"
      using g(1) by (simp add: pump_packet_def)
    then obtain p' where
      "pump_connection_update feat unreliable_test_config delta_time (f64_of_int 0) (rng n) p = Inr p'"
      "pu_sender p' = unreliable_end 1024 0 (drop 8 ?out) []" "pu_receiver p' = unreliable_end 0 m [] []"
      using pump_answers[OF p(2,3) _ g(3), of feat "f64_of_int 0" "rng n" 1024 0 "drop 8 ?out" "[]" m "[]" delta_time] p(1)
      by auto
    then show ?thesis
      using False p receive_expected[of m 0 0 m "[]" ?s] n unfolding rest
      by (auto simp: test_round_def test_state_def)
  next
    case True
    then have "pump_packet feat (unreliable_end 1024 0 ?out []) (unreliable_end 0 m [] []) ?s (replicate 8192 0)
        (f64_of_int 0) (fst (rng n)) =
        Inr (unreliable_end 1024 0 (drop 8 ?out) [], unreliable_end 0 m [] (map (Pair ?s) (take 8 ?out)), buffer)"
      using g(1,2,4) by (simp add: pump_packet_def unreliable_end_same)
    then obtain p' where p':
      "pump_connection_update feat unreliable_test_config delta_time (f64_of_int 0) (rng n) p = Inr p'"
      "pu_sender p' = unreliable_end 1024 0 (drop 8 ?out) []"
      "pu_receiver p' = unreliable_end 0 m [] (map (Pair ?s) (map of_nat [8 * n..<8 * n + 8]))"
      using pump_answers[OF p(2,3) _ g(3), of feat "f64_of_int 0" "rng n" 1024 0 "drop 8 ?out" "[]" m
          "map (Pair ?s) (take 8 ?out)" delta_time] p(1) unfolding got by auto
    show ?thesis
    proof (cases "m = 8 * n")
      case True
      have "receive_each expect_next (pu_receiver p') 0 e = Inr (unreliable_end 0 (m + 8) [] [], of_nat (m + 8))"
        using receive_expected[of m 8 0 m "[]" ?s] n True p' p(4) by simp
      then show ?thesis using True \<open>f64_of_int 0 < fst (rng n)\<close> p p' unfolding rest
        by (auto simp: test_round_def test_state_def)
    next
      case False
      then have "(of_nat (8 * n) :: u64) \<noteq> of_nat m" using n of_nat_u64_eq[of "8 * n" m] by simp
      moreover have "[8 * n..<8 * n + 8] = 8 * n # [Suc (8 * n)..<8 * n + 8]" by (rule upt_conv_Cons) simp
      ultimately have "receive_each expect_next (pu_receiver p') 0 e = Inl AssertionFailed"
        using receive_unexpected[of "of_nat (8 * n)" e] p(4) p'(3) by simp
      then show ?thesis using False \<open>f64_of_int 0 < fst (rng n)\<close> p p' by (simp add: test_round_def)
    qed
  qed
qed

section \<open>The test\<close>

lemma unreliable_test_rounds:
  assumes plain: "\<not> feat_serialize_check feat" and st: "test_state 0 0 st" and n: "n \<le> 128"
  shows "(\<exists>st' m. rfold (test_round feat delta_time rng) st [0..<n] = Inr st' \<and> test_state n m st' \<and> m \<le> 8 * n \<and>
      (m = 8 * n \<longleftrightarrow> (\<forall>k < n. f64_of_int 0 < fst (rng k)))) \<or>
    rfold (test_round feat delta_time rng) st [0..<n] = Inl AssertionFailed \<and> \<not> (\<forall>k < n. f64_of_int 0 < fst (rng k))"
  using n
proof (induction n)
  case (Suc n)
  let ?f = "test_round feat delta_time rng"
  have split: "rfold ?f st [0..<Suc n] = rbind (rfold ?f st [0..<n]) (\<lambda>st. ?f st n)"
    by (simp add: rfold_append)
  from Suc.IH Suc.prems consider st' m where "rfold ?f st [0..<n] = Inr st'" "test_state n m st'" "m \<le> 8 * n"
      "m = 8 * n \<longleftrightarrow> (\<forall>k < n. f64_of_int 0 < fst (rng k))"
    | "rfold ?f st [0..<n] = Inl AssertionFailed" "\<not> (\<forall>k < n. f64_of_int 0 < fst (rng k))" by auto
  then show ?case
  proof cases
    case 1
    have "n < 128" using Suc.prems by simp
    note R = test_round_result[OF plain 1(2) this 1(3), of rng delta_time]
    show ?thesis
    proof (cases "f64_of_int 0 < fst (rng n) \<and> m \<noteq> 8 * n")
      case True
      then have "?f st' n = Inl AssertionFailed" using R by simp
      then show ?thesis unfolding split 1(1) using True 1(4) by (auto simp: less_Suc_eq)
    next
      case False
      let ?m = "if f64_of_int 0 < fst (rng n) then m + 8 else m"
      obtain st2 where "?f st' n = Inr st2" "test_state (Suc n) ?m st2" using R False by (auto split: if_splits)
      moreover have "?m \<le> 8 * Suc n" "?m = 8 * Suc n \<longleftrightarrow> (\<forall>k < Suc n. f64_of_int 0 < fst (rng k))"
        using 1(3,4) False by (auto simp: less_Suc_eq)
      ultimately show ?thesis unfolding split 1(1) by auto
    qed
  next
    case 2
    then show ?thesis unfolding split by (auto simp: less_Suc_eq)
  qed
qed (use st in auto)

lemma unreliable_test_sends:
  "send_values (unreliable_end 0 0 [] []) 0 of_nat 1024 = Inr (unreliable_end 1024 0 (counting 1024) [])"
proof -
  have "\<exists>cn. rfold (\<lambda>cn i. connection_send_message test_message cn 0 (of_nat i)) (unreliable_end 0 0 [] []) [0..<1024] = Inr cn \<and>
      cn = unreliable_end 1024 0 (counting 1024) []"
  proof (rule rfold_upt)
    fix i cn assume "i < 1024" "cn = unreliable_end i 0 (counting i) []"
    then show "\<exists>cn'. connection_send_message test_message cn 0 (of_nat i) = Inr cn' \<and>
        cn' = unreliable_end (Suc i) 0 (counting (Suc i)) []"
      by (simp add: unreliable_end_send)
  qed simp_all
  then show ?thesis by (simp add: send_values_def)
qed

lemma unreliable_test_result:
  assumes plain: "\<not> feat_serialize_check feat"
  shows "test_send_receive_unreliable_messages feat rng =
    (if \<forall>k < 128. f64_of_int 0 < fst (rng k) then Inr () else Inl AssertionFailed)"
proof -
  let ?st = "(\<lparr>pu_time = f64_of_int 100, pu_sender = unreliable_end 1024 0 (counting 1024) [],
    pu_receiver = unreliable_end 0 0 [] [], pu_sender_sequence = 0, pu_receiver_sequence = 0\<rparr>, 0)"
  let ?fold = "rfold (test_round feat (f64_round 16 1000 0) rng) ?st [0..<128]"
  have test: "test_send_receive_unreliable_messages feat rng =
      rbind ?fold (\<lambda>(p, _). rbind (received (pu_receiver p) 0) (\<lambda>count. rassert (count = 1024)))"
    unfolding test_send_receive_unreliable_messages_def Let_def unreliable_end_new unreliable_test_sends rbind.simps
      test_round_def[symmetric]
    by (simp add: channel_config_new_def unreliable_test_sends del: upt_conv_Cons upt_rec_numeral)
  have "test_state 0 0 ?st" by (simp add: test_state_def del: upt_conv_Cons upt_rec_numeral)
  from unreliable_test_rounds[OF plain this, of 128 "f64_round 16 1000 0" rng]
  consider st m where "?fold = Inr st" "test_state 128 m st" "m = 1024 \<longleftrightarrow> (\<forall>k < 128. f64_of_int 0 < fst (rng k))"
    | "?fold = Inl AssertionFailed" "\<not> (\<forall>k < 128. f64_of_int 0 < fst (rng k))" by auto
  then show ?thesis
  proof cases
    case 1
    then show ?thesis unfolding test 1(1)
      by (auto simp: test_state_def unreliable_end_same rassert_def case_prod_unfold)
  qed (auto simp: test)
qed

text \<open>C10: The unreliable test passes exactly when the sender's draws of all 128 rounds are above zero, and
  otherwise fails an assertion, on a value or on the count: every packet carries eight messages, they
  arrive in the order they were sent, and nothing is sent twice. The draws of the other direction do not
  matter, since its packets are empty.\<close>

theorem unreliable_test_outcome:
  assumes "\<not> feat_serialize_check feat"
  shows "test_send_receive_unreliable_messages feat rng =
    (if \<forall>k < 128. f64_of_int 0 < fst (rng k) then Inr () else Inl AssertionFailed)"
  by (rule unreliable_test_result[OF assms])

text \<open>With draws of a half it passes, with a draw of zero in round 5 it does not.\<close>

theorem unreliable_test_outcome_witness:
  "test_send_receive_unreliable_messages plain_features (\<lambda>_. (Fin 1 (- 1), Fin 1 (- 1))) = Inr () \<and>
   test_send_receive_unreliable_messages plain_features (\<lambda>k. (Fin (if k = 5 then 0 else 1) (- 1), Fin 1 (- 1))) =
     Inl AssertionFailed"
proof -
  have half: "f64_of_int 0 < Fin 1 (- 1)" by code_simp
  have zero: "\<not> f64_of_int 0 < Fin 0 (- 1)" by code_simp
  have "\<exists>k < 128. k = (5 :: nat)" by simp
  then show ?thesis
    using unreliable_test_outcome[of plain_features "\<lambda>_. (Fin 1 (- 1), Fin 1 (- 1))"]
      unreliable_test_outcome[of plain_features "\<lambda>k. (Fin (if k = 5 then 0 else 1) (- 1), Fin 1 (- 1))"] half zero
    by auto
qed

end
