(* ===== verification/Session_Unreliable.thy ===== *)
theory Session_Unreliable
  imports Session
begin

text \<open>
  The unreliable channels of two connections end to end (\<open>src/channel/unreliable.rs\<close> under
  \<open>src/connection.rs\<close>), over the system of \<open>Session\<close>: what may be lost or repeated by the network,
  and what the code itself promises.
\<close>

section \<open>What the operations do to an unreliable channel\<close>

definition unreliable_channel :: "connection_config \<Rightarrow> nat \<Rightarrow> bool" where
  "unreliable_channel config i \<longleftrightarrow> i < length (nc_channels config) \<and> cc_kind (nc_channels config ! i) = UnreliableUnordered"

definition unreliable_of :: "'m connection \<Rightarrow> nat \<Rightarrow> 'm unreliable" where
  "unreliable_of cn i = (case ch_processor (cn_channels cn ! i) of UnreliableProcessor ur \<Rightarrow> ur | ReliableProcessor _ \<Rightarrow> undefined)"

lemma unreliable_of_eq: "ch_processor (cn_channels cn ! i) = UnreliableProcessor ur \<Longrightarrow> unreliable_of cn i = ur"
  by (simp add: unreliable_of_def)

lemma unreliable_ofE:
  assumes "connection_ok nm cn" "unreliable_channel (cn_config cn) i"
  obtains ur where "i < length (cn_channels cn)" "ch_processor (cn_channels cn ! i) = UnreliableProcessor ur"
    "unreliable_of cn i = ur" "unreliable_ok nm (nc_channels (cn_config cn) ! i) ur"
proof -
  have i: "i < length (cn_channels cn)" using assms connection_okD(1)[OF assms(1)] by (simp add: unreliable_channel_def)
  have ok: "processor_ok nm (nc_channels (cn_config cn) ! i) (ch_processor (cn_channels cn ! i))"
    using connection_okD(4)[OF assms(1) i] by (simp add: channel_ok_def)
  then obtain ur where ur: "ch_processor (cn_channels cn ! i) = UnreliableProcessor ur"
    using assms(2) by (cases "ch_processor (cn_channels cn ! i)") (auto simp: unreliable_channel_def reliable_ok_def)
  with ok i that show ?thesis by (simp add: unreliable_inv_def unreliable_of_eq)
qed

lemma unreliable_of_update:
  assumes "i < length (cn_channels cn)"
  shows "unreliable_of (cn\<lparr>cn_channels := (cn_channels cn)[i := ch]\<rparr>) j =
    (if j = i then (case ch_processor ch of UnreliableProcessor ur \<Rightarrow> ur | ReliableProcessor _ \<Rightarrow> undefined)
     else unreliable_of cn j)"
  using assms by (simp add: unreliable_of_def)

lemma advance_unreliable:
  assumes ok: "connection_ok nm cn" and i: "unreliable_channel (cn_config cn) i"
  shows "unreliable_of (connection_advance_time cn t) i = unreliable_of cn i"
proof -
  obtain ur where ur: "i < length (cn_channels cn)" "ch_processor (cn_channels cn ! i) = UnreliableProcessor ur"
    "unreliable_of cn i = ur" by (rule unreliable_ofE[OF ok i])
  have "cn_channels (connection_advance_time cn t) ! i \<in> {cn_channels cn ! i, channel_advance_time (cn_channels cn ! i) t}"
    using advance_channels_rounds[of "cn_channels cn" t] ur(1)
    by (simp add: connection_advance_time_def case_prod_unfold Let_def)
  then have "unreliable_of (connection_advance_time cn t) i = ur"
    using ur(2) by (auto simp: channel_advance_time_def unreliable_advance_time_def intro!: unreliable_of_eq)
  with ur(3) show ?thesis by simp
qed

lemma send_unreliable:
  assumes ok: "connection_ok nm cn" and m: "msg_measurable nm m"
    and r: "connection_send_message nm cn i m = Inr cn'" and j: "unreliable_channel (cn_config cn) j"
  shows "unreliable_of cn' j = (if j = i \<and> connection_takes cn i then unreliable_send_message (unreliable_of cn j) m
    else unreliable_of cn j)"
proof -
  obtain ch where i: "i < length (cn_channels cn)" and ch: "channel_send_message nm (cn_channels cn ! i) m = Inr ch"
    and cn': "cn' = cn\<lparr>cn_channels := (cn_channels cn)[i := ch]\<rparr>"
    using r by (auto simp: connection_send_message_def rbind_eq_Inr vec_index_eq_Inr)
  note sends = channel_sends_cases[OF connection_okD(4)[OF ok i] m ch]
  obtain ur where ur: "ch_processor (cn_channels cn ! j) = UnreliableProcessor ur" "unreliable_of cn j = ur"
    by (rule unreliable_ofE[OF ok j])
  show ?thesis
  proof (cases "j = i \<and> connection_takes cn i")
    case True
    with sends(3) ur i show ?thesis
      by (auto simp: cn' unreliable_of_update connection_takes_def dest!: sym[where t = "ch_processor ch"])
  next
    case False
    with sends(2) ur i show ?thesis
      by (cases "j = i") (auto simp: cn' unreliable_of_update connection_takes_def)
  qed
qed

lemma receive_unreliable:
  assumes ok: "connection_ok nm cn" and r: "connection_receive_message cn i = Inr (x, cn')"
    and j: "unreliable_channel (cn_config cn) j"
  shows "unreliable_of cn' j = unreliable_of cn j \<and> (j = i \<longrightarrow> x = None) \<or>
    j = i \<and> unreliable_receive_message (unreliable_of cn j) = (x, unreliable_of cn' j)"
proof -
  obtain ch where i: "i < length (cn_channels cn)" and ch: "channel_receive_message (cn_channels cn ! i) = Inr (x, ch)"
    and cn': "cn' = cn\<lparr>cn_channels := (cn_channels cn)[i := ch]\<rparr>"
    using r by (auto simp: connection_receive_message_def rbind_eq_Inr vec_index_eq_Inr)
  obtain ur where ur: "ch_processor (cn_channels cn ! j) = UnreliableProcessor ur" "unreliable_of cn j = ur"
    by (rule unreliable_ofE[OF ok j])
  show ?thesis
  proof (cases "j = i")
    case True
    then have "x = None \<and> ch = cn_channels cn ! i \<or>
        unreliable_receive_message ur = (x, case ch_processor ch of UnreliableProcessor ur \<Rightarrow> ur | ReliableProcessor _ \<Rightarrow> undefined)"
      using ch ur(1) by (cases "unreliable_receive_message ur")
        (auto simp: channel_receive_message_def split: if_splits option.splits)
    with True ur i show ?thesis by (auto simp: cn' unreliable_of_update)
  qed (use i in \<open>simp add: cn' unreliable_of_update\<close>)
qed

lemma ack_unreliable:
  assumes ok: "connection_ok nm cn" and r: "connection_process_acks cn [a] = Inr cn'"
    and j: "unreliable_channel (cn_config cn) j"
  shows "unreliable_of cn' j = unreliable_of cn j"
proof -
  obtain chs where chs: "connection_ack_channels (cn_channels cn) a = Inr chs" and cn': "cn' = cn\<lparr>cn_channels := chs\<rparr>"
    using r by (auto simp: connection_process_acks_def rbind_eq_Inr)
  obtain ur where ur: "j < length (cn_channels cn)" "ch_processor (cn_channels cn ! j) = UnreliableProcessor ur"
    "unreliable_of cn j = ur" by (rule unreliable_ofE[OF ok j])
  have "channel_process_ack (cn_channels cn ! j) a = Inr (chs ! j)" using chs ur(1) by (simp add: ack_rounds)
  with ur show ?thesis
    by (auto simp: cn' channel_process_ack_def unreliable_process_ack_def dest!: sym[where t = "chs ! j"] intro!: unreliable_of_eq)
qed

lemma process_unreliable:
  assumes ok: "connection_ok nm cn" and bytes: "packet_readable feat nm (cn_config cn) bytes"
    and r: "connection_process_packet feat nm cn s bytes = Inr (answer, cn')" and j: "unreliable_channel (cn_config cn) j"
  shows "unreliable_of cn' j \<in> {unreliable_of cn j,
    unreliable_process_packet_data (unreliable_of cn j) (entry_of j (read_packet feat nm (cn_config cn) bytes)) s}"
proof (cases "cn_error_level cn = ConnectionNone")
  case True
  let ?ds = "read_packet feat nm (cn_config cn) bytes"
  have d: "connection_deliver cn ?ds s = Inr (answer, cn')"
    using True r bytes by (auto simp: connection_process_packet_def packet_readable_def)
  have idx: "distinct (map pd_channel_index ?ds)" "pd_channel_index ` set ?ds \<subseteq> {..<length (cn_channels cn)}"
    using bytes connection_okD(1)[OF ok] by (simp_all add: packet_readable_def)
  obtain ur where ur: "j < length (cn_channels cn)" "ch_processor (cn_channels cn ! j) = UnreliableProcessor ur"
    "unreliable_of cn j = ur" by (rule unreliable_ofE[OF ok j])
  have "cn_channels cn' ! j = cn_channels cn ! j \<or>
      channel_process_packet_data (cn_channels cn ! j) (entry_of j ?ds) s = Inr (cn_channels cn' ! j)"
    using deliver_rounds(2)[OF idx(1) d idx(2) ur(1)] by blast
  then have "unreliable_of cn' j \<in> {ur, unreliable_process_packet_data ur (entry_of j ?ds) s}"
    using ur(2) by (auto simp: channel_process_packet_data_def unreliable_of_eq
        dest!: sym[where t = "cn_channels cn' ! j"] split: if_splits)
  with ur(3) show ?thesis by simp
qed (use r in \<open>simp add: connection_process_packet_def\<close>)

lemma generate_unreliable:
  assumes nm: "msg_lawful nm" and ok: "connection_ok nm cn"
    and recent: "\<forall>i. reliable_channel (cn_config cn) i \<longrightarrow> reliable_recent s (reliable_of cn i)"
    and gen: "connection_generate_packet feat nm cn s packet = Inr (written, buffer, cn')"
    and j: "unreliable_channel (cn_config cn) j"
  shows "\<exists>kept dropped taken. taken \<in> shuffles kept dropped \<and>
    vd_items (ur_message_send_queue (unreliable_of cn j)) = taken @ vd_items (ur_message_send_queue (unreliable_of cn' j)) \<and>
    ur_message_receive_queue (unreliable_of cn' j) = ur_message_receive_queue (unreliable_of cn j) \<and>
    (if 0 < written then kept = map snd (pd_messages (entry_of j (read_packet feat nm (cn_config cn) (take written buffer))))
     else kept = [])"
proof -
  obtain ur where ur: "j < length (cn_channels cn)" "ch_processor (cn_channels cn ! j) = UnreliableProcessor ur"
    "unreliable_of cn j = ur" "unreliable_ok nm (nc_channels (cn_config cn) ! j) ur" by (rule unreliable_ofE[OF ok j])
  obtain available pd bits where pd: "channel_packet_data nm (cn_channels cn ! j) s available = Inr (pd, bits, cn_channels cn' ! j)"
    "if 0 < written then entry_of j (read_packet feat nm (cn_config cn) (take written buffer)) = cpd_seen (cn_config cn) pd
        else pd_messages pd = []"
    using generate_rounds(4)[OF nm ok processors_recent[OF ok recent] gen ur(1)] by blast
  have "channel_ok nm (nc_channels (cn_config cn) ! j) j (cn_channels cn ! j)" by (rule connection_okD(4)[OF ok ur(1)])
  then have one: "unreliable_packet_data nm ur (nc_channels (cn_config cn) ! j) j s available = Inr (pd, bits, unreliable_of cn' j)"
    using pd(1) ur(2) by (auto simp: channel_packet_data_def channel_ok_def rbind_eq_Inr
        dest!: sym[where t = "cn_channels cn' ! j"] intro!: unreliable_of_eq[symmetric])
  obtain kept dropped where kept: "map snd (pd_messages pd) = kept"
    and round: "unreliable_round nm (cc_max_messages_per_packet (nc_channels (cn_config cn) ! j)) 32
      (channel_budget (nc_channels (cn_config cn) ! j) available) (vd_items (ur_message_send_queue ur)) kept dropped
      (vd_items (ur_message_send_queue (unreliable_of cn' j)))"
    and same: "ur_message_receive_queue (unreliable_of cn' j) = ur_message_receive_queue ur"
    by (rule unreliable_packet_data_result[OF ur(4), of j s available])
      (use one in \<open>auto simp: cpd_empty_def comp_def split: if_splits\<close>)
  have "map snd (pd_messages (cpd_seen (cn_config cn) pd)) = kept"
    using kept by (auto simp: cpd_seen_def cpd_empty_def comp_def case_prod_unfold split: channel_type.splits)
  then have seen: "if 0 < written then kept = map snd (pd_messages (entry_of j (read_packet feat nm (cn_config cn) (take written buffer))))
     else kept = []" using pd(2) kept by (cases "0 < written") auto
  obtain taken where "taken \<in> shuffles kept dropped"
    "vd_items (ur_message_send_queue ur) = taken @ vd_items (ur_message_send_queue (unreliable_of cn' j))"
    using round by (auto simp: unreliable_round_def)
  with seen same ur(3) show ?thesis
    by (intro exI[of _ kept] exI[of _ dropped] exI[of _ taken]) simp
qed

section \<open>The invariant\<close>

definition packet_messages ::
  "features \<Rightarrow> ('m, 'e) network_message \<Rightarrow> connection_config \<Rightarrow> nat \<Rightarrow> u8 list \<times> 'a \<Rightarrow> 'm list" where
  "packet_messages feat nm config i p = map snd (pd_messages (entry_of i (read_packet feat nm config (fst p))))"

text \<open>What the packets carried, in order, and what still waits to be packed was sent, in that order and
  each once; what waits at the receiver or was handed out came out of a packet.\<close>

definition genuine ::
  "features \<Rightarrow> ('m, 'e) network_message \<Rightarrow> connection_config \<Rightarrow> 'm connection \<Rightarrow> 'm connection
     \<Rightarrow> 'm traffic \<Rightarrow> nat \<Rightarrow> bool" where
  "genuine feat nm config cs cr tf i \<longleftrightarrow>
     subseq (concat (map (packet_messages feat nm config i) (tf_packets tf)) @
         vd_items (ur_message_send_queue (unreliable_of cs i))) (tf_sent tf i) \<and>
     snd ` set (vd_items (ur_message_receive_queue (unreliable_of cr i))) \<union> set (tf_received tf i) \<subseteq>
       (\<Union>p \<in> set (tf_packets tf). set (packet_messages feat nm config i p))"

definition genuine_session ::
  "features \<Rightarrow> ('m, 'e) network_message \<Rightarrow> connection_config \<Rightarrow> 'm session \<Rightarrow> bool" where
  "genuine_session feat nm config S \<longleftrightarrow> (\<forall>s i. unreliable_channel config i \<longrightarrow>
     genuine feat nm config (ss_conn S s) (ss_conn S (\<not> s)) (ss_traffic S s) i)"

lemma genuine_sender:
  assumes "genuine_session feat nm config S"
    and "\<And>i. unreliable_channel config i \<Longrightarrow> genuine feat nm config c (ss_conn S (\<not> s)) tf i"
    and "\<And>i. unreliable_channel config i \<Longrightarrow>
      ur_message_receive_queue (unreliable_of c i) = ur_message_receive_queue (unreliable_of (ss_conn S s) i)"
  shows "genuine_session feat nm config (S\<lparr>ss_conn := (ss_conn S)(s := c), ss_traffic := (ss_traffic S)(s := tf)\<rparr>)"
  unfolding genuine_session_def
proof (intro allI impI)
  fix x i assume i: "unreliable_channel config i"
  show "genuine feat nm config (ss_conn (S\<lparr>ss_conn := (ss_conn S)(s := c), ss_traffic := (ss_traffic S)(s := tf)\<rparr>) x)
      (ss_conn (S\<lparr>ss_conn := (ss_conn S)(s := c), ss_traffic := (ss_traffic S)(s := tf)\<rparr>) (\<not> x))
      (ss_traffic (S\<lparr>ss_conn := (ss_conn S)(s := c), ss_traffic := (ss_traffic S)(s := tf)\<rparr>) x) i"
  proof (cases "x = s")
    case True
    with assms(2)[OF i] show ?thesis by simp
  next
    case False
    then have x: "x = (\<not> s)" by blast
    have "genuine feat nm config (ss_conn S (\<not> s)) (ss_conn S (\<not> \<not> s)) (ss_traffic S (\<not> s)) i"
      using assms(1) i unfolding genuine_session_def by blast
    then show ?thesis using assms(3)[OF i] by (simp add: genuine_def x)
  qed
qed

lemma genuine_receiver:
  assumes "genuine_session feat nm config S"
    and "\<And>i. unreliable_channel config i \<Longrightarrow> genuine feat nm config (ss_conn S s) c tf i"
    and "\<And>i. unreliable_channel config i \<Longrightarrow>
      ur_message_send_queue (unreliable_of c i) = ur_message_send_queue (unreliable_of (ss_conn S (\<not> s)) i)"
  shows "genuine_session feat nm config (S\<lparr>ss_conn := (ss_conn S)(\<not> s := c), ss_traffic := (ss_traffic S)(s := tf)\<rparr>)"
  unfolding genuine_session_def
proof (intro allI impI)
  fix x i assume i: "unreliable_channel config i"
  show "genuine feat nm config (ss_conn (S\<lparr>ss_conn := (ss_conn S)(\<not> s := c), ss_traffic := (ss_traffic S)(s := tf)\<rparr>) x)
      (ss_conn (S\<lparr>ss_conn := (ss_conn S)(\<not> s := c), ss_traffic := (ss_traffic S)(s := tf)\<rparr>) (\<not> x))
      (ss_traffic (S\<lparr>ss_conn := (ss_conn S)(\<not> s := c), ss_traffic := (ss_traffic S)(s := tf)\<rparr>) x) i"
  proof (cases "x = s")
    case True
    with assms(2)[OF i] show ?thesis by simp
  next
    case False
    then have x: "x = (\<not> s)" by blast
    have "genuine feat nm config (ss_conn S (\<not> s)) (ss_conn S (\<not> \<not> s)) (ss_traffic S (\<not> s)) i"
      using assms(1) i unfolding genuine_session_def by blast
    then show ?thesis using assms(3)[OF i] by (simp add: genuine_def x)
  qed
qed

lemma subseq_kept:
  assumes "subseq (xs @ taken @ rest) ys" "taken \<in> shuffles kept dropped"
  shows "subseq (xs @ kept @ rest) ys"
proof -
  have "subseq kept taken" using assms(2)
    by (induction kept dropped arbitrary: taken rule: shuffles.induct) (auto simp: Cons_in_shuffles_iff)
  then have "subseq (xs @ kept @ rest) (xs @ taken @ rest)" by (intro list_emb_append_mono) simp_all
  with assms(1) show ?thesis by (rule subseq_order.order_trans[rotated])
qed

section \<open>Every step keeps it\<close>

lemma session_end_ok:
  "session_inv feat nm config S \<Longrightarrow> connection_ok nm (ss_conn S s) \<and> cn_config (ss_conn S s) = config"
  using session_invD(1)[of feat nm config S s] by (simp add: end_inv_def)

lemma genuine_sessionD:
  "genuine_session feat nm config S \<Longrightarrow> unreliable_channel config i \<Longrightarrow>
    genuine feat nm config (ss_conn S s) (ss_conn S (\<not> s)) (ss_traffic S s) i"
  by (simp add: genuine_session_def)

lemma genuine_time:
  assumes inv: "session_inv feat nm config S" and G: "genuine_session feat nm config S"
  shows "genuine_session feat nm config (S\<lparr>ss_conn := (ss_conn S)(s := connection_advance_time (ss_conn S s) t)\<rparr>)"
proof -
  have "unreliable_of (connection_advance_time (ss_conn S s) t) i = unreliable_of (ss_conn S s) i"
    if "unreliable_channel config i" for i
    using advance_unreliable[of nm "ss_conn S s"] that session_end_ok[OF inv] by simp
  then have "genuine_session feat nm config (S\<lparr>ss_conn := (ss_conn S)(s := connection_advance_time (ss_conn S s) t),
      ss_traffic := (ss_traffic S)(s := ss_traffic S s)\<rparr>)"
    using genuine_sessionD[OF G] by (intro genuine_sender[OF G]) (simp_all add: genuine_def)
  then show ?thesis by simp
qed

lemma genuine_send:
  assumes inv: "session_inv feat nm config S" and G: "genuine_session feat nm config S" and m: "msg_measurable nm m"
    and r: "connection_send_message nm (ss_conn S s) i m = Inr c"
    and tf: "tf' = (if connection_takes (ss_conn S s) i
           then (ss_traffic S s)\<lparr>tf_sent := (tf_sent (ss_traffic S s))(i := tf_sent (ss_traffic S s) i @ [m])\<rparr>
           else ss_traffic S s)"
  shows "genuine_session feat nm config (S\<lparr>ss_conn := (ss_conn S)(s := c), ss_traffic := (ss_traffic S)(s := tf')\<rparr>)"
proof -
  have eff: "unreliable_of c j = (if j = i \<and> connection_takes (ss_conn S s) i
      then unreliable_send_message (unreliable_of (ss_conn S s) j) m else unreliable_of (ss_conn S s) j)"
    if "unreliable_channel config j" for j
    using send_unreliable[OF _ m r] that session_end_ok[OF inv] by simp
  have "genuine feat nm config c (ss_conn S (\<not> s)) tf' j" if j: "unreliable_channel config j" for j
  proof (cases "j = i \<and> connection_takes (ss_conn S s) i")
    case True
    with genuine_sessionD[OF G j, of s] eff[OF j] show ?thesis
      by (auto simp: genuine_def tf unreliable_send_message_def vd_push_back_def
          simp flip: append_assoc intro!: list_emb_append_mono)
  qed (use genuine_sessionD[OF G j, of s] eff[OF j] in \<open>auto simp: genuine_def tf\<close>)
  then show ?thesis using eff by (intro genuine_sender[OF G]) (simp_all add: unreliable_send_message_def)
qed

lemma genuine_emit:
  assumes nm: "msg_lawful nm" and inv: "session_inv feat nm config S" and G: "genuine_session feat nm config S"
    and opn: "traffic_open config (ss_traffic S s)"
    and gen: "connection_generate_packet feat nm (ss_conn S s) (of_nat (length (tf_packets (ss_traffic S s)))) packet =
      Inr (written, buffer, c)"
    and tf: "tf' = (if 0 < written then traffic_emit feat nm config (take written buffer) (ss_traffic S s) else ss_traffic S s)"
  shows "genuine_session feat nm config (S\<lparr>ss_conn := (ss_conn S)(s := c), ss_traffic := (ss_traffic S)(s := tf')\<rparr>)"
proof -
  note ok = session_end_ok[OF inv, of s]
  have recent: "\<forall>i. reliable_channel (cn_config (ss_conn S s)) i \<longrightarrow>
      reliable_recent (of_nat (length (tf_packets (ss_traffic S s)))) (reliable_of (ss_conn S s) i)"
    using session_recent[OF inv opn] ok by simp
  have eff: "\<exists>kept dropped taken. taken \<in> shuffles kept dropped \<and>
      vd_items (ur_message_send_queue (unreliable_of (ss_conn S s) j)) =
        taken @ vd_items (ur_message_send_queue (unreliable_of c j)) \<and>
      ur_message_receive_queue (unreliable_of c j) = ur_message_receive_queue (unreliable_of (ss_conn S s) j) \<and>
      kept = (if 0 < written then packet_messages feat nm config j (take written buffer, ()) else [])"
    if "unreliable_channel config j" for j
    using generate_unreliable[OF nm _ recent gen, of j] ok that by (cases "0 < written") (auto simp: packet_messages_def)
  have "genuine feat nm config c (ss_conn S (\<not> s)) tf' j" if j: "unreliable_channel config j" for j
  proof -
    let ?old = "concat (map (packet_messages feat nm config j) (tf_packets (ss_traffic S s)))"
    obtain kept dropped taken where e: "taken \<in> shuffles kept dropped"
      "vd_items (ur_message_send_queue (unreliable_of (ss_conn S s) j)) =
        taken @ vd_items (ur_message_send_queue (unreliable_of c j))"
      "kept = (if 0 < written then packet_messages feat nm config j (take written buffer, ()) else [])"
      using eff[OF j] by blast
    have "subseq (?old @ kept @ vd_items (ur_message_send_queue (unreliable_of c j))) (tf_sent (ss_traffic S s) j)"
      by (rule subseq_kept[OF _ e(1)]) (use genuine_sessionD[OF G j, of s] e(2) in \<open>simp add: genuine_def\<close>)
    then show ?thesis
      using genuine_sessionD[OF G j, of s] e(3)
      by (cases "0 < written") (auto simp: genuine_def tf traffic_emit_def packet_messages_def)
  qed
  then show ?thesis using eff by (intro genuine_sender[OF G]) blast+
qed

lemma genuine_deliver:
  assumes inv: "session_inv feat nm config S" and G: "genuine_session feat nm config S"
    and fresh: "packet_fresh config (ss_traffic S s) n"
    and r: "connection_process_packet feat nm (ss_conn S (\<not> s)) (of_nat n) (packet_bytes (ss_traffic S s) n) = Inr (answer, c)"
    and tf: "tf' = (if answer then (ss_traffic S s)\<lparr>tf_delivered := insert n (tf_delivered (ss_traffic S s))\<rparr> else ss_traffic S s)"
  shows "genuine_session feat nm config (S\<lparr>ss_conn := (ss_conn S)(\<not> s := c), ss_traffic := (ss_traffic S)(s := tf')\<rparr>)"
proof -
  let ?c = "ss_conn S (\<not> s)" and ?p = "tf_packets (ss_traffic S s) ! n"
  note ok = session_end_ok[OF inv, of "\<not> s"]
  have n: "n < length (tf_packets (ss_traffic S s))" "packet_bytes (ss_traffic S s) n \<noteq> []"
    using fresh by (simp_all add: packet_fresh_def)
  have bytes: "packet_readable feat nm (cn_config ?c) (packet_bytes (ss_traffic S s) n)"
    using direction_invD(1)[OF session_invD(2)[OF inv] n] ok by simp
  have eff: "ur_message_send_queue (unreliable_of c j) = ur_message_send_queue (unreliable_of ?c j) \<and>
      snd ` set (vd_items (ur_message_receive_queue (unreliable_of c j))) \<subseteq>
        snd ` set (vd_items (ur_message_receive_queue (unreliable_of ?c j))) \<union> set (packet_messages feat nm config j ?p)"
    if j: "unreliable_channel config j" for j
  proof -
    let ?pd = "entry_of j (read_packet feat nm config (packet_bytes (ss_traffic S s) n))"
    obtain ur where ur: "unreliable_of ?c j = ur" "unreliable_ok nm (nc_channels (cn_config ?c) ! j) ur"
      using unreliable_ofE[of nm ?c j] ok j by metis
    have "unreliable_of c j \<in> {ur, unreliable_process_packet_data ur ?pd (of_nat n)}"
      using process_unreliable[OF _ bytes r, of j] ok j ur(1) by simp
    moreover have "snd ` set (vd_items (ur_message_receive_queue (unreliable_process_packet_data ur ?pd (of_nat n)))) \<subseteq>
        snd ` set (vd_items (ur_message_receive_queue ur)) \<union> snd ` set (pd_messages ?pd)"
      unfolding unreliable_process_result(1)[OF ur(2)] by (force dest: in_set_takeD)
    moreover have "ur_message_send_queue (unreliable_process_packet_data ur ?pd (of_nat n)) = ur_message_send_queue ur"
      by (simp add: unreliable_process_packet_data_def)
    moreover have "set (packet_messages feat nm config j ?p) = snd ` set (pd_messages ?pd)"
      by (simp add: packet_messages_def packet_bytes_def)
    ultimately show ?thesis using ur(1) by (elim insertE) simp_all
  qed
  have "genuine feat nm config (ss_conn S s) c tf' j" if j: "unreliable_channel config j" for j
  proof -
    have "?p \<in> set (tf_packets (ss_traffic S s))" using n(1) by simp
    then show ?thesis using genuine_sessionD[OF G j, of s] eff[OF j] by (fastforce simp: genuine_def tf)
  qed
  then show ?thesis using eff by (intro genuine_receiver[OF G]) blast+
qed

lemma genuine_receive:
  assumes inv: "session_inv feat nm config S" and G: "genuine_session feat nm config S"
    and r: "connection_receive_message (ss_conn S (\<not> s)) i = Inr (x, c)"
    and tf: "tf' = (ss_traffic S s)\<lparr>tf_received := (tf_received (ss_traffic S s))
             (i := tf_received (ss_traffic S s) i @ (case x of None \<Rightarrow> [] | Some (_, m) \<Rightarrow> [m]))\<rparr>"
  shows "genuine_session feat nm config (S\<lparr>ss_conn := (ss_conn S)(\<not> s := c), ss_traffic := (ss_traffic S)(s := tf')\<rparr>)"
proof -
  let ?c = "ss_conn S (\<not> s)"
  note ok = session_end_ok[OF inv, of "\<not> s"]
  have eff: "ur_message_send_queue (unreliable_of c j) = ur_message_send_queue (unreliable_of ?c j) \<and>
      set (vd_items (ur_message_receive_queue (unreliable_of c j))) \<union> (if j = i then set_option x else {}) \<subseteq>
        set (vd_items (ur_message_receive_queue (unreliable_of ?c j)))"
    if j: "unreliable_channel config j" for j
  proof -
    have "unreliable_of c j = unreliable_of ?c j \<and> (j = i \<longrightarrow> x = None) \<or>
        j = i \<and> unreliable_receive_message (unreliable_of ?c j) = (x, unreliable_of c j)"
      using receive_unreliable[OF _ r, of nm j] ok j by simp
    then show ?thesis
      by (cases "vd_items (ur_message_receive_queue (unreliable_of ?c j))")
        (auto simp: unreliable_receive_message_def dest!: sym[where t = "unreliable_of c i"])
  qed
  have "genuine feat nm config (ss_conn S s) c tf' j" if j: "unreliable_channel config j" for j
  proof -
    let ?in = "\<lambda>c. snd ` set (vd_items (ur_message_receive_queue (unreliable_of c j)))"
    have "set (tf_received tf' j) \<subseteq> set (tf_received (ss_traffic S s) j) \<union> (if j = i then snd ` set_option x else {})"
      by (cases x) (auto simp: tf)
    moreover have "(if j = i then snd ` set_option x else {}) \<union> ?in c \<subseteq> ?in ?c"
      using eff[OF j] by (auto split: if_splits)
    ultimately have less: "?in c \<union> set (tf_received tf' j) \<subseteq> ?in ?c \<union> set (tf_received (ss_traffic S s) j)" by blast
    have same: "tf_packets tf' = tf_packets (ss_traffic S s)" "tf_sent tf' = tf_sent (ss_traffic S s)" by (simp_all add: tf)
    note g = genuine_sessionD[OF G j, of s, unfolded genuine_def]
    show ?thesis
      unfolding genuine_def same using conjunct1[OF g] order.trans[OF less conjunct2[OF g]] by (rule conjI)
  qed
  then show ?thesis using eff by (intro genuine_receiver[OF G]) blast+
qed

lemma acks_unreliable:
  assumes "connection_ok nm cn" "connection_process_acks cn as = Inr cn'" "unreliable_channel (cn_config cn) j"
  shows "unreliable_of cn' j = unreliable_of cn j"
  using assms
proof (induction as arbitrary: cn)
  case (Cons a as)
  obtain cn1 where a: "connection_process_acks cn [a] = Inr cn1" "connection_process_acks cn1 as = Inr cn'"
    using Cons.prems(2) unfolding process_acks_Cons[of _ _ as] rbind_eq_Inr by blast
  with Cons.IH[of cn1] ack_effect(1,2)[OF Cons.prems(1) a(1)] ack_unreliable[OF Cons.prems(1) a(1) Cons.prems(3)] Cons.prems(3)
  show ?case by simp
qed (simp add: connection_process_acks_def)

lemma genuine_step:
  assumes nm: "msg_lawful nm" and inv: "session_inv feat nm config S"
    and step: "session_step feat nm config S S'" and G: "genuine_session feat nm config S"
  shows "genuine_session feat nm config S'"
  using step
proof cases
  case (Time s t)
  with genuine_time[OF inv G] show ?thesis by simp
next
  case (Send m s i c tf')
  with genuine_send[OF inv G Send(2-4)] show ?thesis by simp
next
  case (Emit s packet written buffer c tf')
  with genuine_emit[OF nm inv G Emit(2-4)] show ?thesis by simp
next
  case (Skip s)
  have none: "packet_messages feat nm config i ([], f) = []" for i and f :: "nat \<Rightarrow> nat"
    by (simp add: packet_messages_def entry_of_def cpd_empty_def)
  have "genuine_session feat nm config (S\<lparr>ss_conn := (ss_conn S)(s := ss_conn S s),
      ss_traffic := (ss_traffic S)(s := traffic_emit feat nm config [] (ss_traffic S s))\<rparr>)"
    using genuine_sessionD[OF G, of _ s] none by (intro genuine_sender[OF G]) (simp_all add: genuine_def traffic_emit_def)
  with Skip show ?thesis by simp
next
  case (Deliver s n answer c tf')
  with genuine_deliver[OF inv G Deliver(2-4)] show ?thesis by simp
next
  case (Receive s i r c tf')
  with genuine_receive[OF inv G Receive(2,3)] show ?thesis by simp
next
  case (Acks ns s c tf')
  have "unreliable_of c j = unreliable_of (ss_conn S s) j" if "unreliable_channel config j" for j
    using acks_unreliable[of nm, OF _ Acks(4)] session_end_ok[OF inv] that by simp
  then have "genuine_session feat nm config (S\<lparr>ss_conn := (ss_conn S)(s := c), ss_traffic := (ss_traffic S)(s := tf')\<rparr>)"
    using genuine_sessionD[OF G, of _ s] Acks(5) by (intro genuine_sender[OF G]) (simp_all add: genuine_def)
  with Acks show ?thesis by simp
qed

lemma connection_new_unreliable:
  assumes "connection_new config t = Inr c" "unreliable_channel config i"
  shows "unreliable_new (nc_channels config ! i) = Inr (unreliable_of c i)"
proof -
  obtain chs where chs: "rfold (\<lambda>channels (i, c). rbind (channel_new c i t) (\<lambda>ch. Inr (channels @ [ch]))) []
      (enumerate 0 (nc_channels config)) = Inr chs" and c: "cn_channels c = chs"
    using assms(1) by (auto simp: connection_new_def rbind_eq_Inr split: if_splits)
  have "channel_new (nc_channels config ! i) i t = Inr (chs ! i)"
    using new_channels_nth[OF chs] assms(2) by (auto simp: unreliable_channel_def)
  then show ?thesis
    using assms(2) c by (auto simp: channel_new_def unreliable_channel_def rbind_eq_Inr
        dest!: sym[where t = "cn_channels c ! i"] intro!: unreliable_of_eq[symmetric])
qed

lemma genuine_reachable:
  assumes "msg_lawful nm" "session_reachable feat nm config S"
  shows "genuine_session feat nm config S"
  using assms(2)
proof induction
  case (start t c)
  have "vd_items (ur_message_send_queue (unreliable_of (c s) i)) = [] \<and>
      vd_items (ur_message_receive_queue (unreliable_of (c s) i)) = []" if "unreliable_channel config i" for s i
    using connection_new_unreliable[OF start(2) that, of s]
    by (auto simp: unreliable_new_def vd_with_capacity_def split: if_splits dest!: sym[where t = "unreliable_of (c s) i"])
  then show ?case by (simp add: genuine_session_def genuine_def) (simp add: no_traffic_def)
next
  case (step S S')
  then show ?case using genuine_step[OF assms(1) session_reachable_inv[OF assms(1)]] by blast
qed

section \<open>The promise\<close>

text \<open>C6: On an unreliable channel nothing is invented, altered or moved to another channel, and the
  code repeats nothing: the messages of all packets written, in order, are a subsequence of the
  messages sent, and every message handed out came out of one of these packets. What is handed
  out twice was in a packet that the network delivered twice.\<close>

theorem session_unreliable_genuine:
  assumes "msg_lawful nm" "session_reachable feat nm config S" "unreliable_channel config i"
  shows "subseq (concat (map (packet_messages feat nm config i) (tf_packets (ss_traffic S s)))) (tf_sent (ss_traffic S s) i) \<and>
    set (tf_received (ss_traffic S s) i) \<subseteq>
      (\<Union>p \<in> set (tf_packets (ss_traffic S s)). set (packet_messages feat nm config i p))"
proof -
  have start: "subseq xs zs" if "subseq (xs @ ys) zs" for xs ys zs :: "'a list"
    using that subseq_order.order_trans subseq_rev_drop_many[OF subseq_order.order_refl] by metis
  show ?thesis
    using genuine_sessionD[OF genuine_reachable[OF assms(1,2)] assms(3), of s] start unfolding genuine_def by blast
qed

section \<open>A concrete run\<close>

definition demo_taken_both :: "u64 connection" where
  "demo_taken_both = demo_or (map_sum id snd (connection_receive_message demo_taken 0))"

lemma demo_takes_unreliable: "connection_receive_message demo_taken 0 = Inr (Some (0, 7), demo_taken_both)"
proof -
  have "map_sum id fst (connection_receive_message demo_taken 0) = Inr (Some (0, 7))" by code_simp
  then show ?thesis
    by (cases "connection_receive_message demo_taken 0") (auto simp: demo_taken_both_def demo_or_def)
qed

definition demo_tf_both :: "u64 traffic" where
  "demo_tf_both = demo_tf_taken\<lparr>tf_received := (tf_received demo_tf_taken)(0 := [7])\<rparr>"

lemma demo_session_both: "demo_session_reachable (demo_session demo_written demo_taken_both demo_tf_both)"
proof -
  have "session_step plain_features test_message demo_connection_config (demo_session demo_written demo_taken demo_tf_taken)
      (demo_session demo_written demo_taken_both demo_tf_both)"
    using session_step.Receive[of "demo_session demo_written demo_taken demo_tf_taken" True 0 "Some (0, 7)"
        demo_taken_both demo_tf_both plain_features test_message demo_connection_config] demo_takes_unreliable
    by (simp add: demo_tf_both_def) (simp add: demo_traffic_defs)
  with demo_session_taken show ?thesis by (rule session_reachable.step)
qed

theorem session_unreliable_genuine_witness:
  "set (tf_received demo_tf_both 0) = {7} \<and>
   7 \<in> (\<Union>p \<in> set (tf_packets demo_tf_both). set (packet_messages plain_features test_message demo_connection_config 0 p))"
proof -
  have "unreliable_channel demo_connection_config 0"
    by (simp add: unreliable_channel_def demo_connection_config_def demo_unreliable_config_def channel_config_new_def)
  from session_unreliable_genuine[OF test_message_lawful demo_session_both this, of True]
  have "set (tf_received demo_tf_both 0) \<subseteq>
      (\<Union>p \<in> set (tf_packets demo_tf_both). set (packet_messages plain_features test_message demo_connection_config 0 p))"
    by (simp only: demo_session_simps) 
  moreover have "tf_received demo_tf_both 0 = [7]" by (simp add: demo_tf_both_def)
  ultimately show ?thesis by simp
qed

end
