(* ===== verification/Net_Library.thy ===== *)
theory Net_Library
  imports Network_Simulator
begin

text \<open>
  The libraries the client and the server are built on: netcode.io and reliable.io (C, called
  through generated bindings; their sources are submodules) and the generator of the crate
  \<open>rand\<close>. None of it is under \<open>src/\<close>, so it is a parameter: a record of functions on a state
  of the outside world \<open>'w\<close> (both libraries, the operating system, the network).

  A pointer is a handle or null. A library calls back into the crate: \<open>c_endpoint_send\<close> returns
  the calls of \<open>transmit_packet\<close> it makes, \<open>c_endpoint_receive\<close> the call of \<open>process_packet\<close> it
  makes, if any, whose answer goes back through \<open>c_endpoint_processed\<close>; the functions of
  netcode return the state changes (client) or connects and disconnects (server) they report.

  Around the library there is a log of the calls, from which one reads whether every call was
  made on an object that existed then.
\<close>

section \<open>What is passed to the libraries\<close>

type_synonym handle = nat
type_synonym ptr = "handle option"

text \<open>\<open>src/network_info.rs\<close>.\<close>

record network_info =
  ni_rtt :: f32
  ni_packet_loss :: f32
  ni_sent_bandwidth :: f32
  ni_received_bandwidth :: f32
  ni_acked_bandwidth :: f32
  ni_num_packets_sent :: u64
  ni_num_packets_received :: u64
  ni_num_packets_acked :: u64

text \<open>The fields of \<open>reliable_config_t\<close> that \<open>new_reliable_config\<close> sets over the defaults of the
  library; the callbacks and the context pointer are what the model of the caller stands for.
  The name is copied into an array of the struct; both callers pass short names.\<close>

record reliable_config =
  rc_name :: string
  rc_index :: usize
  rc_max_packet_size :: usize
  rc_fragment_above :: usize
  rc_max_fragments :: usize
  rc_fragment_size :: usize
  rc_ack_buffer_size :: usize
  rc_received_packets_buffer_size :: usize
  rc_fragment_reassembly_buffer_size :: usize
  rc_rtt_smoothing_factor :: f32

definition new_reliable_config ::
  "client_server_config \<Rightarrow> string \<Rightarrow> usize option \<Rightarrow> reliable_config" where
  "new_reliable_config config name client_index =
     \<lparr>rc_name = name,
      rc_index = (case client_index of None \<Rightarrow> 0 | Some i \<Rightarrow> i),
      rc_max_packet_size = nc_max_packet_size (cs_connection config),
      rc_fragment_above = cs_fragment_packets_above config,
      rc_max_fragments = cs_max_packet_fragments config,
      rc_fragment_size = cs_packet_fragment_size config,
      rc_ack_buffer_size = cs_acked_packets_buffer_size config,
      rc_received_packets_buffer_size = cs_received_packets_buffer_size config,
      rc_fragment_reassembly_buffer_size = cs_packet_reassembly_buffer_size config,
      rc_rtt_smoothing_factor = cs_rtt_smoothing_factor config\<rparr>"

type_synonym connect_token = "u8 list"

datatype packet_counter = PacketsSent | PacketsReceived | PacketsAcked

text \<open>What the crate reads of a \<open>netcode_address_t\<close>: the kind, both members of the union and the port.\<close>

record netcode_address =
  na_type :: int
  na_ipv4 :: "u8 list"
  na_ipv6 :: "u16 list"
  na_port :: u16

section \<open>The libraries\<close>

record 'w netlib =
  \<comment> \<open>\<open>rand\<close>\<close>
  c_thread_rng :: "'w \<Rightarrow> draws \<times> 'w"
  \<comment> \<open>reliable.io\<close>
  c_endpoint_create :: "reliable_config \<Rightarrow> f64 \<Rightarrow> 'w \<Rightarrow> ptr \<times> 'w"
  c_endpoint_destroy :: "ptr \<Rightarrow> 'w \<Rightarrow> 'w"
  c_endpoint_reset :: "ptr \<Rightarrow> 'w \<Rightarrow> 'w"
  c_endpoint_update :: "ptr \<Rightarrow> f64 \<Rightarrow> 'w \<Rightarrow> 'w"
  c_endpoint_get_acks :: "ptr \<Rightarrow> 'w \<Rightarrow> u16 list"
  c_endpoint_clear_acks :: "ptr \<Rightarrow> 'w \<Rightarrow> 'w"
  c_endpoint_next_sequence :: "ptr \<Rightarrow> 'w \<Rightarrow> u16"
  c_endpoint_send :: "ptr \<Rightarrow> u8 list \<Rightarrow> 'w \<Rightarrow> (u16 \<times> u8 list) list \<times> 'w"
  c_endpoint_receive :: "ptr \<Rightarrow> u8 list \<Rightarrow> 'w \<Rightarrow> (u16 \<times> u8 list) option \<times> 'w"
  c_endpoint_processed :: "ptr \<Rightarrow> bool \<Rightarrow> 'w \<Rightarrow> 'w"
  c_endpoint_bandwidth :: "ptr \<Rightarrow> 'w \<Rightarrow> f32 \<times> f32 \<times> f32"
  c_endpoint_counter :: "ptr \<Rightarrow> packet_counter \<Rightarrow> 'w \<Rightarrow> u64"
  c_endpoint_rtt :: "ptr \<Rightarrow> 'w \<Rightarrow> f32"
  c_endpoint_packet_loss :: "ptr \<Rightarrow> 'w \<Rightarrow> f32"
  \<comment> \<open>netcode.io, client\<close>
  c_max_servers_per_connect :: nat
  c_generate_connect_token :: "string list \<Rightarrow> int \<Rightarrow> u64 \<Rightarrow> u64 \<Rightarrow> u8 list \<Rightarrow> 'w \<Rightarrow> connect_token option \<times> 'w"
  c_client_create :: "string \<Rightarrow> f64 \<Rightarrow> 'w \<Rightarrow> ptr \<times> 'w"
  c_client_destroy :: "ptr \<Rightarrow> 'w \<Rightarrow> (int \<times> int) list \<times> 'w"
  c_client_get_port :: "ptr \<Rightarrow> 'w \<Rightarrow> u16"
  c_client_connect :: "ptr \<Rightarrow> connect_token \<Rightarrow> 'w \<Rightarrow> (int \<times> int) list \<times> 'w"
  c_client_update :: "ptr \<Rightarrow> f64 \<Rightarrow> 'w \<Rightarrow> (int \<times> int) list \<times> 'w"
  c_client_state :: "ptr \<Rightarrow> 'w \<Rightarrow> int"
  c_client_send :: "ptr \<Rightarrow> u8 list \<Rightarrow> 'w \<Rightarrow> 'w"
  c_client_receive :: "ptr \<Rightarrow> 'w \<Rightarrow> u8 list option \<times> 'w"
  c_client_free_packet :: "ptr \<Rightarrow> u8 list \<Rightarrow> 'w \<Rightarrow> 'w"
  \<comment> \<open>netcode.io, server\<close>
  c_server_create :: "string \<Rightarrow> u64 \<Rightarrow> u8 list \<Rightarrow> f64 \<Rightarrow> 'w \<Rightarrow> ptr \<times> 'w"
  c_server_destroy :: "ptr \<Rightarrow> 'w \<Rightarrow> 'w"
  c_server_start :: "ptr \<Rightarrow> int \<Rightarrow> 'w \<Rightarrow> 'w"
  c_server_stop :: "ptr \<Rightarrow> 'w \<Rightarrow> (int \<times> bool) list \<times> 'w"
  c_server_get_port :: "ptr \<Rightarrow> 'w \<Rightarrow> u16"
  c_server_update :: "ptr \<Rightarrow> f64 \<Rightarrow> 'w \<Rightarrow> (int \<times> bool) list \<times> 'w"
  c_server_client_connected :: "ptr \<Rightarrow> int \<Rightarrow> 'w \<Rightarrow> bool"
  c_server_client_id :: "ptr \<Rightarrow> int \<Rightarrow> 'w \<Rightarrow> u64"
  c_server_num_connected_clients :: "ptr \<Rightarrow> 'w \<Rightarrow> int"
  c_server_disconnect_client :: "ptr \<Rightarrow> int \<Rightarrow> 'w \<Rightarrow> (int \<times> bool) list \<times> 'w"
  c_server_send :: "ptr \<Rightarrow> int \<Rightarrow> u8 list \<Rightarrow> 'w \<Rightarrow> 'w"
  c_server_receive :: "ptr \<Rightarrow> int \<Rightarrow> 'w \<Rightarrow> u8 list option \<times> 'w"
  c_server_free_packet :: "ptr \<Rightarrow> u8 list \<Rightarrow> 'w \<Rightarrow> 'w"
  c_server_client_address :: "ptr \<Rightarrow> int \<Rightarrow> 'w \<Rightarrow> netcode_address option"
  \<comment> \<open>netcode.io and reliable.io as a whole; the constants of their headers\<close>
  c_netcode_init :: "'w \<Rightarrow> int \<times> 'w"
  c_reliable_init :: "'w \<Rightarrow> int \<times> 'w"
  c_netcode_term :: "'w \<Rightarrow> 'w"
  c_reliable_term :: "'w \<Rightarrow> 'w"
  c_netcode_log_level :: "int \<Rightarrow> 'w \<Rightarrow> 'w"
  c_reliable_log_level :: "int \<Rightarrow> 'w \<Rightarrow> 'w"
  c_netcode_ok :: int
  c_reliable_ok :: int
  c_address_ipv4 :: int
  c_address_ipv6 :: int

section \<open>What the callers share\<close>

text \<open>\<open>CString::new(..).unwrap()\<close> panics on a string that contains a zero byte.\<close>

definition c_string :: "string \<Rightarrow> panic + string" where
  "c_string str = (if CHR 0x00 \<in> set str then Inl UnwrapOnErr else Inr str)"

text \<open>What \<open>snapshot_network_info\<close> reads from an endpoint, in the client and in the server.\<close>

definition endpoint_network_info :: "'w netlib \<Rightarrow> ptr \<Rightarrow> 'w \<Rightarrow> network_info" where
  "endpoint_network_info L endpoint w =
     (let (sent_bandwidth, received_bandwidth, acked_bandwidth) = c_endpoint_bandwidth L endpoint w
      in \<lparr>ni_rtt = c_endpoint_rtt L endpoint w, ni_packet_loss = c_endpoint_packet_loss L endpoint w,
          ni_sent_bandwidth = sent_bandwidth, ni_received_bandwidth = received_bandwidth,
          ni_acked_bandwidth = acked_bandwidth,
          ni_num_packets_sent = c_endpoint_counter L endpoint PacketsSent w,
          ni_num_packets_received = c_endpoint_counter L endpoint PacketsReceived w,
          ni_num_packets_acked = c_endpoint_counter L endpoint PacketsAcked w\<rparr>)"

section \<open>The log of calls\<close>

datatype object = Endpoint | NetClient | NetServer

datatype call = Create object ptr | Destroy object ptr | Use object ptr

record 'w os =
  os_world :: 'w
  os_calls :: "call list"

definition os_log :: "call \<Rightarrow> 'w os \<Rightarrow> 'w os" where
  "os_log c s = s\<lparr>os_calls := os_calls s @ [c]\<rparr>"

text \<open>A call that creates an object, one that destroys it, one that changes the world, one that
  reports callbacks as well, and one that only reads.\<close>

definition os_create :: "object \<Rightarrow> ('w \<Rightarrow> ptr \<times> 'w) \<Rightarrow> 'w os \<Rightarrow> ptr \<times> 'w os" where
  "os_create k f s = (let (p, w) = f (os_world s) in (p, os_log (Create k p) (s\<lparr>os_world := w\<rparr>)))"

definition os_destroy :: "object \<Rightarrow> ptr \<Rightarrow> ('w \<Rightarrow> 'a \<times> 'w) \<Rightarrow> 'w os \<Rightarrow> 'a \<times> 'w os" where
  "os_destroy k p f s = (let (x, w) = f (os_world s) in (x, os_log (Destroy k p) (s\<lparr>os_world := w\<rparr>)))"

definition os_run :: "object \<Rightarrow> ptr \<Rightarrow> ('w \<Rightarrow> 'a \<times> 'w) \<Rightarrow> 'w os \<Rightarrow> 'a \<times> 'w os" where
  "os_run k p f s = (let (x, w) = f (os_world s) in (x, os_log (Use k p) (s\<lparr>os_world := w\<rparr>)))"

definition os_do :: "object \<Rightarrow> ptr \<Rightarrow> ('w \<Rightarrow> 'w) \<Rightarrow> 'w os \<Rightarrow> 'w os" where
  "os_do k p f s = os_log (Use k p) (s\<lparr>os_world := f (os_world s)\<rparr>)"

definition os_ask :: "object \<Rightarrow> ptr \<Rightarrow> ('w \<Rightarrow> 'a) \<Rightarrow> 'w os \<Rightarrow> 'a \<times> 'w os" where
  "os_ask k p f s = (f (os_world s), os_log (Use k p) s)"

text \<open>Calls that take no object.\<close>

definition os_free :: "('w \<Rightarrow> 'a \<times> 'w) \<Rightarrow> 'w os \<Rightarrow> 'a \<times> 'w os" where
  "os_free f s = (let (x, w) = f (os_world s) in (x, s\<lparr>os_world := w\<rparr>))"

section \<open>Safe logs\<close>

text \<open>The objects that exist after a log of calls, or \<open>None\<close> when a call was made on a null
  pointer or on an object that did not exist (or no longer), or when the library handed out a
  handle that was in use.\<close>

fun safe_run :: "(object \<times> handle) set \<Rightarrow> call list \<Rightarrow> (object \<times> handle) set option" where
  "safe_run A [] = Some A"
| "safe_run A (Create k None # cs) = safe_run A cs"
| "safe_run A (Create k (Some h) # cs) = (if (k, h) \<in> A then None else safe_run (insert (k, h) A) cs)"
| "safe_run A (Destroy k (Some h) # cs) = (if (k, h) \<in> A then safe_run (A - {(k, h)}) cs else None)"
| "safe_run A (Use k (Some h) # cs) = (if (k, h) \<in> A then safe_run A cs else None)"
| "safe_run A (Destroy k None # cs) = None"
| "safe_run A (Use k None # cs) = None"

lemma safe_run_append:
  "safe_run A (cs @ ds) = (case safe_run A cs of None \<Rightarrow> None | Some B \<Rightarrow> safe_run B ds)"
  by (induction A cs rule: safe_run.induct) auto

text \<open>The log is safe and leaves exactly these objects.\<close>

definition os_live :: "'w os \<Rightarrow> (object \<times> handle) set \<Rightarrow> bool" where
  "os_live s A \<longleftrightarrow> safe_run {} (os_calls s) = Some A"

lemma os_live_world [simp]: "os_live (s\<lparr>os_world := w\<rparr>) A = os_live s A"
  by (simp add: os_live_def)

lemma os_log_world [simp]: "os_world (os_log c s) = os_world s"
  by (simp add: os_log_def)

lemma os_live_log:
  "os_live s A \<Longrightarrow> (k, h) \<in> A \<Longrightarrow> os_live (os_log (Use k (Some h)) s) A"
  "os_live s A \<Longrightarrow> (k, h) \<in> A \<Longrightarrow> os_live (os_log (Destroy k (Some h)) s) (A - {(k, h)})"
  "os_live s A \<Longrightarrow> (k, h) \<notin> A \<Longrightarrow> os_live (os_log (Create k (Some h)) s) (insert (k, h) A)"
  "os_live s A \<Longrightarrow> os_live (os_log (Create k None) s) A"
  by (simp_all add: os_live_def os_log_def safe_run_append)

lemma os_live_unique: "os_live s A \<Longrightarrow> os_live s B \<Longrightarrow> A = B"
  by (simp add: os_live_def)

section \<open>What the libraries promise about their objects\<close>

text \<open>The library knows which objects exist, \<open>lv w\<close> in the world \<open>w\<close>: \<open>create\<close> gives null or a new
  one, \<open>destroy\<close> removes it, and nothing else creates or removes any. This is the documented
  ownership of the objects, and the only thing the safety of the calls rests on.\<close>

definition keeps :: "('w \<Rightarrow> (object \<times> handle) set) \<Rightarrow> ('w \<Rightarrow> 'w) \<Rightarrow> bool" where
  "keeps lv f \<longleftrightarrow> (\<forall>w. lv (f w) = lv w)"

definition creates :: "('w \<Rightarrow> (object \<times> handle) set) \<Rightarrow> object \<Rightarrow> bool \<Rightarrow> ('w \<Rightarrow> ptr \<times> 'w) \<Rightarrow> bool" where
  "creates lv k nullable f \<longleftrightarrow> (\<forall>w. case f w of
       (None, w') \<Rightarrow> nullable \<and> lv w' = lv w
     | (Some h, w') \<Rightarrow> (k, h) \<notin> lv w \<and> lv w' = insert (k, h) (lv w))"

definition destroys :: "('w \<Rightarrow> (object \<times> handle) set) \<Rightarrow> object \<Rightarrow> (ptr \<Rightarrow> 'w \<Rightarrow> 'w) \<Rightarrow> bool" where
  "destroys lv k f \<longleftrightarrow> (\<forall>h w. lv (f (Some h) w) = lv w - {(k, h)})"

definition reliable_lib_ok :: "'w netlib \<Rightarrow> ('w \<Rightarrow> (object \<times> handle) set) \<Rightarrow> bool" where
  "reliable_lib_ok L lv \<longleftrightarrow> keeps lv (\<lambda>w. snd (c_thread_rng L w)) \<and>
     (\<forall>config t. creates lv Endpoint False (c_endpoint_create L config t)) \<and>
     destroys lv Endpoint (c_endpoint_destroy L) \<and> (\<forall>p. keeps lv (c_endpoint_reset L p)) \<and>
     (\<forall>p t. keeps lv (c_endpoint_update L p t)) \<and> (\<forall>p. keeps lv (c_endpoint_clear_acks L p)) \<and>
     (\<forall>p bs. keeps lv (\<lambda>w. snd (c_endpoint_send L p bs w))) \<and>
     (\<forall>p bs. keeps lv (\<lambda>w. snd (c_endpoint_receive L p bs w))) \<and>
     (\<forall>p b. keeps lv (c_endpoint_processed L p b))"

definition client_lib_ok :: "'w netlib \<Rightarrow> ('w \<Rightarrow> (object \<times> handle) set) \<Rightarrow> bool" where
  "client_lib_ok L lv \<longleftrightarrow>
     (\<forall>as t i p key. keeps lv (\<lambda>w. snd (c_generate_connect_token L as t i p key w))) \<and>
     (\<forall>a t. creates lv NetClient True (c_client_create L a t)) \<and>
     destroys lv NetClient (\<lambda>p w. snd (c_client_destroy L p w)) \<and>
     (\<forall>p tok. keeps lv (\<lambda>w. snd (c_client_connect L p tok w))) \<and>
     (\<forall>p t. keeps lv (\<lambda>w. snd (c_client_update L p t w))) \<and>
     (\<forall>p bs. keeps lv (c_client_send L p bs)) \<and> (\<forall>p bs. keeps lv (c_client_free_packet L p bs)) \<and> (\<forall>p. keeps lv (\<lambda>w. snd (c_client_receive L p w)))"

definition server_lib_ok :: "bool \<Rightarrow> 'w netlib \<Rightarrow> ('w \<Rightarrow> (object \<times> handle) set) \<Rightarrow> bool" where
  "server_lib_ok nullable L lv \<longleftrightarrow>
     (\<forall>a p key t. creates lv NetServer nullable (c_server_create L a p key t)) \<and>
     destroys lv NetServer (c_server_destroy L) \<and> (\<forall>p n. keeps lv (c_server_start L p n)) \<and>
     (\<forall>p. keeps lv (\<lambda>w. snd (c_server_stop L p w))) \<and>
     (\<forall>p t. keeps lv (\<lambda>w. snd (c_server_update L p t w))) \<and>
     (\<forall>p i. keeps lv (\<lambda>w. snd (c_server_disconnect_client L p i w))) \<and>
     (\<forall>p i bs. keeps lv (c_server_send L p i bs)) \<and> (\<forall>p bs. keeps lv (c_server_free_packet L p bs)) \<and> (\<forall>p i. keeps lv (\<lambda>w. snd (c_server_receive L p i w)))"

text \<open>The log is safe, and the objects it leaves are the ones the library has.\<close>

definition os_ok :: "('w \<Rightarrow> (object \<times> handle) set) \<Rightarrow> (object \<times> handle) set \<Rightarrow> 'w os \<Rightarrow> bool" where
  "os_ok lv A s \<longleftrightarrow> os_live s A \<and> lv (os_world s) = A"

fun ptr_objects :: "object \<Rightarrow> ptr \<Rightarrow> (object \<times> handle) set" where
  "ptr_objects k None = {}"
| "ptr_objects k (Some h) = {(k, h)}"

lemma reliable_lib_okD:
  assumes "reliable_lib_ok L lv"
  shows "keeps lv (\<lambda>w. snd (c_thread_rng L w))" "creates lv Endpoint False (c_endpoint_create L config t)"
    "destroys lv Endpoint (c_endpoint_destroy L)" "keeps lv (c_endpoint_reset L p)"
    "keeps lv (c_endpoint_update L p t)" "keeps lv (c_endpoint_clear_acks L p)"
    "keeps lv (\<lambda>w. snd (c_endpoint_send L p bs w))" "keeps lv (\<lambda>w. snd (c_endpoint_receive L p bs w))"
    "keeps lv (c_endpoint_processed L p b)"
  using assms by (auto simp: reliable_lib_ok_def)

lemma server_lib_okD:
  assumes "server_lib_ok nullable L lv"
  shows "creates lv NetServer nullable (c_server_create L a p key t)" "destroys lv NetServer (c_server_destroy L)"
    "keeps lv (c_server_start L q n)" "keeps lv (\<lambda>w. snd (c_server_stop L q w))"
    "keeps lv (\<lambda>w. snd (c_server_update L q t w))" "keeps lv (\<lambda>w. snd (c_server_disconnect_client L q i w))"
    "keeps lv (c_server_send L q i bs)" "keeps lv (c_server_free_packet L q bs)"
    "keeps lv (\<lambda>w. snd (c_server_receive L q i w))"
  using assms by (auto simp: server_lib_ok_def)

lemma os_create_ok:
  assumes "os_ok lv A s" "creates lv k nullable f" "os_create k f s = (p, s')"
  shows "case p of None \<Rightarrow> nullable \<and> os_ok lv A s' | Some h \<Rightarrow> (k, h) \<notin> A \<and> os_ok lv (insert (k, h) A) s'"
proof -
  obtain w where w: "f (os_world s) = (p, w)" "s' = os_log (Create k p) (s\<lparr>os_world := w\<rparr>)"
    using assms(3) by (auto simp: os_create_def split: prod.splits)
  have c: "case f (os_world s) of (None, w') \<Rightarrow> nullable \<and> lv w' = lv (os_world s)
     | (Some h, w') \<Rightarrow> (k, h) \<notin> lv (os_world s) \<and> lv w' = insert (k, h) (lv (os_world s))"
    using assms(2) by (simp only: creates_def)
  show ?thesis
  proof (cases p)
    case None
    with c w assms(1) show ?thesis by (simp add: os_ok_def os_live_log)
  next
    case (Some h)
    with c w assms(1) show ?thesis by (simp add: os_ok_def os_live_log)
  qed
qed

lemma os_destroy_ok:
  assumes "os_ok lv A s" "destroys lv k g" "(k, h) \<in> A" "\<And>w. snd (f w) = g (Some h) w"
  shows "os_ok lv (A - {(k, h)}) (snd (os_destroy k (Some h) f s))"
proof -
  obtain x w where w: "f (os_world s) = (x, w)" by fastforce
  then have "w = g (Some h) (os_world s)" using assms(4)[of "os_world s"] by simp
  then have "lv w = lv (os_world s) - {(k, h)}" using assms(2) by (simp add: destroys_def)
  with assms(1,3) w show ?thesis by (simp add: os_destroy_def os_ok_def os_live_log)
qed

lemma os_use_ok:
  assumes "os_ok lv A s" "(k, h) \<in> A"
  shows "keeps lv (\<lambda>w. snd (f w)) \<Longrightarrow> os_ok lv A (snd (os_run k (Some h) f s))"
    "keeps lv g \<Longrightarrow> os_ok lv A (os_do k (Some h) g s)"
    "os_ok lv A (snd (os_ask k (Some h) q s))"
proof -
  show "os_ok lv A (snd (os_run k (Some h) f s))" if "keeps lv (\<lambda>w. snd (f w))"
  proof -
    obtain x w where w: "f (os_world s) = (x, w)" by fastforce
    with that have "lv w = lv (os_world s)" unfolding keeps_def by (metis snd_conv)
    with assms w show ?thesis by (simp add: os_run_def os_ok_def os_live_log)
  qed
  show "keeps lv g \<Longrightarrow> os_ok lv A (os_do k (Some h) g s)" "os_ok lv A (snd (os_ask k (Some h) q s))"
    using assms by (auto simp: os_do_def os_ask_def os_ok_def keeps_def os_live_log)
qed

lemma os_free_ok:
  assumes "os_ok lv A s" "keeps lv (\<lambda>w. snd (f w))"
  shows "os_ok lv A (snd (os_free f s))"
proof -
  obtain x w where w: "f (os_world s) = (x, w)" by fastforce
  with assms(2) have "lv w = lv (os_world s)" unfolding keeps_def by (metis snd_conv)
  with assms(1) w show ?thesis by (simp add: os_free_def os_ok_def)
qed

section \<open>A small library for concrete runs\<close>

text \<open>Its world is the list of the objects that exist. Netcode reports a fixed client state and
  hands out a fixed token, reliable.io passes every packet through unchanged as number 0 and
  reports no acknowledgements, the network delivers nothing; every server slot is taken.\<close>

type_synonym demo_world = "(object \<times> handle) list"

definition demo_create :: "object \<Rightarrow> demo_world \<Rightarrow> ptr \<times> demo_world" where
  "demo_create k w = (let h = Suc (sum_list (map snd w)) in (Some h, (k, h) # w))"

fun demo_destroy :: "object \<Rightarrow> ptr \<Rightarrow> demo_world \<Rightarrow> demo_world" where
  "demo_destroy k None w = w"
| "demo_destroy k (Some h) w = filter (\<lambda>x. x \<noteq> (k, h)) w"

definition demo_lib :: "int \<Rightarrow> connect_token option \<Rightarrow> demo_world netlib" where
  "demo_lib state tok =
     \<lparr>c_thread_rng = (\<lambda>w. (\<lparr>dr_loss = f64_zero, dr_jitter = f64_zero, dr_duplicate = f64_zero, dr_extra_delay = f64_zero\<rparr>, w)),
      c_endpoint_create = (\<lambda>_ _. demo_create Endpoint), c_endpoint_destroy = demo_destroy Endpoint,
      c_endpoint_reset = (\<lambda>_ w. w), c_endpoint_update = (\<lambda>_ _ w. w), c_endpoint_get_acks = (\<lambda>_ _. []),
      c_endpoint_clear_acks = (\<lambda>_ w. w), c_endpoint_next_sequence = (\<lambda>_ _. 0),
      c_endpoint_send = (\<lambda>_ bs w. ([(0, bs)], w)), c_endpoint_receive = (\<lambda>_ bs w. (Some (0, bs), w)),
      c_endpoint_processed = (\<lambda>_ _ w. w), c_endpoint_bandwidth = (\<lambda>_ _. (f64_zero, f64_zero, f64_zero)),
      c_endpoint_counter = (\<lambda>_ _ _. 0), c_endpoint_rtt = (\<lambda>_ _. f64_zero), c_endpoint_packet_loss = (\<lambda>_ _. f64_zero),
      c_max_servers_per_connect = 32, c_generate_connect_token = (\<lambda>_ _ _ _ _ w. (tok, w)),
      c_client_create = (\<lambda>_ _. demo_create NetClient),
      c_client_destroy = (\<lambda>p w. ([], demo_destroy NetClient p w)), c_client_get_port = (\<lambda>_ _. 40000),
      c_client_connect = (\<lambda>_ _ w. ([(0, 1)], w)), c_client_update = (\<lambda>_ _ w. ([], w)),
      c_client_state = (\<lambda>_ _. state), c_client_send = (\<lambda>_ _ w. w), c_client_receive = (\<lambda>_ w. (None, w)),
      c_client_free_packet = (\<lambda>_ _ w. w),
      c_server_create = (\<lambda>_ _ _ _. demo_create NetServer), c_server_destroy = demo_destroy NetServer,
      c_server_start = (\<lambda>_ _ w. w), c_server_stop = (\<lambda>_ w. ([], w)), c_server_get_port = (\<lambda>_ _. 40000),
      c_server_update = (\<lambda>_ _ w. ([], w)), c_server_client_connected = (\<lambda>_ _ _. True),
      c_server_client_id = (\<lambda>_ _ _. 7), c_server_num_connected_clients = (\<lambda>_ _. 1),
      c_server_disconnect_client = (\<lambda>_ i w. ([(i, False)], w)), c_server_send = (\<lambda>_ _ _ w. w),
      c_server_receive = (\<lambda>_ _ w. (None, w)), c_server_free_packet = (\<lambda>_ _ w. w),
      c_server_client_address = (\<lambda>_ _ _. None),
      c_netcode_init = (\<lambda>w. (1, w)), c_reliable_init = (\<lambda>w. (1, w)), c_netcode_term = (\<lambda>w. w),
      c_reliable_term = (\<lambda>w. w), c_netcode_log_level = (\<lambda>_ w. w), c_reliable_log_level = (\<lambda>_ w. w),
      c_netcode_ok = 1, c_reliable_ok = 1, c_address_ipv4 = 1, c_address_ipv6 = 2\<rparr>"

lemma demo_creates: "creates set k nullable (demo_create k)"
proof -
  have "(k, Suc (sum_list (map snd w))) \<notin> set w" for w :: demo_world
  proof
    assume "(k, Suc (sum_list (map snd w))) \<in> set w"
    then have "Suc (sum_list (map snd w)) \<in> set (map snd w)" by force
    from member_le_sum_list[OF this] show False by simp
  qed
  then show ?thesis by (simp add: creates_def demo_create_def Let_def)
qed

lemma demo_destroys: "destroys set k (demo_destroy k)"
  by (auto simp: destroys_def)

lemma demo_lib_ok:
  "reliable_lib_ok (demo_lib state tok) set" "client_lib_ok (demo_lib state tok) set"
  "server_lib_ok nullable (demo_lib state tok) set"
  using demo_creates demo_destroys
  by (simp_all add: reliable_lib_ok_def client_lib_ok_def server_lib_ok_def demo_lib_def keeps_def)

end
