(* ===== verification/Client.thy ===== *)
theory Client
  imports Net_Library Connection_Packets
begin

text \<open>
  \<open>src/client.rs\<close>: the client, over the libraries of \<open>Net_Library\<close>. A method that calls into C takes
  the library \<open>L\<close> and the state of the outside world and returns both states; the callbacks the
  library makes are run on the client where the call is made. The code, then its invariant
  over every sequence of calls: the state of the client says which C objects exist, and no
  call is made on one that does not.
\<close>

section \<open>Client states\<close>

datatype client_state = ClientError | ClientDisconnected | ClientConnecting | ClientConnected

definition try_from_netcode_client_state :: "int \<Rightarrow> client_state option" where
  "try_from_netcode_client_state val =
     (if val = 3 then Some ClientConnected
      else if val = 1 \<or> val = 2 then Some ClientConnecting
      else if val = 0 then Some ClientDisconnected
      else if val < 0 \<and> val > - 7 then Some ClientError
      else None)"

text \<open>The constants \<open>NETCODE_CLIENT_STATE_*\<close> of the bindings: 0 disconnected, 1 and 2 sending the
  connection request and response.\<close>

definition client_state_from_netcode_state :: "int \<Rightarrow> client_state" where
  "client_state_from_netcode_state state =
     (if state < 0 then ClientError
      else if state = 0 then ClientDisconnected
      else if state = 1 \<or> state = 2 then ClientConnecting
      else ClientConnected)"

text \<open>\<open>state_change_callback\<close> converts both states and logs.\<close>

fun client_state_changes :: "(int \<times> int) list \<Rightarrow> panic + unit" where
  "client_state_changes [] = Inr ()"
| "client_state_changes ((previous, current) # changes) =
     (if try_from_netcode_client_state previous = None \<or> try_from_netcode_client_state current = None
      then Inl UnwrapOnNone else client_state_changes changes)"

section \<open>The client\<close>

record 'm client =
  cl_config :: client_server_config
  cl_endpoint :: ptr
  cl_connection :: "'m connection option"
  cl_network_simulator :: "network_simulator option"
  cl_packet_buffer :: "u8 list"
  cl_state :: client_state
  cl_client_index :: usize
  cl_time :: f64
  cl_client :: ptr
  cl_address :: string
  cl_bound_port :: "u16 option"
  cl_client_id :: u64

definition client_new :: "string \<Rightarrow> client_server_config \<Rightarrow> f64 \<Rightarrow> 'm client" where
  "client_new address config time =
     \<lparr>cl_config = config, cl_endpoint = None, cl_connection = None, cl_network_simulator = None,
      cl_packet_buffer = replicate (nc_max_packet_size (cs_connection config)) 0,
      cl_state = ClientDisconnected, cl_client_index = 2 ^ 64 - 1, cl_time = time, cl_client = None,
      cl_address = address, cl_bound_port = None, cl_client_id = 0\<rparr>"

definition client_is_connected :: "'m client \<Rightarrow> bool" where
  "client_is_connected cl \<longleftrightarrow>
     (case cl_state cl of ClientConnected \<Rightarrow> True | ClientConnecting \<Rightarrow> False
      | ClientDisconnected \<Rightarrow> False | ClientError \<Rightarrow> False)"

definition client_is_disconnected :: "'m client \<Rightarrow> bool" where
  "client_is_disconnected cl \<longleftrightarrow>
     (case cl_state cl of ClientConnected \<Rightarrow> False | ClientConnecting \<Rightarrow> False
      | ClientDisconnected \<Rightarrow> True | ClientError \<Rightarrow> True)"

definition client_connection_failed :: "'m client \<Rightarrow> bool" where
  "client_connection_failed cl \<longleftrightarrow> cl_state cl = ClientError"

section \<open>Making and destroying the C objects\<close>

definition client_destroy_client ::
  "'w netlib \<Rightarrow> 'm client \<Rightarrow> 'w os \<Rightarrow> panic + ('m client \<times> 'w os)" where
  "client_destroy_client L cl s =
     (if cl_client cl = None then Inr (cl, s) else
      let (changes, s) = os_destroy NetClient (cl_client cl) (c_client_destroy L (cl_client cl)) s in
      rbind (client_state_changes changes) (\<lambda>_.
      Inr (cl\<lparr>cl_bound_port := None, cl_client := None, cl_network_simulator := None\<rparr>, s)))"

definition client_destroy_internal ::
  "'w netlib \<Rightarrow> 'm client \<Rightarrow> 'w os \<Rightarrow> 'm client \<times> 'w os" where
  "client_destroy_internal L cl s =
     (let s = (if cl_endpoint cl \<noteq> None
               then snd (os_destroy Endpoint (cl_endpoint cl) (\<lambda>w. ((), c_endpoint_destroy L (cl_endpoint cl) w)) s)
               else s)
      in (cl\<lparr>cl_endpoint := None, cl_network_simulator := None, cl_connection := None,
             cl_packet_buffer := map (\<lambda>_. 0) (cl_packet_buffer cl)\<rparr>, s))"

definition client_disconnect :: "'w netlib \<Rightarrow> 'm client \<Rightarrow> 'w os \<Rightarrow> panic + ('m client \<times> 'w os)" where
  "client_disconnect L cl s =
     (let cl = (if cl_state cl \<noteq> ClientError then cl\<lparr>cl_state := ClientDisconnected\<rparr> else cl) in
      rbind (client_destroy_client L cl s) (\<lambda>(cl, s).
      let (cl, s) = client_destroy_internal L cl s in
      Inr (cl\<lparr>cl_client_id := 0\<rparr>, s)))"

definition client_connect_internal ::
  "'w netlib \<Rightarrow> 'm client \<Rightarrow> 'w os \<Rightarrow> panic + ('m client \<times> 'w os)" where
  "client_connect_internal L cl s =
     rbind (connection_new (cs_connection (cl_config cl)) (cl_time cl)) (\<lambda>connection.
     let simulator = map_option (\<lambda>config. sim_new (sc_max_simulator_packets config) (cl_time cl))
           (cs_network_simulator (cl_config cl));
         reliable_config = new_reliable_config (cl_config cl) ''client endpoint'' None;
         (endpoint, s) = os_create Endpoint (c_endpoint_create L reliable_config (cl_time cl)) s;
         s = os_do Endpoint endpoint (c_endpoint_reset L endpoint) s
     in Inr (cl\<lparr>cl_connection := Some connection, cl_network_simulator := simulator, cl_endpoint := endpoint\<rparr>, s))"

definition client_create_client ::
  "'w netlib \<Rightarrow> 'm client \<Rightarrow> 'w os \<Rightarrow> panic + ('m client \<times> 'w os)" where
  "client_create_client L cl s =
     rbind (client_destroy_client L cl s) (\<lambda>(cl, s).
     rbind (c_string (cl_address cl)) (\<lambda>address.
     let (client, s) = os_create NetClient (c_client_create L address (cl_time cl)) s;
         cl = cl\<lparr>cl_client := client\<rparr>
     in if client \<noteq> None then
          let (port, s) = os_ask NetClient client (c_client_get_port L client) s
          in Inr (cl\<lparr>cl_bound_port := Some port\<rparr>, s)
        else Inr (cl, s)))"

definition generate_insecure_connect_token ::
  "'w netlib \<Rightarrow> client_server_config \<Rightarrow> u8 list \<Rightarrow> u64 \<Rightarrow> string list \<Rightarrow> 'w os
     \<Rightarrow> panic + (connect_token option \<times> 'w os)" where
  "generate_insecure_connect_token L config private_key client_id server_addresses s =
     rbind (rfold (\<lambda>strings addr. rbind (c_string addr) (\<lambda>str. Inr (strings @ [str]))) [] server_addresses)
       (\<lambda>server_address_strings.
     Inr (os_free (c_generate_connect_token L server_address_strings (cs_timeout config) client_id
                     (cs_protocol_id config) private_key) s))"

definition client_insecure_connect ::
  "'w netlib \<Rightarrow> 'm client \<Rightarrow> u8 list \<Rightarrow> u64 \<Rightarrow> string list \<Rightarrow> 'w os \<Rightarrow> panic + ('m client \<times> 'w os)" where
  "client_insecure_connect L cl private_key client_id server_addresses s =
     (if server_addresses = [] then Inl AssertionFailed else
      if \<not> length server_addresses \<le> c_max_servers_per_connect L then Inl AssertionFailed else
      rbind (client_disconnect L cl s) (\<lambda>(cl, s).
      rbind (client_connect_internal L cl s) (\<lambda>(cl, s).
      let cl = cl\<lparr>cl_client_id := client_id\<rparr> in
      rbind (client_create_client L cl s) (\<lambda>(cl, s).
      if cl_client cl = None then client_disconnect L cl s else
      rbind (generate_insecure_connect_token L (cl_config cl) private_key client_id server_addresses s)
        (\<lambda>(connect_token, s).
      case connect_token of
        None \<Rightarrow> Inr (cl\<lparr>cl_state := ClientError\<rparr>, s)
      | Some tok \<Rightarrow>
          let (changes, s) = os_run NetClient (cl_client cl) (c_client_connect L (cl_client cl) tok) s in
          rbind (client_state_changes changes) (\<lambda>_.
          Inr (cl\<lparr>cl_state := ClientConnecting\<rparr>, s)))))))"

section \<open>Time\<close>

definition client_send_raw :: "'w netlib \<Rightarrow> ptr \<Rightarrow> u8 list \<Rightarrow> 'w os \<Rightarrow> 'w os" where
  "client_send_raw L client packet_data s = os_do NetClient client (c_client_send L client packet_data) s"

text \<open>The part of \<open>advance_time\<close> that concerns the connection; true when it ended in the early
  return.\<close>

definition client_advance_connection ::
  "'w netlib \<Rightarrow> 'm client \<Rightarrow> 'w os \<Rightarrow> panic + (bool \<times> 'm client \<times> 'w os)" where
  "client_advance_connection L cl s =
     (case (cl_endpoint cl, cl_connection cl) of
        (Some h, Some connection) \<Rightarrow>
          let connection = connection_advance_time connection (cl_time cl);
              cl = cl\<lparr>cl_connection := Some connection\<rparr>;
              endpoint = cl_endpoint cl in
          if cn_error_level connection \<noteq> ConnectionNone then
            rbind (client_disconnect L cl s) (\<lambda>(cl, s). Inr (True, cl, s))
          else
            let s = os_do Endpoint endpoint (c_endpoint_update L endpoint (cl_time cl)) s;
                (acks, s) = os_ask Endpoint endpoint (c_endpoint_get_acks L endpoint) s in
            rbind (connection_process_acks connection acks) (\<lambda>connection.
            let s = os_do Endpoint endpoint (c_endpoint_clear_acks L endpoint) s in
            Inr (False, cl\<lparr>cl_connection := Some connection\<rparr>, s))
      | _ \<Rightarrow> Inr (False, cl, s))"

definition client_flush_simulator ::
  "'w netlib \<Rightarrow> 'm client \<Rightarrow> 'w os \<Rightarrow> panic + ('m client \<times> 'w os)" where
  "client_flush_simulator L cl s =
     (case cl_network_simulator cl of
        None \<Rightarrow> Inr (cl, s)
      | Some ns \<Rightarrow>
          if \<not> ns_active ns then Inr (cl, s) else
          rbind (sim_receive_packets ns) (\<lambda>(received, ns).
          Inr (cl\<lparr>cl_network_simulator := Some ns\<rparr>,
               foldl (\<lambda>s (_, packet_data). client_send_raw L (cl_client cl) packet_data s) s received)))"

text \<open>Updating netcode and taking over its state; a client that is gone is disconnected.\<close>

definition client_update_state :: "'w netlib \<Rightarrow> 'm client \<Rightarrow> 'w os \<Rightarrow> panic + ('m client \<times> 'w os)" where
  "client_update_state L cl s =
     (let (changes, s) = os_run NetClient (cl_client cl) (c_client_update L (cl_client cl) (cl_time cl)) s in
      rbind (client_state_changes changes) (\<lambda>_.
      let (raw_state, s) = os_ask NetClient (cl_client cl) (c_client_state L (cl_client cl)) s;
          state = client_state_from_netcode_state raw_state;
          cl = cl\<lparr>cl_state := state\<rparr> in
      if state = ClientDisconnected \<or> state = ClientError then client_disconnect L cl s else Inr (cl, s)))"

definition client_advance_time ::
  "'w netlib \<Rightarrow> 'm client \<Rightarrow> f64 \<Rightarrow> 'w os \<Rightarrow> panic + ('m client \<times> 'w os)" where
  "client_advance_time L cl new_time s =
     rbind (client_advance_connection L (cl\<lparr>cl_time := new_time\<rparr>) s) (\<lambda>(returned, cl, s).
     if returned then Inr (cl, s) else
     let cl = cl\<lparr>cl_network_simulator :=
                   map_option (\<lambda>ns. sim_advance_time ns (cl_time cl)) (cl_network_simulator cl)\<rparr> in
     if cl_client cl = None then Inr (cl, s) else
     rbind (client_update_state L cl s) (\<lambda>(cl, s). client_flush_simulator L cl s))"

section \<open>Packets\<close>

text \<open>The callback \<open>transmit_packet\<close>: into the simulator when it is active, else to netcode.\<close>

definition client_transmit_packet ::
  "'w netlib \<Rightarrow> 'm client \<Rightarrow> u16 \<Rightarrow> u8 list \<Rightarrow> 'w os \<Rightarrow> panic + ('m client \<times> 'w os)" where
  "client_transmit_packet L cl packet_sequence packet_data s =
     (case cl_network_simulator cl of
        None \<Rightarrow> Inr (cl, client_send_raw L (cl_client cl) packet_data s)
      | Some ns \<Rightarrow>
          if ns_active ns then
            let (rng, s) = os_free (c_thread_rng L) s in
            rbind (sim_send_packet rng ns 0 packet_data) (\<lambda>ns.
            Inr (cl\<lparr>cl_network_simulator := Some ns\<rparr>, s))
          else Inr (cl, client_send_raw L (cl_client cl) packet_data s))"

text \<open>The callback \<open>process_packet\<close>.\<close>

definition client_process_packet ::
  "features \<Rightarrow> ('m, 'e) network_message \<Rightarrow> 'm client \<Rightarrow> u16 \<Rightarrow> u8 list \<Rightarrow> panic + (bool \<times> 'm client)" where
  "client_process_packet feat nm cl packet_sequence packet_data =
     (case cl_connection cl of
        None \<Rightarrow> Inl UnwrapOnNone
      | Some connection \<Rightarrow>
          rbind (connection_process_packet feat nm connection packet_sequence packet_data) (\<lambda>(r, connection).
          Inr (r, cl\<lparr>cl_connection := Some connection\<rparr>)))"

definition client_send_packets ::
  "features \<Rightarrow> ('m, 'e) network_message \<Rightarrow> 'w netlib \<Rightarrow> 'm client \<Rightarrow> 'w os \<Rightarrow> panic + ('m client \<times> 'w os)" where
  "client_send_packets feat nm L cl s =
     (if \<not> client_is_connected cl then Inr (cl, s) else
      if cl_client cl = None then Inl AssertionFailed else
      let endpoint = cl_endpoint cl;
          (packet_sequence, s) = os_ask Endpoint endpoint (c_endpoint_next_sequence L endpoint) s in
      case cl_connection cl of
        None \<Rightarrow> Inr (cl, s)
      | Some connection \<Rightarrow>
          rbind (connection_generate_packet feat nm connection packet_sequence (cl_packet_buffer cl))
            (\<lambda>(written_bytes, buffer, connection).
          let cl = cl\<lparr>cl_connection := Some connection, cl_packet_buffer := buffer\<rparr> in
          if 0 < written_bytes then
            if length buffer < written_bytes then Inl IndexOutOfBounds else
            let (transmits, s) = os_run Endpoint endpoint (c_endpoint_send L endpoint (take written_bytes buffer)) s in
            rfold (\<lambda>(cl, s) (sequence, packet_data). client_transmit_packet L cl sequence packet_data s)
              (cl, s) transmits
          else Inr (cl, s)))"

text \<open>One packet handed to reliable.io and freed, and the loop that takes packets from netcode until
  there is none; netcode hands over what the network brought, so the loop may go on for ever.\<close>

definition client_receive_one ::
  "features \<Rightarrow> ('m, 'e) network_message \<Rightarrow> 'w netlib \<Rightarrow> 'm client \<Rightarrow> u8 list \<Rightarrow> 'w os
     \<Rightarrow> panic + ('m client \<times> 'w os)" where
  "client_receive_one feat nm L cl packet_data s =
     (let endpoint = cl_endpoint cl;
          (process, s) = os_run Endpoint endpoint (c_endpoint_receive L endpoint packet_data) s in
      rbind (case process of
               None \<Rightarrow> Inr (cl, s)
             | Some (sequence, bytes) \<Rightarrow>
                 rbind (client_process_packet feat nm cl sequence bytes) (\<lambda>(r, cl).
                 Inr (cl, os_do Endpoint endpoint (c_endpoint_processed L endpoint r) s))) (\<lambda>(cl, s).
      Inr (cl, os_do NetClient (cl_client cl) (c_client_free_packet L (cl_client cl) packet_data) s)))"

partial_function (option) client_receive_loop ::
  "features \<Rightarrow> ('m, 'e) network_message \<Rightarrow> 'w netlib \<Rightarrow> 'm client \<Rightarrow> 'w os
     \<Rightarrow> (panic + ('m client \<times> 'w os)) option" where
  "client_receive_loop feat nm L cl s =
     (case os_run NetClient (cl_client cl) (c_client_receive L (cl_client cl)) s of
        (None, s) \<Rightarrow> Some (Inr (cl, s))
      | (Some packet_data, s) \<Rightarrow>
          (case client_receive_one feat nm L cl packet_data s of
             Inl p \<Rightarrow> Some (Inl p)
           | Inr (cl, s) \<Rightarrow> client_receive_loop feat nm L cl s))"

definition client_receive_packets ::
  "features \<Rightarrow> ('m, 'e) network_message \<Rightarrow> 'w netlib \<Rightarrow> 'm client \<Rightarrow> 'w os
     \<Rightarrow> (panic + ('m client \<times> 'w os)) option" where
  "client_receive_packets feat nm L cl s =
     (if \<not> client_is_connected cl then Some (Inr (cl, s)) else
      if cl_client cl = None then Some (Inl AssertionFailed) else
      client_receive_loop feat nm L cl s)"

section \<open>Messages\<close>

definition client_send_message ::
  "('m, 'e) network_message \<Rightarrow> 'm client \<Rightarrow> usize \<Rightarrow> 'm \<Rightarrow> panic + 'm client" where
  "client_send_message nm cl channel_index message =
     (case cl_connection cl of
        None \<Rightarrow> Inr cl
      | Some connection \<Rightarrow>
          rbind (connection_send_message nm connection channel_index message) (\<lambda>connection.
          Inr (cl\<lparr>cl_connection := Some connection\<rparr>)))"

definition client_receive_message_with_id ::
  "'m client \<Rightarrow> usize \<Rightarrow> panic + ((u16 \<times> 'm) option \<times> 'm client)" where
  "client_receive_message_with_id cl channel_index =
     (case cl_connection cl of
        None \<Rightarrow> Inr (None, cl)
      | Some connection \<Rightarrow>
          rbind (connection_receive_message connection channel_index) (\<lambda>(r, connection).
          Inr (r, cl\<lparr>cl_connection := Some connection\<rparr>)))"

definition client_receive_message :: "'m client \<Rightarrow> usize \<Rightarrow> panic + ('m option \<times> 'm client)" where
  "client_receive_message cl channel_index =
     rbind (client_receive_message_with_id cl channel_index) (\<lambda>(r, cl). Inr (map_option snd r, cl))"

definition client_can_send_message :: "'m client \<Rightarrow> usize \<Rightarrow> panic + bool" where
  "client_can_send_message cl channel =
     (case cl_connection cl of None \<Rightarrow> Inr False | Some c \<Rightarrow> connection_can_send_message c channel)"

definition client_has_messages_to_send :: "'m client \<Rightarrow> usize \<Rightarrow> panic + bool" where
  "client_has_messages_to_send cl channel =
     (case cl_connection cl of None \<Rightarrow> Inr False | Some c \<Rightarrow> connection_has_messages_to_send c channel)"

definition client_channel_counters :: "'m client \<Rightarrow> usize \<Rightarrow> panic + channel_counters option" where
  "client_channel_counters cl channel_index =
     (case cl_connection cl of
        None \<Rightarrow> Inr None
      | Some c \<Rightarrow> rbind (connection_channel_counters c channel_index) (\<lambda>ct. Inr (Some ct)))"

text \<open>The closure handed to \<open>with_network_simulator\<close> is a function on the simulator.\<close>

definition client_with_network_simulator ::
  "'m client \<Rightarrow> (network_simulator \<Rightarrow> panic + network_simulator) \<Rightarrow> panic + 'm client" where
  "client_with_network_simulator cl f =
     (case cl_network_simulator cl of
        None \<Rightarrow> Inr cl
      | Some ns \<Rightarrow> rbind (f ns) (\<lambda>ns. Inr (cl\<lparr>cl_network_simulator := Some ns\<rparr>)))"

definition client_snapshot_network_info ::
  "'w netlib \<Rightarrow> 'm client \<Rightarrow> 'w os \<Rightarrow> panic + (network_info option \<times> 'w os)" where
  "client_snapshot_network_info L cl s =
     (if \<not> client_is_connected cl then Inr (None, s) else
      if cl_endpoint cl = None then Inl AssertionFailed else
      let (info, s) = os_ask Endpoint (cl_endpoint cl) (endpoint_network_info L (cl_endpoint cl)) s
      in Inr (Some info, s))"

section \<open>Which C objects exist\<close>

definition lib_ok :: "'w netlib \<Rightarrow> ('w \<Rightarrow> (object \<times> handle) set) \<Rightarrow> bool" where
  "lib_ok L lv \<longleftrightarrow> reliable_lib_ok L lv \<and> client_lib_ok L lv"

lemma lib_okD:
  assumes "lib_ok L lv"
  shows "keeps lv (\<lambda>w. snd (c_thread_rng L w))" "creates lv Endpoint False (c_endpoint_create L config t)"
    "destroys lv Endpoint (c_endpoint_destroy L)" "keeps lv (c_endpoint_reset L p)"
    "keeps lv (c_endpoint_update L p t)" "keeps lv (c_endpoint_clear_acks L p)"
    "keeps lv (\<lambda>w. snd (c_endpoint_send L p bs w))" "keeps lv (\<lambda>w. snd (c_endpoint_receive L p bs w))"
    "keeps lv (c_endpoint_processed L p b)"
    "keeps lv (\<lambda>w. snd (c_generate_connect_token L as u i pr key w))"
    "creates lv NetClient True (c_client_create L a t)"
    "destroys lv NetClient (\<lambda>p w. snd (c_client_destroy L p w))"
    "keeps lv (\<lambda>w. snd (c_client_connect L p tok w))" "keeps lv (\<lambda>w. snd (c_client_update L p t w))"
    "keeps lv (c_client_send L p bs)" "keeps lv (c_client_free_packet L p bs)"
    "keeps lv (\<lambda>w. snd (c_client_receive L p w))"
  using assms by (auto simp: lib_ok_def reliable_lib_ok_def client_lib_ok_def)

definition client_objects :: "'m client \<Rightarrow> (object \<times> handle) set" where
  "client_objects cl = ptr_objects Endpoint (cl_endpoint cl) \<union> ptr_objects NetClient (cl_client cl)"

text \<open>The objects of a client next to those of others, \<open>B\<close>; what holds between calls.\<close>

definition client_owns ::
  "('w \<Rightarrow> (object \<times> handle) set) \<Rightarrow> (object \<times> handle) set \<Rightarrow> 'm client \<Rightarrow> 'w os \<Rightarrow> bool" where
  "client_owns lv B cl s \<longleftrightarrow> os_ok lv (B \<union> client_objects cl) s \<and> B \<inter> client_objects cl = {}"

definition client_ok ::
  "('w \<Rightarrow> (object \<times> handle) set) \<Rightarrow> (object \<times> handle) set \<Rightarrow> 'm client \<Rightarrow> 'w os \<Rightarrow> bool" where
  "client_ok lv B cl s \<longleftrightarrow> client_owns lv B cl s \<and>
     (cl_endpoint cl = None \<longleftrightarrow> cl_connection cl = None) \<and>
     (cl_client cl \<noteq> None \<longrightarrow> cl_endpoint cl \<noteq> None) \<and>
     (cl_state cl = ClientConnecting \<or> cl_state cl = ClientConnected \<longrightarrow> cl_client cl \<noteq> None)"

lemma client_owns_cong:
  "cl_endpoint cl' = cl_endpoint cl \<Longrightarrow> cl_client cl' = cl_client cl \<Longrightarrow> client_owns lv B cl' s = client_owns lv B cl s"
  by (simp add: client_owns_def client_objects_def)

lemma client_ok_cong:
  "cl_endpoint cl' = cl_endpoint cl \<Longrightarrow> cl_client cl' = cl_client cl \<Longrightarrow>
    (cl_connection cl' = None \<longleftrightarrow> cl_connection cl = None) \<Longrightarrow> cl_state cl' = cl_state cl \<Longrightarrow>
    client_ok lv B cl' s = client_ok lv B cl s"
  by (simp add: client_ok_def client_owns_def client_objects_def)

lemma client_ok_os: "client_ok lv B cl s \<Longrightarrow> client_owns lv B cl s' \<Longrightarrow> client_ok lv B cl s'"
  by (auto simp: client_ok_def)

lemma client_ok_owns: "client_ok lv B cl s \<Longrightarrow> client_owns lv B cl s"
  by (simp add: client_ok_def)

text \<open>Calls on the objects a client has.\<close>

lemma client_owns_endpoint:
  assumes "client_owns lv B cl s" "cl_endpoint cl \<noteq> None"
  shows "keeps lv (\<lambda>w. snd (f w)) \<Longrightarrow> client_owns lv B cl (snd (os_run Endpoint (cl_endpoint cl) f s))"
    "keeps lv g \<Longrightarrow> client_owns lv B cl (os_do Endpoint (cl_endpoint cl) g s)"
    "client_owns lv B cl (snd (os_ask Endpoint (cl_endpoint cl) q s))"
proof -
  obtain h where h: "cl_endpoint cl = Some h" using assms(2) by blast
  have "os_ok lv (B \<union> client_objects cl) s" "(Endpoint, h) \<in> B \<union> client_objects cl"
    using assms(1) h by (auto simp: client_owns_def client_objects_def)
  note U = os_use_ok[OF this]
  show "keeps lv (\<lambda>w. snd (f w)) \<Longrightarrow> client_owns lv B cl (snd (os_run Endpoint (cl_endpoint cl) f s))"
    "keeps lv g \<Longrightarrow> client_owns lv B cl (os_do Endpoint (cl_endpoint cl) g s)"
    "client_owns lv B cl (snd (os_ask Endpoint (cl_endpoint cl) q s))"
    using U assms(1) unfolding client_owns_def h by blast+
qed

lemma client_owns_client:
  assumes "client_owns lv B cl s" "cl_client cl \<noteq> None"
  shows "keeps lv (\<lambda>w. snd (f w)) \<Longrightarrow> client_owns lv B cl (snd (os_run NetClient (cl_client cl) f s))"
    "keeps lv g \<Longrightarrow> client_owns lv B cl (os_do NetClient (cl_client cl) g s)"
    "client_owns lv B cl (snd (os_ask NetClient (cl_client cl) q s))"
proof -
  obtain h where h: "cl_client cl = Some h" using assms(2) by blast
  have "os_ok lv (B \<union> client_objects cl) s" "(NetClient, h) \<in> B \<union> client_objects cl"
    using assms(1) h by (auto simp: client_owns_def client_objects_def)
  note U = os_use_ok[OF this]
  show "keeps lv (\<lambda>w. snd (f w)) \<Longrightarrow> client_owns lv B cl (snd (os_run NetClient (cl_client cl) f s))"
    "keeps lv g \<Longrightarrow> client_owns lv B cl (os_do NetClient (cl_client cl) g s)"
    "client_owns lv B cl (snd (os_ask NetClient (cl_client cl) q s))"
    using U assms(1) unfolding client_owns_def h by blast+
qed

lemma client_owns_free:
  "client_owns lv B cl s \<Longrightarrow> keeps lv (\<lambda>w. snd (f w)) \<Longrightarrow> client_owns lv B cl (snd (os_free f s))"
  using os_free_ok by (auto simp: client_owns_def)

section \<open>Connecting and disconnecting\<close>

lemma destroy_client_ok:
  assumes L: "lib_ok L lv" and own: "client_owns lv B cl s"
    and r: "client_destroy_client L cl s = Inr (cl', s')"
  shows "client_owns lv B cl' s'"
    "cl' = (if cl_client cl = None then cl
            else cl\<lparr>cl_bound_port := None, cl_client := None, cl_network_simulator := None\<rparr>)"
proof -
  show cl': "cl' = (if cl_client cl = None then cl
            else cl\<lparr>cl_bound_port := None, cl_client := None, cl_network_simulator := None\<rparr>)"
    using r by (auto simp: client_destroy_client_def rbind_eq_Inr split: if_splits prod.splits)
  show "client_owns lv B cl' s'"
  proof (cases "cl_client cl")
    case None
    with r own cl' show ?thesis by (simp add: client_destroy_client_def)
  next
    case (Some h)
    have s': "s' = snd (os_destroy NetClient (Some h) (c_client_destroy L (Some h)) s)"
      using r Some by (auto simp: client_destroy_client_def rbind_eq_Inr split: prod.splits)
    have live: "os_ok lv (B \<union> client_objects cl) s" "(NetClient, h) \<in> B \<union> client_objects cl"
      using own Some by (auto simp: client_owns_def client_objects_def)
    have "os_ok lv (B \<union> client_objects cl - {(NetClient, h)}) s'"
      unfolding s' by (rule os_destroy_ok[OF live(1) lib_okD(12)[OF L] live(2)]) simp
    moreover have "B \<union> client_objects cl - {(NetClient, h)} = B \<union> client_objects cl'"
      using own Some by (cases "cl_endpoint cl") (auto simp: client_owns_def client_objects_def cl')
    ultimately show ?thesis
      using own Some by (cases "cl_endpoint cl") (auto simp: client_owns_def client_objects_def cl')
  qed
qed

lemma destroy_internal_ok:
  assumes L: "lib_ok L lv" and own: "client_owns lv B cl s"
    and r: "client_destroy_internal L cl s = (cl', s')"
  shows "client_owns lv B cl' s'"
    "cl' = cl\<lparr>cl_endpoint := None, cl_network_simulator := None, cl_connection := None,
             cl_packet_buffer := map (\<lambda>_. 0) (cl_packet_buffer cl)\<rparr>"
proof -
  show cl': "cl' = cl\<lparr>cl_endpoint := None, cl_network_simulator := None, cl_connection := None,
             cl_packet_buffer := map (\<lambda>_. 0) (cl_packet_buffer cl)\<rparr>"
    using r by (auto simp: client_destroy_internal_def Let_def)
  show "client_owns lv B cl' s'"
  proof (cases "cl_endpoint cl")
    case None
    with r own cl' show ?thesis
      by (auto simp: client_destroy_internal_def Let_def client_owns_def client_objects_def)
  next
    case (Some h)
    have s': "s' = snd (os_destroy Endpoint (Some h) (\<lambda>w. ((), c_endpoint_destroy L (Some h) w)) s)"
      using r Some by (auto simp: client_destroy_internal_def Let_def)
    have live: "os_ok lv (B \<union> client_objects cl) s" "(Endpoint, h) \<in> B \<union> client_objects cl"
      using own Some by (auto simp: client_owns_def client_objects_def)
    have "os_ok lv (B \<union> client_objects cl - {(Endpoint, h)}) s'"
      unfolding s' by (rule os_destroy_ok[OF live(1) lib_okD(3)[OF L] live(2)]) simp
    moreover have "B \<union> client_objects cl - {(Endpoint, h)} = B \<union> client_objects cl'"
      using own Some by (cases "cl_client cl") (auto simp: client_owns_def client_objects_def cl')
    ultimately show ?thesis
      using own Some by (cases "cl_client cl") (auto simp: client_owns_def client_objects_def cl')
  qed
qed

text \<open>What is left after \<open>disconnect\<close>.\<close>

definition client_closed :: "'m client \<Rightarrow> bool" where
  "client_closed cl \<longleftrightarrow> cl_endpoint cl = None \<and> cl_client cl = None \<and> cl_connection cl = None \<and>
     cl_network_simulator cl = None \<and> cl_client_id cl = 0 \<and> set (cl_packet_buffer cl) \<subseteq> {0} \<and>
     (cl_state cl = ClientError \<or> cl_state cl = ClientDisconnected)"

lemma disconnect_ok:
  assumes L: "lib_ok L lv" and own: "client_owns lv B cl s"
    and r: "client_disconnect L cl s = Inr (cl', s')"
  shows "client_owns lv B cl' s'" "client_closed cl'" "client_ok lv B cl' s'" "os_ok lv B s'"
    "cl_state cl' = (if cl_state cl = ClientError then ClientError else ClientDisconnected)"
    "cl_config cl' = cl_config cl" "cl_time cl' = cl_time cl" "cl_address cl' = cl_address cl"
    "length (cl_packet_buffer cl') = length (cl_packet_buffer cl)"
proof -
  let ?cl = "if cl_state cl \<noteq> ClientError then cl\<lparr>cl_state := ClientDisconnected\<rparr> else cl"
  obtain cl1 s1 where d1: "client_destroy_client L ?cl s = Inr (cl1, s1)"
    and tail: "(let (cl, s) = client_destroy_internal L cl1 s1 in Inr (cl\<lparr>cl_client_id := 0\<rparr>, s)) = (Inr (cl', s') :: panic + _)"
    using r by (cases "client_destroy_client L ?cl s") (simp_all add: client_disconnect_def, simp split: prod.splits)
  obtain cl2 where d2: "client_destroy_internal L cl1 s1 = (cl2, s')" and cl': "cl' = cl2\<lparr>cl_client_id := 0\<rparr>"
    using tail by (cases "client_destroy_internal L cl1 s1") simp
  have own': "client_owns lv B ?cl s" using own by (simp add: client_owns_def client_objects_def)
  note D1 = destroy_client_ok[OF L own' d1]
  note D2 = destroy_internal_ok[OF L D1(1) d2]
  show own2: "client_owns lv B cl' s'" using D2(1) by (simp add: cl' client_owns_def client_objects_def)
  show closed: "client_closed cl'"
    by (auto simp: client_closed_def cl' D2(2) D1(2))
  from own2 closed show "client_ok lv B cl' s'" by (auto simp: client_ok_def client_closed_def)
  from own2 closed show "os_ok lv B s'"
    by (simp add: client_owns_def client_closed_def client_objects_def)
  show "cl_state cl' = (if cl_state cl = ClientError then ClientError else ClientDisconnected)"
    "cl_config cl' = cl_config cl" "cl_time cl' = cl_time cl" "cl_address cl' = cl_address cl"
    "length (cl_packet_buffer cl') = length (cl_packet_buffer cl)"
    by (auto simp: cl' D2(2) D1(2))
qed

lemma connect_internal_ok:
  fixes cl :: "'m client"
  assumes L: "lib_ok L lv" and own: "client_owns lv B cl s" "cl_endpoint cl = None" "cl_client cl = None"
    and r: "client_connect_internal L cl s = Inr (cl', s')"
  shows "client_owns lv B cl' s'" "cl_endpoint cl' \<noteq> None" "cl_client cl' = None"
    "cl_state cl' = cl_state cl" "cl_config cl' = cl_config cl" "cl_time cl' = cl_time cl"
    "\<exists>cn. connection_new (cs_connection (cl_config cl)) (cl_time cl) = Inr cn \<and> cl_connection cl' = Some cn"
    "cl_network_simulator cl' = map_option (\<lambda>config. sim_new (sc_max_simulator_packets config) (cl_time cl))
       (cs_network_simulator (cl_config cl))"
proof -
  let ?rc = "new_reliable_config (cl_config cl) ''client endpoint'' None"
  obtain cn :: "'m connection" where cn: "connection_new (cs_connection (cl_config cl)) (cl_time cl) = Inr cn"
    using r by (auto simp: client_connect_internal_def rbind_eq_Inr)
  obtain p s1 where c: "os_create Endpoint (c_endpoint_create L ?rc (cl_time cl)) s = (p, s1)" by fastforce
  have os: "os_ok lv B s" using own by (simp add: client_owns_def client_objects_def)
  note C = os_create_ok[OF os lib_okD(2)[OF L] c]
  obtain h where h: "p = Some h" "(Endpoint, h) \<notin> B" "os_ok lv (insert (Endpoint, h) B) s1"
    using C by (cases p) auto
  have cl': "cl' = cl\<lparr>cl_connection := Some cn, cl_network_simulator := map_option
      (\<lambda>config. sim_new (sc_max_simulator_packets config) (cl_time cl)) (cs_network_simulator (cl_config cl)),
      cl_endpoint := p\<rparr>" and s': "s' = os_do Endpoint p (c_endpoint_reset L p) s1"
    using r cn c by (auto simp: client_connect_internal_def Let_def)
  have "client_objects cl' = {(Endpoint, h)}" using own(3) h(1) by (simp add: cl' client_objects_def)
  moreover have "os_ok lv (insert (Endpoint, h) B) s'"
    using os_use_ok(2)[OF h(3) _ lib_okD(4)[OF L, of p], of Endpoint h] by (simp add: s' h(1))
  ultimately show "client_owns lv B cl' s'" using h(2) by (simp add: client_owns_def)
  show "cl_endpoint cl' \<noteq> None" "cl_client cl' = None"
    "cl_state cl' = cl_state cl" "cl_config cl' = cl_config cl" "cl_time cl' = cl_time cl"
    "\<exists>cn. connection_new (cs_connection (cl_config cl)) (cl_time cl) = Inr cn \<and> cl_connection cl' = Some cn"
    "cl_network_simulator cl' = map_option (\<lambda>config. sim_new (sc_max_simulator_packets config) (cl_time cl))
       (cs_network_simulator (cl_config cl))"
    using cn own(3) h(1) by (simp_all add: cl')
qed

lemma create_client_ok:
  assumes L: "lib_ok L lv" and own: "client_owns lv B cl s" "cl_client cl = None"
    and r: "client_create_client L cl s = Inr (cl', s')"
  shows "client_owns lv B cl' s'" "cl_endpoint cl' = cl_endpoint cl" "cl_connection cl' = cl_connection cl"
    "cl_state cl' = cl_state cl" "cl_config cl' = cl_config cl" "cl_time cl' = cl_time cl"
    "cl_network_simulator cl' = cl_network_simulator cl" "cl_client_id cl' = cl_client_id cl"
proof -
  have "client_destroy_client L cl s = Inr (cl, s)" using own(2) by (simp add: client_destroy_client_def)
  moreover obtain a where a: "c_string (cl_address cl) = Inr a"
    using r calculation by (auto simp: client_create_client_def rbind_eq_Inr)
  obtain p s1 where c: "os_create NetClient (c_client_create L a (cl_time cl)) s = (p, s1)" by fastforce
  ultimately have run: "(cl', s') = (if p \<noteq> None
      then (cl\<lparr>cl_client := p, cl_bound_port := Some (fst (os_ask NetClient p (c_client_get_port L p) s1))\<rparr>,
            snd (os_ask NetClient p (c_client_get_port L p) s1))
      else (cl\<lparr>cl_client := p\<rparr>, s1))"
    using r a by (auto simp: client_create_client_def os_ask_def Let_def split: if_splits)
  have os: "os_ok lv (B \<union> client_objects cl) s" using own by (simp add: client_owns_def)
  note C = os_create_ok[OF os lib_okD(11)[OF L] c]
  show "client_owns lv B cl' s'"
  proof (cases p)
    case None
    with run C own show ?thesis by (auto simp: client_owns_def client_objects_def)
  next
    case (Some h)
    then have "os_ok lv (insert (NetClient, h) (B \<union> client_objects cl)) s'"
      using run os_use_ok(3)[of lv "insert (NetClient, h) (B \<union> client_objects cl)" s1 NetClient h "c_client_get_port L p"] C
      by auto
    moreover have "client_objects cl' = insert (NetClient, h) (client_objects cl)"
      using run Some own(2) by (auto simp: client_objects_def)
    ultimately show ?thesis using own(1) C Some by (auto simp: client_owns_def)
  qed
  show "cl_endpoint cl' = cl_endpoint cl" "cl_connection cl' = cl_connection cl"
    "cl_state cl' = cl_state cl" "cl_config cl' = cl_config cl" "cl_time cl' = cl_time cl"
    "cl_network_simulator cl' = cl_network_simulator cl" "cl_client_id cl' = cl_client_id cl"
    using run by (auto split: if_splits)
qed

text \<open>The three ways \<open>insecure_connect\<close> ends: connecting, with every object made; in the error
  state, with the objects made but no connection attempt, when there is no token; closed, when
  netcode made no client.\<close>

lemma insecure_connect_ok:
  assumes L: "lib_ok L lv" and own: "client_owns lv B cl s"
    and r: "client_insecure_connect L cl key client_id addresses s = Inr (cl', s')"
  shows "client_ok lv B cl' s'"
    "(cl_state cl' = ClientConnecting \<or> cl_state cl' = ClientError) \<and> cl_client cl' \<noteq> None \<and>
       cl_client_id cl' = client_id \<and>
       (\<exists>cn. connection_new (cs_connection (cl_config cl)) (cl_time cl) = Inr cn \<and> cl_connection cl' = Some cn) \<or>
     client_closed cl'"
    "addresses \<noteq> []" "length addresses \<le> c_max_servers_per_connect L"
proof -
  show "addresses \<noteq> []" "length addresses \<le> c_max_servers_per_connect L"
    using r by (auto simp: client_insecure_connect_def split: if_splits)
  obtain cl1 s1 cl2 s2 cl3 s3 where d: "client_disconnect L cl s = Inr (cl1, s1)"
    and c: "client_connect_internal L cl1 s1 = Inr (cl2, s2)"
    and n: "client_create_client L (cl2\<lparr>cl_client_id := client_id\<rparr>) s2 = Inr (cl3, s3)"
    and tail: "(if cl_client cl3 = None then client_disconnect L cl3 s3 else
      rbind (generate_insecure_connect_token L (cl_config cl3) key client_id addresses s3)
        (\<lambda>(connect_token, s).
      case connect_token of
        None \<Rightarrow> Inr (cl3\<lparr>cl_state := ClientError\<rparr>, s)
      | Some tok \<Rightarrow>
          let (changes, s) = os_run NetClient (cl_client cl3) (c_client_connect L (cl_client cl3) tok) s in
          rbind (client_state_changes changes) (\<lambda>_.
          Inr (cl3\<lparr>cl_state := ClientConnecting\<rparr>, s)))) = Inr (cl', s')"
    using r by (auto simp: client_insecure_connect_def rbind_eq_Inr Let_def split: if_splits)
  note D = disconnect_ok[OF L own d]
  have none: "cl_endpoint cl1 = None" "cl_client cl1 = None" using D(2) by (simp_all add: client_closed_def)
  note C = connect_internal_ok[OF L D(1) none c]
  have own2: "client_owns lv B (cl2\<lparr>cl_client_id := client_id\<rparr>) s2"
    using C(1) by (simp add: client_owns_def client_objects_def)
  note N = create_client_ok[OF L own2 _ n, simplified, OF C(3)]
  have made: "cl_endpoint cl3 \<noteq> None" "\<exists>cn. connection_new (cs_connection (cl_config cl)) (cl_time cl) = Inr cn \<and>
      cl_connection cl3 = Some cn" "cl_client_id cl3 = client_id"
    using C(2,7) N(2,3,8) D(6,7) by simp_all
  have "client_ok lv B cl' s' \<and> ((cl_state cl' = ClientConnecting \<or> cl_state cl' = ClientError) \<and>
       cl_client cl' \<noteq> None \<and> cl_client_id cl' = client_id \<and>
       (\<exists>cn. connection_new (cs_connection (cl_config cl)) (cl_time cl) = Inr cn \<and> cl_connection cl' = Some cn) \<or>
     client_closed cl')"
  proof (cases "cl_client cl3 = None")
    case True
    with tail have "client_disconnect L cl3 s3 = Inr (cl', s')" by simp
    from disconnect_ok(2,3)[OF L N(1) this] show ?thesis by blast
  next
    case False
    obtain strings tok s4 where strings: "rfold (\<lambda>strings addr. rbind (c_string addr) (\<lambda>str. Inr (strings @ [str]))) [] addresses = Inr strings"
      and tok: "os_free (c_generate_connect_token L strings (cs_timeout (cl_config cl3)) client_id
                     (cs_protocol_id (cl_config cl3)) key) s3 = (tok, s4)"
      using tail False by (auto simp: generate_insecure_connect_token_def rbind_eq_Inr intro: prod.exhaust)
    have own4: "client_owns lv B cl3 s4"
      using client_owns_free[OF N(1) lib_okD(10)[OF L]] tok by (metis snd_conv)
    show ?thesis
    proof (cases tok)
      case None
      then have "cl' = cl3\<lparr>cl_state := ClientError\<rparr>" "s' = s4"
        using tail False strings tok by (auto simp: generate_insecure_connect_token_def)
      with own4 made False show ?thesis by (auto simp: client_ok_def client_owns_def client_objects_def)
    next
      case (Some t)
      then have "cl' = cl3\<lparr>cl_state := ClientConnecting\<rparr>"
        "s' = snd (os_run NetClient (cl_client cl3) (c_client_connect L (cl_client cl3) t) s4)"
        using tail False strings tok
        by (auto simp: generate_insecure_connect_token_def rbind_eq_Inr split: prod.splits)
      moreover have "client_owns lv B cl3 (snd (os_run NetClient (cl_client cl3) (c_client_connect L (cl_client cl3) t) s4))"
        by (rule client_owns_client(1)[OF own4 False lib_okD(13)[OF L]])
      ultimately show ?thesis using made False by (auto simp: client_ok_def client_owns_def client_objects_def)
    qed
  qed
  then show "client_ok lv B cl' s'" "(cl_state cl' = ClientConnecting \<or> cl_state cl' = ClientError) \<and>
       cl_client cl' \<noteq> None \<and> cl_client_id cl' = client_id \<and>
       (\<exists>cn. connection_new (cs_connection (cl_config cl)) (cl_time cl) = Inr cn \<and> cl_connection cl' = Some cn) \<or>
     client_closed cl'" by blast+
qed

section \<open>Time and packets\<close>

lemma send_raw_ok:
  "lib_ok L lv \<Longrightarrow> client_owns lv B cl s \<Longrightarrow> cl_client cl \<noteq> None \<Longrightarrow>
    client_owns lv B cl (client_send_raw L (cl_client cl) data s)"
  unfolding client_send_raw_def by (rule client_owns_client(2)[OF _ _ lib_okD(15)])

lemma send_all_raw_ok:
  assumes "lib_ok L lv" "client_owns lv B cl s" "cl_client cl \<noteq> None"
  shows "client_owns lv B cl (foldl (\<lambda>s (i, data). client_send_raw L (cl_client cl) data s) s packets)"
  using assms(2)
proof (induction packets arbitrary: s)
  case (Cons x packets)
  from Cons.IH[OF send_raw_ok[OF assms(1) Cons.prems assms(3), of "snd x"]] show ?case by (cases x) simp
qed simp

lemma advance_connection_ok:
  assumes L: "lib_ok L lv" and ok: "client_ok lv B cl s"
    and r: "client_advance_connection L cl s = Inr (returned, cl', s')"
  shows "client_ok lv B cl' s'" "returned \<Longrightarrow> client_closed cl'"
    "\<not> returned \<Longrightarrow> cl_client cl' = cl_client cl \<and> cl_endpoint cl' = cl_endpoint cl \<and>
       cl_state cl' = cl_state cl \<and> cl_time cl' = cl_time cl \<and>
       cl_network_simulator cl' = cl_network_simulator cl"
    "returned \<longleftrightarrow> (\<exists>cn. cl_connection cl = Some cn \<and>
       cn_error_level (connection_advance_time cn (cl_time cl)) \<noteq> ConnectionNone)"
proof -
  have own: "client_owns lv B cl s" using ok by (simp add: client_ok_def)
  have "client_ok lv B cl' s' \<and> (returned \<longrightarrow> client_closed cl') \<and>
    (\<not> returned \<longrightarrow> cl_client cl' = cl_client cl \<and> cl_endpoint cl' = cl_endpoint cl \<and>
       cl_state cl' = cl_state cl \<and> cl_time cl' = cl_time cl \<and>
       cl_network_simulator cl' = cl_network_simulator cl) \<and>
    (returned \<longleftrightarrow> (\<exists>cn. cl_connection cl = Some cn \<and>
       cn_error_level (connection_advance_time cn (cl_time cl)) \<noteq> ConnectionNone))"
  proof (cases "cl_connection cl")
    case None
    with ok have "cl_endpoint cl = None" by (simp add: client_ok_def)
    with None r ok show ?thesis by (auto simp: client_advance_connection_def)
  next
    case (Some cn)
    let ?cn = "connection_advance_time cn (cl_time cl)" and ?ep = "cl_endpoint cl"
    let ?cl = "cl\<lparr>cl_connection := Some ?cn\<rparr>"
    have ep: "?ep \<noteq> None" using ok Some by (auto simp: client_ok_def)
    then obtain h where h: "?ep = Some h" by blast
    show ?thesis
    proof (cases "cn_error_level ?cn = ConnectionNone")
      case False
      have own': "client_owns lv B ?cl s" using own by (simp add: client_owns_def client_objects_def)
      have "client_disconnect L ?cl s = Inr (cl', s')" "returned"
        using r Some h False by (auto simp: client_advance_connection_def rbind_eq_Inr Let_def)
      with disconnect_ok(2,3)[OF L own'] Some False show ?thesis by auto
    next
      case True
      let ?s1 = "os_do Endpoint ?ep (c_endpoint_update L ?ep (cl_time cl)) s"
      let ?s2 = "snd (os_ask Endpoint ?ep (c_endpoint_get_acks L ?ep) ?s1)"
      obtain cn' where run: "\<not> returned" "cl' = cl\<lparr>cl_connection := Some cn'\<rparr>"
        "s' = os_do Endpoint ?ep (c_endpoint_clear_acks L ?ep) ?s2"
        using r Some h True
        by (auto simp: client_advance_connection_def rbind_eq_Inr Let_def os_ask_def)
      have "client_owns lv B cl ?s1" by (rule client_owns_endpoint(2)[OF own ep lib_okD(5)[OF L]])
      then have "client_owns lv B cl ?s2" by (rule client_owns_endpoint(3)[OF _ ep])
      then have "client_owns lv B cl s'" unfolding run(3) by (rule client_owns_endpoint(2)[OF _ ep lib_okD(6)[OF L]])
      with ok Some ep True run(1,2) show ?thesis by (auto simp: client_ok_def client_owns_def client_objects_def)
    qed
  qed
  then show "client_ok lv B cl' s'" "returned \<Longrightarrow> client_closed cl'"
    "\<not> returned \<Longrightarrow> cl_client cl' = cl_client cl \<and> cl_endpoint cl' = cl_endpoint cl \<and>
       cl_state cl' = cl_state cl \<and> cl_time cl' = cl_time cl \<and>
       cl_network_simulator cl' = cl_network_simulator cl"
    "returned \<longleftrightarrow> (\<exists>cn. cl_connection cl = Some cn \<and>
       cn_error_level (connection_advance_time cn (cl_time cl)) \<noteq> ConnectionNone)" by blast+
qed

lemma flush_simulator_ok:
  assumes L: "lib_ok L lv" and ok: "client_ok lv B cl s" and alive: "cl_client cl \<noteq> None \<or> cl_network_simulator cl = None"
    and r: "client_flush_simulator L cl s = Inr (cl', s')"
  shows "client_ok lv B cl' s'" "cl_state cl' = cl_state cl"
proof -
  have own: "client_owns lv B cl s" using ok by (simp add: client_ok_def)
  have "client_ok lv B cl' s' \<and> cl_state cl' = cl_state cl"
  proof (cases "\<exists>ns. cl_network_simulator cl = Some ns \<and> ns_active ns")
    case False
    with r ok show ?thesis by (auto simp: client_flush_simulator_def split: option.splits)
  next
    case True
    then obtain ns where ns: "cl_network_simulator cl = Some ns" "ns_active ns" by blast
    with alive have cl: "cl_client cl \<noteq> None" by simp
    obtain received ns' where rcv: "sim_receive_packets ns = Inr (received, ns')"
      using r ns by (auto simp: client_flush_simulator_def rbind_eq_Inr)
    then have "cl' = cl\<lparr>cl_network_simulator := Some ns'\<rparr>"
      "s' = foldl (\<lambda>s (_, packet_data). client_send_raw L (cl_client cl) packet_data s) s received"
      using r ns by (simp_all add: client_flush_simulator_def)
    with send_all_raw_ok[OF L own cl, of received] ok show ?thesis
      by (auto simp: client_ok_def client_owns_def client_objects_def)
  qed
  then show "client_ok lv B cl' s'" "cl_state cl' = cl_state cl" by blast+
qed

text \<open>Netcode's state is taken over; when it says that the client is gone, everything is closed.\<close>

lemma update_state_ok:
  assumes L: "lib_ok L lv" and ok: "client_ok lv B cl s" and client: "cl_client cl \<noteq> None"
    and r: "client_update_state L cl s = Inr (cl', s')"
  shows "client_ok lv B cl' s'"
    "if cl_state cl' = ClientError \<or> cl_state cl' = ClientDisconnected then client_closed cl'
     else cl' = cl\<lparr>cl_state := cl_state cl'\<rparr>"
proof -
  let ?c = "cl_client cl"
  obtain changes s2 where u: "os_run NetClient ?c (c_client_update L ?c (cl_time cl)) s = (changes, s2)" by fastforce
  define s3 where "s3 = snd (os_ask NetClient ?c (c_client_state L ?c) s2)"
  define state where "state = client_state_from_netcode_state (c_client_state L ?c (os_world s2))"
  have run: "(if state = ClientDisconnected \<or> state = ClientError then client_disconnect L (cl\<lparr>cl_state := state\<rparr>) s3
      else Inr (cl\<lparr>cl_state := state\<rparr>, s3)) = Inr (cl', s')"
    using r u by (cases "client_state_changes changes")
      (auto simp: client_update_state_def os_ask_def Let_def s3_def state_def split: if_splits)
  have own: "client_owns lv B cl s" using ok by (simp add: client_ok_def)
  have "client_owns lv B cl s2"
    using client_owns_client(1)[OF own client lib_okD(14)[OF L], of ?c "cl_time cl"] u by simp
  from client_owns_client(3)[OF this client]
  have own3: "client_owns lv B (cl\<lparr>cl_state := state\<rparr>) s3"
    by (simp add: client_owns_def client_objects_def s3_def)
  show "client_ok lv B cl' s'"
    "if cl_state cl' = ClientError \<or> cl_state cl' = ClientDisconnected then client_closed cl'
     else cl' = cl\<lparr>cl_state := cl_state cl'\<rparr>"
  proof -
    show "client_ok lv B cl' s'"
    proof (cases "state = ClientDisconnected \<or> state = ClientError")
      case True
      with run disconnect_ok(3)[OF L own3] show ?thesis by simp
    next
      case False
      with run own3 ok client show ?thesis by (auto simp: client_ok_def)
    qed
    show "if cl_state cl' = ClientError \<or> cl_state cl' = ClientDisconnected then client_closed cl'
     else cl' = cl\<lparr>cl_state := cl_state cl'\<rparr>"
    proof (cases "state = ClientDisconnected \<or> state = ClientError")
      case True
      then have "client_disconnect L (cl\<lparr>cl_state := state\<rparr>) s3 = Inr (cl', s')" using run by simp
      from disconnect_ok(2)[OF L own3 this] show ?thesis by (auto simp: client_closed_def)
    next
      case False
      with run show ?thesis by auto
    qed
  qed
qed

lemma advance_time_ok:
  assumes L: "lib_ok L lv" and ok: "client_ok lv B cl s"
    and r: "client_advance_time L cl t s = Inr (cl', s')"
  shows "client_ok lv B cl' s'"
proof -
  have ok0: "client_ok lv B (cl\<lparr>cl_time := t\<rparr>) s"
    using ok by (auto simp: client_ok_def client_owns_def client_objects_def)
  obtain returned cl1 s1 where a: "client_advance_connection L (cl\<lparr>cl_time := t\<rparr>) s = Inr (returned, cl1, s1)"
    using r by (auto simp: client_advance_time_def rbind_eq_Inr)
  note A = advance_connection_ok[OF L ok0 a]
  let ?cl = "cl1\<lparr>cl_network_simulator := map_option (\<lambda>ns. sim_advance_time ns (cl_time cl1)) (cl_network_simulator cl1)\<rparr>"
  have ok1: "client_ok lv B ?cl s1" using A(1) by (auto simp: client_ok_def client_owns_def client_objects_def)
  show ?thesis
  proof (cases "returned \<or> cl_client cl1 = None")
    case True
    have "client_advance_time L cl t s = Inr (if returned then (cl1, s1) else (?cl, s1))"
      using a True unfolding client_advance_time_def Let_def by auto
    with r A(1) ok1 show ?thesis by (auto split: if_splits)
  next
    case False
    then obtain cl4 s4 where u: "client_update_state L ?cl s1 = Inr (cl4, s4)"
      and f: "client_flush_simulator L cl4 s4 = Inr (cl', s')"
      using r a by (auto simp: client_advance_time_def rbind_eq_Inr Let_def)
    have ne: "cl_client ?cl \<noteq> None" using False by simp
    note U = update_state_ok[OF L ok1 ne u]
    have alive: "cl_client cl4 \<noteq> None \<or> cl_network_simulator cl4 = None"
    proof (cases "cl_state cl4 = ClientError \<or> cl_state cl4 = ClientDisconnected")
      case True
      then show ?thesis using U(2) by (simp add: client_closed_def)
    next
      case False
      then have "cl_state cl4 = ClientConnecting \<or> cl_state cl4 = ClientConnected" by (cases "cl_state cl4") simp_all
      then show ?thesis using U(1) by (simp add: client_ok_def)
    qed
    show ?thesis by (rule flush_simulator_ok(1)[OF L U(1) alive f])
  qed
qed

lemma transmit_packet_ok:
  assumes L: "lib_ok L lv" and ok: "client_ok lv B cl s" "cl_client cl \<noteq> None"
    and r: "client_transmit_packet L cl n data s = Inr (cl', s')"
  shows "client_ok lv B cl' s' \<and> cl_client cl' \<noteq> None"
proof -
  have own: "client_owns lv B cl s" using ok by (simp add: client_ok_def)
  show ?thesis
  proof (cases "\<exists>ns. cl_network_simulator cl = Some ns \<and> ns_active ns")
    case False
    then have "cl' = cl" "s' = client_send_raw L (cl_client cl) data s"
      using r by (auto simp: client_transmit_packet_def split: option.splits)
    with send_raw_ok[OF L own ok(2), of data] ok show ?thesis using client_ok_os by blast
  next
    case True
    then obtain ns' where "cl' = cl\<lparr>cl_network_simulator := Some ns'\<rparr>" "s' = snd (os_free (c_thread_rng L) s)"
      using r by (auto simp: client_transmit_packet_def rbind_eq_Inr split: prod.splits)
    with client_owns_free[OF own lib_okD(1)[OF L]] ok show ?thesis
      by (auto simp: client_ok_def client_owns_def client_objects_def)
  qed
qed

lemma transmit_all_ok:
  assumes L: "lib_ok L lv" and "client_ok lv B cl s" "cl_client cl \<noteq> None"
    and "rfold (\<lambda>(cl, s) (n, data). client_transmit_packet L cl n data s) (cl, s) transmits = Inr (cl', s')"
  shows "client_ok lv B cl' s'"
  using assms(2-)
proof (induction transmits arbitrary: cl s)
  case (Cons x transmits)
  then obtain cl1 s1 where "client_transmit_packet L cl (fst x) (snd x) s = Inr (cl1, s1)"
    "rfold (\<lambda>(cl, s) (n, data). client_transmit_packet L cl n data s) (cl1, s1) transmits = Inr (cl', s')"
    by (cases x) (auto simp: rbind_eq_Inr)
  with Cons.IH transmit_packet_ok[OF L Cons.prems(1,2)] show ?case by blast
qed simp

lemma send_packets_ok:
  assumes L: "lib_ok L lv" and ok: "client_ok lv B cl s"
    and r: "client_send_packets feat nm L cl s = Inr (cl', s')"
  shows "client_ok lv B cl' s'"
proof (cases "client_is_connected cl")
  case False
  with r ok show ?thesis by (simp add: client_send_packets_def)
next
  case True
  then have "cl_state cl = ClientConnected" by (cases "cl_state cl") (simp_all add: client_is_connected_def)
  with ok obtain c cn where c: "cl_client cl = Some c" "cl_endpoint cl \<noteq> None" "cl_connection cl = Some cn"
    by (auto simp: client_ok_def)
  let ?ep = "cl_endpoint cl"
  define s1 where "s1 = snd (os_ask Endpoint ?ep (c_endpoint_next_sequence L ?ep) s)"
  have own: "client_owns lv B cl s" using ok by (simp add: client_ok_def)
  have own1: "client_owns lv B cl s1" unfolding s1_def by (rule client_owns_endpoint(3)[OF own c(2)])
  obtain n buffer cn' where g: "connection_generate_packet feat nm cn (c_endpoint_next_sequence L ?ep (os_world s))
      (cl_packet_buffer cl) = Inr (n, buffer, cn')"
    using r True c by (auto simp: client_send_packets_def os_ask_def Let_def rbind_eq_Inr)
  let ?cl = "cl\<lparr>cl_connection := Some cn', cl_packet_buffer := buffer\<rparr>"
  show ?thesis
  proof (cases "0 < n")
    case False
    then have "(cl', s') = (?cl, s1)"
      using r True c g by (simp add: client_send_packets_def os_ask_def Let_def s1_def)
    with own1 ok c show ?thesis by (auto simp: client_ok_def client_owns_def client_objects_def)
  next
    case n: True
    obtain transmits s2 where t: "os_run Endpoint ?ep (c_endpoint_send L ?ep (take n buffer)) s1 = (transmits, s2)"
      by fastforce
    have sent: "rfold (\<lambda>(cl, s) (n, data). client_transmit_packet L cl n data s) (?cl, s2) transmits = Inr (cl', s')"
      using r True c g n t by (auto simp: client_send_packets_def os_ask_def Let_def s1_def split: if_splits)
    have "client_owns lv B cl s2"
      using client_owns_endpoint(1)[OF own1 c(2) lib_okD(7)[OF L], of ?ep "take n buffer"] t by simp
    then have "client_ok lv B ?cl s2" using ok c by (auto simp: client_ok_def client_owns_def client_objects_def)
    from transmit_all_ok[OF L this _ sent] c(1) show ?thesis by simp
  qed
qed

lemma receive_one_ok:
  assumes L: "lib_ok L lv" and ok: "client_ok lv B cl s" "cl_client cl \<noteq> None"
    and r: "client_receive_one feat nm L cl data s = Inr (cl', s')"
  shows "client_ok lv B cl' s' \<and> cl_client cl' \<noteq> None"
proof -
  let ?ep = "cl_endpoint cl" and ?c = "cl_client cl"
  have own: "client_owns lv B cl s" and ep: "?ep \<noteq> None" using ok by (auto simp: client_ok_def)
  obtain call s1 where c: "os_run Endpoint ?ep (c_endpoint_receive L ?ep data) s = (call, s1)" by fastforce
  have own1: "client_owns lv B cl s1"
    using client_owns_endpoint(1)[OF own ep lib_okD(8)[OF L], of ?ep data] c by simp
  have "\<exists>cl2 s2. client_ok lv B cl2 s2 \<and> cl_client cl2 = ?c \<and> cl' = cl2 \<and>
      s' = os_do NetClient ?c (c_client_free_packet L ?c data) s2"
  proof (cases call)
    case None
    then show ?thesis
      using r c client_ok_os[OF ok(1) own1] by (auto simp: client_receive_one_def Let_def)
  next
    case (Some x)
    obtain cn answer cn' where cn: "cl_connection cl = Some cn"
      "connection_process_packet feat nm cn (fst x) (snd x) = Inr (answer, cn')"
      "cl' = cl\<lparr>cl_connection := Some cn'\<rparr>"
      "s' = os_do NetClient ?c (c_client_free_packet L ?c data)
         (os_do Endpoint ?ep (c_endpoint_processed L ?ep answer) s1)"
      using r c Some by (cases x) (auto simp: client_receive_one_def client_process_packet_def Let_def rbind_eq_Inr
          split: option.splits)
    have "client_owns lv B cl (os_do Endpoint ?ep (c_endpoint_processed L ?ep answer) s1)"
      by (rule client_owns_endpoint(2)[OF own1 ep lib_okD(9)[OF L]])
    then have "client_ok lv B cl' (os_do Endpoint ?ep (c_endpoint_processed L ?ep answer) s1)"
      using ok cn(1) by (auto simp: cn(3) client_ok_def client_owns_def client_objects_def)
    with cn(3,4) show ?thesis by auto
  qed
  then obtain s2 where s2: "client_ok lv B cl' s2" "cl_client cl' = ?c"
    "s' = os_do NetClient ?c (c_client_free_packet L ?c data) s2" by blast
  then have "client_owns lv B cl' s2" by (simp add: client_ok_def)
  from client_owns_client(2)[OF this _ lib_okD(16)[OF L]] s2 ok(2) client_ok_os[OF s2(1)]
  show ?thesis by simp
qed

lemma receive_loop_ok:
  assumes "client_receive_loop feat nm L cl s = Some r" and "lib_ok L lv" "client_ok lv B cl s" "cl_client cl \<noteq> None"
    and "r = Inr (cl', s')"
  shows "client_ok lv B cl' s'"
  using assms
proof (induction rule: client_receive_loop.raw_induct[rotated, consumes 1])
  case (1 loop feat nm L cl s r)
  let ?c = "cl_client cl"
  have own: "client_owns lv B cl s" using "1.prems"(2) by (simp add: client_ok_def)
  obtain got s1 where g: "os_run NetClient ?c (c_client_receive L ?c) s = (got, s1)" by fastforce
  have own1: "client_owns lv B cl s1"
    using client_owns_client(1)[OF own "1.prems"(3) lib_okD(17)[OF "1.prems"(1)], of ?c] g by simp
  note ok1 = client_ok_os[OF "1.prems"(2) own1]
  show ?case
  proof (cases got)
    case None
    with "1.hyps" g ok1 "1.prems"(4) show ?thesis by simp
  next
    case (Some data)
    then obtain cl2 s2 where one: "client_receive_one feat nm L cl data s1 = Inr (cl2, s2)"
      and rest: "loop feat nm L cl2 s2 = Some r"
      using "1.hyps" g "1.prems"(4) by (auto split: sum.splits)
    from receive_one_ok[OF "1.prems"(1) ok1 "1.prems"(3) one] "1.IH"[OF rest] "1.prems"(1,4)
    show ?thesis by blast
  qed
qed

section \<open>Every sequence of calls\<close>

text \<open>The public methods of a client that return, and what happens outside between them. The
  context pointer that the callbacks use is the client itself, so it must not be moved while it
  is connected; values have no address here.\<close>

inductive client_step ::
  "features \<Rightarrow> ('m, 'e) network_message \<Rightarrow> 'w netlib \<Rightarrow> ('w \<Rightarrow> (object \<times> handle) set)
     \<Rightarrow> 'm client \<times> 'w os \<Rightarrow> 'm client \<times> 'w os \<Rightarrow> bool" for feat nm L lv where
  AdvanceTime: "client_advance_time L cl t s = Inr (cl', s') \<Longrightarrow> client_step feat nm L lv (cl, s) (cl', s')"
| InsecureConnect: "client_insecure_connect L cl key client_id addresses s = Inr (cl', s') \<Longrightarrow>
    client_step feat nm L lv (cl, s) (cl', s')"
| SendPackets: "client_send_packets feat nm L cl s = Inr (cl', s') \<Longrightarrow> client_step feat nm L lv (cl, s) (cl', s')"
| ReceivePackets: "client_receive_packets feat nm L cl s = Some (Inr (cl', s')) \<Longrightarrow>
    client_step feat nm L lv (cl, s) (cl', s')"
| SendMessage: "client_send_message nm cl i m = Inr cl' \<Longrightarrow> client_step feat nm L lv (cl, s) (cl', s)"
| ReceiveMessage: "client_receive_message cl i = Inr (r, cl') \<Longrightarrow> client_step feat nm L lv (cl, s) (cl', s)"
| ReceiveMessageWithId: "client_receive_message_with_id cl i = Inr (r', cl') \<Longrightarrow>
    client_step feat nm L lv (cl, s) (cl', s)"
| WithNetworkSimulator: "client_with_network_simulator cl f = Inr cl' \<Longrightarrow> client_step feat nm L lv (cl, s) (cl', s)"
| Snapshot: "client_snapshot_network_info L cl s = Inr (info, s') \<Longrightarrow> client_step feat nm L lv (cl, s) (cl, s')"
| Disconnect: "client_disconnect L cl s = Inr (cl', s') \<Longrightarrow> client_step feat nm L lv (cl, s) (cl', s')"
| Outside: "lv w' = lv (os_world s) \<Longrightarrow> client_step feat nm L lv (cl, s) (cl, s\<lparr>os_world := w'\<rparr>)"

inductive client_reachable ::
  "features \<Rightarrow> ('m, 'e) network_message \<Rightarrow> 'w netlib \<Rightarrow> ('w \<Rightarrow> (object \<times> handle) set)
     \<Rightarrow> 'm client \<times> 'w os \<Rightarrow> bool" for feat nm L lv where
  New: "lv w = {} \<Longrightarrow>
    client_reachable feat nm L lv (client_new address config t, \<lparr>os_world = w, os_calls = []\<rparr>)"
| Step: "client_reachable feat nm L lv x \<Longrightarrow> client_step feat nm L lv x y \<Longrightarrow> client_reachable feat nm L lv y"

text \<open>What the methods on messages and the simulator leave alone.\<close>

lemma client_quiet_ok:
  "client_ok lv B cl s \<Longrightarrow> client_send_message nm cl i m = Inr cl' \<Longrightarrow> client_ok lv B cl' s"
  "client_ok lv B cl s \<Longrightarrow> client_receive_message_with_id cl i = Inr (r, cl') \<Longrightarrow> client_ok lv B cl' s"
  "client_ok lv B cl s \<Longrightarrow> client_receive_message cl i = Inr (r', cl') \<Longrightarrow> client_ok lv B cl' s"
  "client_ok lv B cl s \<Longrightarrow> client_with_network_simulator cl f = Inr cl' \<Longrightarrow> client_ok lv B cl' s"
  by (auto simp: client_send_message_def client_receive_message_with_id_def client_receive_message_def
      client_with_network_simulator_def client_ok_def client_owns_def client_objects_def rbind_eq_Inr
      split: option.splits)

lemma snapshot_ok:
  assumes "client_ok lv B cl s" "client_snapshot_network_info L cl s = Inr (info, s')"
  shows "client_ok lv B cl s'"
proof (cases "client_is_connected cl")
  case False
  with assms show ?thesis by (simp add: client_snapshot_network_info_def)
next
  case True
  from True assms have ep: "cl_endpoint cl \<noteq> None" "client_owns lv B cl s"
    "s' = snd (os_ask Endpoint (cl_endpoint cl) (endpoint_network_info L (cl_endpoint cl)) s)"
    by (auto simp: client_snapshot_network_info_def client_ok_def split: if_splits prod.splits)
  show ?thesis unfolding ep(3) by (rule client_ok_os[OF assms(1) client_owns_endpoint(3)[OF ep(2,1)]])
qed

lemma client_step_ok:
  assumes "client_step feat nm L lv x y" "lib_ok L lv" "client_ok lv B (fst x) (snd x)"
  shows "client_ok lv B (fst y) (snd y)"
  using assms(1,3)
proof (cases rule: client_step.cases)
  case (AdvanceTime cl t s cl' s')
  with assms advance_time_ok[OF assms(2)] show ?thesis by simp
next
  case (InsecureConnect cl key client_id addresses s cl' s')
  with assms insecure_connect_ok(1)[OF assms(2) client_ok_owns] show ?thesis by simp
next
  case (SendPackets cl s cl' s')
  with assms send_packets_ok[OF assms(2)] show ?thesis by simp
next
  case (ReceivePackets cl s cl' s')
  show ?thesis
  proof (cases "client_is_connected cl")
    case False
    with ReceivePackets assms show ?thesis by (simp add: client_receive_packets_def)
  next
    case True
    with ReceivePackets have "client_receive_loop feat nm L cl s = Some (Inr (cl', s'))" "cl_client cl \<noteq> None"
      by (auto simp: client_receive_packets_def split: if_splits)
    from receive_loop_ok[OF this(1) assms(2) _ this(2) refl, of B] assms(3) ReceivePackets(1,2)
    show ?thesis by simp
  qed
next
  case (Snapshot cl s info s')
  with assms snapshot_ok show ?thesis by auto
next
  case (Disconnect cl s cl' s')
  with assms disconnect_ok(3)[OF assms(2) client_ok_owns] show ?thesis by simp
next
  case (Outside w' s cl)
  with assms show ?thesis by (auto simp: client_ok_def client_owns_def os_ok_def)
qed (use assms(3) client_quiet_ok in auto)

lemma client_reachable_ok:
  assumes "client_reachable feat nm L lv x" "lib_ok L lv"
  shows "client_ok lv {} (fst x) (snd x)"
  using assms
proof (induction rule: client_reachable.induct)
  case (New w address config t)
  then show ?case
    by (simp add: client_ok_def client_owns_def client_objects_def client_new_def os_ok_def os_live_def)
next
  case (Step x y)
  then show ?case using client_step_ok by blast
qed

section \<open>The properties\<close>

text \<open>C21: the C objects are handled safely: whatever methods are called in whatever order, no call
  is made on a null pointer, on an object that does not exist yet or on one already destroyed,
  nothing is destroyed twice, and the objects that exist are exactly the ones the client points
  to. A connected client has all of them, a closed one has leaked none.\<close>

theorem client_calls_safe:
  assumes "lib_ok L lv" "client_reachable feat nm L lv (cl, s)"
  shows "safe_run {} (os_calls s) = Some (client_objects cl) \<and>
    (client_is_connected cl \<longrightarrow> cl_client cl \<noteq> None \<and> cl_endpoint cl \<noteq> None \<and> cl_connection cl \<noteq> None) \<and>
    (client_disconnect L cl s = Inr (cl', s') \<longrightarrow> client_closed cl' \<and> safe_run {} (os_calls s') = Some {})"
proof -
  have ok: "client_ok lv {} cl s" using client_reachable_ok[OF assms(2,1)] by simp
  have own: "client_owns lv {} cl s" using ok by (simp add: client_ok_def)
  have "safe_run {} (os_calls s) = Some (client_objects cl)"
    using own by (simp add: client_owns_def os_ok_def os_live_def)
  moreover have "client_is_connected cl \<longrightarrow> cl_client cl \<noteq> None \<and> cl_endpoint cl \<noteq> None \<and> cl_connection cl \<noteq> None"
    using ok by (cases "cl_state cl") (auto simp: client_is_connected_def client_ok_def)
  moreover have "client_closed cl' \<and> safe_run {} (os_calls s') = Some {}" if "client_disconnect L cl s = Inr (cl', s')"
    using disconnect_ok(2,4)[OF assms(1) own that] by (simp add: os_ok_def os_live_def)
  ultimately show ?thesis by blast
qed

text \<open>C35: \<open>insecure_connect\<close> starts from a clean slate and ends in one of three ways: connecting, or
  in the error state without a connect token, with a fresh connection either time; or closed,
  when netcode made no client.\<close>

theorem client_connect_outcomes:
  assumes "lib_ok L lv" "client_reachable feat nm L lv (cl, s)"
    and "client_insecure_connect L cl key client_id addresses s = Inr (cl', s')"
  shows "addresses \<noteq> [] \<and> length addresses \<le> c_max_servers_per_connect L \<and>
    ((cl_state cl' = ClientConnecting \<or> cl_state cl' = ClientError) \<and> cl_client cl' \<noteq> None \<and>
       cl_client_id cl' = client_id \<and>
       (\<exists>cn. connection_new (cs_connection (cl_config cl)) (cl_time cl) = Inr cn \<and> cl_connection cl' = Some cn) \<or>
     client_closed cl')"
proof -
  have "client_ok lv {} cl s" using client_reachable_ok[OF assms(2,1)] by simp
  then have "client_owns lv {} cl s" by (simp add: client_ok_def)
  note I = insecure_connect_ok[OF assms(1) this assms(3)]
  show ?thesis using I(2-4) by blast
qed

text \<open>\<open>disconnect\<close> keeps the error state, so that it can be told from a disconnect; \<open>advance_time\<close>
  does not. After \<open>insecure_connect\<close> has failed for want of a token the client still has its
  netcode client, whose state is disconnected, and the next \<open>advance_time\<close> replaces the error
  by it.\<close>

theorem client_advance_forgets_error:
  assumes L: "lib_ok L lv" and reach: "client_reachable feat nm L lv (cl, s)"
    and "cl_state cl = ClientError" "cl_client cl \<noteq> None"
    and none: "\<forall>cn. cl_connection cl = Some cn \<longrightarrow> cn_error_level (connection_advance_time cn t) = ConnectionNone"
    and state: "\<forall>w. c_client_state L (cl_client cl) w = 0"
    and r: "client_advance_time L cl t s = Inr (cl', s')"
  shows "cl_state cl' = ClientDisconnected \<and> \<not> client_connection_failed cl' \<and>
    (client_disconnect L cl s = Inr (cl'', s'') \<longrightarrow> client_connection_failed cl'')"
proof -
  have ok: "client_ok lv {} cl s" using client_reachable_ok[OF reach L] by simp
  then have ok0: "client_ok lv {} (cl\<lparr>cl_time := t\<rparr>) s" and own: "client_owns lv {} cl s"
    by (auto simp: client_ok_def client_owns_def client_objects_def)
  obtain returned cl1 s1 where a: "client_advance_connection L (cl\<lparr>cl_time := t\<rparr>) s = Inr (returned, cl1, s1)"
    using r by (auto simp: client_advance_time_def rbind_eq_Inr)
  note A = advance_connection_ok[OF L ok0 a]
  have "\<not> returned" using A(4) none by auto
  let ?cl = "cl1\<lparr>cl_network_simulator := map_option (\<lambda>ns. sim_advance_time ns (cl_time cl1)) (cl_network_simulator cl1)\<rparr>"
  have c: "cl_client cl1 = cl_client cl" "cl_client ?cl \<noteq> None" using A(3) \<open>\<not> returned\<close> assms(4) by auto
  have ok1: "client_ok lv {} ?cl s1" using A(1) by (auto simp: client_ok_def client_owns_def client_objects_def)
  obtain cl4 s4 where u: "client_update_state L ?cl s1 = Inr (cl4, s4)"
    and f: "client_flush_simulator L cl4 s4 = Inr (cl', s')"
    using r a c \<open>\<not> returned\<close> by (auto simp: client_advance_time_def rbind_eq_Inr Let_def)
  have "client_state_from_netcode_state 0 = ClientDisconnected" by (simp add: client_state_from_netcode_state_def)
  then obtain s3 where d: "client_disconnect L (?cl\<lparr>cl_state := ClientDisconnected\<rparr>) s3 = Inr (cl4, s4)"
    using u state c(1) by (auto simp: client_update_state_def rbind_eq_Inr os_ask_def Let_def split: prod.splits)
  have "cl_state cl4 = ClientDisconnected"
    using d by (auto simp: client_disconnect_def client_destroy_client_def client_destroy_internal_def
        rbind_eq_Inr Let_def split: if_splits prod.splits)
  moreover have "cl_state cl' = cl_state cl4"
    using f by (auto simp: client_flush_simulator_def rbind_eq_Inr split: option.splits if_splits)
  moreover have "client_connection_failed cl''" if "client_disconnect L cl s = Inr (cl'', s'')"
    using disconnect_ok(5)[OF L own that] assms(3) by (simp add: client_connection_failed_def)
  ultimately show ?thesis by (simp add: client_connection_failed_def)
qed

section \<open>Receiving ends\<close>

text \<open>Netcode has finitely many packets queued: each packet it hands over is one fewer (\<open>pending\<close>), and
  the calls made in between bring none in.\<close>

definition drains :: "'w netlib \<Rightarrow> ('w \<Rightarrow> nat) \<Rightarrow> bool" where
  "drains L pending \<longleftrightarrow>
     (\<forall>p w data w'. c_client_receive L p w = (Some data, w') \<longrightarrow> pending w' < pending w) \<and>
     (\<forall>p bs w. pending (snd (c_endpoint_receive L p bs w)) \<le> pending w) \<and>
     (\<forall>p b w. pending (c_endpoint_processed L p b w) \<le> pending w) \<and>
     (\<forall>p bs w. pending (c_client_free_packet L p bs w) \<le> pending w)"

lemma receive_one_pending:
  assumes "drains L pending" "client_receive_one feat nm L cl data s = Inr (cl', s')"
  shows "pending (os_world s') \<le> pending (os_world s)"
proof -
  let ?ep = "cl_endpoint cl" and ?c = "cl_client cl"
  obtain call s1 where c: "os_run Endpoint ?ep (c_endpoint_receive L ?ep data) s = (call, s1)" by fastforce
  have D: "pending (snd (c_endpoint_receive L p bs w)) \<le> pending w"
    "pending (c_endpoint_processed L p b w) \<le> pending w" "pending (c_client_free_packet L p bs w) \<le> pending w" for p bs b w
    using assms(1) by (simp_all add: drains_def)
  have s1: "pending (os_world s1) \<le> pending (os_world s)"
    using c D(1)[of ?ep data "os_world s"] by (auto simp: os_run_def split: prod.splits)
  have "\<exists>w2. pending w2 \<le> pending (os_world s1) \<and> os_world s' = c_client_free_packet L ?c data w2"
  proof (cases call)
    case None
    with assms(2) c show ?thesis by (auto simp: client_receive_one_def Let_def os_do_def)
  next
    case (Some x)
    then obtain answer where "os_world s' = c_client_free_packet L ?c data (c_endpoint_processed L ?ep answer (os_world s1))"
      using assms(2) c by (cases x) (auto simp: client_receive_one_def client_process_packet_def Let_def rbind_eq_Inr
          os_do_def split: option.splits)
    with D(2)[of ?ep _ "os_world s1"] show ?thesis by blast
  qed
  then obtain w2 where "pending w2 \<le> pending (os_world s1)" "os_world s' = c_client_free_packet L ?c data w2" by blast
  with s1 D(3)[of ?c data w2] show ?thesis by simp
qed

lemma receive_loop_returns:
  assumes "drains L pending"
  shows "\<exists>r. client_receive_loop feat nm L cl s = Some r"
proof (induction "pending (os_world s)" arbitrary: cl s rule: less_induct)
  case less
  let ?c = "cl_client cl"
  obtain got s1 where g: "os_run NetClient ?c (c_client_receive L ?c) s = (got, s1)" by fastforce
  show ?case
  proof (cases got)
    case None
    with g show ?thesis by (simp add: client_receive_loop.simps)
  next
    case (Some data)
    have lt: "pending (os_world s1) < pending (os_world s)"
      using g Some assms by (auto simp: os_run_def drains_def split: prod.splits)
    show ?thesis
    proof (cases "client_receive_one feat nm L cl data s1")
      case (Inl p)
      with g Some show ?thesis by (simp add: client_receive_loop.simps)
    next
      case (Inr x)
      obtain cl2 s2 where x: "x = (cl2, s2)" by fastforce
      have "pending (os_world s2) < pending (os_world s)"
        using receive_one_pending[OF assms Inr[unfolded x]] lt by simp
      then obtain r where "client_receive_loop feat nm L cl2 s2 = Some r" using less by blast
      with g Some Inr x show ?thesis by (simp add: client_receive_loop.simps[of feat nm L cl s])
    qed
  qed
qed

lemma client_receive_total: "drains L pending \<Longrightarrow> \<exists>r. client_receive_packets feat nm L cl s = Some r"
  using receive_loop_returns by (auto simp: client_receive_packets_def)

text \<open>\<open>receive_packets\<close> of the client returns, provided that netcode has only finitely many packets
  queued.\<close>

theorem client_receive_returns:
  assumes "drains L pending"
  shows "\<exists>r. client_receive_packets feat nm L cl s = Some r"
  by (rule client_receive_total[OF assms])

text \<open>The two conversions of a netcode client state agree on every state netcode has, and the one
  that \<open>advance_time\<close> uses takes any other number for an answer as well: below the errors it
  knows it is still an error, above 3 the client counts as connected.\<close>

theorem client_state_conversions:
  "(case try_from_netcode_client_state v of
      Some state \<Rightarrow> - 7 < v \<and> v \<le> 3 \<and> client_state_from_netcode_state v = state
    | None \<Rightarrow> v \<le> - 7 \<and> client_state_from_netcode_state v = ClientError \<or>
              3 < v \<and> client_state_from_netcode_state v = ClientConnected)"
  by (auto simp: try_from_netcode_client_state_def client_state_from_netcode_state_def)

section \<open>Witnesses\<close>

definition demo_client_config :: client_server_config where
  "demo_client_config = (client_server_config_new 1)\<lparr>
     cs_connection := demo_connection_config\<lparr>nc_max_packet_size := 20\<rparr>,
     cs_network_simulator := Some \<lparr>sc_max_simulator_packets = 4\<rparr>\<rparr>"

definition demo_client :: "u64 client" where
  "demo_client = client_new ''127.0.0.1'' demo_client_config f64_zero"

definition demo_start :: "demo_world os" where
  "demo_start = \<lparr>os_world = [], os_calls = []\<rparr>"

text \<open>A client after \<open>insecure_connect\<close>, with and without a connect token.\<close>

definition demo_connect :: "connect_token option \<Rightarrow> int \<Rightarrow> u64 client \<times> demo_world os" where
  "demo_connect tok state =
     (case client_insecure_connect (demo_lib state tok) demo_client [1, 2, 3] 5 [''127.0.0.1:40000''] demo_start of
        Inr x \<Rightarrow> x | Inl _ \<Rightarrow> (demo_client, demo_start))"

lemma demo_lib_is_ok: "lib_ok (demo_lib state tok) set"
  by (simp add: lib_ok_def demo_lib_ok)

lemma demo_start_reachable: "client_reachable feat nm L set (demo_client, demo_start)"
  unfolding demo_client_def demo_start_def by (rule client_reachable.New) simp

lemma demo_connect_run:
  "client_insecure_connect (demo_lib 3 (Some [9])) demo_client [1, 2, 3] 5 [''127.0.0.1:40000''] demo_start =
     Inr (demo_connect (Some [9]) 3)"
  "client_insecure_connect (demo_lib 0 None) demo_client [1, 2, 3] 5 [''127.0.0.1:40000''] demo_start =
     Inr (demo_connect None 0)"
proof -
  have "case client_insecure_connect (demo_lib 3 (Some [9])) demo_client [1, 2, 3] 5 [''127.0.0.1:40000''] demo_start of
      Inl _ \<Rightarrow> False | Inr _ \<Rightarrow> True"
    "case client_insecure_connect (demo_lib 0 None) demo_client [1, 2, 3] 5 [''127.0.0.1:40000''] demo_start of
      Inl _ \<Rightarrow> False | Inr _ \<Rightarrow> True" by code_simp+
  then show "client_insecure_connect (demo_lib 3 (Some [9])) demo_client [1, 2, 3] 5 [''127.0.0.1:40000''] demo_start =
     Inr (demo_connect (Some [9]) 3)"
    "client_insecure_connect (demo_lib 0 None) demo_client [1, 2, 3] 5 [''127.0.0.1:40000''] demo_start =
     Inr (demo_connect None 0)"
    by (auto simp: demo_connect_def split: sum.splits)
qed

lemma demo_connect_reachable:
  "client_reachable feat nm (demo_lib 3 (Some [9])) set (demo_connect (Some [9]) 3)"
  "client_reachable feat nm (demo_lib 0 None) set (demo_connect None 0)"
  using client_reachable.Step[OF demo_start_reachable client_step.InsecureConnect] demo_connect_run
  by (metis surj_pair)+

theorem client_calls_safe_witness:
  "safe_run {} (os_calls (snd (demo_connect (Some [9]) 3))) = Some (client_objects (fst (demo_connect (Some [9]) 3)))"
  using client_calls_safe[OF demo_lib_is_ok, of demo_features test_message 3 "Some [9]"
      "fst (demo_connect (Some [9]) 3)" "snd (demo_connect (Some [9]) 3)"]
    demo_connect_reachable(1)[of demo_features test_message]
  by simp

theorem client_connect_outcomes_witness:
  "cl_state (fst (demo_connect (Some [9]) 3)) = ClientConnecting \<or>
   cl_state (fst (demo_connect (Some [9]) 3)) = ClientError \<or> client_closed (fst (demo_connect (Some [9]) 3))"
proof -
  obtain cl' s' where x: "demo_connect (Some [9]) 3 = (cl', s')" by fastforce
  show ?thesis
    using client_connect_outcomes[OF demo_lib_is_ok demo_start_reachable demo_connect_run(1)[unfolded x]]
    by (auto simp: x)
qed

lemma demo_error_facts:
  "cl_state (fst (demo_connect None 0)) = ClientError" "cl_client (fst (demo_connect None 0)) \<noteq> None"
  "case cl_connection (fst (demo_connect None 0)) of
     None \<Rightarrow> True | Some cn \<Rightarrow> cn_error_level (connection_advance_time cn f64_one) = ConnectionNone"
  "case client_advance_time (demo_lib 0 None) (fst (demo_connect None 0)) f64_one (snd (demo_connect None 0)) of
     Inl _ \<Rightarrow> False | Inr _ \<Rightarrow> True"
  by code_simp+

theorem client_advance_forgets_error_witness:
  "\<exists>cl' s'. client_advance_time (demo_lib 0 None) (fst (demo_connect None 0)) f64_one (snd (demo_connect None 0)) =
     Inr (cl', s') \<and> cl_state (fst (demo_connect None 0)) = ClientError \<and> cl_state cl' = ClientDisconnected"
proof -
  let ?x = "demo_connect None 0"
  obtain cl' s' where r: "client_advance_time (demo_lib 0 None) (fst ?x) f64_one (snd ?x) = Inr (cl', s')"
    using demo_error_facts(4) by (auto split: sum.splits)
  have reach: "client_reachable demo_features test_message (demo_lib 0 None) set (fst ?x, snd ?x)"
    using demo_connect_reachable(2) by simp
  have "\<forall>cn. cl_connection (fst ?x) = Some cn \<longrightarrow> cn_error_level (connection_advance_time cn f64_one) = ConnectionNone"
    using demo_error_facts(3) by (auto split: option.splits)
  moreover have "\<forall>w. c_client_state (demo_lib 0 None) (cl_client (fst ?x)) w = 0" by (simp add: demo_lib_def)
  ultimately have "cl_state cl' = ClientDisconnected"
    using client_advance_forgets_error[OF demo_lib_is_ok reach demo_error_facts(1,2) _ _ r] by blast
  with r demo_error_facts(1) show ?thesis by blast
qed

lemma demo_lib_drains: "drains (demo_lib state tok) (\<lambda>_. 0)"
  by (simp add: drains_def demo_lib_def)

theorem client_receive_returns_witness:
  "\<exists>r. client_receive_packets demo_features test_message (demo_lib 3 None) demo_client demo_start = Some r"
  by (rule client_receive_returns[OF demo_lib_drains])

end
