(* ===== verification/Bindings.thy ===== *)
theory Bindings
  imports Net_Library
begin

text \<open>
  What the crate adds to the generated bindings: \<open>NetcodeAddress\<close> (\<open>src/bindings.rs\<close>), a view of an
  address that netcode owns, and the process wide calls of \<open>src/lib.rs\<close>.
\<close>

section \<open>Addresses\<close>

text \<open>\<open>NetcodeAddress::new\<close> asserts that the pointer is not null.\<close>

definition netcode_address_new :: "netcode_address option \<Rightarrow> panic + netcode_address" where
  "netcode_address_new raw = (case raw of None \<Rightarrow> Inl AssertionFailed | Some address \<Rightarrow> Inr address)"

definition address_is_ipv4 :: "'w netlib \<Rightarrow> netcode_address \<Rightarrow> bool" where
  "address_is_ipv4 L raw \<longleftrightarrow> na_type raw = c_address_ipv4 L"

definition address_is_ipv6 :: "'w netlib \<Rightarrow> netcode_address \<Rightarrow> bool" where
  "address_is_ipv6 L raw \<longleftrightarrow> na_type raw = c_address_ipv6 L"

definition address_ipv4 :: "'w netlib \<Rightarrow> netcode_address \<Rightarrow> u8 list option" where
  "address_ipv4 L raw = (if address_is_ipv4 L raw then Some (na_ipv4 raw) else None)"

definition address_ipv6 :: "'w netlib \<Rightarrow> netcode_address \<Rightarrow> u16 list option" where
  "address_ipv6 L raw = (if address_is_ipv4 L raw then Some (na_ipv6 raw) else None)"

definition address_port :: "netcode_address \<Rightarrow> u16" where
  "address_port raw = na_port raw"

text \<open>The guard of \<open>ipv6\<close> is the one of \<open>ipv4\<close>: no IPv6 address can be read, and of an IPv4 address
  both accessors return the union.\<close>

lemma address_ipv6_never:
  "c_address_ipv4 L \<noteq> c_address_ipv6 L \<Longrightarrow> address_is_ipv6 L raw \<Longrightarrow> address_ipv6 L raw = None \<and> address_ipv4 L raw = None"
  "address_is_ipv4 L raw \<Longrightarrow> address_ipv6 L raw = Some (na_ipv6 raw)"
  by (simp_all add: address_is_ipv4_def address_is_ipv6_def address_ipv4_def address_ipv6_def)

section \<open>The libraries as a whole\<close>

datatype bindings_log_level = LogNone | LogError | LogInfo | LogDebug

fun log_level_value :: "bindings_log_level \<Rightarrow> int" where
  "log_level_value LogNone = 0"
| "log_level_value LogError = 1"
| "log_level_value LogInfo = 2"
| "log_level_value LogDebug = 3"

definition initialize :: "'w netlib \<Rightarrow> 'w os \<Rightarrow> (string + unit) \<times> 'w os" where
  "initialize L s =
     (let (netcode, s) = os_free (c_netcode_init L) s in
      if netcode \<noteq> c_netcode_ok L then (Inl ''failed to initialize netcode'', s) else
      let (reliable, s) = os_free (c_reliable_init L) s in
      if reliable \<noteq> c_reliable_ok L then (Inl ''failed to initialize reliable'', s) else
      (Inr (), s))"

definition set_bindings_log_level :: "'w netlib \<Rightarrow> bindings_log_level \<Rightarrow> 'w os \<Rightarrow> 'w os" where
  "set_bindings_log_level L level s =
     s\<lparr>os_world := c_reliable_log_level L (log_level_value level)
        (c_netcode_log_level L (log_level_value level) (os_world s))\<rparr>"

definition shutdown :: "'w netlib \<Rightarrow> 'w os \<Rightarrow> 'w os" where
  "shutdown L s = s\<lparr>os_world := c_netcode_term L (c_reliable_term L (os_world s))\<rparr>"

text \<open>\<open>initialize\<close> succeeds exactly when both libraries do; when the second fails, the first stays
  initialized. Between \<open>initialize\<close> and \<open>shutdown\<close> no object is made.\<close>

lemma initialize_result:
  assumes "initialize L s = (r, s')"
  shows "r = Inr () \<longleftrightarrow> fst (c_netcode_init L (os_world s)) = c_netcode_ok L \<and>
      fst (c_reliable_init L (snd (c_netcode_init L (os_world s)))) = c_reliable_ok L"
    "os_calls s' = os_calls s"
    "r = Inl ''failed to initialize reliable'' \<Longrightarrow>
      os_world s' = snd (c_reliable_init L (snd (c_netcode_init L (os_world s))))"
  using assms by (auto simp: initialize_def os_free_def Let_def split: prod.splits if_splits)

end
