(* ===== verification/Server.thy ===== *)
theory Server
  imports Bindings Connection_Packets
begin

text \<open>
  \<open>src/server.rs\<close>: the server, over the libraries of \<open>Net_Library\<close>. A started server has a runtime,
  which the C callbacks point to; it holds one connection and one reliable.io endpoint for each
  client slot, and the netcode server. As in \<open>Client\<close>, an operation that calls into C takes and
  returns the state of the outside world, and the callbacks run where the call is made.

  Then the invariant over every sequence of calls: which C objects exist, and that no call is
  made on one that does not; what an error on one slot does; that receiving ends.
\<close>

section \<open>Conversions of indices\<close>

text \<open>\<open>as i32\<close> of a \<open>usize\<close> and \<open>as usize\<close> of an \<open>i32\<close> wrap around; \<open>format!("{}", i)\<close>.\<close>

definition as_i32 :: "usize \<Rightarrow> int" where
  "as_i32 i = (int i + 2 ^ 31) mod 2 ^ 32 - 2 ^ 31"

definition as_usize :: "int \<Rightarrow> usize" where
  "as_usize i = nat (i mod 2 ^ 64)"

lemma as_i32_small [simp]: "i < 2 ^ 31 \<Longrightarrow> as_i32 i = int i"
  by (simp add: as_i32_def)

lemma as_usize_small [simp]: "i < 2 ^ 64 \<Longrightarrow> as_usize (int i) = i"
  by (simp add: as_usize_def)

fun decimal :: "nat \<Rightarrow> string" where
  "decimal n = (if n < 10 then [char_of (48 + n)] else decimal (n div 10) @ [char_of (48 + n mod 10)])"

declare decimal.simps [simp del]

section \<open>State\<close>

record 'm server_runtime =
  sr_max_clients :: usize
  sr_server :: ptr
  sr_bound_port :: u16
  sr_network_simulator :: "network_simulator option"
  sr_client_connection :: "'m connection list"
  sr_client_endpoint :: "ptr list"
  sr_packet_buffer :: "u8 list"

record 'm server =
  sv_private_key :: "u8 list"
  sv_address :: string
  sv_config :: client_server_config
  sv_time :: f64
  sv_runtime :: "'m server_runtime option"

text \<open>\<open>Server::new\<close>, given the size of the message type.\<close>

definition server_new ::
  "usize \<Rightarrow> u8 list \<Rightarrow> string \<Rightarrow> client_server_config \<Rightarrow> f64 \<Rightarrow> panic + 'm server" where
  "server_new message_size private_key address config time =
     (if message_size = 0 then Inl AssertionFailed else
      Inr \<lparr>sv_private_key = private_key, sv_address = address, sv_config = config,
           sv_time = time, sv_runtime = None\<rparr>)"

section \<open>Callbacks\<close>

text \<open>\<open>transmit_packet\<close> and \<open>process_packet\<close> get the index that the configuration of the endpoint
  holds, \<open>handle_connect_disconnect\<close> the one netcode reports.\<close>

definition server_transmit_packet ::
  "'w netlib \<Rightarrow> 'm server_runtime \<Rightarrow> int \<Rightarrow> u16 \<Rightarrow> u8 list \<Rightarrow> 'w os
     \<Rightarrow> panic + ('m server_runtime \<times> 'w os)" where
  "server_transmit_packet L rt client_index packet_sequence packet_data s =
     (let send = Inr (rt, os_do NetServer (sr_server rt) (c_server_send L (sr_server rt) client_index packet_data) s) in
      case sr_network_simulator rt of
        None \<Rightarrow> send
      | Some ns \<Rightarrow>
          if ns_active ns then
            let (rng, s) = os_free (c_thread_rng L) s in
            rbind (sim_send_packet rng ns (as_usize client_index) packet_data) (\<lambda>ns.
            Inr (rt\<lparr>sr_network_simulator := Some ns\<rparr>, s))
          else send)"

definition server_process_packet ::
  "features \<Rightarrow> ('m, 'e) network_message \<Rightarrow> 'm server_runtime \<Rightarrow> int \<Rightarrow> u16 \<Rightarrow> u8 list
     \<Rightarrow> panic + (bool \<times> 'm server_runtime)" where
  "server_process_packet feat nm rt client_index packet_sequence packet_data =
     rbind (vec_index (sr_client_connection rt) (as_usize client_index)) (\<lambda>connection.
     rbind (connection_process_packet feat nm connection packet_sequence packet_data) (\<lambda>(result, connection).
     Inr (result, rt\<lparr>sr_client_connection := (sr_client_connection rt)[as_usize client_index := connection]\<rparr>)))"

definition server_handle_connect_disconnect ::
  "'w netlib \<Rightarrow> 'm server_runtime \<Rightarrow> int \<Rightarrow> bool \<Rightarrow> 'w os \<Rightarrow> panic + ('m server_runtime \<times> 'w os)" where
  "server_handle_connect_disconnect L rt client_index is_connected s =
     (if is_connected then Inr (rt, s) else
      rbind (vec_index (sr_client_endpoint rt) (as_usize client_index)) (\<lambda>endpoint.
      let s = os_do Endpoint endpoint (c_endpoint_reset L endpoint) s in
      rbind (vec_index (sr_client_connection rt) (as_usize client_index)) (\<lambda>connection.
      Inr (rt\<lparr>sr_client_connection := (sr_client_connection rt)[as_usize client_index := connection_reset connection],
              sr_network_simulator := map_option (\<lambda>ns. sim_discard_client_packets ns (as_usize client_index))
                (sr_network_simulator rt)\<rparr>, s))))"

text \<open>The callbacks that one call into netcode makes.\<close>

definition server_callbacks ::
  "'w netlib \<Rightarrow> (int \<times> bool) list \<Rightarrow> 'm server_runtime \<Rightarrow> 'w os \<Rightarrow> panic + ('m server_runtime \<times> 'w os)" where
  "server_callbacks L reports rt s =
     rfold (\<lambda>(rt, s) (client_index, is_connected). server_handle_connect_disconnect L rt client_index is_connected s)
       (rt, s) reports"

section \<open>Starting and stopping\<close>

definition netcode_server ::
  "'w netlib \<Rightarrow> client_server_config \<Rightarrow> u8 list \<Rightarrow> string \<Rightarrow> f64 \<Rightarrow> 'w os \<Rightarrow> panic + (ptr \<times> 'w os)" where
  "netcode_server L config private_key address time s =
     rbind (c_string address) (\<lambda>server_address.
     Inr (os_create NetServer (c_server_create L server_address (cs_protocol_id config) private_key time) s))"

text \<open>One round of the loop of \<open>ServerRuntime::new\<close>.\<close>

definition server_add_client ::
  "'w netlib \<Rightarrow> client_server_config \<Rightarrow> f64 \<Rightarrow> 'm server_runtime \<Rightarrow> usize \<Rightarrow> 'w os
     \<Rightarrow> panic + ('m server_runtime \<times> 'w os)" where
  "server_add_client L config time rt i s =
     rbind (connection_new (cs_connection config) time) (\<lambda>connection.
     let reliable_config = new_reliable_config config (''server_endpoint'' @ decimal i) (Some i);
         (endpoint, s) = os_create Endpoint (c_endpoint_create L reliable_config time) s;
         s = os_do Endpoint endpoint (c_endpoint_reset L endpoint) s
     in Inr (rt\<lparr>sr_client_connection := sr_client_connection rt @ [connection],
               sr_client_endpoint := sr_client_endpoint rt @ [endpoint]\<rparr>, s))"

definition server_runtime_new ::
  "'w netlib \<Rightarrow> client_server_config \<Rightarrow> u8 list \<Rightarrow> string \<Rightarrow> usize \<Rightarrow> f64 \<Rightarrow> 'w os
     \<Rightarrow> panic + ('m server_runtime \<times> 'w os)" where
  "server_runtime_new L config private_key address max_clients time s =
     (if \<not> max_clients < 2 ^ 31 - 1 then Inl AssertionFailed else
      let rt = \<lparr>sr_max_clients = max_clients, sr_server = None, sr_bound_port = 0,
                sr_network_simulator = map_option (\<lambda>config. sim_new (sc_max_simulator_packets config) time)
                  (cs_network_simulator config),
                sr_client_connection = [], sr_client_endpoint = [],
                sr_packet_buffer = replicate (nc_max_packet_size (cs_connection config)) 0\<rparr>
      in rbind (rfold (\<lambda>(rt, s) i. server_add_client L config time rt i s) (rt, s) [0..<max_clients]) (\<lambda>(rt, s).
      rbind (netcode_server L config private_key address time s) (\<lambda>(nc_server, s).
      if sr_server rt \<noteq> None then Inl AssertionFailed else
      let s = os_do NetServer nc_server (c_server_start L nc_server (as_i32 max_clients)) s;
          (port, s) = os_ask NetServer nc_server (c_server_get_port L nc_server) s
      in Inr (rt\<lparr>sr_bound_port := port, sr_server := nc_server\<rparr>, s))))"

text \<open>\<open>ServerRuntime::drop\<close>: netcode first, which reports the clients it disconnects, then the endpoints.\<close>

definition server_runtime_drop :: "'w netlib \<Rightarrow> 'm server_runtime \<Rightarrow> 'w os \<Rightarrow> panic + 'w os" where
  "server_runtime_drop L rt s =
     rbind (if sr_server rt = None then Inr (rt, s) else
            let (reports, s) = os_run NetServer (sr_server rt) (c_server_stop L (sr_server rt)) s in
            rbind (server_callbacks L reports rt s) (\<lambda>(rt, s).
            Inr (rt\<lparr>sr_server := None\<rparr>,
                 snd (os_destroy NetServer (sr_server rt) (\<lambda>w. ((), c_server_destroy L (sr_server rt) w)) s))))
       (\<lambda>(rt, s).
     Inr (foldl (\<lambda>s endpoint. snd (os_destroy Endpoint endpoint (\<lambda>w. ((), c_endpoint_destroy L endpoint w)) s))
            s (sr_client_endpoint rt)))"

definition server_stop :: "'w netlib \<Rightarrow> 'm server \<Rightarrow> 'w os \<Rightarrow> panic + ('m server \<times> 'w os)" where
  "server_stop L sv s =
     (case sv_runtime sv of
        None \<Rightarrow> Inr (sv, s)
      | Some rt \<Rightarrow> rbind (server_runtime_drop L rt s) (\<lambda>s. Inr (sv\<lparr>sv_runtime := None\<rparr>, s)))"

definition server_start :: "'w netlib \<Rightarrow> 'm server \<Rightarrow> usize \<Rightarrow> 'w os \<Rightarrow> panic + ('m server \<times> 'w os)" where
  "server_start L sv max_clients s =
     rbind (server_stop L sv s) (\<lambda>(sv, s).
     rbind (server_runtime_new L (sv_config sv) (sv_private_key sv) (sv_address sv) max_clients (sv_time sv) s)
       (\<lambda>(rt, s). Inr (sv\<lparr>sv_runtime := Some rt\<rparr>, s)))"

section \<open>Time\<close>

text \<open>The free function \<open>disconnect_client\<close>.\<close>

definition server_drop_client ::
  "'w netlib \<Rightarrow> ptr \<Rightarrow> usize \<Rightarrow> ptr \<Rightarrow> 'm server_runtime \<Rightarrow> 'w os \<Rightarrow> panic + ('m server_runtime \<times> 'w os)" where
  "server_drop_client L nc_server client_index endpoint rt s =
     (if nc_server = None then Inl AssertionFailed else
      if endpoint = None then Inl AssertionFailed else
      let (reports, s) = os_run NetServer nc_server (c_server_disconnect_client L nc_server (as_i32 client_index)) s
      in server_callbacks L reports rt s)"

text \<open>One round of the loop of \<open>advance_time\<close>; the simulator is advanced in it.\<close>

definition server_advance_client ::
  "'w netlib \<Rightarrow> ptr \<Rightarrow> f64 \<Rightarrow> 'm server_runtime \<Rightarrow> usize \<Rightarrow> 'w os \<Rightarrow> panic + ('m server_runtime \<times> 'w os)" where
  "server_advance_client L nc_server new_time rt client_index s =
     rbind (vec_index (sr_client_connection rt) client_index) (\<lambda>connection.
     rbind (vec_index (sr_client_endpoint rt) client_index) (\<lambda>endpoint.
     let connection = connection_advance_time connection new_time;
         rt = rt\<lparr>sr_client_connection := (sr_client_connection rt)[client_index := connection]\<rparr> in
     if cn_error_level connection \<noteq> ConnectionNone then server_drop_client L nc_server client_index endpoint rt s
     else
       let s = os_do Endpoint endpoint (c_endpoint_update L endpoint new_time) s;
           (acks, s) = os_ask Endpoint endpoint (c_endpoint_get_acks L endpoint) s in
       rbind (connection_process_acks connection acks) (\<lambda>connection.
       let s = os_do Endpoint endpoint (c_endpoint_clear_acks L endpoint) s in
       Inr (rt\<lparr>sr_client_connection := (sr_client_connection rt)[client_index := connection],
              sr_network_simulator := map_option (\<lambda>ns. sim_advance_time ns new_time) (sr_network_simulator rt)\<rparr>, s))))"

definition server_flush_simulator ::
  "'w netlib \<Rightarrow> ptr \<Rightarrow> 'm server_runtime \<Rightarrow> 'w os \<Rightarrow> panic + ('m server_runtime \<times> 'w os)" where
  "server_flush_simulator L nc_server rt s =
     (case sr_network_simulator rt of
        None \<Rightarrow> Inr (rt, s)
      | Some ns \<Rightarrow>
          if \<not> ns_active ns then Inr (rt, s) else
          rbind (sim_receive_packets ns) (\<lambda>(received, ns).
          Inr (rt\<lparr>sr_network_simulator := Some ns\<rparr>,
               foldl (\<lambda>s (client_index, packet_data).
                 os_do NetServer nc_server (c_server_send L nc_server (as_i32 client_index) packet_data) s) s received)))"

definition server_runtime_advance_time ::
  "'w netlib \<Rightarrow> 'm server_runtime \<Rightarrow> f64 \<Rightarrow> 'w os \<Rightarrow> panic + ('m server_runtime \<times> 'w os)" where
  "server_runtime_advance_time L rt new_time s =
     (let nc_server = sr_server rt in
      if nc_server = None then Inl AssertionFailed else
      let (reports, s) = os_run NetServer nc_server (c_server_update L nc_server new_time) s in
      rbind (server_callbacks L reports rt s) (\<lambda>(rt, s).
      rbind (rfold (\<lambda>(rt, s) i. server_advance_client L nc_server new_time rt i s) (rt, s) [0..<sr_max_clients rt])
        (\<lambda>(rt, s). server_flush_simulator L nc_server rt s)))"

section \<open>Packets\<close>

definition server_is_client_connected_raw :: "'w netlib \<Rightarrow> ptr \<Rightarrow> usize \<Rightarrow> 'w os \<Rightarrow> bool \<times> 'w os" where
  "server_is_client_connected_raw L nc_server client_index s =
     os_ask NetServer nc_server (c_server_client_connected L nc_server (as_i32 client_index)) s"

text \<open>One round of the loop of \<open>send_packets\<close>.\<close>

definition server_send_client ::
  "features \<Rightarrow> ('m, 'e) network_message \<Rightarrow> 'w netlib \<Rightarrow> client_server_config \<Rightarrow> ptr \<Rightarrow> 'm server_runtime \<Rightarrow> usize
     \<Rightarrow> 'w os \<Rightarrow> panic + ('m server_runtime \<times> 'w os)" where
  "server_send_client feat nm L config nc_server rt client_index s =
     rbind (vec_index (sr_client_endpoint rt) client_index) (\<lambda>endpoint.
     if endpoint = None then Inl AssertionFailed else
     let (is_connected, s) = server_is_client_connected_raw L nc_server client_index s in
     if \<not> is_connected then Inr (rt, s) else
     let (packet_sequence, s) = os_ask Endpoint endpoint (c_endpoint_next_sequence L endpoint) s in
     rbind (vec_index (sr_client_connection rt) client_index) (\<lambda>connection.
     if length (sr_packet_buffer rt) \<noteq> nc_max_packet_size (cs_connection config) then Inl AssertionFailed else
     rbind (connection_generate_packet feat nm connection packet_sequence (sr_packet_buffer rt))
       (\<lambda>(written_bytes, buffer, connection).
     let rt = rt\<lparr>sr_client_connection := (sr_client_connection rt)[client_index := connection],
                 sr_packet_buffer := buffer\<rparr> in
     if \<not> written_bytes \<le> nc_max_packet_size (cs_connection config) then Inl AssertionFailed else
     if 0 < written_bytes then
       let (transmits, s) = os_run Endpoint endpoint (c_endpoint_send L endpoint (take written_bytes buffer)) s in
       rfold (\<lambda>(rt, s) (sequence, packet_data). server_transmit_packet L rt (as_i32 client_index) sequence packet_data s)
         (rt, s) transmits
     else Inr (rt, s))))"

definition server_runtime_send_packets ::
  "features \<Rightarrow> ('m, 'e) network_message \<Rightarrow> 'w netlib \<Rightarrow> client_server_config \<Rightarrow> 'm server_runtime \<Rightarrow> 'w os
     \<Rightarrow> panic + ('m server_runtime \<times> 'w os)" where
  "server_runtime_send_packets feat nm L config rt s =
     (let nc_server = sr_server rt in
      if nc_server = None then Inl AssertionFailed else
      rfold (\<lambda>(rt, s) i. server_send_client feat nm L config nc_server rt i s) (rt, s)
        [0..<length (sr_client_connection rt)])"

text \<open>One packet for one slot, the loop over the packets netcode has for the slot, which may go on
  for ever, and the loop over the slots.\<close>

definition server_receive_one ::
  "features \<Rightarrow> ('m, 'e) network_message \<Rightarrow> 'w netlib \<Rightarrow> ptr \<Rightarrow> usize \<Rightarrow> ptr \<Rightarrow> 'm server_runtime \<Rightarrow> u8 list
     \<Rightarrow> 'w os \<Rightarrow> panic + ('m server_runtime \<times> 'w os)" where
  "server_receive_one feat nm L nc_server client_index endpoint rt packet_data s =
     (let (process, s) = os_run Endpoint endpoint (c_endpoint_receive L endpoint packet_data) s in
      rbind (case process of
               None \<Rightarrow> Inr (rt, s)
             | Some (sequence, bytes) \<Rightarrow>
                 rbind (server_process_packet feat nm rt (as_i32 client_index) sequence bytes) (\<lambda>(r, rt).
                 Inr (rt, os_do Endpoint endpoint (c_endpoint_processed L endpoint r) s))) (\<lambda>(rt, s).
      Inr (rt, os_do NetServer nc_server (c_server_free_packet L nc_server packet_data) s)))"

partial_function (option) server_receive_slot ::
  "features \<Rightarrow> ('m, 'e) network_message \<Rightarrow> 'w netlib \<Rightarrow> ptr \<Rightarrow> usize \<Rightarrow> ptr \<Rightarrow> 'm server_runtime \<Rightarrow> 'w os
     \<Rightarrow> (panic + ('m server_runtime \<times> 'w os)) option" where
  "server_receive_slot feat nm L nc_server client_index endpoint rt s =
     (case os_run NetServer nc_server (c_server_receive L nc_server (as_i32 client_index)) s of
        (None, s) \<Rightarrow> Some (Inr (rt, s))
      | (Some packet_data, s) \<Rightarrow>
          (case server_receive_one feat nm L nc_server client_index endpoint rt packet_data s of
             Inl p \<Rightarrow> Some (Inl p)
           | Inr (rt, s) \<Rightarrow> server_receive_slot feat nm L nc_server client_index endpoint rt s))"

fun server_receive_slots ::
  "features \<Rightarrow> ('m, 'e) network_message \<Rightarrow> 'w netlib \<Rightarrow> ptr \<Rightarrow> usize \<Rightarrow> ptr list \<Rightarrow> 'm server_runtime \<Rightarrow> 'w os
     \<Rightarrow> (panic + ('m server_runtime \<times> 'w os)) option" where
  "server_receive_slots feat nm L nc_server client_index [] rt s = Some (Inr (rt, s))"
| "server_receive_slots feat nm L nc_server client_index (endpoint # endpoints) rt s =
     (if endpoint = None then Some (Inl AssertionFailed) else
      case server_receive_slot feat nm L nc_server client_index endpoint rt s of
        None \<Rightarrow> None
      | Some (Inl p) \<Rightarrow> Some (Inl p)
      | Some (Inr (rt, s)) \<Rightarrow> server_receive_slots feat nm L nc_server (client_index + 1) endpoints rt s)"

definition server_runtime_receive_packets ::
  "features \<Rightarrow> ('m, 'e) network_message \<Rightarrow> 'w netlib \<Rightarrow> 'm server_runtime \<Rightarrow> 'w os
     \<Rightarrow> (panic + ('m server_runtime \<times> 'w os)) option" where
  "server_runtime_receive_packets feat nm L rt s =
     (if sr_server rt = None then Some (Inl AssertionFailed) else
      server_receive_slots feat nm L (sr_server rt) 0 (sr_client_endpoint rt) rt s)"

section \<open>The methods of the server\<close>

text \<open>The time of the server is the one \<open>new\<close> was given: \<open>advance_time\<close> does not store it.\<close>

definition server_advance_time :: "'w netlib \<Rightarrow> 'm server \<Rightarrow> f64 \<Rightarrow> 'w os \<Rightarrow> panic + ('m server \<times> 'w os)" where
  "server_advance_time L sv new_time s =
     (case sv_runtime sv of
        None \<Rightarrow> Inr (sv, s)
      | Some rt \<Rightarrow> rbind (server_runtime_advance_time L rt new_time s) (\<lambda>(rt, s).
          Inr (sv\<lparr>sv_runtime := Some rt\<rparr>, s)))"

definition server_send_packets ::
  "features \<Rightarrow> ('m, 'e) network_message \<Rightarrow> 'w netlib \<Rightarrow> 'm server \<Rightarrow> 'w os \<Rightarrow> panic + ('m server \<times> 'w os)" where
  "server_send_packets feat nm L sv s =
     (case sv_runtime sv of
        None \<Rightarrow> Inr (sv, s)
      | Some rt \<Rightarrow> rbind (server_runtime_send_packets feat nm L (sv_config sv) rt s) (\<lambda>(rt, s).
          Inr (sv\<lparr>sv_runtime := Some rt\<rparr>, s)))"

definition server_receive_packets ::
  "features \<Rightarrow> ('m, 'e) network_message \<Rightarrow> 'w netlib \<Rightarrow> 'm server \<Rightarrow> 'w os
     \<Rightarrow> (panic + ('m server \<times> 'w os)) option" where
  "server_receive_packets feat nm L sv s =
     (case sv_runtime sv of
        None \<Rightarrow> Some (Inr (sv, s))
      | Some rt \<Rightarrow> map_option (\<lambda>r. rbind r (\<lambda>(rt, s). Inr (sv\<lparr>sv_runtime := Some rt\<rparr>, s)))
          (server_runtime_receive_packets feat nm L rt s))"

definition server_send_message ::
  "('m, 'e) network_message \<Rightarrow> 'm server \<Rightarrow> usize \<Rightarrow> usize \<Rightarrow> 'm \<Rightarrow> panic + 'm server" where
  "server_send_message nm sv client_index channel_index message =
     (case sv_runtime sv of
        None \<Rightarrow> Inr sv
      | Some rt \<Rightarrow>
          rbind (vec_index (sr_client_connection rt) client_index) (\<lambda>connection.
          rbind (connection_send_message nm connection channel_index message) (\<lambda>connection.
          Inr (sv\<lparr>sv_runtime := Some (rt\<lparr>sr_client_connection :=
                    (sr_client_connection rt)[client_index := connection]\<rparr>)\<rparr>))))"

definition server_receive_message_with_id ::
  "'m server \<Rightarrow> usize \<Rightarrow> usize \<Rightarrow> panic + ((u16 \<times> 'm) option \<times> 'm server)" where
  "server_receive_message_with_id sv client_index channel_index =
     (case sv_runtime sv of
        None \<Rightarrow> Inr (None, sv)
      | Some rt \<Rightarrow>
          rbind (vec_index (sr_client_connection rt) client_index) (\<lambda>connection.
          rbind (connection_receive_message connection channel_index) (\<lambda>(r, connection).
          Inr (r, sv\<lparr>sv_runtime := Some (rt\<lparr>sr_client_connection :=
                    (sr_client_connection rt)[client_index := connection]\<rparr>)\<rparr>))))"

definition server_receive_message :: "'m server \<Rightarrow> usize \<Rightarrow> usize \<Rightarrow> panic + ('m option \<times> 'm server)" where
  "server_receive_message sv client_index channel_index =
     (case sv_runtime sv of
        None \<Rightarrow> Inr (None, sv)
      | Some rt \<Rightarrow>
          rbind (vec_index (sr_client_connection rt) client_index) (\<lambda>connection.
          rbind (connection_receive_message connection channel_index) (\<lambda>(r, connection).
          Inr (map_option snd r, sv\<lparr>sv_runtime := Some (rt\<lparr>sr_client_connection :=
                    (sr_client_connection rt)[client_index := connection]\<rparr>)\<rparr>))))"

definition server_max_clients :: "'m server \<Rightarrow> usize" where
  "server_max_clients sv = (case sv_runtime sv of None \<Rightarrow> 0 | Some rt \<Rightarrow> sr_max_clients rt)"

definition server_is_client_connected :: "'w netlib \<Rightarrow> 'm server \<Rightarrow> usize \<Rightarrow> 'w os \<Rightarrow> bool \<times> 'w os" where
  "server_is_client_connected L sv client_index s =
     (case sv_runtime sv of
        None \<Rightarrow> (False, s)
      | Some rt \<Rightarrow> server_is_client_connected_raw L (sr_server rt) client_index s)"

definition server_client_id :: "'w netlib \<Rightarrow> 'm server \<Rightarrow> usize \<Rightarrow> 'w os \<Rightarrow> u64 option \<times> 'w os" where
  "server_client_id L sv client_index s =
     (case sv_runtime sv of
        None \<Rightarrow> (None, s)
      | Some rt \<Rightarrow>
          let (is_connected, s) = server_is_client_connected_raw L (sr_server rt) client_index s in
          if is_connected then
            let (client_id, s) = os_ask NetServer (sr_server rt) (c_server_client_id L (sr_server rt) (as_i32 client_index)) s
            in (Some client_id, s)
          else (None, s))"

definition server_disconnect_client :: "'w netlib \<Rightarrow> 'm server \<Rightarrow> usize \<Rightarrow> 'w os \<Rightarrow> panic + ('m server \<times> 'w os)" where
  "server_disconnect_client L sv client_index s =
     (case sv_runtime sv of
        None \<Rightarrow> Inr (sv, s)
      | Some rt \<Rightarrow>
          let (is_connected, s) = server_is_client_connected_raw L (sr_server rt) client_index s in
          if is_connected then
            rbind (vec_index (sr_client_endpoint rt) client_index) (\<lambda>endpoint.
            rbind (vec_index (sr_client_connection rt) client_index) (\<lambda>connection.
            rbind (server_drop_client L (sr_server rt) client_index endpoint rt s) (\<lambda>(rt, s).
            Inr (sv\<lparr>sv_runtime := Some rt\<rparr>, s))))
          else Inr (sv, s))"

definition server_can_send_message :: "'m server \<Rightarrow> usize \<Rightarrow> usize \<Rightarrow> panic + bool" where
  "server_can_send_message sv client_index channel_index =
     (case sv_runtime sv of
        None \<Rightarrow> Inr False
      | Some rt \<Rightarrow> rbind (vec_index (sr_client_connection rt) client_index) (\<lambda>connection.
          connection_can_send_message connection channel_index))"

definition server_has_messages_to_send :: "'m server \<Rightarrow> usize \<Rightarrow> usize \<Rightarrow> panic + bool" where
  "server_has_messages_to_send sv client_index channel_index =
     (case sv_runtime sv of
        None \<Rightarrow> Inr False
      | Some rt \<Rightarrow> rbind (vec_index (sr_client_connection rt) client_index) (\<lambda>connection.
          connection_has_messages_to_send connection channel_index))"

definition server_channel_counters :: "'m server \<Rightarrow> usize \<Rightarrow> usize \<Rightarrow> panic + channel_counters" where
  "server_channel_counters sv client_index channel_index =
     (case sv_runtime sv of
        None \<Rightarrow> Inl UnwrapOnNone
      | Some rt \<Rightarrow> rbind (vec_index (sr_client_connection rt) client_index) (\<lambda>connection.
          connection_channel_counters connection channel_index))"

definition server_with_network_simulator ::
  "'m server \<Rightarrow> (network_simulator \<Rightarrow> panic + network_simulator) \<Rightarrow> panic + 'm server" where
  "server_with_network_simulator sv f =
     (case sv_runtime sv of
        None \<Rightarrow> Inr sv
      | Some rt \<Rightarrow>
          (case sr_network_simulator rt of
             None \<Rightarrow> Inr sv
           | Some ns \<Rightarrow> rbind (f ns) (\<lambda>ns.
               Inr (sv\<lparr>sv_runtime := Some (rt\<lparr>sr_network_simulator := Some ns\<rparr>)\<rparr>))))"

definition server_runtime_snapshot ::
  "'w netlib \<Rightarrow> 'm server_runtime \<Rightarrow> usize \<Rightarrow> 'w os \<Rightarrow> panic + (network_info option \<times> 'w os)" where
  "server_runtime_snapshot L rt client_index s =
     (if sr_server rt = None then Inl AssertionFailed else
      let (is_connected, s) = server_is_client_connected_raw L (sr_server rt) client_index s in
      if \<not> is_connected then Inr (None, s) else
      rbind (vec_index (sr_client_endpoint rt) client_index) (\<lambda>endpoint.
      if endpoint = None then Inl AssertionFailed else
      let (info, s) = os_ask Endpoint endpoint (endpoint_network_info L endpoint) s in Inr (Some info, s)))"

definition server_snapshot_network_info ::
  "'w netlib \<Rightarrow> 'm server \<Rightarrow> usize \<Rightarrow> 'w os \<Rightarrow> panic + (network_info option \<times> 'w os)" where
  "server_snapshot_network_info L sv client_index s =
     (case sv_runtime sv of
        None \<Rightarrow> Inr (None, s)
      | Some rt \<Rightarrow> server_runtime_snapshot L rt client_index s)"

definition server_client_address ::
  "'w netlib \<Rightarrow> 'm server \<Rightarrow> usize \<Rightarrow> 'w os \<Rightarrow> panic + (netcode_address option \<times> 'w os)" where
  "server_client_address L sv client_index s =
     (let (is_connected, s) = server_is_client_connected L sv client_index s in
      if \<not> is_connected then Inr (None, s) else
      case sv_runtime sv of
        None \<Rightarrow> Inr (None, s)
      | Some rt \<Rightarrow>
          let (raw, s) = os_ask NetServer (sr_server rt) (c_server_client_address L (sr_server rt) (as_i32 client_index)) s in
          if raw = None then Inr (None, s)
          else rbind (netcode_address_new raw) (\<lambda>address. Inr (Some address, s)))"

definition server_connected_client_count :: "'w netlib \<Rightarrow> 'm server \<Rightarrow> 'w os \<Rightarrow> panic + (usize \<times> 'w os)" where
  "server_connected_client_count L sv s =
     (let (count, s) = (case sv_runtime sv of
          None \<Rightarrow> (0, s)
        | Some rt \<Rightarrow> os_ask NetServer (sr_server rt) (c_server_num_connected_clients L (sr_server rt)) s) in
      if 0 \<le> count then Inr (as_usize count, s) else Inl AssertionFailed)"

definition server_running :: "'m server \<Rightarrow> bool" where
  "server_running sv \<longleftrightarrow> sv_runtime sv \<noteq> None"

definition server_bound_port :: "'m server \<Rightarrow> u16 option" where
  "server_bound_port sv = map_option sr_bound_port (sv_runtime sv)"

text \<open>Dropping the server.\<close>

definition server_drop :: "'w netlib \<Rightarrow> 'm server \<Rightarrow> 'w os \<Rightarrow> panic + 'w os" where
  "server_drop L sv s = rbind (server_stop L sv s) (\<lambda>(sv, s). Inr s)"

section \<open>Which C objects exist\<close>

definition server_libs_ok :: "'w netlib \<Rightarrow> ('w \<Rightarrow> (object \<times> handle) set) \<Rightarrow> bool" where
  "server_libs_ok L lv \<longleftrightarrow> reliable_lib_ok L lv \<and> server_lib_ok False L lv"

lemma server_libs_okD: "server_libs_ok L lv \<Longrightarrow> reliable_lib_ok L lv" "server_libs_ok L lv \<Longrightarrow> server_lib_ok False L lv"
  by (simp_all add: server_libs_ok_def)

lemmas server_libD = reliable_lib_okD[OF server_libs_okD(1)] server_lib_okD[OF server_libs_okD(2)]

text \<open>A runtime whose netcode server is \<open>p\<close> and whose endpoints are \<open>hs\<close>, all of them among the
  objects \<open>A\<close> that exist.\<close>

definition serves ::
  "('w \<Rightarrow> (object \<times> handle) set) \<Rightarrow> (object \<times> handle) set \<Rightarrow> handle \<Rightarrow> handle list \<Rightarrow> 'm server_runtime \<Rightarrow> 'w os \<Rightarrow> bool" where
  "serves lv A p hs rt s \<longleftrightarrow> os_ok lv A s \<and> (NetServer, p) \<in> A \<and> Pair Endpoint ` set hs \<subseteq> A \<and>
     sr_server rt = Some p \<and> sr_client_endpoint rt = map Some hs \<and> sr_max_clients rt = length hs \<and>
     length (sr_client_connection rt) = length hs \<and> length hs < 2 ^ 31 - 1"

lemma serves_update [simp]:
  "serves lv A p hs (rt\<lparr>sr_network_simulator := x\<rparr>) s = serves lv A p hs rt s"
  "serves lv A p hs (rt\<lparr>sr_packet_buffer := b\<rparr>) s = serves lv A p hs rt s"
  "serves lv A p hs (rt\<lparr>sr_client_connection := (sr_client_connection rt)[i := c]\<rparr>) s = serves lv A p hs rt s"
  by (simp_all add: serves_def)

lemma serves_parts:
  "serves lv A p hs rt s \<Longrightarrow> sr_server rt = Some p"
  "serves lv A p hs rt s \<Longrightarrow> sr_client_endpoint rt = map Some hs"
  "serves lv A p hs rt s \<Longrightarrow> sr_max_clients rt = length hs"
  "serves lv A p hs rt s \<Longrightarrow> length (sr_client_connection rt) = length hs"
  by (simp_all add: serves_def)

lemma serves_server:
  assumes "serves lv A p hs rt s"
  shows "keeps lv (\<lambda>w. snd (f w)) \<Longrightarrow> serves lv A p hs rt (snd (os_run NetServer (Some p) f s))"
    "keeps lv g \<Longrightarrow> serves lv A p hs rt (os_do NetServer (Some p) g s)"
    "serves lv A p hs rt (snd (os_ask NetServer (Some p) q s))"
  using assms os_use_ok[of lv A s NetServer p] by (auto simp: serves_def)

lemma serves_endpoint:
  assumes "serves lv A p hs rt s" "h \<in> set hs"
  shows "keeps lv (\<lambda>w. snd (f w)) \<Longrightarrow> serves lv A p hs rt (snd (os_run Endpoint (Some h) f s))"
    "keeps lv g \<Longrightarrow> serves lv A p hs rt (os_do Endpoint (Some h) g s)"
    "serves lv A p hs rt (snd (os_ask Endpoint (Some h) q s))"
proof -
  have "(Endpoint, h) \<in> A" "os_ok lv A s" using assms by (auto simp: serves_def)
  note U = os_use_ok[OF this(2,1)]
  show "keeps lv (\<lambda>w. snd (f w)) \<Longrightarrow> serves lv A p hs rt (snd (os_run Endpoint (Some h) f s))"
    "keeps lv g \<Longrightarrow> serves lv A p hs rt (os_do Endpoint (Some h) g s)"
    "serves lv A p hs rt (snd (os_ask Endpoint (Some h) q s))"
    using assms(1) U unfolding serves_def by blast+
qed

lemma serves_free:
  "serves lv A p hs rt s \<Longrightarrow> keeps lv (\<lambda>w. snd (f w)) \<Longrightarrow> serves lv A p hs rt (snd (os_free f s))"
  using os_free_ok by (auto simp: serves_def)

lemma serves_index:
  "serves lv A p hs rt s \<Longrightarrow> vec_index (sr_client_endpoint rt) i = Inr endpoint \<Longrightarrow>
    \<exists>h. endpoint = Some h \<and> h \<in> set hs"
  by (auto simp: serves_def vec_index_eq_Inr)

lemma handle_connect_disconnect_ok:
  assumes L: "server_libs_ok L lv" and ok: "serves lv A p hs rt s"
    and r: "server_handle_connect_disconnect L rt i joined s = Inr (rt', s')"
  shows "serves lv A p hs rt' s'"
proof (cases joined)
  case True
  with r ok show ?thesis by (simp add: server_handle_connect_disconnect_def)
next
  case False
  with r obtain endpoint c where e: "vec_index (sr_client_endpoint rt) (as_usize i) = Inr endpoint"
    and run: "rt' = rt\<lparr>sr_client_connection := (sr_client_connection rt)[as_usize i := connection_reset c],
              sr_network_simulator := map_option (\<lambda>ns. sim_discard_client_packets ns (as_usize i))
                (sr_network_simulator rt)\<rparr>" "s' = os_do Endpoint endpoint (c_endpoint_reset L endpoint) s"
    by (auto simp: server_handle_connect_disconnect_def rbind_eq_Inr Let_def)
  obtain h where h: "endpoint = Some h" "h \<in> set hs" using serves_index[OF ok e] by blast
  show ?thesis unfolding run h(1) serves_update by (rule serves_endpoint(2)[OF ok h(2) server_libD(4)[OF L]])
qed

lemma rfold_pair_invariant:
  assumes "rfold (\<lambda>(a, b) x. f a b x) (a, b) xs = Inr (a', b')" "P a b"
    and "\<And>a b x a' b'. x \<in> set xs \<Longrightarrow> P a b \<Longrightarrow> f a b x = Inr (a', b') \<Longrightarrow> P a' b'"
  shows "P a' b'"
  using rfold_invariant[OF assms(1), of "\<lambda>(a, b). P a b"] assms(2,3) by fastforce

lemma callbacks_ok:
  assumes L: "server_libs_ok L lv" and ok: "serves lv A p hs rt s"
    and r: "server_callbacks L reports rt s = Inr (rt', s')"
  shows "serves lv A p hs rt' s'"
  using r[unfolded server_callbacks_def] ok
  by (rule rfold_pair_invariant[where P = "serves lv A p hs"]) (auto intro: handle_connect_disconnect_ok[OF L])

text \<open>A call into netcode with the callbacks it makes.\<close>

lemma netcode_call_ok:
  assumes L: "server_libs_ok L lv" and ok: "serves lv A p hs rt s" and f: "keeps lv (\<lambda>w. snd (f w))"
    and run: "os_run NetServer (Some p) f s = (reports, s1)"
    and r: "server_callbacks L reports rt s1 = Inr (rt', s')"
  shows "serves lv A p hs rt' s'"
proof -
  have "serves lv A p hs rt s1" using serves_server(1)[OF ok f] run by (metis snd_conv)
  from callbacks_ok[OF L this r] show ?thesis .
qed

section \<open>Every operation of a runtime keeps its objects\<close>

lemma server_drop_client_ok:
  assumes L: "server_libs_ok L lv" and ok: "serves lv A p hs rt s"
    and r: "server_drop_client L (Some p) i endpoint rt s = Inr (rt', s')"
  shows "serves lv A p hs rt' s'"
proof -
  obtain reports s1 where run: "os_run NetServer (Some p) (c_server_disconnect_client L (Some p) (as_i32 i)) s = (reports, s1)"
    by fastforce
  with r have "server_callbacks L reports rt s1 = Inr (rt', s')"
    by (auto simp: server_drop_client_def split: if_splits)
  from netcode_call_ok[OF L ok server_libD(15)[OF L] run this] show ?thesis .
qed

lemma server_advance_client_ok:
  assumes L: "server_libs_ok L lv" and ok: "serves lv A p hs rt s"
    and r: "server_advance_client L (Some p) t rt i s = Inr (rt', s')"
  shows "serves lv A p hs rt' s'"
proof -
  obtain c endpoint where c: "vec_index (sr_client_connection rt) i = Inr c"
    and e: "vec_index (sr_client_endpoint rt) i = Inr endpoint"
    using r by (auto simp: server_advance_client_def rbind_eq_Inr)
  obtain h where h: "endpoint = Some h" "h \<in> set hs" using serves_index[OF ok e] by blast
  let ?c = "connection_advance_time c t"
  let ?rt = "rt\<lparr>sr_client_connection := (sr_client_connection rt)[i := ?c]\<rparr>"
  have ok1: "serves lv A p hs ?rt s" using ok by simp
  show ?thesis
  proof (cases "cn_error_level ?c = ConnectionNone")
    case False
    with r c e have "server_drop_client L (Some p) i endpoint ?rt s = Inr (rt', s')"
      by (simp add: server_advance_client_def Let_def)
    from server_drop_client_ok[OF L ok1 this] show ?thesis .
  next
    case True
    let ?s1 = "os_do Endpoint endpoint (c_endpoint_update L endpoint t) s"
    let ?s2 = "snd (os_ask Endpoint endpoint (c_endpoint_get_acks L endpoint) ?s1)"
    obtain c' where run: "rt' = ?rt\<lparr>sr_client_connection := (sr_client_connection ?rt)[i := c'],
        sr_network_simulator := map_option (\<lambda>ns. sim_advance_time ns t) (sr_network_simulator ?rt)\<rparr>"
      "s' = os_do Endpoint endpoint (c_endpoint_clear_acks L endpoint) ?s2"
      using r c e True by (auto simp: server_advance_client_def Let_def os_ask_def rbind_eq_Inr)
    have "serves lv A p hs ?rt ?s1" unfolding h(1) by (rule serves_endpoint(2)[OF ok1 h(2) server_libD(5)[OF L]])
    then have "serves lv A p hs ?rt ?s2" unfolding h(1) by (rule serves_endpoint(3)[OF _ h(2)])
    then have "serves lv A p hs ?rt s'" unfolding run(2) h(1) by (rule serves_endpoint(2)[OF _ h(2) server_libD(6)[OF L]])
    then show ?thesis unfolding run(1) serves_update .
  qed
qed

lemma server_flush_ok:
  assumes L: "server_libs_ok L lv" and ok: "serves lv A p hs rt s"
    and r: "server_flush_simulator L (Some p) rt s = Inr (rt', s')"
  shows "serves lv A p hs rt' s'"
proof -
  have send: "serves lv A p hs rt (foldl (\<lambda>s (i, data). os_do NetServer (Some p) (c_server_send L (Some p) (as_i32 i) data) s) s packets)"
    if "serves lv A p hs rt s" for packets s
    using that
  proof (induction packets arbitrary: s)
    case (Cons x packets)
    from Cons.IH[OF serves_server(2)[OF Cons.prems server_libD(16)[OF L]]] show ?case by (cases x) simp
  qed simp
  show ?thesis
    using r ok send[OF ok] by (auto simp: server_flush_simulator_def rbind_eq_Inr split: option.splits if_splits)
qed

lemma server_runtime_advance_time_ok:
  assumes L: "server_libs_ok L lv" and ok: "serves lv A p hs rt s"
    and r: "server_runtime_advance_time L rt t s = Inr (rt', s')"
  shows "serves lv A p hs rt' s'"
proof -
  note p = serves_parts(1)[OF ok]
  obtain reports s1 where run: "os_run NetServer (Some p) (c_server_update L (Some p) t) s = (reports, s1)" by fastforce
  obtain rt2 s2 rt3 s3 where c: "server_callbacks L reports rt s1 = Inr (rt2, s2)"
    and loop: "rfold (\<lambda>(rt, s) i. server_advance_client L (Some p) t rt i s) (rt2, s2) [0..<sr_max_clients rt2] = Inr (rt3, s3)"
    and f: "server_flush_simulator L (Some p) rt3 s3 = Inr (rt', s')"
    using r p run by (auto simp: server_runtime_advance_time_def rbind_eq_Inr Let_def)
  have ok2: "serves lv A p hs rt2 s2" by (rule netcode_call_ok[OF L ok server_libD(14)[OF L] run c])
  have "serves lv A p hs rt3 s3"
    using loop ok2 by (rule rfold_pair_invariant[where P = "serves lv A p hs"]) (rule server_advance_client_ok[OF L])
  from server_flush_ok[OF L this f] show ?thesis .
qed

lemma server_transmit_packet_ok:
  assumes L: "server_libs_ok L lv" and ok: "serves lv A p hs rt s"
    and r: "server_transmit_packet L rt i sequence data s = Inr (rt', s')"
  shows "serves lv A p hs rt' s'"
proof (cases "\<exists>ns. sr_network_simulator rt = Some ns \<and> ns_active ns")
  case True
  then obtain ns ns' where "rt' = rt\<lparr>sr_network_simulator := Some ns'\<rparr>" "s' = snd (os_free (c_thread_rng L) s)"
    using r by (auto simp: server_transmit_packet_def rbind_eq_Inr split: prod.splits)
  with serves_free[OF ok server_libD(1)[OF L]] show ?thesis by simp
next
  case False
  then have "rt' = rt" "s' = os_do NetServer (sr_server rt) (c_server_send L (sr_server rt) i data) s"
    using r by (auto simp: server_transmit_packet_def Let_def split: option.splits)
  with serves_server(2)[OF ok server_libD(16)[OF L]] serves_parts(1)[OF ok] show ?thesis by simp
qed

lemma server_send_client_ok:
  assumes L: "server_libs_ok L lv" and ok: "serves lv A p hs rt s"
    and r: "server_send_client feat nm L config (Some p) rt i s = Inr (rt', s')"
  shows "serves lv A p hs rt' s'"
proof -
  obtain endpoint where e: "vec_index (sr_client_endpoint rt) i = Inr endpoint"
    using r by (auto simp: server_send_client_def rbind_eq_Inr)
  obtain h where h: "endpoint = Some h" "h \<in> set hs" using serves_index[OF ok e] by blast
  define s1 where "s1 = snd (server_is_client_connected_raw L (Some p) i s)"
  define s2 where "s2 = snd (os_ask Endpoint endpoint (c_endpoint_next_sequence L endpoint) s1)"
  have ok1: "serves lv A p hs rt s1"
    unfolding s1_def server_is_client_connected_raw_def by (rule serves_server(3)[OF ok])
  have ok2: "serves lv A p hs rt s2" unfolding s2_def h(1) by (rule serves_endpoint(3)[OF ok1 h(2)])
  show ?thesis
  proof (cases "fst (server_is_client_connected_raw L (Some p) i s)")
    case False
    then have "rt' = rt \<and> s' = s1" using r e h(1) by (auto simp: server_send_client_def s1_def split: prod.splits)
    with ok1 show ?thesis by simp
  next
    case True
    let ?config = "cs_connection config"
    obtain connected where conn: "server_is_client_connected_raw L (Some p) i s = (connected, s1)" "connected"
      using True by (cases "server_is_client_connected_raw L (Some p) i s") (simp add: s1_def)
    obtain number where number: "os_ask Endpoint endpoint (c_endpoint_next_sequence L endpoint) s1 = (number, s2)"
      by (cases "os_ask Endpoint endpoint (c_endpoint_next_sequence L endpoint) s1") (simp add: s2_def)
    obtain c where c: "vec_index (sr_client_connection rt) i = Inr c"
      and len: "length (sr_packet_buffer rt) = nc_max_packet_size ?config"
      using r e h(1) conn number by (auto simp: server_send_client_def rbind_eq_Inr split: if_splits)
    obtain written buffer c' where gen: "connection_generate_packet feat nm c number (sr_packet_buffer rt) = Inr (written, buffer, c')"
      using r e h(1) conn number c len by (auto simp: server_send_client_def rbind_eq_Inr)
    have run: "(let rt = rt\<lparr>sr_client_connection := (sr_client_connection rt)[i := c'],
                 sr_packet_buffer := buffer\<rparr> in
     if \<not> written \<le> nc_max_packet_size ?config then Inl AssertionFailed else
     if 0 < written then
       let (transmits, s) = os_run Endpoint endpoint (c_endpoint_send L endpoint (take written buffer)) s2 in
       rfold (\<lambda>(rt, s) (sequence, packet_data). server_transmit_packet L rt (as_i32 i) sequence packet_data s)
         (rt, s) transmits
     else Inr (rt, s2)) = Inr (rt', s')"
      using r e conn number c len gen unfolding h(1) by (simp add: server_send_client_def)
    let ?rt = "rt\<lparr>sr_client_connection := (sr_client_connection rt)[i := c'], sr_packet_buffer := buffer\<rparr>"
    have ok3: "serves lv A p hs ?rt s2" using ok2 by simp
    obtain transmits s3 where send: "os_run Endpoint endpoint (c_endpoint_send L endpoint (take written buffer)) s2 = (transmits, s3)"
      by fastforce
    have ok4: "serves lv A p hs ?rt s3"
      using serves_endpoint(1)[OF ok3 h(2) server_libD(7)[OF L], of endpoint "take written buffer"] send h(1) by (metis snd_conv)
    have loop: "rfold (\<lambda>(rt, s) (sequence, packet_data). server_transmit_packet L rt (as_i32 i) sequence packet_data s)
         (?rt, s3) transmits = Inr (rt', s') \<or> (rt', s') = (?rt, s2)"
      using run send by (auto simp: Let_def split: if_splits)
    then show ?thesis
    proof
      assume l: "rfold (\<lambda>(rt, s) (sequence, packet_data). server_transmit_packet L rt (as_i32 i) sequence packet_data s)
         (?rt, s3) transmits = Inr (rt', s')"
      show ?thesis
        using l ok4 by (rule rfold_pair_invariant[where P = "serves lv A p hs"])
          (auto intro: server_transmit_packet_ok[OF L])
    qed (use ok3 in simp)
  qed
qed

lemma server_runtime_send_packets_ok:
  assumes L: "server_libs_ok L lv" and ok: "serves lv A p hs rt s"
    and r: "server_runtime_send_packets feat nm L config rt s = Inr (rt', s')"
  shows "serves lv A p hs rt' s'"
proof -
  have "rfold (\<lambda>(rt, s) i. server_send_client feat nm L config (Some p) rt i s) (rt, s)
        [0..<length (sr_client_connection rt)] = Inr (rt', s')"
    using r serves_parts(1)[OF ok] by (simp add: server_runtime_send_packets_def)
  then show ?thesis
    using ok by (rule rfold_pair_invariant[where P = "serves lv A p hs"]) (rule server_send_client_ok[OF L])
qed

lemma server_receive_one_ok:
  assumes L: "server_libs_ok L lv" and ok: "serves lv A p hs rt s" and h: "h \<in> set hs"
    and r: "server_receive_one feat nm L (Some p) i (Some h) rt data s = Inr (rt', s')"
  shows "serves lv A p hs rt' s'"
proof -
  obtain call s1 where c: "os_run Endpoint (Some h) (c_endpoint_receive L (Some h) data) s = (call, s1)" by fastforce
  have ok1: "serves lv A p hs rt s1"
    using serves_endpoint(1)[OF ok h server_libD(8)[OF L], of "Some h" data] c by (metis snd_conv)
  obtain s2 where s2: "serves lv A p hs rt' s2"
    and s': "s' = os_do NetServer (Some p) (c_server_free_packet L (Some p) data) s2"
  proof (cases call)
    case None
    with r c ok1 that[of s1] show ?thesis by (auto simp: server_receive_one_def Let_def)
  next
    case (Some x)
    then obtain conns answer where "rt' = rt\<lparr>sr_client_connection := (sr_client_connection rt)[as_usize (as_i32 i) := conns]\<rparr>"
      "s' = os_do NetServer (Some p) (c_server_free_packet L (Some p) data)
         (os_do Endpoint (Some h) (c_endpoint_processed L (Some h) answer) s1)"
      using r c by (cases x) (auto simp: server_receive_one_def server_process_packet_def Let_def rbind_eq_Inr)
    with serves_endpoint(2)[OF ok1 h server_libD(9)[OF L], of "Some h" answer]
      that[of "os_do Endpoint (Some h) (c_endpoint_processed L (Some h) answer) s1"] show ?thesis by simp
  qed
  show ?thesis unfolding s' by (rule serves_server(2)[OF s2 server_libD(17)[OF L]])
qed

lemma server_receive_slot_ok:
  assumes "server_receive_slot feat nm L nc i endpoint rt s = Some r" and "server_libs_ok L lv"
    "serves lv A p hs rt s" "nc = Some p" "endpoint = Some h" "h \<in> set hs" and "r = Inr (rt', s')"
  shows "serves lv A p hs rt' s'"
  using assms
proof (induction rule: server_receive_slot.raw_induct[rotated, consumes 1])
  case (1 loop feat nm L nc i endpoint rt s r)
  note L = "1.prems"(1) and ok = "1.prems"(2)
  obtain got s1 where g: "os_run NetServer nc (c_server_receive L nc (as_i32 i)) s = (got, s1)" by fastforce
  have ok1: "serves lv A p hs rt s1"
    using serves_server(1)[OF ok server_libD(18)[OF L], of nc "as_i32 i"] g "1.prems"(3) by simp
  show ?case
  proof (cases got)
    case None
    with "1.hyps" g ok1 "1.prems"(6) show ?thesis by simp
  next
    case (Some data)
    then obtain rt2 s2 where one: "server_receive_one feat nm L nc i endpoint rt data s1 = Inr (rt2, s2)"
      and rest: "loop feat nm L nc i endpoint rt2 s2 = Some r"
      using "1.hyps" g "1.prems"(6) by (auto split: sum.splits)
    have "serves lv A p hs rt2 s2"
      using server_receive_one_ok[OF L ok1 "1.prems"(5)] one "1.prems"(3,4) by simp
    with "1.IH"[OF rest L] "1.prems"(3-6) show ?thesis by simp
  qed
qed

lemma server_receive_slots_ok:
  assumes L: "server_libs_ok L lv" and "serves lv A p hs rt s" "endpoints = map Some hs'" "set hs' \<subseteq> set hs"
    and "server_receive_slots feat nm L (Some p) i endpoints rt s = Some (Inr (rt', s'))"
  shows "serves lv A p hs rt' s'"
  using assms(2-)
proof (induction hs' arbitrary: i endpoints rt s)
  case (Cons h hs')
  then obtain rt2 s2 where slot: "server_receive_slot feat nm L (Some p) i (Some h) rt s = Some (Inr (rt2, s2))"
    and rest: "server_receive_slots feat nm L (Some p) (i + 1) (map Some hs') rt2 s2 = Some (Inr (rt', s'))"
    by (auto split: option.splits sum.splits)
  have "serves lv A p hs rt2 s2"
    by (rule server_receive_slot_ok[OF slot L Cons.prems(1)]) (use Cons.prems(3) in auto)
  from Cons.IH[OF this _ _ rest] Cons.prems(3) show ?case by simp
qed simp

lemma server_runtime_receive_packets_ok:
  assumes L: "server_libs_ok L lv" and ok: "serves lv A p hs rt s"
    and r: "server_runtime_receive_packets feat nm L rt s = Some (Inr (rt', s'))"
  shows "serves lv A p hs rt' s'"
  using server_receive_slots_ok[OF L ok serves_parts(2)[OF ok] order_refl] r serves_parts(1)[OF ok]
  by (simp add: server_runtime_receive_packets_def)

section \<open>Starting and stopping\<close>

text \<open>Between calls: the runtime has the objects it should have, next to others, \<open>B\<close>, or there is
  no runtime and no object.\<close>

definition server_objects :: "'m server \<Rightarrow> (object \<times> handle) set" where
  "server_objects sv = (case sv_runtime sv of
     None \<Rightarrow> {}
   | Some rt \<Rightarrow> ptr_objects NetServer (sr_server rt) \<union> (\<Union>endpoint \<in> set (sr_client_endpoint rt). ptr_objects Endpoint endpoint))"

definition server_ok ::
  "('w \<Rightarrow> (object \<times> handle) set) \<Rightarrow> (object \<times> handle) set \<Rightarrow> 'm server \<Rightarrow> 'w os \<Rightarrow> bool" where
  "server_ok lv B sv s \<longleftrightarrow> (case sv_runtime sv of
     None \<Rightarrow> os_ok lv B s
   | Some rt \<Rightarrow> \<exists>p hs. distinct hs \<and> serves lv (B \<union> {(NetServer, p)} \<union> Pair Endpoint ` set hs) p hs rt s \<and>
       B \<inter> ({(NetServer, p)} \<union> Pair Endpoint ` set hs) = {})"

lemma serves_objects:
  "serves lv A p hs rt s \<Longrightarrow> sv_runtime sv = Some rt \<Longrightarrow> server_objects sv = {(NetServer, p)} \<union> Pair Endpoint ` set hs"
  by (auto simp: server_objects_def serves_def)

lemma server_add_clients_ok:
  fixes rt :: "'m server_runtime"
  assumes L: "server_libs_ok L lv"
    and "os_ok lv (B \<union> Pair Endpoint ` set hs) s" "B \<inter> Pair Endpoint ` set hs = {}" "distinct hs"
    and "sr_client_endpoint rt = map Some hs" "length (sr_client_connection rt) = length hs"
    and "rfold (\<lambda>(rt, s) i. server_add_client L config t rt i s) (rt, s) is = Inr (rt', s')"
  shows "\<exists>hs'. os_ok lv (B \<union> Pair Endpoint ` set hs') s' \<and> B \<inter> Pair Endpoint ` set hs' = {} \<and> distinct hs' \<and>
    sr_client_endpoint rt' = map Some hs' \<and> length (sr_client_connection rt') = length hs' \<and>
    length hs' = length hs + length is \<and> sr_server rt' = sr_server rt \<and> sr_max_clients rt' = sr_max_clients rt"
  using assms(2-)
proof (induction "is" arbitrary: hs rt s)
  case Nil
  then show ?case by auto
next
  case (Cons i "is")
  obtain rt2 s2 where one: "server_add_client L config t rt i s = Inr (rt2, s2)"
    and rest: "rfold (\<lambda>(rt, s) i. server_add_client L config t rt i s) (rt2, s2) is = Inr (rt', s')"
    using Cons.prems(6) by (auto simp: rbind_eq_Inr)
  obtain cn :: "'m connection" where cn: "connection_new (cs_connection config) t = Inr cn"
    using one by (auto simp: server_add_client_def rbind_eq_Inr)
  let ?rc = "new_reliable_config config (''server_endpoint'' @ decimal i) (Some i)"
  obtain q s1 where c: "os_create Endpoint (c_endpoint_create L ?rc t) s = (q, s1)" by fastforce
  note C = os_create_ok[OF Cons.prems(1) server_libD(2)[OF L] c]
  obtain h where h: "q = Some h" "(Endpoint, h) \<notin> B \<union> Pair Endpoint ` set hs"
    "os_ok lv (insert (Endpoint, h) (B \<union> Pair Endpoint ` set hs)) s1"
    using C by (cases q) auto
  have run: "rt2 = rt\<lparr>sr_client_connection := sr_client_connection rt @ [cn],
      sr_client_endpoint := sr_client_endpoint rt @ [Some h]\<rparr>"
    "s2 = os_do Endpoint (Some h) (c_endpoint_reset L (Some h)) s1"
    using one cn c h(1) by (auto simp: server_add_client_def Let_def)
  have set: "insert (Endpoint, h) (B \<union> Pair Endpoint ` set hs) = B \<union> Pair Endpoint ` set (hs @ [h])" by auto
  have "os_ok lv (B \<union> Pair Endpoint ` set (hs @ [h])) s2"
    using os_use_ok(2)[OF h(3) _ server_libD(4)[OF L], of Endpoint h] unfolding set by (simp add: run(2))
  moreover have "B \<inter> Pair Endpoint ` set (hs @ [h]) = {}" "distinct (hs @ [h])" using Cons.prems(2,3) h(2) by auto
  ultimately show ?case
    using Cons.IH[OF _ _ _ _ _ rest, of "hs @ [h]"] Cons.prems(4,5) by (simp add: run(1))
qed

lemma server_runtime_new_ok:
  fixes rt :: "'m server_runtime"
  assumes L: "server_libs_ok L lv" and os: "os_ok lv B s"
    and r: "server_runtime_new L config key address n t s = Inr (rt, s')"
  shows "\<exists>p hs. distinct hs \<and> length hs = n \<and>
    serves lv (B \<union> {(NetServer, p)} \<union> Pair Endpoint ` set hs) p hs rt s' \<and>
    B \<inter> ({(NetServer, p)} \<union> Pair Endpoint ` set hs) = {}"
proof -
  define rt0 :: "'m server_runtime" where "rt0 = \<lparr>sr_max_clients = n, sr_server = None, sr_bound_port = 0,
                sr_network_simulator = map_option (\<lambda>config. sim_new (sc_max_simulator_packets config) t)
                  (cs_network_simulator config),
                sr_client_connection = [], sr_client_endpoint = [],
                sr_packet_buffer = replicate (nc_max_packet_size (cs_connection config)) 0\<rparr>"
  obtain rt1 s1 where loop: "rfold (\<lambda>(rt, s) i. server_add_client L config t rt i s) (rt0, s) [0..<n] = Inr (rt1, s1)"
    using r by (auto simp: server_runtime_new_def rbind_eq_Inr Let_def rt0_def split: if_splits)
  obtain hs where hs: "os_ok lv (B \<union> Pair Endpoint ` set hs) s1" "B \<inter> Pair Endpoint ` set hs = {}" "distinct hs"
    "sr_client_endpoint rt1 = map Some hs" "length (sr_client_connection rt1) = length hs"
    "length hs = n" "sr_max_clients rt1 = n"
    using server_add_clients_ok[OF L, of B "[]" s rt0 config t "[0..<n]" rt1 s1] os loop by (auto simp: rt0_def)
  obtain a q s2 where a: "c_string address = Inr a"
    and c: "os_create NetServer (c_server_create L a (cs_protocol_id config) key t) s1 = (q, s2)"
    using r loop
    by (cases "c_string address") (auto simp: server_runtime_new_def rt0_def netcode_server_def Let_def intro: prod.exhaust split: if_splits)
  note C = os_create_ok[OF hs(1) server_libD(10)[OF L] c]
  obtain p where p: "q = Some p" "(NetServer, p) \<notin> B \<union> Pair Endpoint ` set hs"
    "os_ok lv (insert (NetServer, p) (B \<union> Pair Endpoint ` set hs)) s2"
    using C by (cases q) auto
  let ?A = "B \<union> {(NetServer, p)} \<union> Pair Endpoint ` set hs"
  have A: "insert (NetServer, p) (B \<union> Pair Endpoint ` set hs) = ?A" by auto
  let ?s3 = "os_do NetServer (Some p) (c_server_start L (Some p) (as_i32 n)) s2"
  have run: "rt = rt1\<lparr>sr_bound_port := fst (os_ask NetServer (Some p) (c_server_get_port L (Some p)) ?s3), sr_server := Some p\<rparr>"
    "s' = snd (os_ask NetServer (Some p) (c_server_get_port L (Some p)) ?s3)"
    using r loop a c p(1)
    by (auto simp: server_runtime_new_def rt0_def netcode_server_def Let_def os_ask_def split: if_splits)
  have "os_ok lv ?A ?s3" using os_use_ok(2)[OF p(3)[unfolded A] _ server_libD(12)[OF L]] by simp
  from os_use_ok(3)[OF this, of NetServer p] have "os_ok lv ?A s'" by (simp add: run(2))
  moreover have "n < 2 ^ 31 - 1" using r by (simp add: server_runtime_new_def split: if_splits)
  ultimately have "serves lv ?A p hs rt s'" using hs p(2) by (auto simp: serves_def run(1))
  with hs p(2) show ?thesis by blast
qed

lemma server_destroy_endpoints_ok:
  assumes L: "server_libs_ok L lv" and "os_ok lv A s" "Pair Endpoint ` set hs \<subseteq> A" "distinct hs"
  shows "os_ok lv (A - Pair Endpoint ` set hs)
    (foldl (\<lambda>s endpoint. snd (os_destroy Endpoint endpoint (\<lambda>w. ((), c_endpoint_destroy L endpoint w)) s)) s (map Some hs))"
  using assms(2-)
proof (induction hs arbitrary: A s)
  case (Cons h hs)
  have d: "os_ok lv (A - {(Endpoint, h)}) (snd (os_destroy Endpoint (Some h) (\<lambda>w. ((), c_endpoint_destroy L (Some h) w)) s))"
    by (rule os_destroy_ok[OF Cons.prems(1) server_libD(3)[OF L]]) (use Cons.prems(2) in auto)
  have "Pair Endpoint ` set hs \<subseteq> A - {(Endpoint, h)}" "distinct hs" using Cons.prems(2,3) by auto
  note rest = Cons.IH[OF d this]
  have "A - {(Endpoint, h)} - Pair Endpoint ` set hs = A - Pair Endpoint ` set (h # hs)" by auto
  with rest show ?case by simp
qed simp

lemma server_runtime_drop_ok:
  assumes L: "server_libs_ok L lv" and ok: "serves lv A p hs rt s" and "distinct hs"
    and r: "server_runtime_drop L rt s = Inr s'"
  shows "os_ok lv (A - {(NetServer, p)} - Pair Endpoint ` set hs) s'"
proof -
  obtain reports s1 where run: "os_run NetServer (Some p) (c_server_stop L (Some p)) s = (reports, s1)" by fastforce
  let ?destroy = "\<lambda>s endpoint. snd (os_destroy Endpoint endpoint (\<lambda>w. ((), c_endpoint_destroy L endpoint w)) s)"
  obtain rt2 s2 where c: "server_callbacks L reports rt s1 = Inr (rt2, s2)"
    using r run serves_parts(1)[OF ok] by (auto simp: server_runtime_drop_def rbind_eq_Inr split: if_splits)
  have ok2: "serves lv A p hs rt2 s2" by (rule netcode_call_ok[OF L ok server_libD(13)[OF L] run c])
  let ?s3 = "snd (os_destroy NetServer (Some p) (\<lambda>w. ((), c_server_destroy L (Some p) w)) s2)"
  have s': "s' = foldl ?destroy ?s3 (map Some hs)"
    using r run c serves_parts(1)[OF ok] serves_parts(1,2)[OF ok2] by (auto simp: server_runtime_drop_def)
  have "os_ok lv (A - {(NetServer, p)}) ?s3"
    by (rule os_destroy_ok[of lv A s2 NetServer "c_server_destroy L"]) (use ok2 server_libD(11)[OF L] in \<open>auto simp: serves_def\<close>)
  then show ?thesis
    unfolding s' by (rule server_destroy_endpoints_ok[OF L]) (use ok2 \<open>distinct hs\<close> in \<open>auto simp: serves_def\<close>)
qed

lemma server_stop_ok:
  assumes L: "server_libs_ok L lv" and ok: "server_ok lv B sv s"
    and r: "server_stop L sv s = Inr (sv', s')"
  shows "sv' = sv\<lparr>sv_runtime := None\<rparr>" "os_ok lv B s'"
proof -
  show "sv' = sv\<lparr>sv_runtime := None\<rparr>" using r by (auto simp: server_stop_def rbind_eq_Inr split: option.splits)
  show "os_ok lv B s'"
  proof (cases "sv_runtime sv")
    case None
    with r ok show ?thesis by (simp add: server_stop_def server_ok_def)
  next
    case (Some rt)
    then obtain p hs where hs: "distinct hs" "serves lv (B \<union> {(NetServer, p)} \<union> Pair Endpoint ` set hs) p hs rt s"
      "B \<inter> ({(NetServer, p)} \<union> Pair Endpoint ` set hs) = {}"
      using ok by (auto simp: server_ok_def)
    have d: "server_runtime_drop L rt s = Inr s'" using r Some by (auto simp: server_stop_def rbind_eq_Inr)
    have "B \<union> {(NetServer, p)} \<union> Pair Endpoint ` set hs - {(NetServer, p)} - Pair Endpoint ` set hs = B" using hs(3) by auto
    with server_runtime_drop_ok[OF L hs(2,1) d] show ?thesis by simp
  qed
qed

lemma server_start_ok:
  assumes L: "server_libs_ok L lv" and ok: "server_ok lv B sv s"
    and r: "server_start L sv n s = Inr (sv', s')"
  shows "server_ok lv B sv' s'"
proof -
  obtain sv1 s1 rt where stop: "server_stop L sv s = Inr (sv1, s1)"
    and new: "server_runtime_new L (sv_config sv1) (sv_private_key sv1) (sv_address sv1) n (sv_time sv1) s1 = Inr (rt, s')"
    and sv': "sv' = sv1\<lparr>sv_runtime := Some rt\<rparr>"
    using r by (auto simp: server_start_def rbind_eq_Inr)
  from server_runtime_new_ok[OF L server_stop_ok(2)[OF L ok stop] new]
  show ?thesis unfolding server_ok_def sv' by auto
qed

section \<open>Every sequence of calls\<close>

inductive server_step ::
  "features \<Rightarrow> ('m, 'e) network_message \<Rightarrow> 'w netlib \<Rightarrow> ('w \<Rightarrow> (object \<times> handle) set)
     \<Rightarrow> 'm server \<times> 'w os \<Rightarrow> 'm server \<times> 'w os \<Rightarrow> bool" for feat nm L lv where
  Start: "server_start L sv n s = Inr (sv', s') \<Longrightarrow> server_step feat nm L lv (sv, s) (sv', s')"
| Stop: "server_stop L sv s = Inr (sv', s') \<Longrightarrow> server_step feat nm L lv (sv, s) (sv', s')"
| AdvanceTime: "server_advance_time L sv t s = Inr (sv', s') \<Longrightarrow> server_step feat nm L lv (sv, s) (sv', s')"
| SendPackets: "server_send_packets feat nm L sv s = Inr (sv', s') \<Longrightarrow> server_step feat nm L lv (sv, s) (sv', s')"
| ReceivePackets: "server_receive_packets feat nm L sv s = Some (Inr (sv', s')) \<Longrightarrow>
    server_step feat nm L lv (sv, s) (sv', s')"
| SendMessage: "server_send_message nm sv i ch m = Inr sv' \<Longrightarrow> server_step feat nm L lv (sv, s) (sv', s)"
| ReceiveMessage: "server_receive_message sv i ch = Inr (r, sv') \<Longrightarrow> server_step feat nm L lv (sv, s) (sv', s)"
| ReceiveMessageWithId: "server_receive_message_with_id sv i ch = Inr (r', sv') \<Longrightarrow>
    server_step feat nm L lv (sv, s) (sv', s)"
| WithNetworkSimulator: "server_with_network_simulator sv f = Inr sv' \<Longrightarrow> server_step feat nm L lv (sv, s) (sv', s)"
| DisconnectClient: "server_disconnect_client L sv i s = Inr (sv', s') \<Longrightarrow> server_step feat nm L lv (sv, s) (sv', s')"
| IsClientConnected: "server_is_client_connected L sv i s = (b, s') \<Longrightarrow> server_step feat nm L lv (sv, s) (sv, s')"
| ClientId: "server_client_id L sv i s = (client_id, s') \<Longrightarrow> server_step feat nm L lv (sv, s) (sv, s')"
| Snapshot: "server_snapshot_network_info L sv i s = Inr (info, s') \<Longrightarrow> server_step feat nm L lv (sv, s) (sv, s')"
| ClientAddress: "server_client_address L sv i s = Inr (a, s') \<Longrightarrow> server_step feat nm L lv (sv, s) (sv, s')"
| ConnectedClientCount: "server_connected_client_count L sv s = Inr (n, s') \<Longrightarrow>
    server_step feat nm L lv (sv, s) (sv, s')"
| Outside: "lv w' = lv (os_world s) \<Longrightarrow> server_step feat nm L lv (sv, s) (sv, s\<lparr>os_world := w'\<rparr>)"

inductive server_reachable ::
  "features \<Rightarrow> ('m, 'e) network_message \<Rightarrow> 'w netlib \<Rightarrow> ('w \<Rightarrow> (object \<times> handle) set)
     \<Rightarrow> 'm server \<times> 'w os \<Rightarrow> bool" for feat nm L lv where
  New: "lv w = {} \<Longrightarrow> server_new message_size key address config t = Inr sv \<Longrightarrow>
    server_reachable feat nm L lv (sv, \<lparr>os_world = w, os_calls = []\<rparr>)"
| Step: "server_reachable feat nm L lv x \<Longrightarrow> server_step feat nm L lv x y \<Longrightarrow> server_reachable feat nm L lv y"

text \<open>An operation that keeps a runtime serving keeps the server's invariant.\<close>

lemma server_ok_lift:
  assumes "server_ok lv B sv s" "sv_runtime sv = Some rt"
    and "\<And>A p hs. serves lv A p hs rt s \<Longrightarrow> serves lv A p hs rt' s'"
  shows "server_ok lv B (sv\<lparr>sv_runtime := Some rt'\<rparr>) s'"
  using assms unfolding server_ok_def by fastforce

lemma server_ok_runtime:
  assumes "server_ok lv B sv s" "sv_runtime sv = Some rt"
    and "\<And>A p hs. serves lv A p hs rt s \<Longrightarrow> serves lv A p hs rt s'"
  shows "server_ok lv B sv s'"
  using assms unfolding server_ok_def by fastforce

lemma server_is_client_connected_raw_ok:
  assumes "serves lv A p hs rt s" "server_is_client_connected_raw L (Some p) i s = (b, s')"
  shows "serves lv A p hs rt s'"
  using serves_server(3)[OF assms(1)] assms(2) unfolding server_is_client_connected_raw_def by (metis snd_conv)

lemma server_disconnect_client_ok:
  assumes L: "server_libs_ok L lv" and ok: "server_ok lv B sv s" and "server_disconnect_client L sv i s = Inr (sv', s')"
  shows "server_ok lv B sv' s'"
proof (cases "sv_runtime sv")
  case None
  with assms show ?thesis by (simp add: server_disconnect_client_def)
next
  case (Some rt)
  obtain b s1 where b: "server_is_client_connected_raw L (sr_server rt) i s = (b, s1)" by fastforce
  note raw = server_is_client_connected_raw_ok
  show ?thesis
  proof (cases b)
    case False
    with assms Some b have "sv' = sv" "s' = s1" by (auto simp: server_disconnect_client_def)
    with server_ok_runtime[OF ok Some, of s1] raw b serves_parts(1) show ?thesis by metis
  next
    case True
    then obtain endpoint rt' where d: "server_drop_client L (sr_server rt) i endpoint rt s1 = Inr (rt', s')"
      and sv': "sv' = sv\<lparr>sv_runtime := Some rt'\<rparr>"
      using assms(3) Some b by (auto simp: server_disconnect_client_def rbind_eq_Inr)
    show ?thesis
      unfolding sv' using d b by (intro server_ok_lift[OF ok Some])
        (metis raw serves_parts(1) server_drop_client_ok[OF L])
  qed
qed

text \<open>The methods that only read.\<close>

lemma serves_ask:
  "serves lv A p hs rt s \<Longrightarrow> os_ask NetServer (Some p) q s = (x, s') \<Longrightarrow> serves lv A p hs rt s'"
  "serves lv A p hs rt s \<Longrightarrow> h \<in> set hs \<Longrightarrow> os_ask Endpoint (Some h) q' s = (x', s') \<Longrightarrow> serves lv A p hs rt s'"
  by (metis serves_server(3) snd_conv, metis serves_endpoint(3) snd_conv)

lemma server_asks_ok:
  assumes ok: "server_ok lv B sv s"
  shows "server_is_client_connected L sv i s = (b, s') \<Longrightarrow> server_ok lv B sv s'"
    "server_client_id L sv i s = (client_id, s') \<Longrightarrow> server_ok lv B sv s'"
    "server_snapshot_network_info L sv i s = Inr (info, s') \<Longrightarrow> server_ok lv B sv s'"
    "server_client_address L sv i s = Inr (address, s') \<Longrightarrow> server_ok lv B sv s'"
    "server_connected_client_count L sv s = Inr (n, s') \<Longrightarrow> server_ok lv B sv s'"
proof -
  note defs = server_is_client_connected_def server_client_id_def server_snapshot_network_info_def
    server_client_address_def server_connected_client_count_def server_is_client_connected_raw_def
    server_runtime_snapshot_def
  have lift: "server_ok lv B sv s'" if "sv_runtime sv = Some rt"
      "\<And>A p hs. serves lv A p hs rt s \<Longrightarrow> serves lv A p hs rt s'" for rt s'
    using server_ok_runtime[OF ok that(1)] that(2) by blast
  have asked: "server_ok lv B sv s'" if "\<And>rt p. sv_runtime sv = Some rt \<Longrightarrow> sr_server rt = Some p \<Longrightarrow>
      s' = s \<or> (\<exists>q1. s' = snd (os_ask NetServer (Some p) q1 s)) \<or>
      (\<exists>q1 q2. s' = snd (os_ask NetServer (Some p) q2 (snd (os_ask NetServer (Some p) q1 s))))"
    "sv_runtime sv = None \<Longrightarrow> s' = s" for s'
  proof (cases "sv_runtime sv")
    case None
    with ok that(2) show ?thesis by simp
  next
    case (Some rt)
    show ?thesis
    proof (rule lift[OF Some])
      fix A p hs
      assume sv: "serves lv A p hs rt s"
      show "serves lv A p hs rt s'"
        using that(1)[OF Some serves_parts(1)[OF sv]] sv by (auto intro!: serves_server(3))
    qed
  qed
  show "server_is_client_connected L sv i s = (b, s') \<Longrightarrow> server_ok lv B sv s'"
    by (rule asked) (auto simp: defs os_ask_def)
  show "server_client_id L sv i s = (client_id, s') \<Longrightarrow> server_ok lv B sv s'"
    by (rule asked) (auto simp: defs os_ask_def split: if_splits)
  show "server_client_address L sv i s = Inr (address, s') \<Longrightarrow> server_ok lv B sv s'"
    by (rule asked) (auto simp: defs os_ask_def rbind_eq_Inr split: if_splits option.splits)
  show "server_connected_client_count L sv s = Inr (n, s') \<Longrightarrow> server_ok lv B sv s'"
    by (rule asked) (auto simp: defs os_ask_def split: if_splits option.splits)
  show "server_ok lv B sv s'" if r: "server_snapshot_network_info L sv i s = Inr (info, s')"
  proof (cases "sv_runtime sv")
    case None
    with ok r show ?thesis by (simp add: defs)
  next
    case (Some rt)
    show ?thesis
    proof (rule lift[OF Some])
      fix A p hs
      assume sv: "serves lv A p hs rt s"
      obtain b s1 where b: "os_ask NetServer (Some p) (c_server_client_connected L (Some p) (as_i32 i)) s = (b, s1)" by fastforce
      note sv1 = serves_ask(1)[OF sv b]
      show "serves lv A p hs rt s'"
      proof (cases b)
        case False
        with r b Some serves_parts(1)[OF sv] sv1 show ?thesis by (simp add: defs)
      next
        case True
        with r b Some serves_parts(1)[OF sv] obtain endpoint where e: "vec_index (sr_client_endpoint rt) i = Inr endpoint"
          by (auto simp: defs rbind_eq_Inr)
        with serves_index[OF sv] obtain h where "endpoint = Some h" "h \<in> set hs" by blast
        with r b Some serves_parts(1)[OF sv] e True serves_endpoint(3)[OF sv1, of h "endpoint_network_info L (Some h)"]
        show ?thesis by (simp add: defs split: prod.splits)
      qed
    qed
  qed
qed

lemma server_quiet_ok:
  assumes ok: "server_ok lv B sv s"
  shows "server_send_message nm sv i ch m = Inr sv' \<Longrightarrow> server_ok lv B sv' s"
    "server_receive_message_with_id sv i ch = Inr (r, sv') \<Longrightarrow> server_ok lv B sv' s"
    "server_receive_message sv i ch = Inr (r', sv') \<Longrightarrow> server_ok lv B sv' s"
    "server_with_network_simulator sv f = Inr sv' \<Longrightarrow> server_ok lv B sv' s"
  using ok by (auto simp: server_send_message_def server_receive_message_with_id_def server_receive_message_def
      server_with_network_simulator_def rbind_eq_Inr split: option.splits intro!: server_ok_lift[OF ok])

lemma server_runtime_steps_ok:
  assumes L: "server_libs_ok L lv" and ok: "server_ok lv B sv s"
  shows "server_advance_time L sv t s = Inr (sv', s') \<Longrightarrow> server_ok lv B sv' s'"
    "server_send_packets feat nm L sv s = Inr (sv', s') \<Longrightarrow> server_ok lv B sv' s'"
    "server_receive_packets feat nm L sv s = Some (Inr (sv', s')) \<Longrightarrow> server_ok lv B sv' s'"
proof -
  have lift: "server_ok lv B (sv\<lparr>sv_runtime := Some rt'\<rparr>) s'" if "sv_runtime sv = Some rt"
      "\<And>A p hs. serves lv A p hs rt s \<Longrightarrow> serves lv A p hs rt' s'" for rt rt' s'
    using server_ok_lift[OF ok that] .
  show "server_ok lv B sv' s'" if r: "server_advance_time L sv t s = Inr (sv', s')"
  proof (cases "sv_runtime sv")
    case None
    with ok r show ?thesis by (simp add: server_advance_time_def)
  next
    case (Some rt)
    then obtain rt' where "server_runtime_advance_time L rt t s = Inr (rt', s')" "sv' = sv\<lparr>sv_runtime := Some rt'\<rparr>"
      using r by (auto simp: server_advance_time_def rbind_eq_Inr)
    with lift[OF Some] server_runtime_advance_time_ok[OF L] show ?thesis by blast
  qed
  show "server_ok lv B sv' s'" if r: "server_send_packets feat nm L sv s = Inr (sv', s')"
  proof (cases "sv_runtime sv")
    case None
    with ok r show ?thesis by (simp add: server_send_packets_def)
  next
    case (Some rt)
    then obtain rt' where "server_runtime_send_packets feat nm L (sv_config sv) rt s = Inr (rt', s')" "sv' = sv\<lparr>sv_runtime := Some rt'\<rparr>"
      using r by (auto simp: server_send_packets_def rbind_eq_Inr)
    with lift[OF Some] server_runtime_send_packets_ok[OF L] show ?thesis by blast
  qed
  show "server_ok lv B sv' s'" if r: "server_receive_packets feat nm L sv s = Some (Inr (sv', s'))"
  proof (cases "sv_runtime sv")
    case None
    with ok r show ?thesis by (simp add: server_receive_packets_def)
  next
    case (Some rt)
    then obtain rt' where "server_runtime_receive_packets feat nm L rt s = Some (Inr (rt', s'))" "sv' = sv\<lparr>sv_runtime := Some rt'\<rparr>"
      using r by (auto simp: server_receive_packets_def rbind_eq_Inr)
    with lift[OF Some] server_runtime_receive_packets_ok[OF L] show ?thesis by blast
  qed
qed

lemma server_step_ok:
  assumes "server_step feat nm L lv x y" "server_libs_ok L lv" "server_ok lv B (fst x) (snd x)"
  shows "server_ok lv B (fst y) (snd y)"
  using assms(1,3)
proof (cases rule: server_step.cases)
  case (Start sv n s sv' s')
  with assms server_start_ok[OF assms(2)] show ?thesis by simp
next
  case (Stop sv s sv' s')
  with assms(3) have "server_ok lv B sv s" by simp
  from server_stop_ok[OF assms(2) this Stop(3)] Stop show ?thesis by (simp add: server_ok_def)
next
  case (DisconnectClient sv i s sv' s')
  with assms server_disconnect_client_ok[OF assms(2)] show ?thesis by simp
next
  case (Outside w' s sv)
  with assms show ?thesis by (auto simp: server_ok_def serves_def os_ok_def split: option.splits)
qed (use assms(3) server_quiet_ok server_asks_ok server_runtime_steps_ok[OF assms(2)] in auto)

lemma server_reachable_ok:
  assumes "server_reachable feat nm L lv x" "server_libs_ok L lv"
  shows "server_ok lv {} (fst x) (snd x)"
  using assms
proof (induction rule: server_reachable.induct)
  case (New w message_size key address config t sv)
  then show ?case by (auto simp: server_ok_def server_new_def os_ok_def os_live_def split: if_splits)
next
  case (Step x y)
  then show ?case using server_step_ok by blast
qed

section \<open>The properties\<close>



section \<open>Errors on a slot\<close>

text \<open>The connections after the callbacks: those of the slots that netcode reports as disconnected
  are reset, the others are as they were.\<close>

lemma handle_slots:
  assumes "server_handle_connect_disconnect L rt i joined s = Inr (rt', s')"
  shows "sr_client_connection rt' = (if joined then sr_client_connection rt
      else (sr_client_connection rt)[as_usize i := connection_reset (sr_client_connection rt ! as_usize i)])"
    "sr_max_clients rt' = sr_max_clients rt"
  using assms by (auto simp: server_handle_connect_disconnect_def rbind_eq_Inr Let_def vec_index_eq_Inr split: if_splits)

lemma callbacks_slots:
  assumes "server_callbacks L reports rt s = Inr (rt', s')"
  shows "length (sr_client_connection rt') = length (sr_client_connection rt) \<and> sr_max_clients rt' = sr_max_clients rt \<and>
    ((\<forall>j. (j, False) \<in> set reports \<longrightarrow> as_usize j \<noteq> i) \<longrightarrow> sr_client_connection rt' ! i = sr_client_connection rt ! i)"
  using assms unfolding server_callbacks_def
proof (induction reports arbitrary: rt s)
  case (Cons x reports)
  obtain j joined where x: "x = (j, joined)" by fastforce
  obtain rt2 s2 where one: "server_handle_connect_disconnect L rt j joined s = Inr (rt2, s2)"
    and rest: "rfold (\<lambda>(rt, s) (client_index, is_connected). server_handle_connect_disconnect L rt client_index is_connected s)
      (rt2, s2) reports = Inr (rt', s')"
    using Cons.prems x by (auto simp: rbind_eq_Inr)
  from Cons.IH[OF rest] handle_slots[OF one] show ?case by (cases joined) (auto simp: x)
qed simp

text \<open>One round of \<open>advance_time\<close> concerns its own slot, given that netcode reports on the slot it was
  asked to disconnect.\<close>

definition disconnects_own_slot :: "'w netlib \<Rightarrow> bool" where
  "disconnects_own_slot L \<longleftrightarrow>
     (\<forall>p k w. set (fst (c_server_disconnect_client L p k w)) \<subseteq> {(k, False)})"

lemma drop_client_slots:
  assumes own: "disconnects_own_slot L" and r: "server_drop_client L nc k endpoint rt s = Inr (rt', s')"
    and "k < 2 ^ 31 - 1"
  shows "length (sr_client_connection rt') = length (sr_client_connection rt) \<and> sr_max_clients rt' = sr_max_clients rt"
    "i \<noteq> k \<Longrightarrow> sr_client_connection rt' ! i = sr_client_connection rt ! i"
    "fst (c_server_disconnect_client L nc (as_i32 k) (os_world s)) = [] \<Longrightarrow> sr_client_connection rt' = sr_client_connection rt"
    "fst (c_server_disconnect_client L nc (as_i32 k) (os_world s)) = [(as_i32 k, False)] \<Longrightarrow>
      k < length (sr_client_connection rt) \<Longrightarrow>
      sr_client_connection rt' ! k = connection_reset (sr_client_connection rt ! k)"
proof -
  obtain reports s1 where run: "os_run NetServer nc (c_server_disconnect_client L nc (as_i32 k)) s = (reports, s1)"
    by fastforce
  have rep: "reports = fst (c_server_disconnect_client L nc (as_i32 k) (os_world s))"
    using run by (auto simp: os_run_def split: prod.splits)
  have cb: "server_callbacks L reports rt s1 = Inr (rt', s')"
    using r run by (auto simp: server_drop_client_def split: if_splits)
  have k: "as_usize (as_i32 k) = k" using assms(3) by simp
  have sub: "set reports \<subseteq> {(as_i32 k, False)}" using own by (simp add: rep disconnects_own_slot_def)
  from callbacks_slots[OF cb]
  show "length (sr_client_connection rt') = length (sr_client_connection rt) \<and> sr_max_clients rt' = sr_max_clients rt" by blast
  show "i \<noteq> k \<Longrightarrow> sr_client_connection rt' ! i = sr_client_connection rt ! i"
    using callbacks_slots[OF cb, of i] sub k by auto
  show "fst (c_server_disconnect_client L nc (as_i32 k) (os_world s)) = [] \<Longrightarrow> sr_client_connection rt' = sr_client_connection rt"
    using cb unfolding rep[symmetric] by (auto simp: server_callbacks_def)
  show "sr_client_connection rt' ! k = connection_reset (sr_client_connection rt ! k)"
    if "fst (c_server_disconnect_client L nc (as_i32 k) (os_world s)) = [(as_i32 k, False)]" "k < length (sr_client_connection rt)"
  proof -
    have "reports = [(as_i32 k, False)]" using that(1) rep by simp
    then have "server_handle_connect_disconnect L rt (as_i32 k) False s1 = Inr (rt', s')"
      using cb by (simp add: server_callbacks_def)
    from handle_slots(1)[OF this] that(2) k show ?thesis by simp
  qed
qed

lemma advance_client_slots:
  assumes own: "disconnects_own_slot L" and r: "server_advance_client L nc t rt k s = Inr (rt', s')"
    and k: "k < 2 ^ 31 - 1"
  shows "length (sr_client_connection rt') = length (sr_client_connection rt) \<and> sr_max_clients rt' = sr_max_clients rt"
    "i \<noteq> k \<Longrightarrow> sr_client_connection rt' ! i = sr_client_connection rt ! i"
    "let c = connection_advance_time (sr_client_connection rt ! k) t in cn_error_level c \<noteq> ConnectionNone \<longrightarrow>
      (fst (c_server_disconnect_client L nc (as_i32 k) (os_world s)) = [] \<longrightarrow> sr_client_connection rt' ! k = c) \<and>
      (fst (c_server_disconnect_client L nc (as_i32 k) (os_world s)) = [(as_i32 k, False)] \<longrightarrow>
         sr_client_connection rt' ! k = connection_reset c)"
proof -
  obtain endpoint where len: "k < length (sr_client_connection rt)" and e: "vec_index (sr_client_endpoint rt) k = Inr endpoint"
    using r by (auto simp: server_advance_client_def rbind_eq_Inr vec_index_eq_Inr)
  let ?c = "connection_advance_time (sr_client_connection rt ! k) t"
  let ?rt = "rt\<lparr>sr_client_connection := (sr_client_connection rt)[k := ?c]\<rparr>"
  have "(length (sr_client_connection rt') = length (sr_client_connection rt) \<and> sr_max_clients rt' = sr_max_clients rt) \<and>
    (i \<noteq> k \<longrightarrow> sr_client_connection rt' ! i = sr_client_connection rt ! i) \<and>
    (cn_error_level ?c \<noteq> ConnectionNone \<longrightarrow>
      (fst (c_server_disconnect_client L nc (as_i32 k) (os_world s)) = [] \<longrightarrow> sr_client_connection rt' ! k = ?c) \<and>
      (fst (c_server_disconnect_client L nc (as_i32 k) (os_world s)) = [(as_i32 k, False)] \<longrightarrow>
         sr_client_connection rt' ! k = connection_reset ?c))"
  proof (cases "cn_error_level ?c = ConnectionNone")
    case False
    then have d: "server_drop_client L nc k endpoint ?rt s = Inr (rt', s')"
      using r e len by (simp add: server_advance_client_def)
    from drop_client_slots(1,3,4)[OF own d k] drop_client_slots(2)[OF own d k, of i] len show ?thesis by auto
  next
    case True
    then obtain c' ns where "rt' = ?rt\<lparr>sr_client_connection := (sr_client_connection ?rt)[k := c'], sr_network_simulator := ns\<rparr>"
      using r e len by (auto simp: server_advance_client_def os_ask_def rbind_eq_Inr Let_def)
    with True show ?thesis by simp
  qed
  then show "length (sr_client_connection rt') = length (sr_client_connection rt) \<and> sr_max_clients rt' = sr_max_clients rt"
    "i \<noteq> k \<Longrightarrow> sr_client_connection rt' ! i = sr_client_connection rt ! i"
    "let c = connection_advance_time (sr_client_connection rt ! k) t in cn_error_level c \<noteq> ConnectionNone \<longrightarrow>
      (fst (c_server_disconnect_client L nc (as_i32 k) (os_world s)) = [] \<longrightarrow> sr_client_connection rt' ! k = c) \<and>
      (fst (c_server_disconnect_client L nc (as_i32 k) (os_world s)) = [(as_i32 k, False)] \<longrightarrow>
         sr_client_connection rt' ! k = connection_reset c)"
    unfolding Let_def by blast+
qed

text \<open>The rounds of the other slots leave a slot alone.\<close>

lemma advance_other_slots:
  assumes own: "disconnects_own_slot L" and ks: "i \<notin> set ks" "\<forall>k \<in> set ks. k < 2 ^ 31 - 1"
    and loop: "rfold (\<lambda>(rt, s) k. server_advance_client L nc t rt k s) (rt, s) ks = Inr (rt', s')"
  shows "sr_client_connection rt' ! i = sr_client_connection rt ! i \<and>
    length (sr_client_connection rt') = length (sr_client_connection rt)"
  using loop
proof (rule rfold_pair_invariant[where P = "\<lambda>rt2 s2. sr_client_connection rt2 ! i = sr_client_connection rt ! i \<and>
    length (sr_client_connection rt2) = length (sr_client_connection rt)"])
  fix a b x a' b'
  assume x: "x \<in> set ks" and P: "sr_client_connection a ! i = sr_client_connection rt ! i \<and>
    length (sr_client_connection a) = length (sr_client_connection rt)"
    and r: "server_advance_client L nc t a x b = Inr (a', b')"
  have "x < 2 ^ 31 - 1" "i \<noteq> x" using x ks by auto
  from advance_client_slots(1)[OF own r this(1)] advance_client_slots(2)[OF own r this(1) this(2)] P
  show "sr_client_connection a' ! i = sr_client_connection rt ! i \<and>
    length (sr_client_connection a') = length (sr_client_connection rt)" by simp
qed simp

text \<open>C36: what becomes of a slot whose connection is in error when \<open>advance_time\<close> comes to it. The slot
  is recovered only if netcode reports the disconnect, that is if a client is connected there. A
  slot without a client keeps the error, however often time advances: messages sent to a free
  slot until its queue is full leave it in error, and the next client that connects there is
  disconnected at once, since connecting does not reset the connection.\<close>

theorem server_errored_slot:
  assumes L: "server_libs_ok L lv" "disconnects_own_slot L" and reach: "server_reachable feat nm L lv (sv, s)"
    and rt: "sv_runtime sv = Some rt" "i < sr_max_clients rt"
    and error: "cn_error_level (connection_advance_time (sr_client_connection rt ! i) t) \<noteq> ConnectionNone"
    and update: "\<forall>w. \<forall>j. (j, False) \<in> set (fst (c_server_update L (sr_server rt) t w)) \<longrightarrow> as_usize j \<noteq> i"
    and occupied: "\<forall>w. fst (c_server_disconnect_client L (sr_server rt) (int i) w) = (if joined then [(int i, False)] else [])"
    and r: "server_advance_time L sv t s = Inr (sv', s')"
  shows "\<exists>rt'. sv_runtime sv' = Some rt' \<and>
    (let c = connection_advance_time (sr_client_connection rt ! i) t in
     sr_client_connection rt' ! i = (if joined then connection_reset c else c)) \<and>
    (cn_error_level (sr_client_connection rt' ! i) = ConnectionNone \<longleftrightarrow> joined) \<and>
    server_handle_connect_disconnect L rt' (int i) True s' = Inr (rt', s')"
proof -
  have "server_ok lv {} sv s" using server_reachable_ok[OF reach L(1)] by simp
  then obtain A p hs where ok: "serves lv A p hs rt s" using rt(1) by (auto simp: server_ok_def)
  let ?n = "sr_max_clients rt" and ?c = "connection_advance_time (sr_client_connection rt ! i) t"
  note p = serves_parts(1)[OF ok]
  have n: "length (sr_client_connection rt) = ?n" "?n < 2 ^ 31 - 1" using ok by (auto simp: serves_def)
  then have i: "i < 2 ^ 31 - 1" using rt(2) by simp
  obtain reports s1 where run: "os_run NetServer (Some p) (c_server_update L (Some p) t) s = (reports, s1)" by fastforce
  obtain rt' rt2 s2 rt3 s3 where rt': "sv_runtime sv' = Some rt'"
    and cb: "server_callbacks L reports rt s1 = Inr (rt2, s2)"
    and loop: "rfold (\<lambda>(rt, s) i. server_advance_client L (Some p) t rt i s) (rt2, s2) [0..<sr_max_clients rt2] = Inr (rt3, s3)"
    and flush: "server_flush_simulator L (Some p) rt3 s3 = Inr (rt', s')"
    using r rt(1) p run by (auto simp: server_advance_time_def server_runtime_advance_time_def rbind_eq_Inr Let_def)
  have "reports = fst (c_server_update L (Some p) t (os_world s))" using run by (auto simp: os_run_def split: prod.splits)
  with callbacks_slots[OF cb, of i] update p n
  have c2: "sr_client_connection rt2 ! i = sr_client_connection rt ! i" "sr_max_clients rt2 = ?n"
    "length (sr_client_connection rt2) = ?n" by auto
  have split: "[0..<?n] = [0..<i] @ i # [Suc i..<?n]" using upt_add_eq_append[of 0 i "?n - i"] rt(2) by (simp add: upt_conv_Cons)
  obtain rt4 s4 rt5 s5 where l1: "rfold (\<lambda>(rt, s) i. server_advance_client L (Some p) t rt i s) (rt2, s2) [0..<i] = Inr (rt4, s4)"
    and l2: "server_advance_client L (Some p) t rt4 i s4 = Inr (rt5, s5)"
    and l3: "rfold (\<lambda>(rt, s) i. server_advance_client L (Some p) t rt i s) (rt5, s5) [Suc i..<?n] = Inr (rt3, s3)"
    using loop unfolding c2(2) split by (auto simp: rfold_append rbind_eq_Inr)
  have "sr_client_connection rt4 ! i = sr_client_connection rt ! i"
    using advance_other_slots[OF L(2) _ _ l1, of i] i c2 by auto
  with advance_client_slots(3)[OF L(2) l2 i] error occupied p i
  have "sr_client_connection rt5 ! i = (if joined then connection_reset ?c else ?c)" by (auto simp: Let_def)
  moreover have "sr_client_connection rt3 ! i = sr_client_connection rt5 ! i"
    using advance_other_slots[OF L(2) _ _ l3, of i] n by auto
  moreover have "sr_client_connection rt' = sr_client_connection rt3"
    using flush by (auto simp: server_flush_simulator_def rbind_eq_Inr split: option.splits if_splits)
  ultimately have "sr_client_connection rt' ! i = (if joined then connection_reset ?c else ?c)" by simp
  with rt' error show ?thesis by (simp add: Let_def connection_reset_def server_handle_connect_disconnect_def)
qed

section \<open>Receiving ends\<close>

text \<open>As for the client: each packet that netcode hands over is one fewer.\<close>

definition server_drains :: "'w netlib \<Rightarrow> ('w \<Rightarrow> nat) \<Rightarrow> bool" where
  "server_drains L pending \<longleftrightarrow>
     (\<forall>p i w data w'. c_server_receive L p i w = (Some data, w') \<longrightarrow> pending w' < pending w) \<and>
     (\<forall>p bs w. pending (snd (c_endpoint_receive L p bs w)) \<le> pending w) \<and>
     (\<forall>p b w. pending (c_endpoint_processed L p b w) \<le> pending w) \<and>
     (\<forall>p bs w. pending (c_server_free_packet L p bs w) \<le> pending w)"

lemma server_receive_one_pending:
  assumes "server_drains L pending" "server_receive_one feat nm L nc i endpoint rt data s = Inr (rt', s')"
  shows "pending (os_world s') \<le> pending (os_world s)"
proof -
  obtain call s1 where c: "os_run Endpoint endpoint (c_endpoint_receive L endpoint data) s = (call, s1)" by fastforce
  have D: "pending (snd (c_endpoint_receive L p bs w)) \<le> pending w"
    "pending (c_endpoint_processed L p b w) \<le> pending w" "pending (c_server_free_packet L p bs w) \<le> pending w" for p bs b w
    using assms(1) by (simp_all add: server_drains_def)
  have s1: "pending (os_world s1) \<le> pending (os_world s)"
    using c D(1)[of endpoint data "os_world s"] by (auto simp: os_run_def split: prod.splits)
  have "\<exists>w2. pending w2 \<le> pending (os_world s1) \<and> os_world s' = c_server_free_packet L nc data w2"
  proof (cases call)
    case None
    with assms(2) c show ?thesis by (auto simp: server_receive_one_def Let_def os_do_def)
  next
    case (Some x)
    then obtain answer where "os_world s' = c_server_free_packet L nc data (c_endpoint_processed L endpoint answer (os_world s1))"
      using assms(2) c by (cases x) (auto simp: server_receive_one_def server_process_packet_def Let_def rbind_eq_Inr os_do_def)
    with D(2)[of endpoint _ "os_world s1"] show ?thesis by blast
  qed
  then obtain w2 where "pending w2 \<le> pending (os_world s1)" "os_world s' = c_server_free_packet L nc data w2" by blast
  with s1 D(3)[of nc data w2] show ?thesis by simp
qed

lemma server_receive_slot_returns:
  assumes "server_drains L pending"
  shows "\<exists>r. server_receive_slot feat nm L nc i endpoint rt s = Some r"
proof (induction "pending (os_world s)" arbitrary: rt s rule: less_induct)
  case less
  obtain got s1 where g: "os_run NetServer nc (c_server_receive L nc (as_i32 i)) s = (got, s1)" by fastforce
  show ?case
  proof (cases got)
    case None
    with g show ?thesis by (simp add: server_receive_slot.simps)
  next
    case (Some data)
    have lt: "pending (os_world s1) < pending (os_world s)"
      using g Some assms by (auto simp: os_run_def server_drains_def split: prod.splits)
    show ?thesis
    proof (cases "server_receive_one feat nm L nc i endpoint rt data s1")
      case (Inl p)
      with g Some show ?thesis by (simp add: server_receive_slot.simps)
    next
      case (Inr x)
      obtain rt2 s2 where x: "x = (rt2, s2)" by fastforce
      have "pending (os_world s2) < pending (os_world s)"
        using server_receive_one_pending[OF assms Inr[unfolded x]] lt by simp
      then obtain r where "server_receive_slot feat nm L nc i endpoint rt2 s2 = Some r" using less by blast
      with g Some Inr x show ?thesis by (simp add: server_receive_slot.simps[of feat nm L nc i endpoint rt s])
    qed
  qed
qed

lemma server_receive_slots_returns:
  assumes "server_drains L pending"
  shows "\<exists>r. server_receive_slots feat nm L nc i endpoints rt s = Some r"
proof (induction endpoints arbitrary: i rt s)
  case (Cons endpoint endpoints)
  obtain r where "server_receive_slot feat nm L nc i endpoint rt s = Some r"
    using server_receive_slot_returns[OF assms] by blast
  with Cons.IH show ?case by (auto split: sum.splits)
qed simp

text \<open>\<open>receive_packets\<close> of the server returns, provided that netcode has only finitely many packets
  queued.\<close>

theorem server_receive_returns:
  assumes "server_drains L pending"
  shows "\<exists>r. server_receive_packets feat nm L sv s = Some r"
  using server_receive_slots_returns[OF assms]
  by (auto simp: server_receive_packets_def server_runtime_receive_packets_def split: option.splits)

section \<open>Witnesses\<close>

definition demo_server_config :: client_server_config where
  "demo_server_config = (client_server_config_new 1)\<lparr>cs_connection := demo_connection_config\<lparr>nc_max_packet_size := 20\<rparr>\<rparr>"

definition demo_server :: "u64 server" where
  "demo_server = \<lparr>sv_private_key = [1, 2, 3], sv_address = ''127.0.0.1:40000'', sv_config = demo_server_config,
     sv_time = f64_zero, sv_runtime = None\<rparr>"

text \<open>A network with nobody on it: no slot is taken.\<close>

definition demo_free_lib :: "demo_world netlib" where
  "demo_free_lib = (demo_lib 0 None)\<lparr>c_server_client_connected := (\<lambda>_ _ _. False),
     c_server_disconnect_client := (\<lambda>_ _ w. ([], w))\<rparr>"

text \<open>No netcode server can be made.\<close>

definition demo_null_lib :: "demo_world netlib" where
  "demo_null_lib = (demo_lib 0 None)\<lparr>c_server_create := (\<lambda>_ _ _ _ w. (None, w))\<rparr>"

definition demo_server_start :: "demo_world os" where
  "demo_server_start = \<lparr>os_world = [], os_calls = []\<rparr>"

lemma demo_server_libs_ok: "server_libs_ok (demo_lib state tok) set" "server_libs_ok demo_free_lib set"
  using demo_lib_ok(1)[of state tok] demo_lib_ok(3)[of _ state tok] demo_lib_ok(1)[of 0 None] demo_lib_ok(3)[of _ 0 None]
  by (simp_all add: server_libs_ok_def demo_free_lib_def reliable_lib_ok_def server_lib_ok_def keeps_def demo_lib_def)

lemma demo_server_reachable: "server_reachable feat nm L set (demo_server, demo_server_start)"
  unfolding demo_server_start_def
  by (rule server_reachable.New[of _ _ 8 "[1, 2, 3]" "''127.0.0.1:40000''" demo_server_config f64_zero])
    (simp_all add: server_new_def demo_server_def)

text \<open>A server with one slot, and five messages to it, whose queue holds four.\<close>

definition demo_run :: "demo_world netlib \<Rightarrow> panic + (u64 server \<times> demo_world os)" where
  "demo_run L = rbind (server_start L demo_server 1 demo_server_start) (\<lambda>(sv, s).
     rbind (rfold (\<lambda>sv m. server_send_message test_message sv 0 0 m) sv [1, 2, 3, 4, 5]) (\<lambda>sv. Inr (sv, s)))"

lemma demo_run_reachable:
  assumes "demo_run L = Inr (sv, s)"
  shows "server_reachable feat test_message L set (sv, s)"
proof -
  obtain sv1 where start: "server_start L demo_server 1 demo_server_start = Inr (sv1, s)"
    and send: "rfold (\<lambda>sv m. server_send_message test_message sv 0 0 m) sv1 [1, 2, 3, 4, 5] = Inr sv"
    using assms by (auto simp: demo_run_def rbind_eq_Inr)
  have "server_reachable feat test_message L set (sv1, s)"
    using server_reachable.Step[OF demo_server_reachable server_step.Start[OF start]] .
  with send show ?thesis
    by (rule rfold_invariant) (rule server_reachable.Step[OF _ server_step.SendMessage])
qed

definition demo_error :: "(u64 server \<times> demo_world os) \<Rightarrow> bool" where
  "demo_error x = (case sv_runtime (fst x) of None \<Rightarrow> False | Some rt \<Rightarrow>
     sr_max_clients rt = 1 \<and>
     cn_error_level (connection_advance_time (sr_client_connection rt ! 0) f64_one) \<noteq> ConnectionNone)"

lemma demo_runs:
  "case demo_run (demo_lib 0 None) of Inl _ \<Rightarrow> False | Inr x \<Rightarrow> demo_error x \<and>
     (case server_advance_time (demo_lib 0 None) (fst x) f64_one (snd x) of Inl _ \<Rightarrow> False | Inr _ \<Rightarrow> True)"
  "case demo_run demo_free_lib of Inl _ \<Rightarrow> False | Inr x \<Rightarrow> demo_error x \<and>
     (case server_advance_time demo_free_lib (fst x) f64_one (snd x) of Inl _ \<Rightarrow> False | Inr _ \<Rightarrow> True)"
  "case server_start demo_null_lib demo_server 1 demo_server_start of Inl _ \<Rightarrow> False | Inr _ \<Rightarrow> True"
  by code_simp+



text \<open>The slot of a client that is connected is recovered, the one of nobody stays in error.\<close>

theorem server_errored_slot_witness:
  "\<exists>sv s sv' s' rt'. demo_run demo_free_lib = Inr (sv, s) \<and>
     server_advance_time demo_free_lib sv f64_one s = Inr (sv', s') \<and> sv_runtime sv' = Some rt' \<and>
     cn_error_level (sr_client_connection rt' ! 0) \<noteq> ConnectionNone"
proof -
  obtain sv s where x: "demo_run demo_free_lib = Inr (sv, s)" "demo_error (sv, s)"
    and a: "case server_advance_time demo_free_lib sv f64_one s of Inl _ \<Rightarrow> False | Inr _ \<Rightarrow> True"
    using demo_runs(2) by (auto split: sum.splits)
  obtain sv' s' where r: "server_advance_time demo_free_lib sv f64_one s = Inr (sv', s')"
    using a by (auto split: sum.splits)
  obtain rt where rt: "sv_runtime sv = Some rt" "0 < sr_max_clients rt"
    "cn_error_level (connection_advance_time (sr_client_connection rt ! 0) f64_one) \<noteq> ConnectionNone"
    using x(2) by (auto simp: demo_error_def split: option.splits)
  have reach: "server_reachable demo_features test_message demo_free_lib set (sv, s)" by (rule demo_run_reachable[OF x(1)])
  have lib: "disconnects_own_slot demo_free_lib"
    "\<forall>w. \<forall>j. (j, False) \<in> set (fst (c_server_update demo_free_lib (sr_server rt) f64_one w)) \<longrightarrow> as_usize j \<noteq> 0"
    "\<forall>w. fst (c_server_disconnect_client demo_free_lib (sr_server rt) (int 0) w) = (if False then [(int 0, False)] else [])"
    by (simp_all add: disconnects_own_slot_def demo_free_lib_def demo_lib_def)
  from server_errored_slot[OF demo_server_libs_ok(2) lib(1) reach rt lib(2,3) r] x(1) r show ?thesis by blast
qed

lemma demo_server_drains: "server_drains (demo_lib state tok) (\<lambda>_. 0)"
  by (simp add: server_drains_def demo_lib_def)

theorem server_receive_returns_witness:
  "\<exists>r. server_receive_packets demo_features test_message (demo_lib 0 None) demo_server demo_server_start = Some r"
  by (rule server_receive_returns[OF demo_server_drains])

end
