(* ===== verification/Client_And_Server.thy ===== *)
theory Client_And_Server
  imports Client Server
begin

text \<open>
  A client and a server in one process, over the same libraries: whatever one of them does, the C
  objects of the other are left alone.
\<close>

section \<open>Next to each other\<close>

text \<open>Each of the two keeps its invariant next to the objects of the other.\<close>

definition both_ok ::
  "('w \<Rightarrow> (object \<times> handle) set) \<Rightarrow> 'm client \<Rightarrow> 'm server \<Rightarrow> 'w os \<Rightarrow> bool" where
  "both_ok lv cl sv s \<longleftrightarrow> client_ok lv (server_objects sv) cl s \<and> server_ok lv (client_objects cl) sv s"

lemma client_ok_objects:
  assumes "client_ok lv B cl s"
  shows "os_ok lv (B \<union> client_objects cl) s" "B \<inter> client_objects cl = {}"
  using assms by (simp_all add: client_ok_def client_owns_def)

lemma server_ok_objects:
  assumes "server_ok lv B sv s"
  shows "os_ok lv (B \<union> server_objects sv) s" "B \<inter> server_objects sv = {}"
proof -
  have "os_ok lv (B \<union> server_objects sv) s \<and> B \<inter> server_objects sv = {}"
  proof (cases "sv_runtime sv")
    case None
    then show ?thesis using assms by (simp add: server_ok_def server_objects_def)
  next
    case (Some rt)
    then obtain p hs where S: "serves lv (B \<union> {(NetServer, p)} \<union> Pair Endpoint ` set hs) p hs rt s"
      "B \<inter> ({(NetServer, p)} \<union> Pair Endpoint ` set hs) = {}" using assms by (auto simp: server_ok_def)
    with serves_objects[OF S(1) Some] show ?thesis by (simp add: serves_def Un_assoc)
  qed
  then show "os_ok lv (B \<union> server_objects sv) s" "B \<inter> server_objects sv = {}" by blast+
qed

text \<open>The others may change, and the log may grow, as long as its own objects stay.\<close>

lemma client_ok_others:
  assumes "client_ok lv B cl s" "os_ok lv (B' \<union> client_objects cl) s'" "B' \<inter> client_objects cl = {}"
  shows "client_ok lv B' cl s'"
  using assms unfolding client_ok_def client_owns_def by blast

lemma server_ok_others:
  assumes ok: "server_ok lv B sv s" and "os_ok lv (B' \<union> server_objects sv) s'" "B' \<inter> server_objects sv = {}"
  shows "server_ok lv B' sv s'"
proof (cases "sv_runtime sv")
  case None
  then show ?thesis using assms by (simp add: server_ok_def server_objects_def)
next
  case (Some rt)
  then obtain p hs where S: "serves lv (B \<union> {(NetServer, p)} \<union> Pair Endpoint ` set hs) p hs rt s" "distinct hs"
    using ok by (auto simp: server_ok_def)
  have "server_objects sv = {(NetServer, p)} \<union> Pair Endpoint ` set hs" by (rule serves_objects[OF S(1) Some])
  with assms(2,3) S Some show ?thesis
    by (auto simp: server_ok_def serves_def Un_assoc intro!: exI[of _ p] exI[of _ hs])
qed

lemma both_ok_client:
  assumes "both_ok lv cl sv s" "client_ok lv (server_objects sv) cl' s'"
  shows "both_ok lv cl' sv s'"
proof -
  note C = client_ok_objects[OF assms(2)]
  have "server_ok lv (client_objects cl') sv s'"
    by (rule server_ok_others[where B = "client_objects cl" and s = s])
      (use assms(1) C in \<open>auto simp: both_ok_def Un_commute\<close>)
  with assms(2) show ?thesis by (simp add: both_ok_def)
qed

lemma both_ok_server:
  assumes "both_ok lv cl sv s" "server_ok lv (client_objects cl) sv' s'"
  shows "both_ok lv cl sv' s'"
proof -
  note C = server_ok_objects[OF assms(2)]
  have "client_ok lv (server_objects sv') cl s'"
    by (rule client_ok_others[where B = "server_objects sv" and s = s])
      (use assms(1) C in \<open>auto simp: both_ok_def Un_commute\<close>)
  with assms(2) show ?thesis by (simp add: both_ok_def)
qed

text \<open>An operation of either.\<close>

lemma client_step_both:
  assumes "client_step feat nm L lv (cl, s) (cl', s')" "lib_ok L lv" "both_ok lv cl sv s"
  shows "both_ok lv cl' sv s'"
  using both_ok_client[OF assms(3)] client_step_ok[OF assms(1,2)] assms(3) by (simp add: both_ok_def)

lemma server_step_both:
  assumes "server_step feat nm L lv (sv, s) (sv', s')" "server_libs_ok L lv" "both_ok lv cl sv s"
  shows "both_ok lv cl sv' s'"
  using both_ok_server[OF assms(3)] server_step_ok[OF assms(1,2)] assms(3) by (simp add: both_ok_def)

section \<open>Every sequence of calls\<close>

inductive process_reachable ::
  "features \<Rightarrow> ('m, 'e) network_message \<Rightarrow> 'w netlib \<Rightarrow> ('w \<Rightarrow> (object \<times> handle) set)
     \<Rightarrow> 'm client \<Rightarrow> 'm server \<Rightarrow> 'w os \<Rightarrow> bool" for feat nm L lv where
  New: "lv w = {} \<Longrightarrow> server_new message_size key server_address server_config t = Inr sv \<Longrightarrow>
    process_reachable feat nm L lv (client_new address config t') sv \<lparr>os_world = w, os_calls = []\<rparr>"
| ClientStep: "process_reachable feat nm L lv cl sv s \<Longrightarrow> client_step feat nm L lv (cl, s) (cl', s') \<Longrightarrow>
    process_reachable feat nm L lv cl' sv s'"
| ServerStep: "process_reachable feat nm L lv cl sv s \<Longrightarrow> server_step feat nm L lv (sv, s) (sv', s') \<Longrightarrow>
    process_reachable feat nm L lv cl sv' s'"

lemma both_new:
  assumes "lv (os_world s) = {}" "os_live s {}" "server_new message_size key server_address server_config t = Inr sv"
  shows "both_ok lv (client_new address config t') sv s"
  using assms by (auto simp: both_ok_def client_ok_def client_owns_def client_objects_def client_new_def os_ok_def
      server_ok_def server_new_def server_objects_def split: if_splits)

lemma process_reachable_ok:
  assumes "process_reachable feat nm L lv cl sv s" "lib_ok L lv" "server_libs_ok L lv"
  shows "both_ok lv cl sv s"
  using assms
proof (induction rule: process_reachable.induct)
  case (New w message_size key server_address server_config t sv address config t')
  then show ?case by (intro both_new) (simp_all add: os_live_def)
next
  case (ClientStep cl sv s cl' s')
  then show ?case using client_step_both by blast
next
  case (ServerStep cl sv s sv' s')
  then show ?case using server_step_both by blast
qed

lemma both_objects:
  assumes "both_ok lv cl sv s"
  shows "os_live s (client_objects cl \<union> server_objects sv)" "client_objects cl \<inter> server_objects sv = {}"
  using server_ok_objects[of lv "client_objects cl" sv s] assms by (simp_all add: both_ok_def os_ok_def)

lemma closed_objects: "client_closed cl \<Longrightarrow> client_objects cl = {}" "\<not> server_running sv \<Longrightarrow> server_objects sv = {}"
  by (simp_all add: client_closed_def client_objects_def server_running_def server_objects_def)


text \<open>A client connecting to a server of the same process; then both are shut down.\<close>

definition demo_process :: "panic + (u64 client \<times> u64 server \<times> demo_world os)" where
  "demo_process =
     rbind (server_start (demo_lib 3 (Some [9])) demo_server 1 demo_start) (\<lambda>(sv, s).
     rbind (client_insecure_connect (demo_lib 3 (Some [9])) demo_client [1, 2, 3] 5 [''127.0.0.1:40000''] s) (\<lambda>(cl, s).
     Inr (cl, sv, s)))"

lemma demo_process_run:
  "case demo_process of Inl _ \<Rightarrow> False | Inr (cl, sv, s) \<Rightarrow>
     (case client_disconnect (demo_lib 3 (Some [9])) cl s of Inl _ \<Rightarrow> False | Inr (cl', s) \<Rightarrow>
        (case server_stop (demo_lib 3 (Some [9])) sv s of Inl _ \<Rightarrow> False | Inr _ \<Rightarrow> True))"
  by code_simp

lemma demo_process_reachable:
  assumes "demo_process = Inr (cl, sv, s)"
  shows "process_reachable feat nm (demo_lib 3 (Some [9])) set cl sv s"
proof -
  obtain s1 where S: "server_start (demo_lib 3 (Some [9])) demo_server 1 demo_start = Inr (sv, s1)"
    "client_insecure_connect (demo_lib 3 (Some [9])) demo_client [1, 2, 3] 5 [''127.0.0.1:40000''] s1 = Inr (cl, s)"
    using assms by (auto simp: demo_process_def rbind_eq_Inr)
  have "server_new 8 [1, 2, 3] ''127.0.0.1:40000'' demo_server_config f64_zero = Inr demo_server"
    by (simp add: server_new_def demo_server_def)
  then have "process_reachable feat nm (demo_lib 3 (Some [9])) set demo_client demo_server demo_start"
    unfolding demo_client_def demo_start_def by (intro process_reachable.New) simp_all
  from process_reachable.ClientStep[OF process_reachable.ServerStep[OF this server_step.Start[OF S(1)]]
      client_step.InsecureConnect[OF S(2)]] show ?thesis .
qed


end
