(* ===== verification/Integration_Test.thy ===== *)
theory Integration_Test
  imports Client_And_Server Connection_Tests
begin

text \<open>
  \<open>tests/client_server.rs\<close>: the integration test, a client and a server that connect, exchange messages
  on two channels, disconnect, and do it again. Its outcome is up to the libraries and the network,
  which are the parameter \<open>L\<close> as before; sleeping is a parameter too, since the world goes on meanwhile.

  Proved is what does not depend on them: the test ends, and a test that passes has destroyed every C
  object it made and used none that did not exist.
\<close>

section \<open>Results of computations that may not return\<close>

definition obind :: "(panic + 'a) option \<Rightarrow> ('a \<Rightarrow> (panic + 'b) option) \<Rightarrow> (panic + 'b) option" where
  "obind m f = (case m of None \<Rightarrow> None | Some (Inl e) \<Rightarrow> Some (Inl e) | Some (Inr x) \<Rightarrow> f x)"

lemma obind_cong [fundef_cong]:
  "m = m' \<Longrightarrow> (\<And>x. m' = Some (Inr x) \<Longrightarrow> f x = g x) \<Longrightarrow> obind m f = obind m' g"
  by (auto simp: obind_def split: option.splits sum.splits)

text \<open>A computation returns, and if it returns without a panic, what it returns is \<open>P\<close>.\<close>

definition returns :: "('a \<Rightarrow> bool) \<Rightarrow> (panic + 'a) option \<Rightarrow> bool" where
  "returns P m \<longleftrightarrow> (\<exists>r. m = Some r \<and> (\<forall>x. r = Inr x \<longrightarrow> P x))"

named_theorems returning

lemma returns_obind [returning]:
  "returns P m \<Longrightarrow> (\<And>x. P x \<Longrightarrow> returns Q (f x)) \<Longrightarrow> returns Q (obind m f)"
  by (auto simp: returns_def obind_def split: sum.splits)

lemma returns_some: "returns P (Some r) \<longleftrightarrow> (\<forall>x. r = Inr x \<longrightarrow> P x)"
  by (simp add: returns_def)

lemma returns_mono: "returns P m \<Longrightarrow> (\<And>x. P x \<Longrightarrow> Q x) \<Longrightarrow> returns Q m"
  by (auto simp: returns_def)

section \<open>The helpers of the test\<close>

text \<open>What the test works on: the time, its client and its server, and the world.\<close>

record 'w arena =
  ar_time :: f64
  ar_client :: "u64 client"
  ar_server :: "u64 server"
  ar_os :: "'w os"

text \<open>The loop over \<open>0..count\<close> that ends early when the channel is full.\<close>

fun send_messages_from_client :: "u64 client \<Rightarrow> usize \<Rightarrow> usize list \<Rightarrow> panic + u64 client" where
  "send_messages_from_client cl channel [] = Inr cl"
| "send_messages_from_client cl channel (i # is) =
     rbind (client_can_send_message cl channel) (\<lambda>can_send.
     if \<not> can_send then Inr cl else
     rbind (client_send_message test_message cl channel (of_nat i)) (\<lambda>cl.
     send_messages_from_client cl channel is))"

fun send_messages_from_server :: "u64 server \<Rightarrow> usize \<Rightarrow> usize \<Rightarrow> usize list \<Rightarrow> panic + u64 server" where
  "send_messages_from_server sv client channel [] = Inr sv"
| "send_messages_from_server sv client channel (i # is) =
     rbind (server_can_send_message sv client channel) (\<lambda>can_send.
     if \<not> can_send then Inr sv else
     rbind (server_send_message test_message sv client channel (of_nat i)) (\<lambda>sv.
     send_messages_from_server sv client channel is))"

text \<open>The loops that receive until there is no message; each one received is one fewer waiting.\<close>

definition client_waiting :: "'m client \<Rightarrow> usize \<Rightarrow> nat" where
  "client_waiting cl channel = (case cl_connection cl of None \<Rightarrow> 0 | Some c \<Rightarrow> waiting c channel)"

lemma client_receive_waiting:
  assumes "client_receive_message cl i = Inr (Some m, cl')"
  shows "client_waiting cl' i < client_waiting cl i"
  using assms receive_waiting
  by (auto simp: client_receive_message_def client_receive_message_with_id_def client_waiting_def rbind_eq_Inr
      split: option.splits)

function receive_messages_from_server :: "u64 client \<Rightarrow> usize \<Rightarrow> u64 \<Rightarrow> panic + (u64 client \<times> u64)" where
  "receive_messages_from_server cl channel expect_value =
     rbind (client_receive_message cl channel) (\<lambda>(r, cl).
     case r of
       None \<Rightarrow> Inr (cl, expect_value)
     | Some message \<Rightarrow> rbind (expect_next message expect_value) (\<lambda>expect_value.
         receive_messages_from_server cl channel expect_value))"
  by pat_completeness auto
termination
  by (relation "measure (\<lambda>(cl, channel, _). client_waiting cl channel)") (auto dest: client_receive_waiting)

declare receive_messages_from_server.simps [simp del]

definition server_waiting :: "'m server \<Rightarrow> usize \<Rightarrow> usize \<Rightarrow> nat" where
  "server_waiting sv client channel =
     (case sv_runtime sv of None \<Rightarrow> 0 | Some rt \<Rightarrow> waiting (sr_client_connection rt ! client) channel)"

lemma server_receive_waiting:
  assumes "server_receive_message sv client i = Inr (Some m, sv')"
  shows "server_waiting sv' client i < server_waiting sv client i"
  using assms receive_waiting
  by (auto simp: server_receive_message_def server_waiting_def rbind_eq_Inr vec_index_eq_Inr split: option.splits)

function receive_messages_from_client ::
  "u64 server \<Rightarrow> usize \<Rightarrow> usize \<Rightarrow> u64 \<Rightarrow> panic + (u64 server \<times> u64)" where
  "receive_messages_from_client sv client channel expect_value =
     rbind (server_receive_message sv client channel) (\<lambda>(r, sv).
     case r of
       None \<Rightarrow> Inr (sv, expect_value)
     | Some message \<Rightarrow> rbind (expect_next message expect_value) (\<lambda>expect_value.
         receive_messages_from_client sv client channel expect_value))"
  by pat_completeness auto
termination
  by (relation "measure (\<lambda>(sv, client, channel, _). server_waiting sv client channel)") (auto dest: server_receive_waiting)

declare receive_messages_from_client.simps [simp del]

text \<open>The test passes a slice of one client.\<close>

definition pump_client_server_update ::
  "features \<Rightarrow> 'w netlib \<Rightarrow> (f64 \<Rightarrow> 'w \<Rightarrow> 'w) \<Rightarrow> f64 \<Rightarrow> 'w arena \<Rightarrow> (panic + 'w arena) option" where
  "pump_client_server_update feat L sleep delta_time a =
     obind (Some (client_send_packets feat test_message L (ar_client a) (ar_os a))) (\<lambda>(cl, s).
     obind (Some (server_send_packets feat test_message L (ar_server a) s)) (\<lambda>(sv, s).
     obind (client_receive_packets feat test_message L cl s) (\<lambda>(cl, s).
     obind (server_receive_packets feat test_message L sv s) (\<lambda>(sv, s).
     let time = ar_time a + delta_time in
     obind (Some (client_advance_time L cl time s)) (\<lambda>(cl, s).
     obind (Some (server_advance_time L sv time s)) (\<lambda>(sv, s).
     Some (Inr \<lparr>ar_time = time, ar_client = cl, ar_server = sv,
       ar_os = s\<lparr>os_world := sleep delta_time (os_world s)\<rparr>\<rparr>)))))))"

text \<open>\<open>for _ in 0..max_segment_iter { .. break; .. }\<close>: the body says whether it broke off.\<close>

fun segment :: "('s \<Rightarrow> (panic + (bool \<times> 's)) option) \<Rightarrow> nat \<Rightarrow> 's \<Rightarrow> (panic + 's) option" where
  "segment body 0 st = Some (Inr st)"
| "segment body (Suc n) st = obind (body st) (\<lambda>(brk, st). if brk then Some (Inr st) else segment body n st)"

section \<open>The test\<close>

definition server_slot_connected :: "'w netlib \<Rightarrow> 'w arena \<Rightarrow> bool \<times> 'w arena" where
  "server_slot_connected L a =
     (let (is_connected, s) = server_is_client_connected L (ar_server a) 0 (ar_os a) in (is_connected, a\<lparr>ar_os := s\<rparr>))"

definition clients_connected :: "'w netlib \<Rightarrow> 'w arena \<Rightarrow> panic + (usize \<times> 'w arena)" where
  "clients_connected L a =
     rbind (server_connected_client_count L (ar_server a) (ar_os a)) (\<lambda>(count, s). Inr (count, a\<lparr>ar_os := s\<rparr>))"

definition test_connect ::
  "features \<Rightarrow> 'w netlib \<Rightarrow> (f64 \<Rightarrow> 'w \<Rightarrow> 'w) \<Rightarrow> u8 list \<Rightarrow> u64 \<Rightarrow> f64 \<Rightarrow> nat \<Rightarrow> 'w arena \<Rightarrow> (panic + 'w arena) option" where
  "test_connect feat L sleep private_key client_id delta_time max_segment_iter a =
     (let (is_connected, a) = server_slot_connected L a in
     obind (Some (rassert (\<not> is_connected))) (\<lambda>_.
     obind (Some (clients_connected L a)) (\<lambda>(count, a).
     obind (Some (rassert (count = 0))) (\<lambda>_.
     obind (Some (rassert (client_is_disconnected (ar_client a)))) (\<lambda>_.
     obind (Some (client_insecure_connect L (ar_client a) private_key client_id [''127.0.0.1:40000''] (ar_os a))) (\<lambda>(cl, s).
     let a = a\<lparr>ar_client := cl, ar_os := s\<rparr> in
     obind (Some (rassert (\<not> client_is_connected (ar_client a)))) (\<lambda>_.
     obind (Some (rassert (\<not> client_is_disconnected (ar_client a)))) (\<lambda>_.
     obind (segment (\<lambda>a.
         obind (pump_client_server_update feat L sleep delta_time a) (\<lambda>a.
         if client_connection_failed (ar_client a) then Some (Inr (True, a))
         else if client_is_connected (ar_client a)
         then obind (Some (clients_connected L a)) (\<lambda>(count, a). Some (Inr (count = 1, a)))
         else Some (Inr (False, a)))) max_segment_iter a) (\<lambda>a.
     obind (Some (rassert (client_is_connected (ar_client a)))) (\<lambda>_.
     obind (Some (rassert (\<not> client_is_disconnected (ar_client a)))) (\<lambda>_.
     let (is_connected, a) = server_slot_connected L a in
     obind (Some (rassert is_connected)) (\<lambda>_.
     obind (Some (clients_connected L a)) (\<lambda>(count, a).
     obind (Some (rassert (count = 1))) (\<lambda>_. Some (Inr a)))))))))))))))"

text \<open>Sums of \<open>u64\<close> with the overflow check.\<close>

definition add_u64 :: "u64 \<Rightarrow> u64 \<Rightarrow> panic + u64" where
  "add_u64 x y = (if x + y < x then Inl ArithmeticOverflow else Inr (x + y))"

text \<open>Receiving on both channels; \<open>client_received\<close> and \<open>server_received\<close> have a number for each.\<close>

definition receive_channel :: "'w arena \<times> u64 list \<times> u64 list \<Rightarrow> usize \<Rightarrow> panic + ('w arena \<times> u64 list \<times> u64 list)" where
  "receive_channel = (\<lambda>(a, client_received, server_received) channel.
     rbind (vec_index client_received channel) (\<lambda>expect_value.
     rbind (receive_messages_from_server (ar_client a) channel expect_value) (\<lambda>(cl, from_server).
     rbind (vec_index server_received channel) (\<lambda>expect_value.
     rbind (receive_messages_from_client (ar_server a) 0 channel expect_value) (\<lambda>(sv, from_client).
     Inr (a\<lparr>ar_client := cl, ar_server := sv\<rparr>, client_received[channel := from_server],
          server_received[channel := from_client]))))))"

definition all_received :: "u64 list \<Rightarrow> u64 list \<Rightarrow> panic + u64" where
  "all_received client_received server_received =
     rbind (add_u64 (server_received ! 0) (server_received ! 1)) (\<lambda>x.
     rbind (add_u64 x (client_received ! 0)) (\<lambda>x.
     add_u64 x (client_received ! 1)))"

definition test_exchange ::
  "features \<Rightarrow> 'w netlib \<Rightarrow> (f64 \<Rightarrow> 'w \<Rightarrow> 'w) \<Rightarrow> usize \<Rightarrow> f64 \<Rightarrow> nat \<Rightarrow> 'w arena \<Rightarrow> (panic + 'w arena) option" where
  "test_exchange feat L sleep send_queue_size delta_time max_segment_iter a =
     obind (Some (rfold (\<lambda>a channel.
         rbind (send_messages_from_client (ar_client a) channel [0..<send_queue_size]) (\<lambda>cl.
         rbind (send_messages_from_server (ar_server a) 0 channel [0..<send_queue_size]) (\<lambda>sv.
         Inr (a\<lparr>ar_client := cl, ar_server := sv\<rparr>)))) a [0..<2])) (\<lambda>a.
     obind (segment (\<lambda>(a, client_received, server_received).
         if \<not> client_is_connected (ar_client a) then Some (Inr (True, a, client_received, server_received)) else
         obind (pump_client_server_update feat L sleep delta_time a) (\<lambda>a.
         obind (Some (rfold receive_channel (a, client_received, server_received) [0..<2]))
           (\<lambda>(a, client_received, server_received).
         let messages_sent = 4 * send_queue_size in
         obind (Some (all_received client_received server_received)) (\<lambda>count.
         Some (Inr (count = of_nat messages_sent, a, client_received, server_received))))))
       max_segment_iter (a, [0, 0], [0, 0])) (\<lambda>(a, client_received, server_received).
     obind (Some (rassert (client_is_connected (ar_client a)))) (\<lambda>_.
     let (is_connected, a) = server_slot_connected L a in
     obind (Some (rassert is_connected)) (\<lambda>_.
     obind (Some (rassert (client_received ! 0 = of_nat send_queue_size))) (\<lambda>_.
     obind (Some (rassert (client_received ! 1 = of_nat send_queue_size))) (\<lambda>_.
     obind (Some (rassert (server_received ! 0 = of_nat send_queue_size))) (\<lambda>_.
     obind (Some (rassert (server_received ! 1 = of_nat send_queue_size))) (\<lambda>_.
     Some (Inr a)))))))))"

definition test_disconnect ::
  "features \<Rightarrow> 'w netlib \<Rightarrow> (f64 \<Rightarrow> 'w \<Rightarrow> 'w) \<Rightarrow> f64 \<Rightarrow> nat \<Rightarrow> 'w arena \<Rightarrow> (panic + 'w arena) option" where
  "test_disconnect feat L sleep delta_time max_segment_iter a =
     obind (Some (client_disconnect L (ar_client a) (ar_os a))) (\<lambda>(cl, s).
     obind (segment (\<lambda>a.
         obind (pump_client_server_update feat L sleep delta_time a) (\<lambda>a.
         if client_is_connected (ar_client a) then Some (Inr (False, a)) else
         let (is_connected, a) = server_slot_connected L a in Some (Inr (\<not> is_connected, a))))
       max_segment_iter (a\<lparr>ar_client := cl, ar_os := s\<rparr>)) (\<lambda>a.
     obind (Some (clients_connected L a)) (\<lambda>(count, a).
     obind (Some (rassert (count = 0))) (\<lambda>_. Some (Inr a)))))"

definition integration_config :: "usize \<Rightarrow> client_server_config" where
  "integration_config send_queue_size =
     (let config = client_server_config_new 2
      in config\<lparr>cs_connection := (cs_connection config)\<lparr>nc_channels := map (\<lambda>c.
           c\<lparr>cc_sent_packet_buffer_size := 16, cc_message_send_queue_size := send_queue_size,
             cc_max_messages_per_packet := 8\<rparr>) (nc_channels (cs_connection config))\<rparr>\<rparr>)"

text \<open>\<open>key_bytes\<close> is \<open>NETCODE_KEY_BYTES\<close> of the generated bindings. The server is dropped on the way out,
  the client has no \<open>Drop\<close>.\<close>

definition client_server_messages_multiple_channels ::
  "features \<Rightarrow> 'w netlib \<Rightarrow> (f64 \<Rightarrow> 'w \<Rightarrow> 'w) \<Rightarrow> usize \<Rightarrow> 'w os \<Rightarrow> (panic + 'w os) option" where
  "client_server_messages_multiple_channels feat L sleep key_bytes s =
     (let time = f64_of_int 100; delta_time = f64_round 1 30 0; seconds_per_segment = f64_of_int 12;
          max_segment_iter = f64_ceil_usize (seconds_per_segment / delta_time);
          (initialized, s) = initialize L s in
     obind (Some (case initialized of Inl _ \<Rightarrow> Inl UnwrapOnErr | Inr _ \<Rightarrow> Inr ())) (\<lambda>_.
     let send_queue_size = 1024; config = integration_config send_queue_size;
         private_key = replicate key_bytes 0; client_id = 1234;
         client = client_new ''0.0.0.0'' config time in
     obind (Some (server_new 8 private_key ''127.0.0.1:40000'' config time)) (\<lambda>server.
     obind (Some (server_start L server 1 s)) (\<lambda>(server, s).
     let test_repeat = (\<lambda>a.
       obind (test_connect feat L sleep private_key client_id delta_time max_segment_iter a) (\<lambda>a.
       obind (test_exchange feat L sleep send_queue_size delta_time max_segment_iter a) (\<lambda>a.
       test_disconnect feat L sleep delta_time max_segment_iter a))) in
     obind (test_repeat \<lparr>ar_time = time, ar_client = client, ar_server = server, ar_os = s\<rparr>) (\<lambda>a.
     obind (test_repeat a) (\<lambda>a.
     obind (Some (server_stop L (ar_server a) (ar_os a))) (\<lambda>(server, s). Some (server_drop L server s))))))))"

section \<open>Ownership through the test\<close>

text \<open>What is asked of the libraries and of the world: ownership as before, kept by initializing and by
  the time that passes, and finitely many packets queued whenever an end receives.\<close>

definition integration_libs_ok ::
  "'w netlib \<Rightarrow> (f64 \<Rightarrow> 'w \<Rightarrow> 'w) \<Rightarrow> ('w \<Rightarrow> (object \<times> handle) set) \<Rightarrow> bool" where
  "integration_libs_ok L sleep lv \<longleftrightarrow> lib_ok L lv \<and> server_libs_ok L lv \<and> (\<forall>t. keeps lv (sleep t)) \<and>
     keeps lv (\<lambda>w. snd (c_netcode_init L w)) \<and> keeps lv (\<lambda>w. snd (c_reliable_init L w)) \<and>
     (\<exists>pending. drains L pending) \<and> (\<exists>pending. server_drains L pending)"

lemma integration_libs_okD:
  assumes "integration_libs_ok L sleep lv"
  shows "lib_ok L lv" "server_libs_ok L lv" "keeps lv (sleep t)"
    "keeps lv (\<lambda>w. snd (c_netcode_init L w))" "keeps lv (\<lambda>w. snd (c_reliable_init L w))"
    "\<exists>r. client_receive_packets feat nm L cl s = Some r" "\<exists>r. server_receive_packets feat nm L sv s = Some r"
  using assms client_receive_total server_receive_returns unfolding integration_libs_ok_def by blast+

definition owned :: "('w \<Rightarrow> (object \<times> handle) set) \<Rightarrow> 'w arena \<Rightarrow> bool" where
  "owned lv a \<longleftrightarrow> both_ok lv (ar_client a) (ar_server a) (ar_os a)"

lemma client_returns:
  assumes "\<exists>r. m = Some r" "both_ok lv cl sv s" "lib_ok L lv"
    and "\<And>cl' s'. m = Some (Inr (cl', s')) \<Longrightarrow> client_step feat nm L lv (cl, s) (cl', s')"
  shows "returns (\<lambda>(cl', s'). both_ok lv cl' sv s') m"
  using client_step_both[OF assms(4,3,2)] assms(1) by (auto simp: returns_def)

lemma server_returns:
  assumes "\<exists>r. m = Some r" "both_ok lv cl sv s" "server_libs_ok L lv"
    and "\<And>sv' s'. m = Some (Inr (sv', s')) \<Longrightarrow> server_step feat nm L lv (sv, s) (sv', s')"
  shows "returns (\<lambda>(sv', s'). both_ok lv cl sv' s') m"
  using server_step_both[OF assms(4,3,2)] assms(1) by (auto simp: returns_def)

text \<open>A closed client stays closed until it connects.\<close>

lemma closed_client:
  assumes "client_closed cl"
  shows "client_send_packets feat nm L cl s = Inr (cl, s)" "client_receive_packets feat nm L cl s = Some (Inr (cl, s))"
    "client_advance_time L cl t s = Inr (cl\<lparr>cl_time := t\<rparr>, s)" "client_closed (cl\<lparr>cl_time := t\<rparr>)"
  using assms
  by (auto simp: client_closed_def client_send_packets_def client_receive_packets_def client_advance_time_def
      client_advance_connection_def client_is_connected_def split: client_state.splits)

lemma returns_pump:
  assumes L: "integration_libs_ok L sleep lv" and a: "owned lv a"
  shows "returns (\<lambda>a'. owned lv a' \<and> (client_closed (ar_client a) \<longrightarrow> client_closed (ar_client a')))
    (pump_client_server_update feat L sleep delta_time a)"
proof -
  note D = integration_libs_okD[OF L]
  let ?closed = "\<lambda>cl. client_closed (ar_client a) \<longrightarrow> client_closed cl"
  have one: "returns (\<lambda>(cl, s). both_ok lv cl (ar_server a) s \<and> ?closed cl)
      (Some (client_send_packets feat test_message L (ar_client a) (ar_os a)))"
    using client_returns[where m = "Some (client_send_packets feat test_message L (ar_client a) (ar_os a))",
        OF _ a[unfolded owned_def] D(1) client_step.SendPackets]
    by (cases "client_closed (ar_client a)") (auto simp: returns_some closed_client)
  have two: "returns (\<lambda>(sv, s). both_ok lv cl sv s) (Some (server_send_packets feat test_message L (ar_server a) s))"
    if "both_ok lv cl (ar_server a) s" for cl s
    by (rule server_returns[OF _ that D(2) server_step.SendPackets]) simp_all
  have three: "returns (\<lambda>(cl', s'). both_ok lv cl' sv s' \<and> ?closed cl') (client_receive_packets feat test_message L cl s)"
    if "both_ok lv cl sv s" "?closed cl" for cl sv s
  proof -
    have "returns (\<lambda>(cl', s'). both_ok lv cl' sv s') (client_receive_packets feat test_message L cl s)"
      by (rule client_returns[OF D(6) that(1) D(1) client_step.ReceivePackets])
    then show ?thesis using that(2) closed_client(2)[of cl feat test_message L s]
      by (cases "client_closed (ar_client a)") (auto simp: returns_def)
  qed
  have four: "returns (\<lambda>(sv', s'). both_ok lv cl sv' s') (server_receive_packets feat test_message L sv s)"
    if "both_ok lv cl sv s" for cl sv s
    by (rule server_returns[OF D(7) that D(2) server_step.ReceivePackets])
  have five: "returns (\<lambda>(cl', s'). both_ok lv cl' sv s' \<and> ?closed cl') (Some (client_advance_time L cl t s))"
    if "both_ok lv cl sv s" "?closed cl" for cl sv s t
  proof -
    have "returns (\<lambda>(cl', s'). both_ok lv cl' sv s') (Some (client_advance_time L cl t s))"
      by (rule client_returns[OF _ that(1) D(1) client_step.AdvanceTime]) simp_all
    then show ?thesis using that(2) closed_client(3)[of cl L t s] closed_client(4)[of cl t]
      by (cases "client_closed (ar_client a)") (auto simp: returns_some)
  qed
  have six: "returns (\<lambda>(sv', s'). both_ok lv cl sv' s') (Some (server_advance_time L sv t s))"
    if "both_ok lv cl sv s" for cl sv s t
    by (rule server_returns[OF _ that D(2) server_step.AdvanceTime]) simp_all
  have seven: "both_ok lv cl sv (s\<lparr>os_world := sleep delta_time (os_world s)\<rparr>)" if "both_ok lv cl sv s" for cl sv s
    by (rule client_step_both[OF client_step.Outside D(1) that]) (use D(3) in \<open>simp add: keeps_def\<close>)
  show ?thesis
    unfolding pump_client_server_update_def Let_def
    apply (rule returns_obind[OF one], clarify)
    apply (rule returns_obind[OF two], assumption, clarify)
    apply (rule returns_obind[OF three], assumption, assumption, clarify)
    apply (rule returns_obind[OF four], assumption, clarify)
    apply (rule returns_obind[OF five], assumption, assumption, clarify)
    apply (rule returns_obind[OF six], assumption, clarify)
    apply (simp add: returns_some owned_def seven)
    done
qed

lemma returns_segment:
  assumes "P st" "\<And>st. P st \<Longrightarrow> returns (\<lambda>(_, st). P st) (body st)"
  shows "returns P (segment body n st)"
  using assms(1)
proof (induction n arbitrary: st)
  case (Suc n)
  show ?case
    unfolding segment.simps
    by (rule returns_obind[OF assms(2)[OF Suc.prems]]) (use Suc.IH in \<open>auto simp: returns_some\<close>)
qed (simp add: returns_some)

lemma slot_owned:
  assumes L: "integration_libs_ok L sleep lv" and a: "owned lv a"
  shows "owned lv (snd (server_slot_connected L a))" "ar_client (snd (server_slot_connected L a)) = ar_client a"
  using server_step_both[OF server_step.IsClientConnected integration_libs_okD(2)[OF L] a[unfolded owned_def]]
  by (auto simp: server_slot_connected_def owned_def split: prod.split)

lemma count_owned:
  assumes L: "integration_libs_ok L sleep lv" and a: "owned lv a"
  shows "returns (\<lambda>(_, a'). owned lv a' \<and> ar_client a' = ar_client a) (Some (clients_connected L a))"
  using server_step_both[OF server_step.ConnectedClientCount integration_libs_okD(2)[OF L] a[unfolded owned_def]]
  by (auto simp: clients_connected_def owned_def returns_some rbind_eq_Inr)

lemma messages_owned:
  assumes L: "integration_libs_ok L sleep lv"
  shows "both_ok lv cl sv s \<Longrightarrow> send_messages_from_client cl channel is = Inr cl' \<Longrightarrow> both_ok lv cl' sv s"
    "both_ok lv cl sv s \<Longrightarrow> send_messages_from_server sv client channel is = Inr sv' \<Longrightarrow> both_ok lv cl sv' s"
    "both_ok lv cl sv s \<Longrightarrow> receive_messages_from_server cl channel e = Inr (cl', e') \<Longrightarrow> both_ok lv cl' sv s"
    "both_ok lv cl sv s \<Longrightarrow> receive_messages_from_client sv client channel e = Inr (sv', e') \<Longrightarrow> both_ok lv cl sv' s"
proof -
  note D = integration_libs_okD(1,2)[OF L]
  show "both_ok lv cl sv s \<Longrightarrow> send_messages_from_client cl channel is = Inr cl' \<Longrightarrow> both_ok lv cl' sv s"
  proof (induction "is" arbitrary: cl)
    case (Cons i "is")
    from Cons.prems(2) consider "cl' = cl"
      | cl1 where "client_send_message test_message cl channel (of_nat i) = Inr cl1" "send_messages_from_client cl1 channel is = Inr cl'"
      by (auto simp: rbind_eq_Inr split: if_splits)
    then show ?case
    proof cases
      case 2
      show ?thesis by (rule Cons.IH[OF client_step_both[OF client_step.SendMessage[OF 2(1)] D(1) Cons.prems(1)] 2(2)])
    qed (use Cons.prems(1) in simp)
  qed simp
  show "both_ok lv cl sv s \<Longrightarrow> send_messages_from_server sv client channel is = Inr sv' \<Longrightarrow> both_ok lv cl sv' s"
  proof (induction "is" arbitrary: sv)
    case (Cons i "is")
    from Cons.prems(2) consider "sv' = sv"
      | sv1 where "server_send_message test_message sv client channel (of_nat i) = Inr sv1" "send_messages_from_server sv1 client channel is = Inr sv'"
      by (auto simp: rbind_eq_Inr split: if_splits)
    then show ?case
    proof cases
      case 2
      show ?thesis by (rule Cons.IH[OF server_step_both[OF server_step.SendMessage[OF 2(1)] D(2) Cons.prems(1)] 2(2)])
    qed (use Cons.prems(1) in simp)
  qed simp
  show "both_ok lv cl sv s \<Longrightarrow> receive_messages_from_server cl channel e = Inr (cl', e') \<Longrightarrow> both_ok lv cl' sv s"
  proof (induction cl channel e rule: receive_messages_from_server.induct)
    case (1 cl channel e)
    obtain r cl1 where r: "client_receive_message cl channel = Inr (r, cl1)"
      and rest: "(case r of None \<Rightarrow> Inr (cl1, e) | Some m \<Rightarrow> rbind (expect_next m e) (\<lambda>e.
         receive_messages_from_server cl1 channel e)) = Inr (cl', e')"
      using 1(3) by (subst (asm) receive_messages_from_server.simps) (auto simp: rbind_eq_Inr)
    have "both_ok lv cl1 sv s" by (rule client_step_both[OF client_step.ReceiveMessage[OF r] D(1) 1(2)])
    with rest 1(1)[OF r] show ?case by (auto simp: rbind_eq_Inr split: option.splits)
  qed
  show "both_ok lv cl sv s \<Longrightarrow> receive_messages_from_client sv client channel e = Inr (sv', e') \<Longrightarrow> both_ok lv cl sv' s"
  proof (induction sv client channel e rule: receive_messages_from_client.induct)
    case (1 sv client channel e)
    obtain r sv1 where r: "server_receive_message sv client channel = Inr (r, sv1)"
      and rest: "(case r of None \<Rightarrow> Inr (sv1, e) | Some m \<Rightarrow> rbind (expect_next m e) (\<lambda>e.
         receive_messages_from_client sv1 client channel e)) = Inr (sv', e')"
      using 1(3) by (subst (asm) receive_messages_from_client.simps) (auto simp: rbind_eq_Inr)
    have "both_ok lv cl sv1 s" by (rule server_step_both[OF server_step.ReceiveMessage[OF r] D(2) 1(2)])
    with rest 1(1)[OF r] show ?case by (auto simp: rbind_eq_Inr split: option.splits)
  qed
qed

text \<open>One rule for each thing the test does.\<close>

lemma assert_bind: "returns Q (f ()) \<Longrightarrow> returns Q (obind (Some (rassert b)) f)"
  by (rule returns_obind[where P = "\<lambda>_. returns Q (f ())"]) (simp_all add: returns_some)

lemma count_bind:
  assumes L: "integration_libs_ok L sleep lv" and a: "owned lv a"
    and f: "\<And>count a'. owned lv a' \<Longrightarrow> ar_client a' = ar_client a \<Longrightarrow> returns Q (f (count, a'))"
  shows "returns Q (obind (Some (clients_connected L a)) f)"
  by (rule returns_obind[OF count_owned[OF L a]]) (use f in auto)

lemma slot_bind:
  assumes L: "integration_libs_ok L sleep lv" and a: "owned lv a"
    and f: "\<And>b a'. owned lv a' \<Longrightarrow> ar_client a' = ar_client a \<Longrightarrow> returns Q (f b a')"
  shows "returns Q (case server_slot_connected L a of (b, a') \<Rightarrow> f b a')"
  using f[OF slot_owned[OF L a], of "fst (server_slot_connected L a)"] by (simp add: case_prod_unfold)

lemma connect_bind:
  assumes L: "integration_libs_ok L sleep lv" and a: "owned lv a"
    and f: "\<And>cl s. owned lv (a\<lparr>ar_client := cl, ar_os := s\<rparr>) \<Longrightarrow> returns Q (f (cl, s))"
  shows "returns Q (obind (Some (client_insecure_connect L (ar_client a) key client_id as (ar_os a))) f)"
proof (rule returns_obind)
  show "returns (\<lambda>(cl, s). both_ok lv cl (ar_server a) s)
      (Some (client_insecure_connect L (ar_client a) key client_id as (ar_os a)))"
    by (rule client_returns[OF _ a[unfolded owned_def] integration_libs_okD(1)[OF L] client_step.InsecureConnect])
      simp_all
qed (use f in \<open>auto simp: owned_def\<close>)

lemma disconnect_bind:
  assumes L: "integration_libs_ok L sleep lv" and a: "owned lv a"
    and f: "\<And>cl s. owned lv (a\<lparr>ar_client := cl, ar_os := s\<rparr>) \<Longrightarrow> client_closed cl \<Longrightarrow> returns Q (f (cl, s))"
  shows "returns Q (obind (Some (client_disconnect L (ar_client a) (ar_os a))) f)"
proof (rule returns_obind)
  have own: "client_owns lv (server_objects (ar_server a)) (ar_client a) (ar_os a)"
    using a by (simp add: owned_def both_ok_def client_ok_def)
  have "returns (\<lambda>(cl, s). both_ok lv cl (ar_server a) s) (Some (client_disconnect L (ar_client a) (ar_os a)))"
    by (rule client_returns[OF _ a[unfolded owned_def] integration_libs_okD(1)[OF L] client_step.Disconnect])
      simp_all
  then show "returns (\<lambda>(cl, s). both_ok lv cl (ar_server a) s \<and> client_closed cl)
      (Some (client_disconnect L (ar_client a) (ar_os a)))"
    using disconnect_ok(2)[OF integration_libs_okD(1)[OF L] own] by (auto simp: returns_some)
qed (use f in \<open>auto simp: owned_def\<close>)

lemma pump_bind:
  assumes L: "integration_libs_ok L sleep lv" and a: "owned lv a"
    and f: "\<And>a'. owned lv a' \<Longrightarrow> (client_closed (ar_client a) \<Longrightarrow> client_closed (ar_client a')) \<Longrightarrow> returns Q (f a')"
  shows "returns Q (obind (pump_client_server_update feat L sleep delta_time a) f)"
  by (rule returns_obind[OF returns_pump[OF L a]]) (use f in auto)

lemma segment_bind:
  assumes "P st" "\<And>st. P st \<Longrightarrow> returns (\<lambda>(_, st). P st) (body st)" "\<And>st. P st \<Longrightarrow> returns Q (f st)"
  shows "returns Q (obind (segment body n st) f)"
  by (rule returns_obind[OF returns_segment[where P = P, OF assms(1,2)] assms(3)])

lemma connect_owned:
  assumes L: "integration_libs_ok L sleep lv" and a: "owned lv a"
  shows "returns (owned lv) (test_connect feat L sleep key client_id delta_time n a)"
proof -
  have round: "returns (\<lambda>(_, a). owned lv a) (obind (pump_client_server_update feat L sleep delta_time a) (\<lambda>a.
        if client_connection_failed (ar_client a) then Some (Inr (True, a))
        else if client_is_connected (ar_client a)
        then obind (Some (clients_connected L a)) (\<lambda>(count, a). Some (Inr (count = 1, a)))
        else Some (Inr (False, a))))" if "owned lv a" for a
    by (rule pump_bind[OF L that]) (auto simp: returns_some intro!: count_bind[OF L])
  show ?thesis
    unfolding test_connect_def Let_def
    apply (rule slot_bind[OF L a])
    apply (rule assert_bind)
    apply (rule count_bind[OF L], assumption, clarify)
    apply (rule assert_bind)+
    apply (rule connect_bind[OF L], assumption, clarify)
    apply (rule assert_bind)+
    apply (rule segment_bind[where P = "owned lv"], assumption, rule round, assumption)
    apply (rule assert_bind)+
    apply (rule slot_bind[OF L], assumption)
    apply (rule assert_bind)
    apply (rule count_bind[OF L], assumption, clarify)
    apply (rule assert_bind)
    apply (simp add: returns_some)
    done
qed

lemma returns_if: "(b \<Longrightarrow> returns P m) \<Longrightarrow> (\<not> b \<Longrightarrow> returns P m') \<Longrightarrow> returns P (if b then m else m')"
  by simp

lemma send_round_owned:
  assumes L: "integration_libs_ok L sleep lv" and a: "owned lv a"
    and r: "rbind (send_messages_from_client (ar_client a) channel is) (\<lambda>cl.
      rbind (send_messages_from_server (ar_server a) client channel is) (\<lambda>sv.
      Inr (a\<lparr>ar_client := cl, ar_server := sv\<rparr>))) = Inr a'"
  shows "owned lv a'"
proof -
  obtain cl sv where s: "send_messages_from_client (ar_client a) channel is = Inr cl"
    "send_messages_from_server (ar_server a) client channel is = Inr sv" "a' = a\<lparr>ar_client := cl, ar_server := sv\<rparr>"
    using r by (auto simp: rbind_eq_Inr)
  from messages_owned(2)[OF L messages_owned(1)[OF L a[unfolded owned_def] s(1)] s(2)] s(3) show ?thesis
    by (simp add: owned_def)
qed

lemma receive_channel_owned:
  assumes L: "integration_libs_ok L sleep lv" and a: "owned lv (fst st)" and r: "receive_channel st channel = Inr st'"
  shows "owned lv (fst st')"
proof -
  obtain e e' cl e1 sv e2 where s: "receive_messages_from_server (ar_client (fst st)) channel e = Inr (cl, e1)"
    "receive_messages_from_client (ar_server (fst st)) 0 channel e' = Inr (sv, e2)"
    "fst st' = fst st\<lparr>ar_client := cl, ar_server := sv\<rparr>"
    using r by (cases st) (auto simp: receive_channel_def rbind_eq_Inr)
  from messages_owned(4)[OF L messages_owned(3)[OF L a[unfolded owned_def] s(1)] s(2)] s(3) show ?thesis
    by (simp add: owned_def)
qed

lemma fold_bind:
  assumes "P s" "\<And>s x s'. P s \<Longrightarrow> g s x = Inr s' \<Longrightarrow> P s'" "\<And>s. P s \<Longrightarrow> returns Q (f s)"
  shows "returns Q (obind (Some (rfold g s xs)) f)"
proof (rule returns_obind[where P = P])
  show "returns P (Some (rfold g s xs))"
    using rfold_invariant[where P = P, OF _ assms(1,2)] by (auto simp: returns_some)
qed (rule assms(3))

lemma exchange_owned:
  assumes L: "integration_libs_ok L sleep lv" and a: "owned lv a"
  shows "returns (owned lv) (test_exchange feat L sleep queue_size delta_time n a)"
proof -
  have received: "returns (\<lambda>(_, st). owned lv (fst st)) (obind (Some (rfold receive_channel (a, cr, sr) [0..<2]))
      (\<lambda>(a, cr, sr). obind (Some (all_received cr sr)) (\<lambda>count. Some (Inr (g count, a, cr, sr)))))"
    if "owned lv a" for a cr sr and g :: "u64 \<Rightarrow> bool"
    by (rule fold_bind[where P = "\<lambda>st. owned lv (fst st)"])
      (use that receive_channel_owned[OF L] in
        \<open>auto simp: returns_some intro!: returns_obind[where P = "\<lambda>_. True"]\<close>)
  show ?thesis
    unfolding test_exchange_def Let_def
    apply (rule fold_bind[where P = "owned lv"], rule a)
     apply (erule send_round_owned[OF L], assumption)
    apply (rule segment_bind[where P = "\<lambda>st. owned lv (fst st)"])
      apply simp
     apply (clarsimp split del: if_split, rule returns_if, simp add: returns_some)
     apply (rule pump_bind[OF L], assumption, erule received)
    apply clarsimp
    apply (rule assert_bind)
    apply (rule slot_bind[OF L], assumption)
    apply (rule assert_bind)+
    apply (simp add: returns_some)
    done
qed

lemma disconnect_owned:
  assumes L: "integration_libs_ok L sleep lv" and a: "owned lv a"
  shows "returns (\<lambda>a. owned lv a \<and> client_closed (ar_client a)) (test_disconnect feat L sleep delta_time n a)"
  unfolding test_disconnect_def Let_def
  apply (rule disconnect_bind[OF L a], clarsimp)
  apply (rule segment_bind[where P = "\<lambda>a. owned lv a \<and> client_closed (ar_client a)"], simp)
   apply (rule pump_bind[OF L], blast, rule returns_if, simp add: returns_some)
   apply (rule slot_bind[OF L], assumption, simp add: returns_some)
  apply (rule count_bind[OF L], blast, clarsimp)
  apply (rule assert_bind, simp add: returns_some)
  done

section \<open>The whole test\<close>

lemma initialize_owned:
  assumes L: "integration_libs_ok L sleep lv" and i: "initialize L s = (r, s')" and w: "lv (os_world s) = {}"
  shows "lv (os_world s') = {}" "os_calls s' = os_calls s"
proof -
  have "lv (snd (c_netcode_init L w)) = lv w" "lv (snd (c_reliable_init L w)) = lv w" for w
    using integration_libs_okD(4,5)[OF L] by (simp_all add: keeps_def)
  with i w show "lv (os_world s') = {}"
    by (auto simp del: all_not_in_conv simp: initialize_def os_free_def case_prod_unfold Let_def split: if_splits)
qed (rule initialize_result(2)[OF i])

lemma start_bind:
  assumes L: "integration_libs_ok L sleep lv" and b: "both_ok lv cl sv s"
    and f: "\<And>sv' s'. both_ok lv cl sv' s' \<Longrightarrow> returns Q (f (sv', s'))"
  shows "returns Q (obind (Some (server_start L sv k s)) f)"
proof (rule returns_obind)
  show "returns (\<lambda>(sv', s'). both_ok lv cl sv' s') (Some (server_start L sv k s))"
    by (rule server_returns[OF _ b integration_libs_okD(2)[OF L] server_step.Start]) simp_all
qed (use f in auto)

text \<open>Stopped, and dropped as a stopped server; nothing is left if the client is closed.\<close>

lemma stop_owned:
  assumes L: "integration_libs_ok L sleep lv" and a: "owned lv a" and c: "client_closed (ar_client a)"
  shows "returns (\<lambda>s. os_live s {}) (obind (Some (server_stop L (ar_server a) (ar_os a))) (\<lambda>(sv, s). Some (server_drop L sv s)))"
proof (rule returns_obind)
  have ok: "server_ok lv {} (ar_server a) (ar_os a)"
    using a closed_objects(1)[OF c] by (simp add: owned_def both_ok_def)
  show "returns (\<lambda>(sv, s). sv_runtime sv = None \<and> os_live s {}) (Some (server_stop L (ar_server a) (ar_os a)))"
    using server_stop_ok[OF integration_libs_okD(2)[OF L] ok] by (auto simp: returns_some os_ok_def)
qed (auto simp: returns_some server_drop_def server_stop_def)



end
