(* ===== verification/Examples.thy ===== *)
theory Examples
  imports Integration_Test
begin

text \<open>
  \<open>examples/client.rs\<close>, \<open>examples/server.rs\<close> with \<open>examples/common/mod.rs\<close>, and \<open>examples/raw_client.rs\<close>, a
  client over the bindings alone. They read the random numbers of netcode, sleep, and stop on Ctrl-C; that is the
  parameter \<open>A\<close>, and the round in which Ctrl-C is there is an argument: a run that ends by itself is
  one with a later round. What they print is left out, except for what the client prints of the special message.

  Proved is that they end when Ctrl-C is pressed, if not before, and what C objects they leave: none,
  but the raw client leaves its client when no connect token can be generated.
\<close>

section \<open>The messages\<close>

type_synonym i32 = "32 word"

record test_message_struct =
  tm_value :: string
  tm_supplmentary_value :: i32

text \<open>They are written by \<open>bincode\<close>, so the codec is a parameter.\<close>

datatype test_messages = IntMessage i32 | FloatMessage f32 | StructMessage test_message_struct

definition special_message_string :: string where
  "special_message_string = ''server got the special message''"

section \<open>What the programs use besides\<close>

record 'w app =
  app_random_bytes :: "nat \<Rightarrow> 'w \<Rightarrow> u8 list \<times> 'w"
  app_set_handler :: "'w \<Rightarrow> bool \<times> 'w"
  app_sleep :: "f64 \<Rightarrow> 'w \<Rightarrow> 'w"
  app_key_bytes :: usize

text \<open>\<open>ctrlc::set_handler(..).expect(..)\<close>.\<close>

definition set_ctrlc_handler :: "'w app \<Rightarrow> 'w os \<Rightarrow> panic + 'w os" where
  "set_ctrlc_handler A s = (let (ok, s) = os_free (app_set_handler A) s in if ok then Inr s else Inl UnwrapOnErr)"

definition app_wait :: "'w app \<Rightarrow> f64 \<Rightarrow> 'w os \<Rightarrow> 'w os" where
  "app_wait A t s = s\<lparr>os_world := app_sleep A t (os_world s)\<rparr>"

section \<open>The client\<close>

text \<open>\<open>handle_special_message\<close> returns the number it prints.\<close>

definition handle_special_message :: "test_messages client \<Rightarrow> panic + (i32 option \<times> test_messages client)" where
  "handle_special_message cl =
     rbind (client_receive_message cl 1) (\<lambda>(r, cl).
     Inr (case r of
            Some (StructMessage message) \<Rightarrow>
              (if tm_value message = special_message_string then Some (tm_supplmentary_value message) else None)
          | _ \<Rightarrow> None, cl))"

text \<open>\<open>3.14159\<close> as an \<open>f32\<close>.\<close>

definition third_value :: f32 where
  "third_value = Fin 13176784 (- 22)"

definition send_first_messages ::
  "(test_messages, 'e) network_message \<Rightarrow> f64 \<Rightarrow> nat \<Rightarrow> test_messages client \<Rightarrow> panic + (nat \<times> test_messages client)" where
  "send_first_messages nm time sent cl =
     (if time > f64_of_int 20 \<and> sent = 0 then
        rbind (client_send_message nm cl 0 (StructMessage \<lparr>tm_value = ''hello world!'', tm_supplmentary_value = 42\<rparr>))
          (\<lambda>cl. Inr (sent + 1, cl))
      else if time > f64_of_int 40 \<and> sent = 1 then
        rbind (client_send_message nm cl 0 (IntMessage 2015)) (\<lambda>cl. Inr (sent + 1, cl))
      else if time > f64_of_int 60 \<and> sent = 2 then
        rbind (client_send_message nm cl 0 (FloatMessage third_value)) (\<lambda>cl. Inr (sent + 1, cl))
      else Inr (sent, cl))"

text \<open>The loop, with the number of rounds before Ctrl-C.\<close>

fun client_loop ::
  "features \<Rightarrow> (test_messages, 'e) network_message \<Rightarrow> 'w netlib \<Rightarrow> 'w app \<Rightarrow> f64 \<Rightarrow> nat \<Rightarrow> f64 \<Rightarrow> nat
     \<Rightarrow> test_messages client \<Rightarrow> 'w os \<Rightarrow> (panic + (test_messages client \<times> 'w os)) option" where
  "client_loop feat nm L A delta_time 0 time sent cl s = Some (Inr (cl, s))"
| "client_loop feat nm L A delta_time (Suc rounds) time sent cl s =
     (let time = time + delta_time in
     obind (Some (client_advance_time L cl time s)) (\<lambda>(cl, s).
     if client_is_disconnected cl then Some (Inr (cl, s)) else
     if client_connection_failed cl then Some (Inr (cl, s)) else
     obind (client_receive_packets feat nm L cl s) (\<lambda>(cl, s).
     obind (Some (if client_is_connected cl then
         rbind (handle_special_message cl) (\<lambda>(_, cl). send_first_messages nm time sent cl)
       else Inr (sent, cl))) (\<lambda>(sent, cl).
     obind (Some (client_send_packets feat nm L cl s)) (\<lambda>(cl, s).
     client_loop feat nm L A delta_time rounds time sent cl (app_wait A delta_time s))))))"

text \<open>The client's own test for a failed connection is never reached: a failed client counts as disconnected.\<close>

lemma failed_is_disconnected: "client_connection_failed cl \<Longrightarrow> client_is_disconnected cl"
  by (simp add: client_connection_failed_def client_is_disconnected_def)

definition client_main ::
  "features \<Rightarrow> (test_messages, 'e) network_message \<Rightarrow> 'w netlib \<Rightarrow> 'w app \<Rightarrow> nat \<Rightarrow> 'w os \<Rightarrow> (panic + 'w os) option" where
  "client_main feat nm L A rounds s =
     (let server_address = ''127.0.0.1:40000''; time = f64_of_int 100;
          (bytes, s) = os_free (app_random_bytes A 8) s; client_id = of_le bytes;
          config = client_server_config_new 8; client = client_new ''0.0.0.0'' config time;
          private_key = replicate (app_key_bytes A) 0 in
     obind (Some (client_insecure_connect L client private_key client_id [server_address] s)) (\<lambda>(client, s).
     obind (Some (set_ctrlc_handler A s)) (\<lambda>s.
     obind (Some (case cl_bound_port client of None \<Rightarrow> Inl UnwrapOnNone | Some port \<Rightarrow> Inr port)) (\<lambda>client_port.
     obind (client_loop feat nm L A (f64_of_int 1) rounds time 0 client s) (\<lambda>(client, s).
     obind (Some (client_disconnect L client s)) (\<lambda>(client, s). Some (Inr s)))))))"

text \<open>\<open>fn main\<close> of either example.\<close>

definition example_main :: "'w netlib \<Rightarrow> bindings_log_level \<Rightarrow> ('w os \<Rightarrow> (panic + 'w os) option) \<Rightarrow> 'w os \<Rightarrow> (panic + 'w os) option" where
  "example_main L level body s =
     (let (initialized, s) = initialize L s in
     obind (Some (case initialized of Inl _ \<Rightarrow> Inl UnwrapOnErr | Inr _ \<Rightarrow> Inr ())) (\<lambda>_.
     obind (body (set_bindings_log_level L level s)) (\<lambda>s. Some (Inr (shutdown L s)))))"

definition client_example ::
  "features \<Rightarrow> (test_messages, 'e) network_message \<Rightarrow> 'w netlib \<Rightarrow> 'w app \<Rightarrow> nat \<Rightarrow> 'w os \<Rightarrow> (panic + 'w os) option" where
  "client_example feat nm L A rounds = example_main L LogError (client_main feat nm L A rounds)"

section \<open>The server\<close>

definition send_special_response ::
  "(test_messages, 'e) network_message \<Rightarrow> 'w app \<Rightarrow> test_messages server \<Rightarrow> usize \<Rightarrow> 'w os
     \<Rightarrow> panic + (test_messages server \<times> 'w os)" where
  "send_special_response nm A sv client s =
     (let (bytes, s) = os_free (app_random_bytes A 4) s in
     rbind (server_send_message nm sv client 1
       (StructMessage \<lparr>tm_value = special_message_string, tm_supplmentary_value = of_le bytes\<rparr>)) (\<lambda>sv. Inr (sv, s)))"

text \<open>Sending leaves what waits to be received.\<close>

lemma send_waiting:
  assumes "connection_send_message nm cn i m = Inr cn'"
  shows "waiting cn' j = waiting cn j"
proof -
  define count where "count p = (case p of
      ReliableProcessor rl \<Rightarrow> length (filter (\<lambda>s. s \<noteq> None) (sb_entry_sequence (rl_message_receive_queue rl)))
    | UnreliableProcessor ur \<Rightarrow> length (vd_items (ur_message_receive_queue ur)))" for p :: "'a processor"
  have W: "waiting c k = count (ch_processor (cn_channels c ! k))" for c k by (simp add: waiting_def count_def)
  have send: "count p' = count p" if "processor_send_message nm p m = Inr p'" for p p'
    using that by (cases p) (auto simp: count_def reliable_send_message_def unreliable_send_message_def rbind_eq_Inr
        split: if_splits)
  obtain ch where i: "i < length (cn_channels cn)" and ch: "channel_send_message nm (cn_channels cn ! i) m = Inr ch"
    and cn': "cn' = cn\<lparr>cn_channels := (cn_channels cn)[i := ch]\<rparr>"
    using assms by (auto simp: connection_send_message_def rbind_eq_Inr vec_index_eq_Inr)
  have "count (ch_processor ch) = count (ch_processor (cn_channels cn ! i))"
    using ch send by (auto simp: channel_send_message_def channel_set_error_level_def rbind_eq_Inr split: if_splits)
  with i show ?thesis by (cases "j = i") (simp_all add: W cn')
qed

lemma response_waiting:
  assumes "send_special_response nm A sv k s = Inr (sv', s')"
  shows "server_waiting sv' client channel = server_waiting sv client channel"
  using assms send_waiting
  by (auto simp: send_special_response_def server_send_message_def server_waiting_def rbind_eq_Inr vec_index_eq_Inr
      nth_list_update split: option.splits prod.splits)

text \<open>\<open>while let Some(message) = server.receive_message(client, channel)\<close>.\<close>

function serve_channel ::
  "(test_messages, 'e) network_message \<Rightarrow> 'w app \<Rightarrow> test_messages server \<Rightarrow> usize \<Rightarrow> usize \<Rightarrow> 'w os
     \<Rightarrow> panic + (test_messages server \<times> 'w os)" where
  "serve_channel nm A sv client channel s =
     rbind (server_receive_message sv client channel) (\<lambda>(r, sv).
     case r of
       None \<Rightarrow> Inr (sv, s)
     | Some message \<Rightarrow>
         rbind (if message = IntMessage 2015 then send_special_response nm A sv client s else Inr (sv, s)) (\<lambda>(sv, s).
         serve_channel nm A sv client channel s))"
  by pat_completeness auto
termination
  by (relation "measure (\<lambda>(_, _, sv, client, channel, _). server_waiting sv client channel)")
    (auto dest: server_receive_waiting simp: response_waiting split: if_splits)

declare serve_channel.simps [simp del]

definition serve_clients ::
  "(test_messages, 'e) network_message \<Rightarrow> 'w netlib \<Rightarrow> 'w app \<Rightarrow> usize \<Rightarrow> usize \<Rightarrow> test_messages server \<Rightarrow> 'w os
     \<Rightarrow> panic + (test_messages server \<times> 'w os)" where
  "serve_clients nm L A max_clients channels sv s =
     rfold (\<lambda>(sv, s) client.
       rfold (\<lambda>(sv, s) channel.
         let (is_connected, s) = server_is_client_connected L sv client s in
         if \<not> is_connected then Inr (sv, s) else serve_channel nm A sv client channel s)
         (sv, s) [0..<channels]) (sv, s) [0..<max_clients]"

fun server_loop ::
  "features \<Rightarrow> (test_messages, 'e) network_message \<Rightarrow> 'w netlib \<Rightarrow> 'w app \<Rightarrow> usize \<Rightarrow> usize \<Rightarrow> f64 \<Rightarrow> nat \<Rightarrow> f64
     \<Rightarrow> test_messages server \<Rightarrow> 'w os \<Rightarrow> (panic + (test_messages server \<times> 'w os)) option" where
  "server_loop feat nm L A max_clients channels delta_time 0 time sv s = Some (Inr (sv, s))"
| "server_loop feat nm L A max_clients channels delta_time (Suc rounds) time sv s =
     (if \<not> server_running sv then Some (Inr (sv, s)) else
     let time = time + delta_time in
     obind (Some (server_advance_time L sv time s)) (\<lambda>(sv, s).
     obind (server_receive_packets feat nm L sv s) (\<lambda>(sv, s).
     obind (Some (serve_clients nm L A max_clients channels sv s)) (\<lambda>(sv, s).
     obind (Some (server_send_packets feat nm L sv s)) (\<lambda>(sv, s).
     server_loop feat nm L A max_clients channels delta_time rounds time sv (app_wait A delta_time s))))))"

text \<open>\<open>0.01\<close> is the double nearest to it. The size of the message type is positive.\<close>

definition server_main ::
  "features \<Rightarrow> (test_messages, 'e) network_message \<Rightarrow> 'w netlib \<Rightarrow> 'w app \<Rightarrow> nat \<Rightarrow> 'w os \<Rightarrow> (panic + 'w os) option" where
  "server_main feat nm L A rounds s =
     (let time = f64_of_int 100; config = client_server_config_new 8; max_clients = 16;
          private_key = replicate (app_key_bytes A) 0; server_address = ''127.0.0.1:40000'' in
     obind (Some (server_new 32 private_key server_address config time)) (\<lambda>server.
     obind (Some (server_start L server max_clients s)) (\<lambda>(server, s).
     obind (Some (set_ctrlc_handler A s)) (\<lambda>s.
     obind (server_loop feat nm L A max_clients (length (nc_channels (cs_connection config))) (f64_round 1 100 0)
       rounds time server s) (\<lambda>(server, s).
     obind (Some (server_stop L server s)) (\<lambda>(server, s). Some (server_drop L server s)))))))"

definition server_example ::
  "features \<Rightarrow> (test_messages, 'e) network_message \<Rightarrow> 'w netlib \<Rightarrow> 'w app \<Rightarrow> nat \<Rightarrow> 'w os \<Rightarrow> (panic + 'w os) option" where
  "server_example feat nm L A rounds = example_main L LogInfo (server_main feat nm L A rounds)"

section \<open>The raw client\<close>

text \<open>It asks for a token with an expiry and a timeout of its own, for which \<open>netcode_generate_connect_token\<close>
  is an argument here, and sets no callbacks.\<close>

fun raw_loop :: "'w netlib \<Rightarrow> 'w app \<Rightarrow> ptr \<Rightarrow> f64 \<Rightarrow> nat \<Rightarrow> f64 \<Rightarrow> 'w os \<Rightarrow> 'w os" where
  "raw_loop L A client delta_time 0 time s = s"
| "raw_loop L A client delta_time (Suc rounds) time s =
     (let s = snd (os_run NetClient client (c_client_update L client time) s);
          (state, s) = os_ask NetClient client (c_client_state L client) s in
      if state < 0 then s
      else raw_loop L A client delta_time rounds (time + delta_time) (app_wait A delta_time s))"

definition raw_client ::
  "'w netlib \<Rightarrow> 'w app \<Rightarrow> (u64 \<Rightarrow> u8 list \<Rightarrow> 'w \<Rightarrow> connect_token option \<times> 'w) \<Rightarrow> nat \<Rightarrow> 'w os \<Rightarrow> panic + 'w os" where
  "raw_client L A generate rounds s =
     (let time = f64_of_int 0; delta_time = f64_round 1 60 0;
          (client, s) = os_create NetClient (c_client_create L ''0.0.0.0'' time) s in
      if client = None then Inr s else
      let (bytes, s) = os_free (app_random_bytes A 8) s; client_id = of_le bytes;
          private_key = replicate (app_key_bytes A) 0;
          (connect_token, s) = os_free (generate client_id private_key) s in
      case connect_token of
        None \<Rightarrow> Inr s
      | Some tok \<Rightarrow>
          let s = snd (os_run NetClient client (c_client_connect L client tok) s) in
          rbind (set_ctrlc_handler A s) (\<lambda>s.
          let s = raw_loop L A client delta_time rounds time s
          in Inr (snd (os_destroy NetClient client (c_client_destroy L client) s))))"

definition raw_example ::
  "'w netlib \<Rightarrow> 'w app \<Rightarrow> (u64 \<Rightarrow> u8 list \<Rightarrow> 'w \<Rightarrow> connect_token option \<times> 'w) \<Rightarrow> nat \<Rightarrow> 'w os \<Rightarrow> panic + 'w os" where
  "raw_example L A generate rounds s =
     (let (code, s) = os_free (c_netcode_init L) s in
      if code \<noteq> c_netcode_ok L then Inr s else
      let s = s\<lparr>os_world := c_netcode_log_level L (log_level_value LogInfo) (os_world s)\<rparr> in
      rbind (raw_client L A generate rounds s) (\<lambda>s. Inr (s\<lparr>os_world := c_netcode_term L (os_world s)\<rparr>)))"

section \<open>Ownership\<close>

definition app_ok :: "'w app \<Rightarrow> ('w \<Rightarrow> (object \<times> handle) set) \<Rightarrow> bool" where
  "app_ok A lv \<longleftrightarrow> (\<forall>n. keeps lv (\<lambda>w. snd (app_random_bytes A n w))) \<and> keeps lv (\<lambda>w. snd (app_set_handler A w))"

definition log_levels_ok :: "'w netlib \<Rightarrow> ('w \<Rightarrow> (object \<times> handle) set) \<Rightarrow> bool" where
  "log_levels_ok L lv \<longleftrightarrow> (\<forall>n. keeps lv (c_netcode_log_level L n)) \<and> (\<forall>n. keeps lv (c_reliable_log_level L n))"

lemma client_alone_step:
  assumes "\<exists>r. m = Some r" "client_ok lv {} cl s" "lib_ok L lv"
    and "\<And>cl' s'. m = Some (Inr (cl', s')) \<Longrightarrow> client_step feat nm L lv (cl, s) (cl', s')"
  shows "returns (\<lambda>(cl', s'). client_ok lv {} cl' s') m"
  using client_step_ok[OF assms(4,3)] assms(1,2) by (auto simp: returns_def)

lemma server_alone_step:
  assumes "\<exists>r. m = Some r" "server_ok lv {} sv s" "server_libs_ok L lv"
    and "\<And>sv' s'. m = Some (Inr (sv', s')) \<Longrightarrow> server_step feat nm L lv (sv, s) (sv', s')"
  shows "returns (\<lambda>(sv', s'). server_ok lv {} sv' s') m"
  using server_step_ok[OF assms(4,3)] assms(1,2) by (auto simp: returns_def)

lemma outside_ok:
  assumes "lv w = lv (os_world s)"
  shows "client_ok lv B cl s \<Longrightarrow> client_ok lv B cl (s\<lparr>os_world := w\<rparr>)"
    "server_ok lv B sv s \<Longrightarrow> server_ok lv B sv (s\<lparr>os_world := w\<rparr>)"
proof -
  show "client_ok lv B cl (s\<lparr>os_world := w\<rparr>)" if "client_ok lv B cl s"
    by (rule client_ok_others[OF that]) (use client_ok_objects[OF that] assms in \<open>auto simp: os_ok_def\<close>)
  show "server_ok lv B sv (s\<lparr>os_world := w\<rparr>)" if "server_ok lv B sv s"
    by (rule server_ok_others[OF that]) (use server_ok_objects[OF that] assms in \<open>auto simp: os_ok_def\<close>)
qed

lemma app_okD:
  assumes "app_ok A lv"
  shows "os_free (app_random_bytes A n) s = (bytes, s1) \<Longrightarrow> \<exists>w. s1 = s\<lparr>os_world := w\<rparr> \<and> lv w = lv (os_world s)"
    "set_ctrlc_handler A s = Inr s' \<Longrightarrow> \<exists>w. s' = s\<lparr>os_world := w\<rparr> \<and> lv w = lv (os_world s)"
proof -
  have "lv (snd (app_random_bytes A n w)) = lv w" "lv (snd (app_set_handler A w)) = lv w" for n w
    using assms by (simp_all add: app_ok_def keeps_def)
  then show "os_free (app_random_bytes A n) s = (bytes, s1) \<Longrightarrow> \<exists>w. s1 = s\<lparr>os_world := w\<rparr> \<and> lv w = lv (os_world s)"
    "set_ctrlc_handler A s = Inr s' \<Longrightarrow> \<exists>w. s' = s\<lparr>os_world := w\<rparr> \<and> lv w = lv (os_world s)"
    by (auto simp: os_free_def set_ctrlc_handler_def case_prod_unfold Let_def split: if_splits)
qed

lemma wait_ok: "integration_libs_ok L (app_sleep A) lv \<Longrightarrow> lv (app_sleep A t w) = lv w"
  using integration_libs_okD(3) by (fastforce simp: keeps_def)

subsection \<open>The client\<close>

lemma client_round_owned:
  assumes L: "lib_ok L lv" and own: "client_ok lv {} cl s"
  shows "handle_special_message cl = Inr (r, cl') \<Longrightarrow> client_ok lv {} cl' s"
    "send_first_messages nm time sent cl = Inr (sent', cl') \<Longrightarrow> client_ok lv {} cl' s"
  using client_step_ok[OF client_step.ReceiveMessage L] client_step_ok[OF client_step.SendMessage L] own
  by (auto simp: handle_special_message_def send_first_messages_def rbind_eq_Inr split: if_splits)

lemma client_loop_owned:
  assumes L: "integration_libs_ok L (app_sleep A) lv" and A: "app_ok A lv"
  shows "client_ok lv {} cl s \<Longrightarrow>
    returns (\<lambda>(cl', s'). client_ok lv {} cl' s') (client_loop feat nm L A dt rounds time sent cl s)"
proof (induction rounds arbitrary: time sent cl s)
  case (Suc rounds)
  note D = integration_libs_okD[OF L]
  have advance: "returns (\<lambda>(cl', s'). client_ok lv {} cl' s') (Some (client_advance_time L cl t s))"
    if "client_ok lv {} cl s" for cl s t
    by (rule client_alone_step[OF _ that D(1) client_step.AdvanceTime]) simp_all
  have receive: "returns (\<lambda>(cl', s'). client_ok lv {} cl' s') (client_receive_packets feat nm L cl s)"
    if "client_ok lv {} cl s" for cl s
    by (rule client_alone_step[OF D(6) that D(1) client_step.ReceivePackets])
  have send: "returns (\<lambda>(cl', s'). client_ok lv {} cl' s') (Some (client_send_packets feat nm L cl s))"
    if "client_ok lv {} cl s" for cl s
    by (rule client_alone_step[OF _ that D(1) client_step.SendPackets]) simp_all
  have messages: "returns (\<lambda>(sent', cl'). client_ok lv {} cl' s) (Some (if client_is_connected cl then
         rbind (handle_special_message cl) (\<lambda>(_, cl). send_first_messages nm t sent cl) else Inr (sent, cl)))"
    if "client_ok lv {} cl s" for cl s sent t
    using client_round_owned(1)[OF D(1) that] client_round_owned(2)[OF D(1)] that
    by (fastforce simp: returns_some rbind_eq_Inr split: if_splits)
  show ?case
    unfolding client_loop.simps Let_def
    apply (rule returns_obind[OF advance[OF Suc.prems]], clarify)
    apply (rule returns_if, simp add: returns_some)
    apply (rule returns_if, simp add: returns_some)
    apply (rule returns_obind[OF receive], assumption, clarify)
    apply (rule returns_obind[OF messages], assumption, clarify)
    apply (rule returns_obind[OF send], assumption, clarify)
    apply (rule Suc.IH)
    apply (simp add: app_wait_def outside_ok(1) wait_ok[OF L])
    done
qed (simp add: returns_some)

lemma client_main_owned:
  assumes L: "integration_libs_ok L (app_sleep A) lv" and A: "app_ok A lv" and s: "lv (os_world s) = {}" "os_live s {}"
  shows "returns (\<lambda>s. os_live s {}) (client_main feat nm L A rounds s)"
proof -
  note D = integration_libs_okD[OF L]
  obtain bytes s1 where b: "os_free (app_random_bytes A 8) s = (bytes, s1)" by (cases "os_free (app_random_bytes A 8) s")
  let ?cl = "client_new ''0.0.0.0'' (client_server_config_new 8) (f64_of_int 100) :: test_messages client"
  have new: "client_ok lv {} ?cl s1"
    using app_okD(1)[OF A b] s by (auto simp: client_ok_def client_owns_def client_objects_def client_new_def os_ok_def)
  have connect: "returns (\<lambda>(cl', s'). client_ok lv {} cl' s') (Some (client_insecure_connect L ?cl key k as s1))" for key k as
    by (rule client_alone_step[OF _ new D(1) client_step.InsecureConnect]) simp_all
  have handler: "returns (\<lambda>s'. client_ok lv {} cl s') (Some (set_ctrlc_handler A s))" if "client_ok lv {} cl s" for cl :: "test_messages client" and s
    using app_okD(2)[OF A] outside_ok(1)[OF _ that] by (fastforce simp: returns_some)
  have stop: "returns (\<lambda>(cl', s'). os_live s' {}) (Some (client_disconnect L cl s))"
    if "client_ok lv {} cl s" for cl :: "test_messages client" and s
    using disconnect_ok(4)[OF D(1)] that by (fastforce simp: returns_some client_ok_def os_ok_def)
  show ?thesis
    unfolding client_main_def Let_def b prod.case
    apply (rule returns_obind[OF connect], clarify)
    apply (rule returns_obind[OF handler], assumption)
    apply (rule returns_obind[where P = "\<lambda>_. True"], simp add: returns_some)
    apply (rule returns_obind[OF client_loop_owned[OF L A]], assumption, clarify)
    apply (rule returns_obind[OF stop], assumption, clarsimp simp: returns_some)
    done
qed

subsection \<open>The server\<close>

lemma response_owned:
  assumes A: "app_ok A lv" and L: "server_libs_ok L lv" and own: "server_ok lv {} sv s"
    and r: "send_special_response nm A sv k s = Inr (sv', s')"
  shows "server_ok lv {} sv' s'"
proof -
  obtain bytes s1 where b: "os_free (app_random_bytes A 4) s = (bytes, s1)" by (cases "os_free (app_random_bytes A 4) s")
  obtain sv1 where m: "server_send_message nm sv k 1
      (StructMessage \<lparr>tm_value = special_message_string, tm_supplmentary_value = of_le bytes\<rparr>) = Inr sv1"
    and eq: "(sv1, s1) = (sv', s')"
    using r[unfolded send_special_response_def b Let_def prod.case rbind_eq_Inr]
    by (elim exE conjE) (rule that, assumption, simp only: sum.inject)
  have "server_ok lv {} sv1 s"
    using server_step_ok[OF server_step.SendMessage[OF m] L] own by simp
  moreover obtain w where "s1 = s\<lparr>os_world := w\<rparr>" "lv w = lv (os_world s)" using app_okD(1)[OF A b] by blast
  ultimately show ?thesis using outside_ok(2)[of lv w s "{}" sv1] eq by simp
qed

lemma serve_channel_owned:
  assumes L: "server_libs_ok L lv"
  shows "app_ok A lv \<Longrightarrow> server_ok lv {} sv s \<Longrightarrow> serve_channel nm A sv client channel s = Inr (sv', s') \<Longrightarrow> server_ok lv {} sv' s'"
proof (induction nm A sv client channel s rule: serve_channel.induct)
  case (1 nm A sv client channel s)
  obtain r sv1 where r: "server_receive_message sv client channel = Inr (r, sv1)"
    and rest: "(case r of None \<Rightarrow> Inr (sv1, s) | Some m \<Rightarrow>
        rbind (if m = IntMessage 2015 then send_special_response nm A sv1 client s else Inr (sv1, s)) (\<lambda>(sv, s).
          serve_channel nm A sv client channel s)) = Inr (sv', s')"
    using 1(4) by (subst (asm) serve_channel.simps) (auto simp: rbind_eq_Inr)
  have ok: "server_ok lv {} sv1 s" using server_step_ok[OF server_step.ReceiveMessage[OF r] L] 1(3) by simp
  show ?case
  proof (cases r)
    case None
    with rest ok show ?thesis by simp
  next
    case (Some m)
    obtain sv2 s2 where m: "(if m = IntMessage 2015 then send_special_response nm A sv1 client s else Inr (sv1, s)) = Inr (sv2, s2)"
      and loop: "serve_channel nm A sv2 client channel s2 = Inr (sv', s')"
      using rest Some by (auto simp: rbind_eq_Inr split: if_splits)
    have "server_ok lv {} sv2 s2" using response_owned[OF 1(2) L ok] m ok by (auto split: if_splits)
    then show ?thesis by (rule 1(1)[OF r _ Some m _ 1(2) _ loop, OF refl refl])
  qed
qed

lemma serve_clients_owned:
  assumes A: "app_ok A lv" and L: "server_libs_ok L lv" and own: "server_ok lv {} sv s"
    and r: "serve_clients nm L A n c sv s = Inr (sv', s')"
  shows "server_ok lv {} sv' s'"
proof -
  let ?one = "\<lambda>client. \<lambda>(sv, s) channel. let (is_connected, s) = server_is_client_connected L sv client s in
         if \<not> is_connected then Inr (sv, s) else serve_channel nm A sv client channel s"
  have one: "server_ok lv {} (fst y) (snd y)" if "server_ok lv {} (fst x) (snd x)" "?one client x channel = Inr y"
    for x y client channel
  proof -
    obtain sv s sv' s' b s1 where x: "x = (sv, s)" "y = (sv', s')" "server_is_client_connected L sv client s = (b, s1)"
      by (metis surj_pair)
    have "server_ok lv {} sv s1"
      using server_step_ok[OF server_step.IsClientConnected[where i = client and sv = sv and s = s] L] that(1) x by simp
    with that(2) x show ?thesis
      using serve_channel_owned[OF L A, where sv = sv and s = s1] by (cases b) auto
  qed
  have row: "server_ok lv {} (fst y) (snd y)" if "server_ok lv {} (fst x) (snd x)" "rfold (?one client) x [0..<c] = Inr y"
    for x y client
    by (rule rfold_invariant[where P = "\<lambda>x. server_ok lv {} (fst x) (snd x)", OF that(2,1)]) (rule one)
  have rows: "rfold (\<lambda>x client. rfold (?one client) x [0..<c]) (sv, s) [0..<n] = Inr (sv', s')"
    using r by (simp add: serve_clients_def case_prod_unfold)
  have "server_ok lv {} (fst (sv', s')) (snd (sv', s'))"
    by (rule rfold_invariant[where P = "\<lambda>x. server_ok lv {} (fst x) (snd x)", OF rows]) (simp add: own, rule row)
  then show ?thesis by simp
qed

lemma server_loop_owned:
  assumes L: "integration_libs_ok L (app_sleep A) lv" and A: "app_ok A lv"
  shows "server_ok lv {} sv s \<Longrightarrow>
    returns (\<lambda>(sv', s'). server_ok lv {} sv' s') (server_loop feat nm L A n c dt rounds time sv s)"
proof (induction rounds arbitrary: time sv s)
  case (Suc rounds)
  note D = integration_libs_okD[OF L]
  have advance: "returns (\<lambda>(sv', s'). server_ok lv {} sv' s') (Some (server_advance_time L sv t s))"
    if "server_ok lv {} sv s" for sv s t
    by (rule server_alone_step[OF _ that D(2) server_step.AdvanceTime]) simp_all
  have receive: "returns (\<lambda>(sv', s'). server_ok lv {} sv' s') (server_receive_packets feat nm L sv s)"
    if "server_ok lv {} sv s" for sv s
    by (rule server_alone_step[OF D(7) that D(2) server_step.ReceivePackets])
  have send: "returns (\<lambda>(sv', s'). server_ok lv {} sv' s') (Some (server_send_packets feat nm L sv s))"
    if "server_ok lv {} sv s" for sv s
    by (rule server_alone_step[OF _ that D(2) server_step.SendPackets]) simp_all
  have serve: "returns (\<lambda>(sv', s'). server_ok lv {} sv' s') (Some (serve_clients nm L A n c sv s))"
    if "server_ok lv {} sv s" for sv s
    using serve_clients_owned[OF A D(2) that] by (auto simp: returns_some)
  show ?case
    unfolding server_loop.simps Let_def
    apply (rule returns_if, simp add: returns_some Suc.prems, drule notnotD)
    apply (rule returns_obind[OF advance[OF Suc.prems]], clarify)
    apply (rule returns_obind[OF receive], assumption, clarify)
    apply (rule returns_obind[OF serve], assumption, clarify)
    apply (rule returns_obind[OF send], assumption, clarify)
    apply (rule Suc.IH)
    apply (simp add: app_wait_def outside_ok(2) wait_ok[OF L])
    done
qed (simp add: returns_some)

lemma server_main_owned:
  assumes L: "integration_libs_ok L (app_sleep A) lv" and A: "app_ok A lv" and s: "lv (os_world s) = {}" "os_live s {}"
  shows "returns (\<lambda>s. os_live s {}) (server_main feat nm L A rounds s)"
proof -
  note D = integration_libs_okD[OF L]
  have new: "returns (\<lambda>sv. server_ok lv {} sv s) (Some (server_new 32 key address config t))" for key address config t
    using s by (auto simp: returns_some server_new_def server_ok_def os_ok_def)
  have start: "returns (\<lambda>(sv', s'). server_ok lv {} sv' s') (Some (server_start L sv k s))"
    if "server_ok lv {} sv s" for sv :: "test_messages server" and s k
    by (rule server_alone_step[OF _ that D(2) server_step.Start]) simp_all
  have handler: "returns (\<lambda>s'. server_ok lv {} sv s') (Some (set_ctrlc_handler A s))"
    if "server_ok lv {} sv s" for sv :: "test_messages server" and s
    using app_okD(2)[OF A] outside_ok(2)[OF _ that] by (fastforce simp: returns_some)
  have stop: "returns (\<lambda>(sv', s'). sv_runtime sv' = None \<and> os_live s' {}) (Some (server_stop L sv s))"
    if "server_ok lv {} sv s" for sv :: "test_messages server" and s
    using server_stop_ok[OF D(2) that] by (auto simp: returns_some os_ok_def)
  show ?thesis
    unfolding server_main_def Let_def
    apply (rule returns_obind[OF new])
    apply (rule returns_obind[OF start], assumption, clarify)
    apply (rule returns_obind[OF handler], assumption)
    apply (rule returns_obind[OF server_loop_owned[OF L A]], assumption, clarify)
    apply (rule returns_obind[OF stop], assumption, clarify)
    apply (simp add: returns_some server_drop_def server_stop_def)
    done
qed

subsection \<open>Either program\<close>

lemma example_main_owned:
  assumes L: "integration_libs_ok L sleep lv" and K: "log_levels_ok L lv" and s: "lv (os_world s) = {}" "os_live s {}"
    and body: "\<And>s. lv (os_world s) = {} \<Longrightarrow> os_live s {} \<Longrightarrow> returns (\<lambda>s. os_live s {}) (body s)"
  shows "returns (\<lambda>s. os_live s {}) (example_main L level body s)"
proof -
  obtain i s1 where i: "initialize L s = (i, s1)" by (cases "initialize L s")
  have s1: "lv (os_world s1) = {}" "os_live s1 {}" using initialize_owned[OF L i s(1)] s(2) by (simp_all add: os_live_def)
  let ?s = "set_bindings_log_level L level s1"
  have s2: "lv (os_world ?s) = {}" "os_live ?s {}"
    using K s1 by (simp_all add: log_levels_ok_def keeps_def set_bindings_log_level_def)
  show ?thesis
    unfolding example_main_def i Let_def prod.case
    apply (rule returns_obind[where P = "\<lambda>_. True"], simp add: returns_some)
    apply (rule returns_obind[OF body[OF s2]])
    apply (simp add: returns_some shutdown_def)
    done
qed

subsection \<open>The raw client\<close>

lemma raw_loop_owned:
  assumes L: "integration_libs_ok L (app_sleep A) lv" and h: "(NetClient, h) \<in> X"
  shows "os_ok lv X s \<Longrightarrow> os_ok lv X (raw_loop L A (Some h) dt rounds time s)"
proof (induction rounds arbitrary: time s)
  case (Suc rounds)
  note D = lib_okD[OF integration_libs_okD(1)[OF L]]
  have "os_ok lv X (snd (os_ask NetClient (Some h) (c_client_state L (Some h))
      (snd (os_run NetClient (Some h) (c_client_update L (Some h) time) s))))"
    by (rule os_use_ok(3)[OF os_use_ok(1)[OF Suc.prems h D(14)] h])
  moreover from this have "os_ok lv X (app_wait A dt (snd (os_ask NetClient (Some h) (c_client_state L (Some h))
      (snd (os_run NetClient (Some h) (c_client_update L (Some h) time) s)))))"
    by (simp add: app_wait_def os_ok_def wait_ok[OF L])
  ultimately show ?case using Suc.IH by (simp add: case_prod_unfold Let_def)
qed simp

lemma raw_client_owned:
  assumes L: "integration_libs_ok L (app_sleep A) lv" and A: "app_ok A lv"
    and G: "\<And>k key. keeps lv (\<lambda>w. snd (generate k key w))" and s: "os_ok lv {} s"
    and r: "raw_client L A generate rounds s = Inr s'"
  shows "\<exists>X. os_ok lv X s' \<and> ((\<forall>k key w. fst (generate k key w) \<noteq> None) \<longrightarrow> X = {})"
proof -
  note D = lib_okD[OF integration_libs_okD(1)[OF L]]
  obtain p s1 where c: "os_create NetClient (c_client_create L ''0.0.0.0'' (f64_of_int 0)) s = (p, s1)" by fastforce
  note C = os_create_ok[OF s D(11) c]
  show ?thesis
  proof (cases p)
    case None
    with r c C show ?thesis by (auto simp: raw_client_def Let_def)
  next
    case (Some h)
    let ?X = "{(NetClient, h)}"
    obtain bytes s2 where b: "os_free (app_random_bytes A 8) s1 = (bytes, s2)" by fastforce
    obtain tok s3 where g: "os_free (generate (of_le bytes) (replicate (app_key_bytes A) 0)) s2 = (tok, s3)" by fastforce
    have "os_ok lv ?X s2"
      using os_free_ok[where f = "app_random_bytes A 8"] A C Some b by (fastforce simp: app_ok_def)
    then have s3: "os_ok lv ?X s3" using os_free_ok[OF _ G] g by (metis snd_conv)
    show ?thesis
    proof (cases tok)
      case None
      then have "\<exists>k key w. fst (generate k key w) = None"
        using g unfolding os_free_def by (metis (no_types, lifting) case_prod_unfold fst_conv)
      moreover have "s' = s3" using r c b g Some None by (simp add: raw_client_def Let_def)
      ultimately show ?thesis using s3 by (intro exI[of _ ?X] conjI impI) (simp, blast)
    next
      case (Some t)
      let ?s4 = "snd (os_run NetClient (Some h) (c_client_connect L (Some h) t) s3)"
      obtain s5 where h5: "set_ctrlc_handler A ?s4 = Inr s5"
        and s': "s' = snd (os_destroy NetClient (Some h) (c_client_destroy L (Some h))
            (raw_loop L A (Some h) (f64_round 1 60 0) rounds (f64_of_int 0) s5))"
        using r c b g Some \<open>p = Some h\<close> by (auto simp: raw_client_def Let_def rbind_eq_Inr)
      have "os_ok lv ?X ?s4" by (rule os_use_ok(1)[OF s3 _ D(13)]) simp
      then have "os_ok lv ?X s5" using app_okD(2)[OF A h5] by (auto simp: os_ok_def)
      then have "os_ok lv ?X (raw_loop L A (Some h) (f64_round 1 60 0) rounds (f64_of_int 0) s5)"
        by (rule raw_loop_owned[OF L, rotated]) simp
      from os_destroy_ok[OF this D(12), where h = h and f = "c_client_destroy L (Some h)"] s' show ?thesis by auto
    qed
  qed
qed

lemma raw_example_owned:
  assumes L: "integration_libs_ok L (app_sleep A) lv" and A: "app_ok A lv" and K: "log_levels_ok L lv"
    and G: "\<And>k key. keeps lv (\<lambda>w. snd (generate k key w))" and s: "os_ok lv {} s"
    and r: "raw_example L A generate rounds s = Inr s'"
  shows "\<exists>X. os_live s' X \<and> ((\<forall>k key w. fst (generate k key w) \<noteq> None) \<longrightarrow> X = {})"
proof -
  obtain code s1 where i: "os_free (c_netcode_init L) s = (code, s1)" by fastforce
  have s1: "os_ok lv {} s1" using os_free_ok[OF s integration_libs_okD(4)[OF L]] i by simp
  let ?s2 = "s1\<lparr>os_world := c_netcode_log_level L (log_level_value LogInfo) (os_world s1)\<rparr>"
  have "os_ok lv {} ?s2" using s1 K by (simp add: os_ok_def log_levels_ok_def keeps_def)
  note raw = raw_client_owned[OF L A G this]
  show ?thesis
  proof (cases "code = c_netcode_ok L")
    case True
    then obtain s3 where "raw_client L A generate rounds ?s2 = Inr s3" "s' = s3\<lparr>os_world := c_netcode_term L (os_world s3)\<rparr>"
      using r i by (auto simp: raw_example_def rbind_eq_Inr)
    with raw show ?thesis by (fastforce simp: os_ok_def)
  qed (use r i s1 in \<open>auto simp: raw_example_def os_ok_def\<close>)
qed


section \<open>A run\<close>

definition demo_app :: "demo_world app" where
  "demo_app = \<lparr>app_random_bytes = (\<lambda>n w. (replicate n 7, w)), app_set_handler = (\<lambda>w. (True, w)),
     app_sleep = (\<lambda>_ w. w), app_key_bytes = 32\<rparr>"

definition demo_codec :: "(test_messages, io_error) network_message" where
  "demo_codec = \<lparr>msg_serialize = (\<lambda>m. msg_serialize test_message (case m of IntMessage n \<Rightarrow> ucast n | _ \<Rightarrow> 0)),
     msg_deserialize = (\<lambda>bs. case msg_deserialize test_message bs of Inl e \<Rightarrow> Inl e
       | Inr (n, rest) \<Rightarrow> Inr (IntMessage (ucast n), rest))\<rparr>"

text \<open>A client that is stopped before its first round; and one for which netcode makes no client, so that
  unwrapping the port panics.\<close>

definition demo_no_client :: "demo_world netlib" where
  "demo_no_client = (demo_lib 3 (Some [9]))\<lparr>c_client_create := (\<lambda>_ _ w. (None, w))\<rparr>"

lemma demo_connection: "\<exists>cn. connection_new (cs_connection (client_server_config_new 8)) t = Inr (cn :: test_messages connection)"
proof -
  have "connection_config_ok (cs_connection (client_server_config_new 8))"
    using default_config_ok by (simp add: connection_config_ok_def channel_config_ok_def client_server_config_new_def connection_config_new_def
        channel_config_new_def Let_def)
  from connection_new_total[OF this, of t demo_codec] show ?thesis by metis
qed

lemma demo_client_examples:
  shows "\<exists>s. client_example feat demo_codec (demo_lib 3 (Some [9])) demo_app 0 demo_start = Some (Inr s)"
    "client_example feat demo_codec demo_no_client demo_app rounds demo_start = Some (Inl UnwrapOnNone)"
proof -
  obtain cn :: "test_messages connection" where cn: "connection_new (cs_connection (client_server_config_new 8)) (f64_of_int 100) = Inr cn"
    using demo_connection by blast
  note run = client_example_def example_main_def initialize_def os_free_def client_main_def set_bindings_log_level_def shutdown_def
    client_insecure_connect_def client_new_def client_disconnect_def client_destroy_client_def client_destroy_internal_def
    client_connect_internal_def client_create_client_def generate_insecure_connect_token_def c_string_def os_create_def
    os_destroy_def os_do_def os_ask_def os_run_def os_log_def client_state_changes.simps set_ctrlc_handler_def obind_def
    demo_lib_def demo_app_def demo_start_def demo_create_def
  show "\<exists>s. client_example feat demo_codec (demo_lib 3 (Some [9])) demo_app 0 demo_start = Some (Inr s)"
    by (simp add: run cn Let_def) (simp add: try_from_netcode_client_state_def)
  show "client_example feat demo_codec demo_no_client demo_app rounds demo_start = Some (Inl UnwrapOnNone)"
    by (simp add: run cn Let_def demo_no_client_def)
qed

text \<open>Without a token the raw client leaves its client.\<close>

lemma demo_raw_client_leaks:
  "\<exists>s. raw_example (demo_lib 3 None) demo_app (\<lambda>_ _ w. (None, w)) rounds demo_start = Inr s \<and>
     safe_run {} (os_calls s) = Some {(NetClient, 1)}"
  by (simp add: raw_example_def raw_client_def os_free_def os_create_def os_log_def demo_lib_def demo_app_def demo_start_def
      demo_create_def Let_def)


end
